(* ===== verification/Prelude.thy ===== *)
theory Prelude
  imports Main "HOL-Library.Signed_Division"
begin

text \<open>
  Shared vocabulary of the development: how C++ computations that may fail are
  written as values, the 32-bit signed arithmetic of \<open>int\<close>, checked access to
  \<open>std::vector\<close>, and \<open>operator[]\<close> of \<open>std::unordered_map\<close>, which inserts a
  default value for a key it does not find.
\<close>

section \<open>Fallible computations\<close>

text \<open>
  The ways in which the modelled code stops being defined or stops the process:
  a vector index out of range, signed overflow, an \<open>int\<close> that \<open>sscanf\<close> left without
  a value or whose digits do not fit, and \<open>fatal_error\<close>, which exits the process.
\<close>

datatype abort =
    OutOfBounds
  | SignedOverflow
  | Unconverted
  | FatalError string

type_synonym 'a res = "abort + 'a"

fun bindE :: "'e + 'a \<Rightarrow> ('a \<Rightarrow> 'e + 'b) \<Rightarrow> 'e + 'b" where
  "bindE (Inl e) f = Inl e"
| "bindE (Inr x) f = f x"

fun mapE :: "('a \<Rightarrow> 'b) \<Rightarrow> 'e + 'a \<Rightarrow> 'e + 'b" where
  "mapE f (Inl e) = Inl e"
| "mapE f (Inr x) = Inr (f x)"

text \<open>A loop whose body may fail: the body is run on the elements from left to right.\<close>

fun forE :: "('a \<Rightarrow> 's \<Rightarrow> 'e + 's) \<Rightarrow> 'a list \<Rightarrow> 's \<Rightarrow> 'e + 's" where
  "forE f [] s = Inr s"
| "forE f (x # xs) s = bindE (f x s) (forE f xs)"

named_theorems res_iff \<open>when a fallible computation returns a given value\<close>

lemma bindE_Inr_iff [res_iff]: "bindE m f = Inr y \<longleftrightarrow> (\<exists>x. m = Inr x \<and> f x = Inr y)"
  by (cases m) auto

lemma bindE_Inl_iff: "bindE m f = Inl e \<longleftrightarrow> m = Inl e \<or> (\<exists>x. m = Inr x \<and> f x = Inl e)"
  by (cases m) auto

lemma mapE_Inr_iff [res_iff]: "mapE f m = Inr y \<longleftrightarrow> (\<exists>x. m = Inr x \<and> y = f x)"
  by (cases m) auto

lemma mapE_Inl_iff [simp]: "mapE f m = Inl e \<longleftrightarrow> m = Inl e"
  by (cases m) auto

lemma bindE_assoc: "bindE (bindE m f) g = bindE m (\<lambda>x. bindE (f x) g)"
  by (cases m) auto

lemma bindE_cong [fundef_cong]:
  "m = m' \<Longrightarrow> (\<And>x. m' = Inr x \<Longrightarrow> f x = f' x) \<Longrightarrow> bindE m f = bindE m' f'"
  by (cases m') auto

lemma forE_cong [fundef_cong]:
  "xs = ys \<Longrightarrow> s = t \<Longrightarrow> (\<And>x s. x \<in> set ys \<Longrightarrow> f x s = g x s) \<Longrightarrow> forE f xs s = forE g ys t"
  by (induction xs arbitrary: ys s t) (auto intro!: bindE_cong)

lemma forE_append: "forE f (xs @ ys) s = bindE (forE f xs s) (forE f ys)"
  by (induction xs arbitrary: s) (auto simp: bindE_assoc intro!: bindE_cong)

text \<open>An invariant of the body is an invariant of the loop.\<close>

lemma forE_inv:
  assumes "forE f xs s = Inr s'" and "P s"
    and "\<And>x s s'. x \<in> set xs \<Longrightarrow> P s \<Longrightarrow> f x s = Inr s' \<Longrightarrow> P s'"
  shows "P s'"
  using assms
proof (induction xs arbitrary: s)
  case (Cons x xs)
  then obtain t where t: "f x s = Inr t" "forE f xs t = Inr s'"
    by (auto simp: res_iff)
  have "P t" by (rule Cons.prems(3) [OF _ Cons.prems(2) t(1)]) simp
  then show ?case
    by (rule Cons.IH [OF t(2)]) (auto intro: Cons.prems(3))
qed simp

text \<open>A loop fails where one of its iterations does.\<close>

lemma forE_Inl:
  assumes "forE f xs s = Inl err" and "P s"
    and "\<And>x s s'. x \<in> set xs \<Longrightarrow> P s \<Longrightarrow> f x s = Inr s' \<Longrightarrow> P s'"
  shows "\<exists>x s'. x \<in> set xs \<and> P s' \<and> f x s' = Inl err"
  using assms
proof (induction xs arbitrary: s)
  case (Cons x xs)
  show ?case
  proof (cases "f x s")
    case (Inl e)
    then show ?thesis using Cons.prems(1,2) by auto
  next
    case (Inr t)
    then have "P t" using Cons.prems(2) Cons.prems(3) [of x s t] by simp
    then have "\<exists>y s'. y \<in> set xs \<and> P s' \<and> f y s' = Inl err"
      using Cons.prems(1,3) Inr by (intro Cons.IH [of t]) auto
    then show ?thesis by auto
  qed
qed simp

section \<open>Signed 32-bit integers\<close>

text \<open>
  \<open>int\<close> has 32 bits; arithmetic on it is exact as long as the result is in range, and
  is undefined otherwise.
\<close>

definition in32 :: "int \<Rightarrow> bool" where
  "in32 x \<longleftrightarrow> - 2147483648 \<le> x \<and> x \<le> 2147483647"

definition add32 :: "int \<Rightarrow> int \<Rightarrow> int res" where
  "add32 a b = (if in32 (a + b) then Inr (a + b) else Inl SignedOverflow)"

definition sub32 :: "int \<Rightarrow> int \<Rightarrow> int res" where
  "sub32 a b = (if in32 (a - b) then Inr (a - b) else Inl SignedOverflow)"

lemma add32_Inr [res_iff]: "add32 a b = Inr c \<longleftrightarrow> c = a + b \<and> in32 (a + b)"
  by (auto simp: add32_def)

lemma sub32_Inr [res_iff]: "sub32 a b = Inr c \<longleftrightarrow> c = a - b \<and> in32 (a - b)"
  by (auto simp: sub32_def)

lemma arith32_Inl [simp]:
  "add32 a b \<noteq> Inl OutOfBounds" "sub32 a b \<noteq> Inl OutOfBounds"
  by (auto simp: add32_def sub32_def)

text \<open>The number of servers of a cluster, \<open>server/include/aIOServer.hpp\<close>.\<close>

abbreviation SERVER_NUM_PER_CLUSTER :: int where "SERVER_NUM_PER_CLUSTER \<equiv> 3"

text \<open>\<open>/\<close> and \<open>%\<close> of C++ truncate towards zero: \<open>sdiv\<close> and \<open>smod\<close>.\<close>

lemma smod_nonneg: "0 \<le> a \<Longrightarrow> a smod 3 = a mod (3::int)"
  by (cases "a = 0") (auto simp: signed_modulo_int_def)

lemma sdiv_nonneg: "0 \<le> a \<Longrightarrow> a sdiv 3 = a div (3::int)"
  by (cases "a = 0") (auto simp: signed_divide_int_def)

section \<open>Vectors\<close>

text \<open>
  \<open>v[i]\<close> with an \<open>int\<close> index: outside \<open>[0, size)\<close> the access is undefined.
\<close>

definition vec_at :: "'a list \<Rightarrow> int \<Rightarrow> 'a res" where
  "vec_at xs i = (if 0 \<le> i \<and> i < int (length xs) then Inr (xs ! nat i) else Inl OutOfBounds)"

definition vec_set :: "'a list \<Rightarrow> int \<Rightarrow> 'a \<Rightarrow> 'a list res" where
  "vec_set xs i x =
     (if 0 \<le> i \<and> i < int (length xs) then Inr (xs[nat i := x]) else Inl OutOfBounds)"

lemma vec_at_Inr [res_iff]:
  "vec_at xs i = Inr x \<longleftrightarrow> 0 \<le> i \<and> i < int (length xs) \<and> x = xs ! nat i"
  by (auto simp: vec_at_def)

lemma vec_set_Inr [res_iff]:
  "vec_set xs i x = Inr ys \<longleftrightarrow> 0 \<le> i \<and> i < int (length xs) \<and> ys = xs[nat i := x]"
  by (auto simp: vec_set_def)

lemma vec_at_Inl: "vec_at xs i = Inl e \<longleftrightarrow> e = OutOfBounds \<and> \<not> (0 \<le> i \<and> i < int (length xs))"
  by (auto simp: vec_at_def)

section \<open>Hash maps keyed by int\<close>

text \<open>
  \<open>m[k]\<close> of a \<open>std::unordered_map\<close> yields the value of \<open>k\<close>, and inserts the
  value-initialised element first when there is none: \<open>um_val\<close> is what is read,
  \<open>um_touch\<close> the map afterwards.
\<close>

type_synonym 'v umap = "int \<Rightarrow> 'v option"

definition um_val :: "'v \<Rightarrow> 'v umap \<Rightarrow> int \<Rightarrow> 'v" where
  "um_val d m k = (case m k of None \<Rightarrow> d | Some v \<Rightarrow> v)"

definition um_touch :: "'v \<Rightarrow> 'v umap \<Rightarrow> int \<Rightarrow> 'v umap" where
  "um_touch d m k = (case m k of None \<Rightarrow> m(k \<mapsto> d) | Some v \<Rightarrow> m)"

lemma um_val_upd [simp]: "um_val d (m(k \<mapsto> v)) j = (if j = k then v else um_val d m j)"
  by (simp add: um_val_def)

lemma um_val_empty [simp]: "um_val d Map.empty k = d"
  by (simp add: um_val_def)

lemma um_val_touch [simp]: "um_val d (um_touch d m k) j = um_val d m j"
  by (auto simp: um_val_def um_touch_def split: option.splits)

lemma dom_um_touch [simp]: "dom (um_touch d m k) = insert k (dom m)"
  by (auto simp: um_touch_def split: option.splits)

lemma um_touch_Some: "m j = Some v \<Longrightarrow> um_touch d m k j = Some v"
  by (auto simp: um_touch_def split: option.splits)

end
