(* ===== verification/Cstdio.thy ===== *)
theory Cstdio
  imports Prelude
begin

text \<open>
  The text functions the server uses to store a transaction as a log command and to
  read it back: decimal rendering of an \<open>int\<close> (\<open>std::to_string\<close>, and the replacement
  field of the format library), and the \<open>%d\<close>, white-space and literal directives of
  \<open>sscanf\<close>. The lemmas show that the three command formats are read back unchanged.
\<close>

section \<open>Characters and decimal digits\<close>

definition is_digit :: "char \<Rightarrow> bool" where
  "is_digit c \<longleftrightarrow> 48 \<le> (of_char c :: nat) \<and> (of_char c :: nat) \<le> 57"

definition is_space :: "char \<Rightarrow> bool" where
  "is_space c \<longleftrightarrow> (let n = (of_char c :: nat) in n = 32 \<or> 9 \<le> n \<and> n \<le> 13)"

definition digit_char :: "nat \<Rightarrow> char" where
  "digit_char n = char_of (48 + n)"

definition digit_val :: "char \<Rightarrow> int" where
  "digit_val c = int (of_char c) - 48"

lemma of_digit_char: "n < 10 \<Longrightarrow> (of_char (digit_char n) :: nat) = 48 + n"
  by (simp add: digit_char_def)

lemma is_digit_digit_char [simp]: "n < 10 \<Longrightarrow> is_digit (digit_char n)"
  by (simp add: is_digit_def of_digit_char)

lemma digit_val_digit_char [simp]: "n < 10 \<Longrightarrow> digit_val (digit_char n) = int n"
  by (simp add: digit_val_def of_digit_char)

lemma digit_not_space: "is_digit c \<Longrightarrow> \<not> is_space c"
  by (auto simp: is_digit_def is_space_def Let_def)

lemma digit_not_sign: "is_digit c \<Longrightarrow> c \<noteq> CHR ''-'' \<and> c \<noteq> CHR ''+''"
  by (auto simp: is_digit_def)

section \<open>Rendering integers\<close>

fun dec_nat :: "nat \<Rightarrow> string" where
  "dec_nat n = (if n < 10 then [digit_char n] else dec_nat (n div 10) @ [digit_char (n mod 10)])"

declare dec_nat.simps [simp del]

definition dec_int :: "int \<Rightarrow> string" where
  "dec_int z = (if z < 0 then CHR ''-'' # dec_nat (nat (- z)) else dec_nat (nat z))"

lemma dec_nat_digits: "\<forall>c \<in> set (dec_nat n). is_digit c"
proof (induction n rule: dec_nat.induct)
  case (1 n)
  then show ?case by (subst dec_nat.simps) auto
qed

lemma dec_nat_nonempty [simp]: "dec_nat n \<noteq> []"
  by (subst dec_nat.simps) simp

lemma dec_nat_cons: "\<exists>d ds. dec_nat n = d # ds \<and> is_digit d"
proof (cases "dec_nat n")
  case (Cons d ds)
  then show ?thesis using dec_nat_digits [of n] by simp
qed simp

text \<open>The value of a digit sequence, read from left to right as \<open>%d\<close> does.\<close>

definition digits_val :: "string \<Rightarrow> int" where
  "digits_val s = foldl (\<lambda>v c. 10 * v + digit_val c) 0 s"

lemma digits_val_snoc: "digits_val (s @ [c]) = 10 * digits_val s + digit_val c"
  by (simp add: digits_val_def)

lemma digits_val_dec_nat: "digits_val (dec_nat n) = int n"
proof (induction n rule: dec_nat.induct)
  case (1 n)
  show ?case
  proof (cases "n < 10")
    case True
    then show ?thesis by (subst dec_nat.simps) (simp add: digits_val_def)
  next
    case False
    with 1 have "digits_val (dec_nat (n div 10)) = int (n div 10)" by simp
    with False show ?thesis
      by (subst dec_nat.simps) (simp add: digits_val_snoc zdiv_int zmod_int)
  qed
qed

section \<open>Format strings\<close>

text \<open>
  The documented meaning of a format string of the format library with \<open>{}\<close> fields and
  integer arguments: each field is replaced by the decimal rendering of the next
  argument, every other character is copied.
\<close>

fun fill :: "string \<Rightarrow> int list \<Rightarrow> string" where
  "fill [] xs = []"
| "fill (c # cs) xs =
     (if c = CHR ''{'' then
        (case cs of
           [] \<Rightarrow> [c]
         | d # ds \<Rightarrow>
             (if d = CHR ''}'' then
                (case xs of [] \<Rightarrow> [] | y # ys \<Rightarrow> dec_int y @ fill ds ys)
              else c # fill cs xs))
      else c # fill cs xs)"

section \<open>sscanf\<close>

text \<open>
  One \<open>%d\<close>: skip white space, an optional sign, then at least one digit. The result is
  the value and the rest of the input; \<open>None\<close> is a matching or input failure.
\<close>

definition scan_digits :: "string \<Rightarrow> (int \<times> string) option" where
  "scan_digits s =
     (case takeWhile is_digit s of
        [] \<Rightarrow> None
      | ds \<Rightarrow> Some (digits_val ds, dropWhile is_digit s))"

definition scan_d :: "string \<Rightarrow> (int \<times> string) option" where
  "scan_d s =
     (case dropWhile is_space s of
        [] \<Rightarrow> None
      | c # cs \<Rightarrow>
          (if c = CHR ''-'' then map_option (\<lambda>(v, r). (- v, r)) (scan_digits cs)
           else if c = CHR ''+'' then scan_digits cs
           else scan_digits (c # cs)))"

text \<open>
  \<open>sscanf\<close> over a format of \<open>%d\<close>, white-space and ordinary characters: the list of the
  values it assigned before the first directive that failed.
\<close>

fun sscanf :: "string \<Rightarrow> string \<Rightarrow> int list" where
  "sscanf [] s = []"
| "sscanf (f # fs) s =
     (if f = CHR ''%'' then
        (case fs of
           [] \<Rightarrow> []
         | _ # fs' \<Rightarrow>
             (case scan_d s of None \<Rightarrow> [] | Some (v, s') \<Rightarrow> v # sscanf fs' s'))
      else if is_space f then sscanf fs (dropWhile is_space s)
      else (case s of
              [] \<Rightarrow> []
            | c # cs \<Rightarrow> (if c = f then sscanf fs cs else [])))"

text \<open>
  A call with three \<open>int\<close> targets, whose values are used afterwards: a target that was
  not assigned is read uninitialised, and a value that does not fit an \<open>int\<close> has no
  defined conversion.
\<close>

definition sscanf3 :: "string \<Rightarrow> string \<Rightarrow> (int \<times> int \<times> int) res" where
  "sscanf3 s fmt =
     (case sscanf fmt s of
        [a, b, c] \<Rightarrow> (if in32 a \<and> in32 b \<and> in32 c then Inr (a, b, c) else Inl Unconverted)
      | _ \<Rightarrow> Inl Unconverted)"

lemma takeWhile_digits:
  "\<forall>c \<in> set ds. is_digit c \<Longrightarrow> (\<And>c r'. r = c # r' \<Longrightarrow> \<not> is_digit c) \<Longrightarrow>
    takeWhile is_digit (ds @ r) = ds \<and> dropWhile is_digit (ds @ r) = r"
  by (induction ds) (cases r; auto)+

lemma scan_digits_dec_nat:
  assumes "\<And>c r'. r = c # r' \<Longrightarrow> \<not> is_digit c"
  shows "scan_digits (dec_nat n @ r) = Some (int n, r)"
proof -
  have "takeWhile is_digit (dec_nat n @ r) = dec_nat n \<and> dropWhile is_digit (dec_nat n @ r) = r"
    by (rule takeWhile_digits) (use dec_nat_digits assms in auto)
  then show ?thesis
    using digits_val_dec_nat [of n] by (auto simp: scan_digits_def split: list.splits)
qed

lemma scan_d_dec_int:
  assumes "\<And>c r'. r = c # r' \<Longrightarrow> \<not> is_digit c"
  shows "scan_d (dec_int z @ r) = Some (z, r)"
proof (cases "z < 0")
  case True
  then show ?thesis
    using scan_digits_dec_nat [where n = "nat (- z)", OF assms]
    by (simp add: scan_d_def dec_int_def is_space_def Let_def)
next
  case False
  obtain d ds where d: "dec_nat (nat z) = d # ds" "is_digit d"
    using dec_nat_cons by blast
  have "dropWhile is_space (dec_nat (nat z) @ r) = dec_nat (nat z) @ r"
    using d digit_not_space by simp
  then show ?thesis
    using False d digit_not_sign [OF d(2)] scan_digits_dec_nat [where n = "nat z", OF assms]
    by (simp add: scan_d_def dec_int_def)
qed

lemma dec_int_no_space: "dropWhile is_space (dec_int z @ r) = dec_int z @ r"
proof -
  obtain d ds where "dec_nat (nat z) = d # ds" "is_digit d"
    using dec_nat_cons by blast
  then show ?thesis
    by (auto simp: dec_int_def is_space_def Let_def is_digit_def)
qed

section \<open>The command formats\<close>

text \<open>
  The formats the executors pass to the format library and to \<open>sscanf\<close>. White space in
  a scan format skips white space of the input, so the two directions are not inverse
  for trivial reasons: the sign and the first digit of each number have to survive it.
\<close>

definition intra_fmt :: string where "intra_fmt = ''{} pays {} ${}''"
definition prepare_fmt :: string where "prepare_fmt = ''[PREPARE] {} pays {} ${}''"
definition commit_fmt :: string where "commit_fmt = ''[COMMIT] {} pays {} ${}''"
definition abort_fmt :: string where "abort_fmt = ''[ABORT] {} pays {} ${}''"
definition intra_scan :: string where "intra_scan = ''%d pays %d $%d''"
definition prepare_scan :: string where "prepare_scan = ''[PREPARE] %d pays %d $%d''"

lemma fill_formats:
  "fill intra_fmt [s, r, a] = dec_int s @ '' pays '' @ dec_int r @ '' $'' @ dec_int a"
  "fill prepare_fmt [s, r, a] = ''[PREPARE] '' @ fill intra_fmt [s, r, a]"
  "fill commit_fmt [s, r, a] = ''[COMMIT] '' @ fill intra_fmt [s, r, a]"
  "fill abort_fmt [s, r, a] = ''[ABORT] '' @ fill intra_fmt [s, r, a]"
  by (simp_all add: intra_fmt_def prepare_fmt_def commit_fmt_def abort_fmt_def)

lemma space_facts:
  "is_space CHR '' ''" "\<not> is_space CHR ''['' \<and> \<not> is_space CHR '']'' \<and> \<not> is_space CHR ''$''"
  "\<not> is_space CHR ''P'' \<and> \<not> is_space CHR ''R'' \<and> \<not> is_space CHR ''E'' \<and> \<not> is_space CHR ''A''"
  "\<not> is_space CHR ''p'' \<and> \<not> is_space CHR ''a'' \<and> \<not> is_space CHR ''y'' \<and> \<not> is_space CHR ''s''"
  by (simp_all add: is_space_def)

lemma sscanf_intra: "sscanf intra_scan (fill intra_fmt [s, r, a]) = [s, r, a]"
proof -
  have nd: "\<not> is_digit CHR '' ''" by (simp add: is_digit_def)
  have 1: "scan_d (dec_int s @ CHR '' '' # x) = Some (s, CHR '' '' # x)" for s x
    by (rule scan_d_dec_int) (use nd in auto)
  have 2: "scan_d (dec_int a) = Some (a, [])"
    using scan_d_dec_int [of "[]" a] by simp
  show ?thesis
    unfolding fill_formats intra_scan_def by (simp add: 1 2 space_facts dec_int_no_space)
qed

lemma scan_d_space: "scan_d (CHR '' '' # x) = scan_d x"
  by (simp add: scan_d_def space_facts)

lemma scan_d_skip: "scan_d (dropWhile is_space x) = scan_d x"
  by (simp add: scan_d_def)

lemma sscanf_prefix:
  "sscanf prepare_scan (''[PREPARE] '' @ x) = sscanf intra_scan x"
  by (simp add: prepare_scan_def intra_scan_def space_facts scan_d_space scan_d_skip)

lemma sscanf_prepare: "sscanf prepare_scan (fill prepare_fmt [s, r, a]) = [s, r, a]"
  by (simp only: fill_formats(2) sscanf_prefix sscanf_intra)

section \<open>Reading back what was written\<close>

text \<open>
  The contract between the side that writes a command into the log and the side that
  executes it: what was printed is scanned back. A client may then reason with the
  transaction instead of the text.
\<close>

locale command_codec =
  fixes print :: "int \<Rightarrow> int \<Rightarrow> int \<Rightarrow> string"
    and scan :: "string \<Rightarrow> (int \<times> int \<times> int) res"
  assumes scan_print:
    "in32 s \<Longrightarrow> in32 r \<Longrightarrow> in32 a \<Longrightarrow> scan (print s r a) = Inr (s, r, a)"
begin

lemma print_inj:
  assumes "in32 s" "in32 r" "in32 a" "in32 s'" "in32 r'" "in32 a'"
    and "print s r a = print s' r' a'"
  shows "s = s' \<and> r = r' \<and> a = a'"
proof -
  have "(Inr (s, r, a) :: (int \<times> int \<times> int) res) = Inr (s', r', a')"
    unfolding scan_print [OF assms(1-3), symmetric] scan_print [OF assms(4-6), symmetric]
    by (simp only: assms(7))
  then show ?thesis by simp
qed

end

interpretation intra_codec: command_codec
  "\<lambda>s r a. fill intra_fmt [s, r, a]" "\<lambda>c. sscanf3 c intra_scan"
  by unfold_locales (simp add: sscanf3_def sscanf_intra)

interpretation prepare_codec: command_codec
  "\<lambda>s r a. fill prepare_fmt [s, r, a]" "\<lambda>c. sscanf3 c prepare_scan"
  by unfold_locales (simp add: sscanf3_def sscanf_prepare)

text \<open>\<open>s[0]\<close> of a \<open>std::string\<close>: the terminating null character when it is empty.\<close>

definition char0 :: "string \<Rightarrow> char" where
  "char0 s = (case s of [] \<Rightarrow> CHR 0x00 | c # _ \<Rightarrow> c)"

lemma char0_formats [simp]:
  "char0 (fill intra_fmt [s, r, a]) \<noteq> CHR ''[''"
  "char0 (fill prepare_fmt [s, r, a]) = CHR ''[''"
  "char0 (fill commit_fmt [s, r, a]) = CHR ''[''"
  "char0 (fill abort_fmt [s, r, a]) = CHR ''[''"
proof -
  obtain d ds where "dec_nat (nat s) = d # ds" "is_digit d"
    using dec_nat_cons by blast
  moreover have "\<not> is_digit CHR ''[''" by (simp add: is_digit_def)
  ultimately show "char0 (fill intra_fmt [s, r, a]) \<noteq> CHR ''[''"
    unfolding fill_formats by (auto simp: char0_def dec_int_def)
qed (simp_all add: char0_def fill_formats)

section \<open>Commands survive the log\<close>

text \<open>
  A transaction of an intra-shard request that is printed into a log entry is read back
  unchanged when the entry is committed, for all values an \<open>int\<close> can hold, and its command is
  not mistaken for one of a cross-shard phase.
\<close>

theorem intra_command_roundtrip:
  assumes "in32 s" and "in32 r" and "in32 a"
  shows "sscanf3 (fill intra_fmt [s, r, a]) intra_scan = Inr (s, r, a) \<and>
    char0 (fill intra_fmt [s, r, a]) \<noteq> CHR ''[''"
  using intra_codec.scan_print [OF assms] by simp

theorem intra_command_roundtrip_witness:
  "sscanf3 (fill intra_fmt [17, 2147483647, -2147483648]) intra_scan = Inr (17, 2147483647, -2147483648)"
  using intra_command_roundtrip [of 17 2147483647 "-2147483648"] by (simp add: in32_def)

text \<open>
  The transaction of a prepare is read back unchanged from its log entry, and the entries
  of the three phases are told apart by their first characters.
\<close>

theorem prepare_command_roundtrip:
  assumes "in32 s" and "in32 r" and "in32 a"
  shows "sscanf3 (fill prepare_fmt [s, r, a]) prepare_scan = Inr (s, r, a) \<and>
    take 9 (fill prepare_fmt [s, r, a]) = ''[PREPARE]'' \<and>
    take 9 (fill commit_fmt [s, r, a]) \<noteq> ''[PREPARE]'' \<and>
    take 9 (fill abort_fmt [s, r, a]) \<noteq> ''[PREPARE]''"
  using prepare_codec.scan_print [OF assms] by (simp add: fill_formats)

theorem prepare_command_roundtrip_witness:
  "sscanf3 (fill prepare_fmt [1, 1002, -5]) prepare_scan = Inr (1, 1002, -5)"
  using prepare_command_roundtrip [of 1 1002 "-5"] by (simp add: in32_def)

end
