(* ===== verification/RaftState.thy ===== *)
theory RaftState
  imports Cstdio
begin

text \<open>
  The protocol state of one server: \<open>LogEntry\<close>, \<open>Role\<close> and \<open>RaftState\<close> of
  \<open>server/include/raftState.hpp\<close>, with the methods of \<open>server/src/raftState.cpp\<close>.
  The trailing underscore of the members is dropped; members of \<open>LogEntry\<close> carry the
  prefix \<open>le\<close>.
\<close>

record LogEntry =
  le_term :: int
  le_index :: int
  le_command :: string
  le_id :: int
  le_req_fd :: int

datatype Role = FOLLOWER | CANDIDATE | LEADER

text \<open>The enumerators carry the values 0, 1, 2 and are ordered by them.\<close>

fun role_num :: "Role \<Rightarrow> nat" where
  "role_num FOLLOWER = 0"
| "role_num CANDIDATE = 1"
| "role_num LEADER = 2"

lemma role_num_inj: "role_num a = role_num b \<Longrightarrow> a = b"
  by (cases a; cases b) auto

instantiation Role :: linorder
begin

definition less_eq_Role :: "Role \<Rightarrow> Role \<Rightarrow> bool" where
  "less_eq_Role a b \<longleftrightarrow> role_num a \<le> role_num b"

definition less_Role :: "Role \<Rightarrow> Role \<Rightarrow> bool" where
  "less_Role a b \<longleftrightarrow> role_num a < role_num b"

instance
  by standard (auto simp: less_eq_Role_def less_Role_def intro: role_num_inj)

end

lemma role_order [simp]:
  "FOLLOWER \<le> r" "r \<le> FOLLOWER \<longleftrightarrow> r = FOLLOWER" "LEADER \<le> r \<longleftrightarrow> r = LEADER"
  by (cases r; simp add: less_eq_Role_def)+

record RaftState =
  cluster_id :: int
  server_id :: int
  heard_heart_beat :: bool
  current_term :: int
  voted_for :: int
  role :: Role
  vote_granted_num :: int
  log :: "LogEntry list"
  log_granted_num :: int
  coming_commit_index :: int
  commit_index :: int
  matched_log_size :: "int list"
  local_balance_tb :: "int umap"
  local_lock :: "bool umap"

definition RaftState_init :: "int \<Rightarrow> int \<Rightarrow> RaftState" where
  "RaftState_init cluster server =
     \<lparr> cluster_id = cluster, server_id = server, heard_heart_beat = False,
       current_term = 0, voted_for = -1, role = FOLLOWER, vote_granted_num = 0,
       log = [], log_granted_num = 0, coming_commit_index = -1, commit_index = -1,
       matched_log_size = [], local_balance_tb = Map.empty, local_lock = Map.empty \<rparr>"

definition lastlogindex :: "RaftState \<Rightarrow> int" where
  "lastlogindex st = (if log st = [] then -1 else le_index (last (log st)))"

definition lastlogterm :: "RaftState \<Rightarrow> int" where
  "lastlogterm st = (if log st = [] then -1 else le_term (last (log st)))"

definition prevlogindex :: "RaftState \<Rightarrow> int \<Rightarrow> int res" where
  "prevlogindex st idx = bindE (vec_at (matched_log_size st) idx) (\<lambda>m. sub32 m 1)"

definition prevlogterm :: "RaftState \<Rightarrow> int \<Rightarrow> int res" where
  "prevlogterm st idx =
     bindE (vec_at (matched_log_size st) idx) (\<lambda>m.
       if m = 0 then Inr (-1)
       else bindE (sub32 m 1) (\<lambda>i. mapE le_term (vec_at (log st) i)))"

section \<open>Balances and locks\<close>

text \<open>
  \<open>local_balance_tb_[k] -= a\<close> and \<open>+= a\<close>, and \<open>local_lock_[k] = b\<close>.
\<close>

abbreviation balance :: "RaftState \<Rightarrow> int \<Rightarrow> int" where
  "balance st k \<equiv> um_val 0 (local_balance_tb st) k"

abbreviation locked :: "RaftState \<Rightarrow> int \<Rightarrow> bool" where
  "locked st k \<equiv> um_val False (local_lock st) k"

definition debit :: "int \<Rightarrow> int \<Rightarrow> RaftState \<Rightarrow> RaftState res" where
  "debit k a st = mapE (\<lambda>v. st\<lparr>local_balance_tb := (local_balance_tb st)(k \<mapsto> v)\<rparr>)
                    (sub32 (balance st k) a)"

definition credit :: "int \<Rightarrow> int \<Rightarrow> RaftState \<Rightarrow> RaftState res" where
  "credit k a st = mapE (\<lambda>v. st\<lparr>local_balance_tb := (local_balance_tb st)(k \<mapsto> v)\<rparr>)
                     (add32 (balance st k) a)"

definition transfer :: "int \<Rightarrow> int \<Rightarrow> int \<Rightarrow> RaftState \<Rightarrow> RaftState res" where
  "transfer s r a st = bindE (debit s a st) (credit r a)"

definition set_lock :: "int \<Rightarrow> bool \<Rightarrow> RaftState \<Rightarrow> RaftState" where
  "set_lock k b st = st\<lparr>local_lock := (local_lock st)(k \<mapsto> b)\<rparr>"

text \<open>The reads \<open>local_lock_[k]\<close> and \<open>local_balance_tb_[k]\<close> as effects on the tables.\<close>

definition touch_lock :: "int \<Rightarrow> RaftState \<Rightarrow> RaftState" where
  "touch_lock k st = st\<lparr>local_lock := um_touch False (local_lock st) k\<rparr>"

definition touch_balance :: "int \<Rightarrow> RaftState \<Rightarrow> RaftState" where
  "touch_balance k st = st\<lparr>local_balance_tb := um_touch 0 (local_balance_tb st) k\<rparr>"

definition push_log :: "LogEntry \<Rightarrow> RaftState \<Rightarrow> RaftState" where
  "push_log e st = st\<lparr>log := log st @ [e]\<rparr>"

text \<open>
  \<open>raft_frame\<close>: the members that take part in elections and replication are the same.
\<close>

definition raft_frame :: "RaftState \<Rightarrow> RaftState \<Rightarrow> bool" where
  "raft_frame st st' \<longleftrightarrow>
     cluster_id st' = cluster_id st \<and> server_id st' = server_id st \<and>
     heard_heart_beat st' = heard_heart_beat st \<and> current_term st' = current_term st \<and>
     voted_for st' = voted_for st \<and> role st' = role st \<and>
     vote_granted_num st' = vote_granted_num st \<and>
     matched_log_size st' = matched_log_size st"

lemma raft_frame_refl [simp, intro]: "raft_frame st st"
  by (simp add: raft_frame_def)

lemma raft_frame_trans: "raft_frame a b \<Longrightarrow> raft_frame b c \<Longrightarrow> raft_frame a c"
  by (simp add: raft_frame_def)

lemma touch_frame [simp]:
  "raft_frame st0 (touch_lock k st) = raft_frame st0 st"
  "raft_frame st0 (touch_balance k st) = raft_frame st0 st"
  "raft_frame st0 (set_lock k b st) = raft_frame st0 st"
  "raft_frame st0 (push_log e st) = raft_frame st0 st"
  by (simp_all add: raft_frame_def touch_lock_def touch_balance_def set_lock_def push_log_def)

lemma touch_simps [simp]:
  "log (touch_lock k st) = log st" "log (touch_balance k st) = log st"
  "log (set_lock k b st) = log st" "log (push_log e st) = log st @ [e]"
  "balance (touch_lock k st) j = balance st j" "balance (touch_balance k st) j = balance st j"
  "balance (set_lock k b st) j = balance st j" "balance (push_log e st) j = balance st j"
  "locked (touch_lock k st) j = locked st j" "locked (touch_balance k st) j = locked st j"
  "locked (set_lock k b st) j = (if j = k then b else locked st j)"
  "locked (push_log e st) j = locked st j"
  "commit_index (touch_lock k st) = commit_index st"
  "commit_index (touch_balance k st) = commit_index st"
  "commit_index (set_lock k b st) = commit_index st"
  "commit_index (push_log e st) = commit_index st"
  "coming_commit_index (touch_lock k st) = coming_commit_index st"
  "coming_commit_index (touch_balance k st) = coming_commit_index st"
  "coming_commit_index (set_lock k b st) = coming_commit_index st"
  "coming_commit_index (push_log e st) = coming_commit_index st"
  by (simp_all add: touch_lock_def touch_balance_def set_lock_def push_log_def)

lemma frame_members [simp]:
  "cluster_id (touch_lock k st) = cluster_id st" "cluster_id (touch_balance k st) = cluster_id st"
  "cluster_id (set_lock k b st) = cluster_id st" "cluster_id (push_log e st) = cluster_id st"
  "role (touch_lock k st) = role st" "role (touch_balance k st) = role st"
  "role (set_lock k b st) = role st" "role (push_log e st) = role st"
  "current_term (touch_lock k st) = current_term st"
  "current_term (touch_balance k st) = current_term st"
  "current_term (set_lock k b st) = current_term st"
  "current_term (push_log e st) = current_term st"
  by (simp_all add: touch_lock_def touch_balance_def set_lock_def push_log_def)

lemma debit_Inr:
  "debit k a st = Inr st' \<longleftrightarrow> in32 (balance st k - a) \<and>
     st' = st\<lparr>local_balance_tb := (local_balance_tb st)(k \<mapsto> balance st k - a)\<rparr>"
  by (auto simp: debit_def res_iff)

lemma credit_Inr:
  "credit k a st = Inr st' \<longleftrightarrow> in32 (balance st k + a) \<and>
     st' = st\<lparr>local_balance_tb := (local_balance_tb st)(k \<mapsto> balance st k + a)\<rparr>"
  by (auto simp: credit_def res_iff)

text \<open>What a transfer that is defined does to the balances and to the rest of the state.\<close>

lemma transfer_balance:
  assumes "transfer s r a st = Inr st'"
  shows "balance st' k = balance st k - (if k = s then a else 0) + (if k = r then a else 0)"
  using assms by (auto simp: transfer_def res_iff debit_Inr credit_Inr)

lemma transfer_only_table:
  assumes "transfer s r a st = Inr st'"
  shows "st' = st\<lparr>local_balance_tb := local_balance_tb st'\<rparr>"
  using assms by (auto simp: transfer_def res_iff debit_Inr credit_Inr)

lemma transfer_frame:
  assumes "transfer s r a st = Inr st'"
  shows "raft_frame st st' \<and> log st' = log st \<and> local_lock st' = local_lock st \<and>
    commit_index st' = commit_index st \<and> coming_commit_index st' = coming_commit_index st"
  using assms by (auto simp: transfer_def res_iff debit_Inr credit_Inr raft_frame_def)

lemma transfer_defined:
  "in32 (balance st s - a) \<Longrightarrow>
   in32 ((if r = s then balance st s - a else balance st r) + a) \<Longrightarrow>
   \<exists>st'. transfer s r a st = Inr st'"
  by (auto simp: transfer_def debit_def credit_def sub32_def add32_def)

text \<open>The sum of the balances of a set of items; a transfer inside the set keeps it.\<close>

definition total :: "int set \<Rightarrow> RaftState \<Rightarrow> int" where
  "total A st = (\<Sum>k\<in>A. balance st k)"

lemma transfer_total:
  assumes "transfer s r a st = Inr st'" and "finite A" and "s \<in> A" and "r \<in> A"
  shows "total A st' = total A st"
proof -
  have "total A st' = (\<Sum>k\<in>A. balance st k + ((if k = r then a else 0) - (if k = s then a else 0)))"
    unfolding total_def by (rule sum.cong) (simp_all add: transfer_balance [OF assms(1)])
  also have "\<dots> = total A st + ((\<Sum>k\<in>A. if k = r then a else 0) - (\<Sum>k\<in>A. if k = s then a else 0))"
    by (simp add: total_def sum.distrib sum_subtractf)
  finally show ?thesis using assms(2-4) by simp
qed

section \<open>The log\<close>

text \<open>
  Well-formed logs: every entry carries its own position, which is what
  \<open>lastlogindex\<close> relies on.
\<close>

definition positions_ok :: "LogEntry list \<Rightarrow> bool" where
  "positions_ok es \<longleftrightarrow> (\<forall>i < length es. le_index (es ! i) = int i)"

lemma positions_ok_Nil [simp]: "positions_ok []"
  by (simp add: positions_ok_def)

lemma positions_ok_snoc:
  "positions_ok (es @ [e]) \<longleftrightarrow> positions_ok es \<and> le_index e = int (length es)"
  by (auto simp: positions_ok_def nth_append less_Suc_eq)

lemma positions_ok_take: "positions_ok es \<Longrightarrow> positions_ok (take n es)"
  by (simp add: positions_ok_def)

lemma lastlogindex_positions:
  "positions_ok (log st) \<Longrightarrow> lastlogindex st = int (length (log st)) - 1"
  by (cases "log st" rule: rev_cases) (auto simp: lastlogindex_def positions_ok_snoc)

section \<open>A leader's bookkeeping\<close>

text \<open>
  What a leader relies on when it sends heart beats and commits: one entry per server in
  \<open>matched_log_size\<close>, and a coming commit index inside its log.
\<close>

definition leader_ready :: "RaftState \<Rightarrow> bool" where
  "leader_ready st \<longleftrightarrow>
     (role st = LEADER \<longrightarrow> length (matched_log_size st) = 3 \<and>
        -1 \<le> coming_commit_index st \<and> coming_commit_index st < int (length (log st)))"

text \<open>Steps after which a leader was one before, and has not lost any of it.\<close>

definition keeps_leader :: "RaftState \<Rightarrow> RaftState \<Rightarrow> bool" where
  "keeps_leader st st' \<longleftrightarrow>
     (role st' = LEADER \<longrightarrow> role st = LEADER \<and>
        length (matched_log_size st') = length (matched_log_size st) \<and>
        length (log st) \<le> length (log st') \<and> coming_commit_index st' = coming_commit_index st)"

lemma keeps_leader_refl [simp, intro]: "keeps_leader st st"
  by (simp add: keeps_leader_def)

lemma keeps_leader_ready: "keeps_leader st st' \<Longrightarrow> leader_ready st \<Longrightarrow> leader_ready st'"
  by (auto simp: keeps_leader_def leader_ready_def)

lemma keeps_leader_follower: "role st' \<noteq> LEADER \<Longrightarrow> keeps_leader st st'"
  by (simp add: keeps_leader_def)

lemma keeps_leader_frame:
  "raft_frame st st' \<Longrightarrow> length (log st) \<le> length (log st') \<Longrightarrow>
   coming_commit_index st' = coming_commit_index st \<Longrightarrow> keeps_leader st st'"
  by (simp add: keeps_leader_def raft_frame_def)

end
