(* ===== verification/Messages.thy ===== *)
theory Messages
  imports Prelude
begin

text \<open>
  The protocol messages of \<open>proto/\<close>, one record per message with a prefix per message
  type, and the wrapper whose \<open>oneof\<close> the server switches on. Enumerations of the third
  protobuf syntax are open: a number without a name is kept, as \<open>UNKNOWN_PHASE\<close>.
\<close>

record Entry =
  ent_term :: int
  ent_index :: int
  ent_command :: string
  ent_id :: int

record AppendEntriesReq =
  ae_term :: int
  ae_leaderId :: int
  ae_prevLogIndex :: int
  ae_prevLogTerm :: int
  ae_entries :: "Entry list"
  ae_commitIndex :: int
  ae_serverId :: int

record AppendEntriesRsp =
  aer_term :: int
  aer_success :: bool
  aer_serverId :: int

record RequestVoteReq =
  rv_candidateId :: int
  rv_term :: int
  rv_lastLogIndex :: int
  rv_lastLogTerm :: int

record RequestVoteRsp =
  rvr_term :: int
  rvr_voteGranted :: bool

record IntraShardReq =
  is_clusterId :: int
  is_senderId :: int
  is_receiverId :: int
  is_amount :: int
  is_id :: int

datatype IntraShardResultType = SUCCESS | FAIL

record IntraShardRsp =
  isr_result :: IntraShardResultType
  isr_id :: int

datatype CrossShardPhaseType = PREPARE | COMMIT | ABORT | UNKNOWN_PHASE int

record CrossShardReq =
  cs_phase :: CrossShardPhaseType
  cs_senderClusterId :: int
  cs_receiverClusterId :: int
  cs_senderId :: int
  cs_receiverId :: int
  cs_amount :: int
  cs_id :: int

datatype CrossShardResultType = YES | NO | ACK

record CrossShardRsp =
  csr_result :: CrossShardResultType
  csr_id :: int

record PrintBalanceReq =
  pb_clusterId :: int
  pb_serverId :: int
  pb_dataItemID :: int

record PrintBalanceRsp =
  pbr_clusterId :: int
  pbr_serverId :: int
  pbr_dataItemID :: int
  pbr_balance :: int

record PrintDatastoreReq =
  pd_clusterId :: int
  pd_serverId :: int

record PrintDatastoreRsp =
  pdr_clusterId :: int
  pdr_serverId :: int
  pdr_entries :: "Entry list"

text \<open>
  \<open>Stop\<close>, \<open>Resume\<close> and \<open>Exit\<close> carry a cluster id and a server id; a wrapper in which no
  member of the \<open>oneof\<close> is set is \<open>MESSAGE_TYPE_NOT_SET\<close>.
\<close>

datatype WrapperMessage =
    MESSAGE_TYPE_NOT_SET
  | Stop int int
  | Resume int int
  | Exit int int
  | MIntraShardReq IntraShardReq
  | MIntraShardRsp IntraShardRsp
  | MCrossShardReq CrossShardReq
  | MCrossShardRsp CrossShardRsp
  | MAppendEntriesReq AppendEntriesReq
  | MAppendEntriesRsp AppendEntriesRsp
  | MRequestVoteReq RequestVoteReq
  | MRequestVoteRsp RequestVoteRsp
  | MPrintBalanceReq PrintBalanceReq
  | MPrintBalanceRsp PrintBalanceRsp
  | MPrintDatastoreReq PrintDatastoreReq
  | MPrintDatastoreRsp PrintDatastoreRsp

text \<open>Whether a message takes part in elections.\<close>

fun is_vote_msg :: "WrapperMessage \<Rightarrow> bool" where
  "is_vote_msg (MRequestVoteReq _) = True"
| "is_vote_msg (MRequestVoteRsp _) = True"
| "is_vote_msg _ = False"

end
