(* ===== verification/Cstdlib.thy ===== *)
theory Cstdlib
  imports Cstdio "HOL-Library.Word"
begin

unbundle bit_operations_syntax

text \<open>
  The number conversions of the C library that the JSON library calls: \<open>strtoull\<close> and
  \<open>strtoll\<close> with their range errors, \<open>strtod\<close> with the rounding of IEEE double precision
  numbers, and the conversions between \<open>double\<close>, 64-bit and 32-bit integers. A \<open>double\<close> is the
  word of its 64 bits.
\<close>

section \<open>64-bit integers\<close>

definition in64 :: "int \<Rightarrow> bool" where
  "in64 x \<longleftrightarrow> - 9223372036854775808 \<le> x \<and> x \<le> 9223372036854775807"

definition inu64 :: "int \<Rightarrow> bool" where
  "inu64 x \<longleftrightarrow> 0 \<le> x \<and> x \<le> 18446744073709551615"

text \<open>
  The value and whether \<open>errno\<close> is set to \<open>ERANGE\<close>; a value out of range is clamped. A
  text without digits yields 0.
\<close>

definition strtoull :: "string \<Rightarrow> int \<times> bool" where
  "strtoull s =
     (case scan_d s of
        None \<Rightarrow> (0, False)
      | Some (v, _) \<Rightarrow>
          (if inu64 \<bar>v\<bar> then (v mod 18446744073709551616, False)
           else (18446744073709551615, True)))"

definition strtoll :: "string \<Rightarrow> int \<times> bool" where
  "strtoll s =
     (case scan_d s of
        None \<Rightarrow> (0, False)
      | Some (v, _) \<Rightarrow>
          (if in64 v then (v, False)
           else (if v < 0 then - 9223372036854775808 else 9223372036854775807, True)))"

text \<open>
  What \<open>endptr\<close> points to after either of them: the characters after the number, or the whole
  text if there is none.
\<close>

definition strtol_rest :: "string \<Rightarrow> string" where
  "strtol_rest s = (case scan_d s of None \<Rightarrow> s | Some (_, r) \<Rightarrow> r)"

lemma strtoull_digits:
  assumes "inu64 (int n)"
  shows "strtoull (dec_nat n) = (int n, False)"
proof -
  have "scan_d (dec_nat n) = Some (int n, [])"
    using scan_d_dec_int [of "[]" "int n"] by (simp add: dec_int_def)
  then show ?thesis using assms by (simp add: strtoull_def inu64_def)
qed

lemma strtoll_dec_int: "in64 z \<Longrightarrow> strtoll (dec_int z) = (z, False)"
  using scan_d_dec_int [of "[]" z] by (simp add: strtoll_def)

text \<open>\<open>static_cast<int>\<close> of a 64-bit integer keeps its low 32 bits.\<close>

definition wrap32 :: "int \<Rightarrow> int" where
  "wrap32 x = (x + 2147483648) mod 4294967296 - 2147483648"

lemma wrap32_id [simp]: "in32 x \<Longrightarrow> wrap32 x = x"
  by (simp add: wrap32_def in32_def)

lemma in32_wrap32 [simp]: "in32 (wrap32 x)"
proof -
  have "0 \<le> (x + 2147483648) mod 4294967296" "(x + 2147483648) mod 4294967296 < 4294967296"
    by simp_all
  then show ?thesis unfolding wrap32_def in32_def by linarith
qed

section \<open>Double precision numbers\<close>

type_synonym double = "64 word"

text \<open>The fields of the format: sign, biased exponent, fraction.\<close>

definition double_neg :: "double \<Rightarrow> bool" where
  "double_neg d \<longleftrightarrow> bit d 63"

definition double_exp :: "double \<Rightarrow> int" where
  "double_exp d = uint (drop_bit 52 d AND 2047)"

definition double_frac :: "double \<Rightarrow> int" where
  "double_frac d = uint (take_bit 52 d)"

definition isfinite :: "double \<Rightarrow> bool" where
  "isfinite d \<longleftrightarrow> double_exp d \<noteq> 2047"

text \<open>The value of a finite number, truncated towards zero.\<close>

definition double_trunc :: "double \<Rightarrow> int" where
  "double_trunc d =
     (let m = (if double_exp d = 0 then double_frac d else double_frac d + 4503599627370496);
          e = max (double_exp d) 1 - 1075;
          t = (if 0 \<le> e then m * 2 ^ nat e else m div 2 ^ nat (- e))
      in if double_neg d then - t else t)"

text \<open>
  \<open>static_cast<int>\<close> of a \<open>double\<close>: where the truncated value is no \<open>int\<close> the result is
  not defined, \<open>ub\<close> stands for what the machine delivers.
\<close>

definition int_of_double :: "(double \<Rightarrow> int) \<Rightarrow> double \<Rightarrow> int" where
  "int_of_double ub d =
     (if isfinite d \<and> in32 (double_trunc d) then double_trunc d else ub d)"

text \<open>
  Rounding the positive rational \<open>num / den\<close> to the nearest double, ties to even: \<open>e\<close> is
  the exponent of the last place, \<open>q\<close> the rounded significand. A carry out of the significand
  moves into the exponent field by itself; what reaches the largest exponent is infinity.
\<close>

function bit_len :: "int \<Rightarrow> int" where
  "bit_len n = (if n \<le> 0 then 0 else 1 + bit_len (n div 2))"
  by auto
termination by (relation "measure nat") auto

declare bit_len.simps [simp del]

definition round_half_even :: "int \<Rightarrow> int \<Rightarrow> int" where
  "round_half_even num den =
     (let q = num div den; r = num mod den
      in if 2 * r < den \<or> (2 * r = den \<and> even q) then q else q + 1)"

definition last_place :: "int \<Rightarrow> int \<Rightarrow> int" where
  "last_place num den =
     (let e = bit_len num - bit_len den - 53;
          big = (if 0 \<le> e then 2 ^ 53 * den * 2 ^ nat e \<le> num
                 else 2 ^ 53 * den \<le> num * 2 ^ nat (- e))
      in max (if big then e + 1 else e) (- 1074))"

definition round_pos :: "int \<Rightarrow> int \<Rightarrow> int" where
  "round_pos num den =
     (let e = last_place num den;
          q = (if 0 \<le> e then round_half_even num (den * 2 ^ nat e)
               else round_half_even (num * 2 ^ nat (- e)) den)
      in min ((e + 1074) * 4503599627370496 + q) (2047 * 4503599627370496))"

text \<open>The number \<open>m * 10 ^ x\<close> with its sign.\<close>

definition double_of_decimal :: "bool \<Rightarrow> int \<Rightarrow> int \<Rightarrow> double" where
  "double_of_decimal neg m x =
     (let bits = (if m = 0 then 0
                  else if 0 \<le> x then round_pos (m * 10 ^ nat x) 1
                  else round_pos m (10 ^ nat (- x)))
      in word_of_int (if neg then 2 ^ 63 + bits else bits))"

text \<open>
  \<open>strtod\<close> on a decimal number: an optional sign, digits, an optional fraction, an optional
  exponent (taken only if digits follow it). The program never leaves the \<open>C\<close> locale, whose
  decimal point is \<open>.\<close>.
\<close>

definition scan_exponent :: "string \<Rightarrow> int" where
  "scan_exponent s =
     (case s of
        [] \<Rightarrow> 0
      | c # cs \<Rightarrow>
          (if c = CHR ''e'' \<or> c = CHR ''E'' then
             (case cs of
                [] \<Rightarrow> 0
              | d # ds \<Rightarrow>
                  (if d = CHR ''-'' then - digits_val (takeWhile is_digit ds)
                   else if d = CHR ''+'' then digits_val (takeWhile is_digit ds)
                   else digits_val (takeWhile is_digit cs)))
           else 0))"

definition strtod_unsigned :: "bool \<Rightarrow> string \<Rightarrow> double" where
  "strtod_unsigned neg s =
     (let i = takeWhile is_digit s; r = dropWhile is_digit s;
          f = (case r of [] \<Rightarrow> [] | c # cs \<Rightarrow> if c = CHR ''.'' then takeWhile is_digit cs else []);
          r' = (case r of [] \<Rightarrow> [] | c # cs \<Rightarrow> if c = CHR ''.'' then dropWhile is_digit cs else r)
      in double_of_decimal neg (digits_val (i @ f)) (scan_exponent r' - int (length f)))"

definition strtod :: "string \<Rightarrow> double" where
  "strtod s =
     (case dropWhile is_space s of
        [] \<Rightarrow> 0
      | c # cs \<Rightarrow>
          (if c = CHR ''-'' then strtod_unsigned True cs
           else if c = CHR ''+'' then strtod_unsigned False cs
           else strtod_unsigned False (c # cs)))"

text \<open>
  What \<open>endptr\<close> points to after \<open>strtod\<close>: an exponent without digits is not part of the number,
  and without any digit there is no number at all.
\<close>

definition exponent_rest :: "string \<Rightarrow> string" where
  "exponent_rest s =
     (case s of
        [] \<Rightarrow> []
      | c # cs \<Rightarrow>
          (if c = CHR ''e'' \<or> c = CHR ''E'' then
             (let ds = (case cs of [] \<Rightarrow> [] | d # ds \<Rightarrow> if d = CHR ''-'' \<or> d = CHR ''+'' then ds else cs)
              in if takeWhile is_digit ds = [] then s else dropWhile is_digit ds)
           else s))"

definition strtod_unsigned_rest :: "string \<Rightarrow> string option" where
  "strtod_unsigned_rest s =
     (let i = takeWhile is_digit s; r = dropWhile is_digit s;
          f = (case r of [] \<Rightarrow> [] | c # cs \<Rightarrow> if c = CHR ''.'' then takeWhile is_digit cs else []);
          r' = (case r of [] \<Rightarrow> [] | c # cs \<Rightarrow> if c = CHR ''.'' then dropWhile is_digit cs else r)
      in if i = [] \<and> f = [] then None else Some (exponent_rest r'))"

definition strtod_rest :: "string \<Rightarrow> string" where
  "strtod_rest s =
     (case (case dropWhile is_space s of
              [] \<Rightarrow> None
            | c # cs \<Rightarrow> strtod_unsigned_rest (if c = CHR ''-'' \<or> c = CHR ''+'' then cs else c # cs)) of
        None \<Rightarrow> s
      | Some r \<Rightarrow> r)"

end
