(* ===== verification/AsyncIO.thy ===== *)
theory AsyncIO
  imports RaftState Messages Cstdlib
begin

text \<open>
  The asynchronous I/O layer of \<open>server/include/asyncIO.hpp\<close> and
  \<open>server/src/asyncIO.cpp\<close>. What the code hands to io_uring is recorded: a \<open>World\<close>
  holds the submitted requests in order, with the metadata the code attaches to each,
  and the parts of the operating system the server changes (non-blocking and closed
  descriptors, files).
\<close>

section \<open>The environment of the program\<close>

text \<open>
  Everything that is not under \<open>src/\<close>: the protobuf encoder and parser, the format
  library, and what the kernel answers. \<open>submit_ret n\<close> and \<open>socket_ret n\<close> are the
  results of \<open>io_uring_submit\<close> and \<open>socket\<close> when \<open>n\<close> requests have been submitted
  before; the results of the calls of \<open>setup_listening_socket\<close> come next. The file functions are those of the calls in \<open>util.cpp\<close>: \<open>read_ret\<close> gives the
  result of \<open>read\<close> for a given size, \<open>write_ok n\<close> whether the \<open>n\<close>-th write of a call of
  \<open>update_data_shard\<close> succeeds. \<open>double_to_int\<close> is what the machine delivers when a
  floating point number that no \<open>int\<close> holds is converted to \<open>int\<close>.
\<close>

record env =
  pb_serialize :: "WrapperMessage \<Rightarrow> string"
  pb_parse :: "string \<Rightarrow> WrapperMessage"
  fmt_format :: "string \<Rightarrow> int list \<Rightarrow> string"
  queue_init_ret :: int
  submit_ret :: "nat \<Rightarrow> int"
  socket_ret :: "nat \<Rightarrow> int"
  listen_socket_ret :: int
  setsockopt_ret :: int
  bind_ret :: "int \<Rightarrow> int"
  listen_ret :: int
  data_shard_base :: string
  fstat_ok :: bool
  read_ret :: "int \<Rightarrow> int"
  ftruncate_ok :: bool
  write_ok :: "nat \<Rightarrow> bool"
  double_to_int :: "double \<Rightarrow> int"

text \<open>
  The documented behaviour some properties need: a message that was serialised is
  parsed back, the empty buffer is the message without a member, \<open>{}\<close> fields are
  replaced by decimal renderings, and submissions to the ring succeed.
\<close>

definition pb_documented :: "env \<Rightarrow> bool" where
  "pb_documented e \<longleftrightarrow> (\<forall>m. pb_parse e (pb_serialize e m) = m)"

definition fmt_documented :: "env \<Rightarrow> bool" where
  "fmt_documented e \<longleftrightarrow> (\<forall>f xs. fmt_format e f xs = fill f xs)"

definition submits_ok :: "env \<Rightarrow> bool" where
  "submits_ok e \<longleftrightarrow> (\<forall>n. 0 \<le> submit_ret e n)"

section \<open>Requests and their metadata\<close>

datatype AIOEventType = EVENT_ACCEPT | EVENT_CONNECT | EVENT_READ | EVENT_WRITE | EVENT_TIMEOUT

datatype AIOMessageType = NONE | WAIT_RESPONSE | NO_RESPONSE

record AIOData =
  fd :: int
  event_type :: AIOEventType
  buf :: string
  buf_size :: int
  message_type :: AIOMessageType

text \<open>
  The request prepared in a submission queue entry, with the arguments of the call. A connect keeps
  the address as the text and the number that the code hands to \<open>inet_pton\<close> and \<open>htons\<close>; the socket address
  they make of it (0.0.0.0 for a text that is no address, since the result of \<open>inet_pton\<close> is not looked at,
  and the low 16 bits of the port) belongs to the network.
\<close>

datatype sqe_op =
    PrepTimeout int int
  | PrepAccept int
  | PrepConnect int string int
  | PrepRead int int
  | PrepWrite int string

record SQE =
  op :: sqe_op
  user_data :: AIOData

record World =
  ring :: "SQE list"
  message_timeout_ms :: int
  nonblocking :: "int list"
  closed :: "int list"
  files :: "string \<Rightarrow> string option"

section \<open>The operations\<close>

definition AsyncIO_init :: "env \<Rightarrow> int \<Rightarrow> (string \<Rightarrow> string option) \<Rightarrow> World res" where
  "AsyncIO_init e timeout disk =
     (if queue_init_ret e < 0 then Inl (FatalError ''Init io_uring error.'')
      else Inr \<lparr> ring = [], message_timeout_ms = timeout, nonblocking = [], closed = [],
                 files = disk \<rparr>)"

definition set_nonblocking :: "int \<Rightarrow> World \<Rightarrow> World" where
  "set_nonblocking sockfd w = w\<lparr>nonblocking := sockfd # nonblocking w\<rparr>"

text \<open>The body of \<open>set_timer\<close> is commented out in the source.\<close>

definition set_timer :: "World \<Rightarrow> World" where
  "set_timer w = w"

definition close_fd :: "int \<Rightarrow> World \<Rightarrow> World" where
  "close_fd s w = w\<lparr>closed := s # closed w\<rparr>"

text \<open>
  The common end of the functions: the prepared entry with its metadata is submitted,
  and a negative result is fatal.
\<close>

definition submit :: "env \<Rightarrow> sqe_op \<Rightarrow> AIOData \<Rightarrow> World \<Rightarrow> World res" where
  "submit e x d w =
     (if submit_ret e (length (ring w)) < 0
      then Inl (FatalError ''Failed to submit io_uring request.'')
      else Inr (w\<lparr>ring := ring w @ [\<lparr>op = x, user_data = d\<rparr>]\<rparr>))"

definition add_timeout_request :: "env \<Rightarrow> int \<Rightarrow> World \<Rightarrow> World res" where
  "add_timeout_request e ms w =
     submit e (PrepTimeout (ms sdiv 1000) ((ms smod 1000) * 1000000))
       \<lparr>fd = 0, event_type = EVENT_TIMEOUT, buf = [], buf_size = 0, message_type = NONE\<rparr> w"

definition add_accept_request :: "env \<Rightarrow> int \<Rightarrow> World \<Rightarrow> World res" where
  "add_accept_request e server_socket w =
     submit e (PrepAccept server_socket)
       \<lparr>fd = server_socket, event_type = EVENT_ACCEPT, buf = [], buf_size = 0,
        message_type = NONE\<rparr> w"

definition serialize_msg_to_buf :: "env \<Rightarrow> WrapperMessage \<Rightarrow> string \<times> int" where
  "serialize_msg_to_buf e wrapper_msg =
     (let serialized = pb_serialize e wrapper_msg in (serialized, int (length serialized)))"

definition parse_buf_to_msg :: "env \<Rightarrow> string \<Rightarrow> int \<Rightarrow> WrapperMessage" where
  "parse_buf_to_msg e b bsize = pb_parse e (take (nat bsize) b)"

definition add_connect_request ::
    "env \<Rightarrow> string \<Rightarrow> int \<Rightarrow> WrapperMessage \<Rightarrow> AIOMessageType \<Rightarrow> World \<Rightarrow> World res" where
  "add_connect_request e ip port wrapper_msg msg_type w =
     (let client_socket = socket_ret e (length (ring w));
          w = set_nonblocking client_socket w;
          (b, bsize) = serialize_msg_to_buf e wrapper_msg
      in submit e (PrepConnect client_socket ip port)
           \<lparr>fd = client_socket, event_type = EVENT_CONNECT, buf = b, buf_size = bsize,
            message_type = msg_type\<rparr> w)"

definition add_read_request :: "env \<Rightarrow> int \<Rightarrow> World \<Rightarrow> World res" where
  "add_read_request e client_socket w =
     submit e (PrepRead client_socket 1024)
       \<lparr>fd = client_socket, event_type = EVENT_READ, buf = replicate 1024 CHR 0x00,
        buf_size = 1024, message_type = NONE\<rparr>
       (set_timer (set_nonblocking client_socket w))"

definition add_write_request_buf ::
    "env \<Rightarrow> int \<Rightarrow> string \<Rightarrow> int \<Rightarrow> AIOMessageType \<Rightarrow> World \<Rightarrow> World res" where
  "add_write_request_buf e client_socket b bsize msg_type w =
     submit e (PrepWrite client_socket (take (nat bsize) b))
       \<lparr>fd = client_socket, event_type = EVENT_WRITE, buf = b, buf_size = bsize,
        message_type = msg_type\<rparr>
       (set_timer (set_nonblocking client_socket w))"

definition add_write_request_msg ::
    "env \<Rightarrow> int \<Rightarrow> WrapperMessage \<Rightarrow> AIOMessageType \<Rightarrow> World \<Rightarrow> World res" where
  "add_write_request_msg e client_socket wrapper_msg msg_type w =
     (let (b, bsize) = serialize_msg_to_buf e wrapper_msg
      in add_write_request_buf e client_socket b bsize msg_type w)"

text \<open>
  The pattern every executor uses for its answer: the response is handed to the ring
  and the state is returned.
\<close>

definition respond ::
    "env \<Rightarrow> int \<Rightarrow> WrapperMessage \<Rightarrow> World \<Rightarrow> RaftState \<Rightarrow> (World \<times> RaftState) res" where
  "respond e client_socket m w st =
     mapE (\<lambda>w'. (w', st)) (add_write_request_msg e client_socket m NO_RESPONSE w)"

section \<open>What a call adds to the ring\<close>

text \<open>The entry a response leaves in the ring.\<close>

definition write_sqe :: "env \<Rightarrow> int \<Rightarrow> WrapperMessage \<Rightarrow> AIOMessageType \<Rightarrow> SQE" where
  "write_sqe e s m t =
     \<lparr>op = PrepWrite s (pb_serialize e m),
      user_data = \<lparr>fd = s, event_type = EVENT_WRITE, buf = pb_serialize e m,
        buf_size = int (length (pb_serialize e m)), message_type = t\<rparr>\<rparr>"

definition connect_sqe ::
    "env \<Rightarrow> int \<Rightarrow> string \<Rightarrow> int \<Rightarrow> WrapperMessage \<Rightarrow> AIOMessageType \<Rightarrow> SQE" where
  "connect_sqe e s ip port m t =
     \<lparr>op = PrepConnect s ip port,
      user_data = \<lparr>fd = s, event_type = EVENT_CONNECT, buf = pb_serialize e m,
        buf_size = int (length (pb_serialize e m)), message_type = t\<rparr>\<rparr>"

lemma add_write_request_msg_Inr:
  "add_write_request_msg e s m t w = Inr w' \<longleftrightarrow>
     0 \<le> submit_ret e (length (ring w)) \<and>
     w' = w\<lparr>ring := ring w @ [write_sqe e s m t], nonblocking := s # nonblocking w\<rparr>"
  by (auto simp: add_write_request_msg_def add_write_request_buf_def submit_def write_sqe_def
      serialize_msg_to_buf_def set_nonblocking_def set_timer_def Let_def)

lemma add_connect_request_Inr:
  "add_connect_request e ip port m t w = Inr w' \<longleftrightarrow>
     0 \<le> submit_ret e (length (ring w)) \<and>
     w' = w\<lparr>ring := ring w @ [connect_sqe e (socket_ret e (length (ring w))) ip port m t],
            nonblocking := socket_ret e (length (ring w)) # nonblocking w\<rparr>"
  by (auto simp: add_connect_request_def submit_def connect_sqe_def serialize_msg_to_buf_def
      set_nonblocking_def Let_def)

lemma respond_Inr:
  "respond e s m w st = Inr (w', st') \<longleftrightarrow>
     st' = st \<and> 0 \<le> submit_ret e (length (ring w)) \<and>
     w' = w\<lparr>ring := ring w @ [write_sqe e s m NO_RESPONSE], nonblocking := s # nonblocking w\<rparr>"
  by (auto simp: respond_def res_iff add_write_request_msg_Inr)

lemma respond_state: "respond e s m w st = Inr (w', st') \<Longrightarrow> st' = st"
  by (simp add: respond_Inr)

text \<open>The response that a submission to a working ring leaves behind.\<close>

definition answered :: "env \<Rightarrow> int \<Rightarrow> WrapperMessage \<Rightarrow> World \<Rightarrow> World" where
  "answered e s m w =
     w\<lparr>ring := ring w @ [write_sqe e s m NO_RESPONSE], nonblocking := s # nonblocking w\<rparr>"

lemma respond_answered: "submits_ok e \<Longrightarrow> respond e s m w st = Inr (answered e s m w, st)"
  by (simp add: respond_Inr submits_ok_def answered_def)

lemma ring_answered [simp]:
  "ring (answered e s m w) = ring w @ [write_sqe e s m NO_RESPONSE]"
  "files (answered e s m w) = files w" "closed (answered e s m w) = closed w"
  by (simp_all add: answered_def)

text \<open>The only failure of the layer is the fatal error of a refused submission.\<close>

definition no_ub :: "'a res \<Rightarrow> bool" where
  "no_ub m \<longleftrightarrow> (case m of Inr _ \<Rightarrow> True | Inl (FatalError _) \<Rightarrow> True | Inl _ \<Rightarrow> False)"

lemma no_ub_Inr [simp]: "no_ub (Inr x)" and no_ub_Fatal [simp]: "no_ub (Inl (FatalError s))"
  by (simp_all add: no_ub_def)

lemma no_ub_bindE: "no_ub m \<Longrightarrow> (\<And>x. m = Inr x \<Longrightarrow> no_ub (f x)) \<Longrightarrow> no_ub (bindE m f)"
  by (cases m) (auto simp: no_ub_def)

lemma no_ub_mapE [simp]: "no_ub (mapE f m) \<longleftrightarrow> no_ub m"
  by (cases m) (auto simp: no_ub_def)

lemma no_ub_submit [simp]: "no_ub (submit e x d w)"
  by (simp add: submit_def)

lemma no_ub_io [simp]:
  "no_ub (add_timeout_request e ms w)" "no_ub (add_accept_request e s w)"
  "no_ub (add_connect_request e ip port m t w)" "no_ub (add_read_request e s w)"
  "no_ub (add_write_request_buf e s b n t w)" "no_ub (add_write_request_msg e s m t w)"
  "no_ub (respond e s m w st)"
  by (simp_all add: add_timeout_request_def add_accept_request_def add_connect_request_def
      add_read_request_def add_write_request_buf_def add_write_request_msg_def respond_def
      serialize_msg_to_buf_def Let_def)

section \<open>What is added to the ring\<close>

text \<open>
  \<open>adds P w w'\<close>: the ring was only appended to, by requests that satisfy \<open>P\<close>.
\<close>

definition adds :: "(SQE \<Rightarrow> bool) \<Rightarrow> World \<Rightarrow> World \<Rightarrow> bool" where
  "adds P w w' \<longleftrightarrow> (\<exists>xs. ring w' = ring w @ xs \<and> list_all P xs)"

definition is_write :: "SQE \<Rightarrow> bool" where
  "is_write x \<longleftrightarrow> (case op x of PrepWrite _ _ \<Rightarrow> True | _ \<Rightarrow> False)"

definition is_timer :: "SQE \<Rightarrow> bool" where
  "is_timer x \<longleftrightarrow> (case op x of PrepTimeout _ _ \<Rightarrow> True | _ \<Rightarrow> False)"

definition is_accept :: "SQE \<Rightarrow> bool" where
  "is_accept x \<longleftrightarrow> (case op x of PrepAccept _ \<Rightarrow> True | _ \<Rightarrow> False)"

definition is_connect :: "SQE \<Rightarrow> bool" where
  "is_connect x \<longleftrightarrow> (case op x of PrepConnect _ _ _ \<Rightarrow> True | _ \<Rightarrow> False)"

lemmas sqe_kinds = is_write_def is_timer_def is_accept_def is_connect_def

lemma kinds_simps [simp]:
  "is_write \<lparr>op = x, user_data = d\<rparr> \<longleftrightarrow> (case x of PrepWrite _ _ \<Rightarrow> True | _ \<Rightarrow> False)"
  "is_timer \<lparr>op = x, user_data = d\<rparr> \<longleftrightarrow> (case x of PrepTimeout _ _ \<Rightarrow> True | _ \<Rightarrow> False)"
  "is_accept \<lparr>op = x, user_data = d\<rparr> \<longleftrightarrow> (case x of PrepAccept _ \<Rightarrow> True | _ \<Rightarrow> False)"
  "is_connect \<lparr>op = x, user_data = d\<rparr> \<longleftrightarrow> (case x of PrepConnect _ _ _ \<Rightarrow> True | _ \<Rightarrow> False)"
  by (simp_all add: sqe_kinds)

named_theorems ring_adds \<open>what an operation adds to the ring\<close>

lemma adds_refl [simp, intro]: "adds P w w"
  by (simp add: adds_def)

lemma adds_same: "ring w' = ring w \<Longrightarrow> adds P w w'"
  by (simp add: adds_def)

lemma adds_trans: "adds P a b \<Longrightarrow> adds P b c \<Longrightarrow> adds P a c"
  by (auto simp: adds_def)

lemma adds_mono: "adds P w w' \<Longrightarrow> (\<And>x. P x \<Longrightarrow> Q x) \<Longrightarrow> adds Q w w'"
  by (auto simp: adds_def list_all_iff)

lemma adds_either: "adds P a b \<Longrightarrow> adds Q b c \<Longrightarrow> adds (\<lambda>x. P x \<or> Q x) a c"
  by (auto simp: adds_def list_all_iff)

text \<open>How often a kind of request has been submitted, and that a step adds none of it.\<close>

definition submitted :: "(SQE \<Rightarrow> bool) \<Rightarrow> World \<Rightarrow> nat" where
  "submitted P w = length (filter P (ring w))"

lemma adds_submitted:
  "adds P w w' \<Longrightarrow> (\<And>x. P x \<Longrightarrow> \<not> Q x) \<Longrightarrow> submitted Q w' = submitted Q w"
  by (auto simp: adds_def submitted_def list_all_iff filter_empty_conv)

lemma submit_Inr:
  "submit e x d w = Inr w' \<longleftrightarrow> 0 \<le> submit_ret e (length (ring w)) \<and>
     w' = w\<lparr>ring := ring w @ [\<lparr>op = x, user_data = d\<rparr>]\<rparr>"
  by (auto simp: submit_def)

lemma respond_adds [ring_adds]: "respond e s m w st = Inr (w', st') \<Longrightarrow> adds is_write w w'"
  by (auto simp: respond_Inr adds_def write_sqe_def)

lemma submitted_simps [simp]:
  "submitted P (w\<lparr>ring := ring w @ xs\<rparr>) = submitted P w + length (filter P xs)"
  "submitted P (w\<lparr>nonblocking := ns\<rparr>) = submitted P w"
  "submitted P (w\<lparr>closed := ns\<rparr>) = submitted P w"
  by (simp_all add: submitted_def)

end
