(* ===== verification/Wire.thy ===== *)
theory Wire
  imports AsyncIO
begin

text \<open>
  An environment in which the hypotheses about the outside world hold: a concrete
  encoding of the wrapper message and its parser, the documented format function, a ring
  that accepts every request, and a disk that can be read and written. The properties
  are stated for every environment; the examples are computed in this one.
\<close>

section \<open>An encoding with an inverse\<close>

text \<open>
  Readers consume what the writer produced and leave the rest; that is the contract, and
  it is closed under lists.
\<close>

locale reader =
  fixes wr :: "'a \<Rightarrow> string" and rd :: "string \<Rightarrow> 'a \<times> string"
  assumes read_write: "rd (wr x @ r) = (x, r)"
begin

lemma whole: "fst (rd (wr x)) = x"
  using read_write [of x "[]"] by simp

end

definition write_int :: "int \<Rightarrow> string" where
  "write_int z = dec_int z @ '' ''"

definition read_int :: "string \<Rightarrow> int \<times> string" where
  "read_int s = (case scan_d s of None \<Rightarrow> (0, s) | Some (v, r) \<Rightarrow> (v, tl r))"

interpretation int_wire: reader write_int read_int
proof
  fix x r
  have "\<not> is_digit CHR '' ''" by (simp add: is_digit_def)
  then have "scan_d (dec_int x @ CHR '' '' # r) = Some (x, CHR '' '' # r)"
    by (intro scan_d_dec_int) auto
  then show "read_int (write_int x @ r) = (x, r)" by (simp add: read_int_def write_int_def)
qed

definition write_string :: "string \<Rightarrow> string" where
  "write_string s = write_int (int (length s)) @ s"

definition read_string :: "string \<Rightarrow> string \<times> string" where
  "read_string s = (let (n, r) = read_int s in (take (nat n) r, drop (nat n) r))"

interpretation string_wire: reader write_string read_string
  by unfold_locales (simp add: write_string_def read_string_def int_wire.read_write)

fun read_many :: "(string \<Rightarrow> 'a \<times> string) \<Rightarrow> nat \<Rightarrow> string \<Rightarrow> 'a list \<times> string" where
  "read_many rd 0 s = ([], s)"
| "read_many rd (Suc n) s = (let (x, r) = rd s; (xs, r') = read_many rd n r in (x # xs, r'))"

definition write_list :: "('a \<Rightarrow> string) \<Rightarrow> 'a list \<Rightarrow> string" where
  "write_list wr xs = write_int (int (length xs)) @ concat (map wr xs)"

definition read_list :: "(string \<Rightarrow> 'a \<times> string) \<Rightarrow> string \<Rightarrow> 'a list \<times> string" where
  "read_list rd s = (let (n, r) = read_int s in read_many rd (nat n) r)"

context reader
begin

lemma many: "read_many rd (length xs) (concat (map wr xs) @ r) = (xs, r)"
  by (induction xs) (simp_all add: read_write)

lemma list_wire: "reader (write_list wr) (read_list rd)"
  by unfold_locales (simp add: write_list_def read_list_def int_wire.read_write many)

end

interpretation ints_wire: reader "write_list write_int" "read_list read_int"
  by (rule int_wire.list_wire)

definition write_entry :: "Entry \<Rightarrow> string" where
  "write_entry en = write_int (ent_term en) @ write_int (ent_index en) @
     write_string (ent_command en) @ write_int (ent_id en)"

definition read_entry :: "string \<Rightarrow> Entry \<times> string" where
  "read_entry s =
     (let (t, s1) = read_int s; (i, s2) = read_int s1; (c, s3) = read_string s2; (d, s4) = read_int s3
      in (\<lparr>ent_term = t, ent_index = i, ent_command = c, ent_id = d\<rparr>, s4))"

interpretation entry_wire: reader write_entry read_entry
  by unfold_locales (simp add: write_entry_def read_entry_def int_wire.read_write string_wire.read_write)

interpretation entries_wire: reader "write_list write_entry" "read_list read_entry"
  by (rule entry_wire.list_wire)

section \<open>Messages as a tag, numbers and entries\<close>

fun phase_nums :: "CrossShardPhaseType \<Rightarrow> int list" where
  "phase_nums PREPARE = [0, 0]"
| "phase_nums COMMIT = [1, 0]"
| "phase_nums ABORT = [2, 0]"
| "phase_nums (UNKNOWN_PHASE i) = [3, i]"

definition nums_phase :: "int list \<Rightarrow> CrossShardPhaseType" where
  "nums_phase xs =
     (if xs ! 0 = 0 then PREPARE else if xs ! 0 = 1 then COMMIT
      else if xs ! 0 = 2 then ABORT else UNKNOWN_PHASE (xs ! 1))"

fun bool_num :: "bool \<Rightarrow> int" where
  "bool_num b = (if b then 1 else 0)"

fun result_num :: "CrossShardResultType \<Rightarrow> int" where
  "result_num YES = 0"
| "result_num NO = 1"
| "result_num ACK = 2"

fun flat :: "WrapperMessage \<Rightarrow> int \<times> int list \<times> Entry list" where
  "flat MESSAGE_TYPE_NOT_SET = (0, [], [])"
| "flat (Stop c s) = (1, [c, s], [])"
| "flat (Resume c s) = (2, [c, s], [])"
| "flat (Exit c s) = (3, [c, s], [])"
| "flat (MIntraShardReq m) =
     (4, [is_clusterId m, is_senderId m, is_receiverId m, is_amount m, is_id m], [])"
| "flat (MIntraShardRsp m) = (5, [bool_num (isr_result m = SUCCESS), isr_id m], [])"
| "flat (MCrossShardReq m) =
     (6, phase_nums (cs_phase m) @ [cs_senderClusterId m, cs_receiverClusterId m, cs_senderId m,
        cs_receiverId m, cs_amount m, cs_id m], [])"
| "flat (MCrossShardRsp m) = (7, [result_num (csr_result m), csr_id m], [])"
| "flat (MAppendEntriesReq m) =
     (8, [ae_term m, ae_leaderId m, ae_prevLogIndex m, ae_prevLogTerm m, ae_commitIndex m,
        ae_serverId m], ae_entries m)"
| "flat (MAppendEntriesRsp m) = (9, [aer_term m, bool_num (aer_success m), aer_serverId m], [])"
| "flat (MRequestVoteReq m) =
     (10, [rv_candidateId m, rv_term m, rv_lastLogIndex m, rv_lastLogTerm m], [])"
| "flat (MRequestVoteRsp m) = (11, [rvr_term m, bool_num (rvr_voteGranted m)], [])"
| "flat (MPrintBalanceReq m) = (12, [pb_clusterId m, pb_serverId m, pb_dataItemID m], [])"
| "flat (MPrintBalanceRsp m) =
     (13, [pbr_clusterId m, pbr_serverId m, pbr_dataItemID m, pbr_balance m], [])"
| "flat (MPrintDatastoreReq m) = (14, [pd_clusterId m, pd_serverId m], [])"
| "flat (MPrintDatastoreRsp m) = (15, [pdr_clusterId m, pdr_serverId m], pdr_entries m)"

definition unflat :: "int \<Rightarrow> int list \<Rightarrow> Entry list \<Rightarrow> WrapperMessage" where
  "unflat t xs es =
     (if t = 1 then Stop (xs ! 0) (xs ! 1)
      else if t = 2 then Resume (xs ! 0) (xs ! 1)
      else if t = 3 then Exit (xs ! 0) (xs ! 1)
      else if t = 4 then MIntraShardReq \<lparr>is_clusterId = xs ! 0, is_senderId = xs ! 1,
        is_receiverId = xs ! 2, is_amount = xs ! 3, is_id = xs ! 4\<rparr>
      else if t = 5 then MIntraShardRsp
        \<lparr>isr_result = (if xs ! 0 = 1 then SUCCESS else FAIL), isr_id = xs ! 1\<rparr>
      else if t = 6 then MCrossShardReq \<lparr>cs_phase = nums_phase xs, cs_senderClusterId = xs ! 2,
        cs_receiverClusterId = xs ! 3, cs_senderId = xs ! 4, cs_receiverId = xs ! 5,
        cs_amount = xs ! 6, cs_id = xs ! 7\<rparr>
      else if t = 7 then MCrossShardRsp
        \<lparr>csr_result = (if xs ! 0 = 0 then YES else if xs ! 0 = 1 then NO else ACK), csr_id = xs ! 1\<rparr>
      else if t = 8 then MAppendEntriesReq \<lparr>ae_term = xs ! 0, ae_leaderId = xs ! 1,
        ae_prevLogIndex = xs ! 2, ae_prevLogTerm = xs ! 3, ae_entries = es,
        ae_commitIndex = xs ! 4, ae_serverId = xs ! 5\<rparr>
      else if t = 9 then MAppendEntriesRsp
        \<lparr>aer_term = xs ! 0, aer_success = (xs ! 1 = 1), aer_serverId = xs ! 2\<rparr>
      else if t = 10 then MRequestVoteReq \<lparr>rv_candidateId = xs ! 0, rv_term = xs ! 1,
        rv_lastLogIndex = xs ! 2, rv_lastLogTerm = xs ! 3\<rparr>
      else if t = 11 then MRequestVoteRsp \<lparr>rvr_term = xs ! 0, rvr_voteGranted = (xs ! 1 = 1)\<rparr>
      else if t = 12 then MPrintBalanceReq
        \<lparr>pb_clusterId = xs ! 0, pb_serverId = xs ! 1, pb_dataItemID = xs ! 2\<rparr>
      else if t = 13 then MPrintBalanceRsp \<lparr>pbr_clusterId = xs ! 0, pbr_serverId = xs ! 1,
        pbr_dataItemID = xs ! 2, pbr_balance = xs ! 3\<rparr>
      else if t = 14 then MPrintDatastoreReq \<lparr>pd_clusterId = xs ! 0, pd_serverId = xs ! 1\<rparr>
      else if t = 15 then MPrintDatastoreRsp
        \<lparr>pdr_clusterId = xs ! 0, pdr_serverId = xs ! 1, pdr_entries = es\<rparr>
      else MESSAGE_TYPE_NOT_SET)"

lemma nums_phase_phase: "nums_phase (phase_nums p @ xs) = p"
  by (cases p) (simp_all add: nums_phase_def)

lemma phase_nums_tail: "phase_nums p = [a, b] \<Longrightarrow> (phase_nums p @ xs) ! Suc (Suc n) = xs ! n"
  by simp

lemma unflat_flat: "(case flat m of (t, xs, es) \<Rightarrow> unflat t xs es) = m"
proof (cases m)
  case (MCrossShardReq r)
  then show ?thesis
    by (cases r; cases "cs_phase r") (simp_all add: unflat_def nums_phase_def)
next
  case (MIntraShardRsp r)
  then show ?thesis by (cases r; cases "isr_result r") (simp_all add: unflat_def)
next
  case (MCrossShardRsp r)
  then show ?thesis by (cases r; cases "csr_result r") (simp_all add: unflat_def)
qed (simp_all add: unflat_def)

definition encode :: "WrapperMessage \<Rightarrow> string" where
  "encode m = (case flat m of (t, xs, es) \<Rightarrow>
     write_int t @ write_list write_int xs @ write_list write_entry es)"

definition decode :: "string \<Rightarrow> WrapperMessage" where
  "decode s =
     (let (t, s1) = read_int s; (xs, s2) = read_list read_int s1; (es, s3) = read_list read_entry s2
      in unflat t xs es)"

lemma decode_encode: "decode (encode m) = m"
  using unflat_flat [of m] entries_wire.read_write [of _ "[]"]
  by (cases "flat m")
     (simp add: encode_def decode_def int_wire.read_write ints_wire.read_write)

section \<open>The environment\<close>

definition env0 :: env where
  "env0 =
     \<lparr> pb_serialize = encode, pb_parse = decode, fmt_format = fill, queue_init_ret = 0,
       submit_ret = (\<lambda>n. 1), socket_ret = (\<lambda>n. 10 + int n), listen_socket_ret = 3,
       setsockopt_ret = 0, bind_ret = (\<lambda>p. 0), listen_ret = 0, data_shard_base = ''data'',
       fstat_ok = True, read_ret = (\<lambda>n. n), ftruncate_ok = True, write_ok = (\<lambda>n. True),
       double_to_int = (\<lambda>d. - 2147483648) \<rparr>"

lemma env0_documented [simp]: "pb_documented env0" "fmt_documented env0" "submits_ok env0"
  by (simp_all add: env0_def pb_documented_def fmt_documented_def submits_ok_def decode_encode)

lemma env0_simps [simp]:
  "pb_parse env0 (pb_serialize env0 m) = m" "fmt_format env0 = fill" "queue_init_ret env0 = 0"
  "submit_ret env0 n = 1" "socket_ret env0 n = 10 + int n"
  by (simp_all add: env0_def decode_encode)

definition empty_world :: World where
  "empty_world = \<lparr>ring = [], message_timeout_ms = 1000, nonblocking = [], closed = [], files = Map.empty\<rparr>"

definition blank :: RaftState where
  "blank = RaftState_init 0 0"

end
