(* ===== verification/Json_Value.thy ===== *)
theory Json_Value
  imports Cstdlib "HOL-Library.Char_ord" "HOL-Library.List_Lexorder"
begin

text \<open>
  Values of the JSON library (\<open>server/include/nlohmann/json.hpp\<close>): the exceptions with
  their messages, the value type \<open>basic_json\<close> with its two operators \<open>[]\<close>, \<open>at\<close>, the
  conversions to \<open>int\<close> and \<open>std::string\<close> that the program uses, and the comparison
  operators. An object is a \<open>std::map\<close>: the list of its pairs in the order of the keys,
  which is that of unsigned characters.
\<close>

section \<open>Exceptions\<close>

text \<open>The classes of exceptions that carry a number; \<open>byte\<close> is a member of \<open>parse_error\<close>.\<close>

datatype json_exception =
    Parse_error int nat string
  | Invalid_iterator int string
  | Type_error int string
  | Out_of_range int string
  | Other_error int string

fun ex_id :: "json_exception \<Rightarrow> int" where
  "ex_id (Parse_error i b w) = i"
| "ex_id (Invalid_iterator i w) = i"
| "ex_id (Type_error i w) = i"
| "ex_id (Out_of_range i w) = i"
| "ex_id (Other_error i w) = i"

fun what :: "json_exception \<Rightarrow> string" where
  "what (Parse_error i b w) = w"
| "what (Invalid_iterator i w) = w"
| "what (Type_error i w) = w"
| "what (Out_of_range i w) = w"
| "what (Other_error i w) = w"

text \<open>
  How a call of the library ends without a value: with an exception, at an \<open>assert\<close> that
  does not hold, or in behaviour the language does not define.
\<close>

datatype json_fail =
    Throw json_exception
  | Assertion
  | Undefined

type_synonym 'a jres = "json_fail + 'a"

record position_t =
  chars_read_total :: nat
  chars_read_current_line :: nat
  lines_read :: nat

definition exception_name :: "string \<Rightarrow> int \<Rightarrow> string" where
  "exception_name ename i = ''[json.exception.'' @ ename @ ''.'' @ dec_int i @ ''] ''"

definition position_string :: "position_t \<Rightarrow> string" where
  "position_string pos =
     '' at line '' @ dec_int (int (lines_read pos) + 1) @
     '', column '' @ dec_int (int (chars_read_current_line pos))"

definition parse_error_create :: "int \<Rightarrow> position_t \<Rightarrow> string \<Rightarrow> json_exception" where
  "parse_error_create i pos what_arg =
     Parse_error i (chars_read_total pos)
       (exception_name ''parse_error'' i @ ''parse error'' @ position_string pos @ '': '' @ what_arg)"

definition parse_error_at :: "int \<Rightarrow> nat \<Rightarrow> string \<Rightarrow> json_exception" where
  "parse_error_at i byte what_arg =
     Parse_error i byte (exception_name ''parse_error'' i @ ''parse error'' @
       (if byte \<noteq> 0 then '' at byte '' @ dec_int (int byte) else []) @ '': '' @ what_arg)"

definition type_error_create :: "int \<Rightarrow> string \<Rightarrow> json_exception" where
  "type_error_create i what_arg = Type_error i (exception_name ''type_error'' i @ what_arg)"

definition out_of_range_create :: "int \<Rightarrow> string \<Rightarrow> json_exception" where
  "out_of_range_create i what_arg = Out_of_range i (exception_name ''out_of_range'' i @ what_arg)"

definition other_error_create :: "int \<Rightarrow> string \<Rightarrow> json_exception" where
  "other_error_create i what_arg = Other_error i (exception_name ''other_error'' i @ what_arg)"

lemma ex_id_create [simp]:
  "ex_id (parse_error_create i pos s) = i"
  "ex_id (type_error_create i s) = i"
  "ex_id (out_of_range_create i s) = i"
  "ex_id (parse_error_at i byte s) = i"
  by (simp_all add: parse_error_create_def parse_error_at_def type_error_create_def out_of_range_create_def)

section \<open>Types and values\<close>

datatype value_t =
    V_null | V_object | V_array | V_string | V_boolean
  | V_number_integer | V_number_unsigned | V_number_float | V_discarded

datatype json =
    JNull
  | JObject "(string \<times> json) list"
  | JArray "json list"
  | JString string
  | JBoolean bool
  | JInteger int
  | JUnsigned int
  | JFloat double
  | JDiscarded

fun m_type :: "json \<Rightarrow> value_t" where
  "m_type JNull = V_null"
| "m_type (JObject m) = V_object"
| "m_type (JArray a) = V_array"
| "m_type (JString s) = V_string"
| "m_type (JBoolean b) = V_boolean"
| "m_type (JInteger i) = V_number_integer"
| "m_type (JUnsigned i) = V_number_unsigned"
| "m_type (JFloat d) = V_number_float"
| "m_type JDiscarded = V_discarded"

text \<open>The position of a type in the table of \<open>operator<\<close> on types; \<open>discarded\<close> is not in it.\<close>

fun type_order :: "value_t \<Rightarrow> nat option" where
  "type_order V_null = Some 0"
| "type_order V_object = Some 3"
| "type_order V_array = Some 4"
| "type_order V_string = Some 5"
| "type_order V_boolean = Some 1"
| "type_order V_number_integer = Some 2"
| "type_order V_number_unsigned = Some 2"
| "type_order V_number_float = Some 2"
| "type_order V_discarded = None"

definition type_less :: "value_t \<Rightarrow> value_t \<Rightarrow> bool" where
  "type_less l r =
     (case (type_order l, type_order r) of (Some a, Some b) \<Rightarrow> a < b | _ \<Rightarrow> False)"

fun type_name :: "value_t \<Rightarrow> string" where
  "type_name V_null = ''null''"
| "type_name V_object = ''object''"
| "type_name V_array = ''array''"
| "type_name V_string = ''string''"
| "type_name V_boolean = ''boolean''"
| "type_name V_discarded = ''discarded''"
| "type_name V_number_integer = ''number''"
| "type_name V_number_unsigned = ''number''"
| "type_name V_number_float = ''number''"

text \<open>The value a \<open>basic_json\<close> gets when it is constructed from a type.\<close>

fun json_of_type :: "value_t \<Rightarrow> json" where
  "json_of_type V_object = JObject []"
| "json_of_type V_array = JArray []"
| "json_of_type V_string = JString []"
| "json_of_type V_boolean = JBoolean False"
| "json_of_type V_number_integer = JInteger 0"
| "json_of_type V_number_unsigned = JUnsigned 0"
| "json_of_type V_number_float = JFloat 0"
| "json_of_type V_null = JNull"
| "json_of_type V_discarded = JDiscarded"

section \<open>Objects\<close>

text \<open>\<open>std::map\<close>: \<open>obj_set k v\<close> is \<open>m[k] = v\<close>; a new key is inserted at its place.\<close>

fun obj_set :: "string \<Rightarrow> 'v \<Rightarrow> (string \<times> 'v) list \<Rightarrow> (string \<times> 'v) list" where
  "obj_set k v [] = [(k, v)]"
| "obj_set k v ((k', v') # m) =
     (if k = k' then (k, v) # m
      else if k < k' then (k, v) # (k', v') # m
      else (k', v') # obj_set k v m)"

abbreviation sorted_keys :: "(string \<times> 'v) list \<Rightarrow> bool" where
  "sorted_keys m \<equiv> sorted_wrt (<) (map fst m)"

lemma obj_set_lookup [simp]: "map_of (obj_set k v m) k' = (if k' = k then Some v else map_of m k')"
  by (induction m) auto

lemma set_obj_set: "fst ` set (obj_set k v m) = insert k (fst ` set m)"
proof (induction m)
  case (Cons p m)
  then show ?case by (cases p) (simp add: insert_commute)
qed simp

lemma sorted_obj_set [simp]: "sorted_keys m \<Longrightarrow> sorted_keys (obj_set k v m)"
proof (induction m)
  case (Cons p m)
  obtain k' v' where p: "p = (k', v')" by fastforce
  have "\<forall>x \<in> fst ` set (obj_set k v m). k' < x" if "k' < k"
    using Cons.prems that by (auto simp: p set_obj_set)
  then show ?case using Cons by (auto simp: p not_less_iff_gr_or_eq)
qed simp

text \<open>A key above all others goes to the end, and a value that is there is replaced.\<close>

lemma obj_set_append: "\<forall>x \<in> fst ` set m. x < k \<Longrightarrow> obj_set k v m = m @ [(k, v)]"
  by (induction m) (auto simp: less_le_not_le)

lemma obj_set_snoc: "k \<notin> fst ` set m \<Longrightarrow> sorted_keys (m @ [(k, v)]) \<Longrightarrow>
    obj_set k v' (m @ [(k, v)]) = m @ [(k, v')]"
  by (induction m) (auto simp: sorted_wrt_append)

lemma obj_set_twice [simp]: "obj_set k v (obj_set k v' m) = obj_set k v m"
  by (induction m) auto

lemma obj_set_same: "map_of m k = Some v \<Longrightarrow> sorted_keys m \<Longrightarrow> obj_set k v m = m"
proof (induction m)
  case (Cons p m)
  obtain k' v' where p: "p = (k', v')" by fastforce
  show ?case
  proof (cases "k = k'")
    case False
    then have "map_of m k = Some v" using Cons.prems by (simp add: p)
    then have "(k, v) \<in> set m" by (rule map_of_SomeD)
    then have "k \<in> fst ` set m" by force
    then have "k' < k" using Cons.prems by (auto simp: p)
    then show ?thesis using Cons False by (auto simp: p)
  qed (use Cons.prems in \<open>simp add: p\<close>)
qed simp

section \<open>Access\<close>

fun json_empty :: "json \<Rightarrow> bool" where
  "json_empty JNull = True"
| "json_empty (JArray a) = (a = [])"
| "json_empty (JObject m) = (m = [])"
| "json_empty j = False"

fun json_size :: "json \<Rightarrow> nat" where
  "json_size JNull = 0"
| "json_size (JArray a) = length a"
| "json_size (JObject m) = length m"
| "json_size j = 1"

text \<open>
  The two operators \<open>[]\<close> of a value that is not \<open>const\<close>: the value afterwards and the element
  the reference stands for. \<open>null\<close> becomes an empty container, a missing element is filled in
  as \<open>null\<close>.
\<close>

definition index_at :: "json \<Rightarrow> nat \<Rightarrow> (json \<times> json) jres" where
  "index_at j idx =
     (case (if j = JNull then JArray [] else j) of
        JArray a \<Rightarrow>
          (let a' = (if length a \<le> idx then a @ replicate (idx - length a + 1) JNull else a)
           in Inr (JArray a', a' ! idx))
      | _ \<Rightarrow> Inl (Throw (type_error_create 305
               (''cannot use operator[] with a numeric argument with '' @ type_name (m_type j)))))"

definition index_key :: "json \<Rightarrow> string \<Rightarrow> (json \<times> json) jres" where
  "index_key j key =
     (case (if j = JNull then JObject [] else j) of
        JObject m \<Rightarrow>
          (case map_of m key of
             Some v \<Rightarrow> Inr (JObject m, v)
           | None \<Rightarrow> Inr (JObject (obj_set key JNull m), JNull))
      | _ \<Rightarrow> Inl (Throw (type_error_create 305
               (''cannot use operator[] with a string argument with '' @ type_name (m_type j)))))"

definition json_at :: "json \<Rightarrow> nat \<Rightarrow> json jres" where
  "json_at j idx =
     (case j of
        JArray a \<Rightarrow>
          (if idx < length a then Inr (a ! idx)
           else Inl (Throw (out_of_range_create 401
                  (''array index '' @ dec_int (int idx) @ '' is out of range''))))
      | _ \<Rightarrow> Inl (Throw (type_error_create 304 (''cannot use at() with '' @ type_name (m_type j)))))"

definition json_at_key :: "json \<Rightarrow> string \<Rightarrow> json jres" where
  "json_at_key j key =
     (case j of
        JObject m \<Rightarrow>
          (case map_of m key of
             Some v \<Rightarrow> Inr v
           | None \<Rightarrow> Inl (Throw (out_of_range_create 403 (''key '' @ [CHR 0x27] @ key @ [CHR 0x27] @ '' not found''))))
      | _ \<Rightarrow> Inl (Throw (type_error_create 304 (''cannot use at() with '' @ type_name (m_type j)))))"

lemma index_at_in: "i < length a \<Longrightarrow> index_at (JArray a) i = Inr (JArray a, a ! i)"
  by (simp add: index_at_def)

lemma index_key_found: "map_of m k = Some v \<Longrightarrow> index_key (JObject m) k = Inr (JObject m, v)"
  by (simp add: index_key_def)

section \<open>Conversions\<close>

text \<open>\<open>from_json\<close> to \<open>int\<close>: the overload for arithmetic types other than the library's own.\<close>

definition from_json_int :: "(double \<Rightarrow> int) \<Rightarrow> json \<Rightarrow> int jres" where
  "from_json_int ub j =
     (case j of
        JUnsigned i \<Rightarrow> Inr (wrap32 i)
      | JInteger i \<Rightarrow> Inr (wrap32 i)
      | JFloat d \<Rightarrow> Inr (int_of_double ub d)
      | JBoolean b \<Rightarrow> Inr (if b then 1 else 0)
      | _ \<Rightarrow> Inl (Throw (type_error_create 302
               (''type must be number, but is '' @ type_name (m_type j)))))"

definition from_json_string :: "json \<Rightarrow> string jres" where
  "from_json_string j =
     (case j of
        JString s \<Rightarrow> Inr s
      | _ \<Rightarrow> Inl (Throw (type_error_create 302
               (''type must be string, but is '' @ type_name (m_type j)))))"

text \<open>The failures of access and conversion are exceptions.\<close>

lemma index_key_throws: "index_key j key = Inl err \<Longrightarrow> \<exists>ex. err = Throw ex"
  by (cases j) (auto simp: index_key_def split: option.splits)

lemma index_at_throws: "index_at j i = Inl err \<Longrightarrow> \<exists>ex. err = Throw ex"
  by (cases j) (auto simp: index_at_def Let_def)

lemma from_json_string_throws: "from_json_string j = Inl err \<Longrightarrow> \<exists>ex. err = Throw ex"
  by (cases j) (auto simp: from_json_string_def)

lemma from_json_int_throws: "from_json_int ub j = Inl err \<Longrightarrow> \<exists>ex. err = Throw ex"
  by (cases j) (auto simp: from_json_int_def)

section \<open>Comparison\<close>

text \<open>\<open>static_cast\<close> to \<open>double\<close> of a 64-bit integer, and of an unsigned one to a signed one.\<close>

definition double_of_int :: "int \<Rightarrow> double" where
  "double_of_int i = double_of_decimal (i < 0) \<bar>i\<bar> 0"

definition wrap64 :: "int \<Rightarrow> int" where
  "wrap64 x = (x + 9223372036854775808) mod 18446744073709551616 - 9223372036854775808"

lemma wrap64_id [simp]: "in64 x \<Longrightarrow> wrap64 x = x"
  by (simp add: wrap64_def in64_def)

text \<open>
  \<open>==\<close> and \<open><\<close> of doubles on their bits: a number that is not finite with a fraction is no
  number and compares to nothing; both zeros are equal; otherwise numbers of one sign are
  ordered as their remaining bits.
\<close>

definition double_nan :: "double \<Rightarrow> bool" where
  "double_nan d \<longleftrightarrow> double_exp d = 2047 \<and> double_frac d \<noteq> 0"

definition double_key :: "double \<Rightarrow> int" where
  "double_key d = (let m = uint (take_bit 63 d) in if double_neg d then - m else m)"

definition double_eq :: "double \<Rightarrow> double \<Rightarrow> bool" where
  "double_eq a b \<longleftrightarrow> \<not> double_nan a \<and> \<not> double_nan b \<and> double_key a = double_key b"

definition double_less :: "double \<Rightarrow> double \<Rightarrow> bool" where
  "double_less a b \<longleftrightarrow> \<not> double_nan a \<and> \<not> double_nan b \<and> double_key a < double_key b"

fun json_eq :: "json \<Rightarrow> json \<Rightarrow> bool" where
  "json_eq (JArray a) (JArray b) = list_all2 json_eq a b"
| "json_eq (JObject a) (JObject b) =
     list_all2 (\<lambda>p q. fst p = fst q \<and> json_eq (snd p) (snd q)) a b"
| "json_eq JNull JNull = True"
| "json_eq (JString s) (JString t) = (s = t)"
| "json_eq (JBoolean s) (JBoolean t) = (s = t)"
| "json_eq (JInteger i) (JInteger k) = (i = k)"
| "json_eq (JUnsigned i) (JUnsigned k) = (i = k)"
| "json_eq (JFloat d) (JFloat e) = double_eq d e"
| "json_eq (JInteger i) (JFloat e) = double_eq (double_of_int i) e"
| "json_eq (JFloat d) (JInteger k) = double_eq d (double_of_int k)"
| "json_eq (JUnsigned i) (JFloat e) = double_eq (double_of_int i) e"
| "json_eq (JFloat d) (JUnsigned k) = double_eq d (double_of_int k)"
| "json_eq (JUnsigned i) (JInteger k) = (wrap64 i = k)"
| "json_eq (JInteger i) (JUnsigned k) = (i = wrap64 k)"
| "json_eq _ _ = False"

end
