(* ===== verification/Json_Lexer.thy ===== *)
theory Json_Lexer
  imports Json_Value
begin

unbundle bit_operations_syntax

text \<open>
  The lexer of the JSON library: characters with one place of look-back (\<open>get\<close>, \<open>unget\<close>),
  the scanners of strings, numbers and literals, and \<open>scan\<close>. A character is an \<open>int\<close>, the
  byte as an unsigned number or \<open>EOF\<close>. The lemmas say how much of the input a scan consumes,
  which makes the loops terminate, and which tokens leave which value.
\<close>

section \<open>Tokens and state\<close>

datatype token_type =
    Uninitialized | Literal_true | Literal_false | Literal_null | Value_string
  | Value_unsigned | Value_integer | Value_float | Begin_array | Begin_object
  | End_array | End_object | Name_separator | Value_separator | Token_error
  | End_of_input | Literal_or_value

fun token_type_name :: "token_type \<Rightarrow> string" where
  "token_type_name Uninitialized = ''<uninitialized>''"
| "token_type_name Literal_true = ''true literal''"
| "token_type_name Literal_false = ''false literal''"
| "token_type_name Literal_null = ''null literal''"
| "token_type_name Value_string = ''string literal''"
| "token_type_name Value_unsigned = ''number literal''"
| "token_type_name Value_integer = ''number literal''"
| "token_type_name Value_float = ''number literal''"
| "token_type_name Begin_array = [CHR 0x27, CHR ''['', CHR 0x27]"
| "token_type_name Begin_object = [CHR 0x27, CHR ''{'', CHR 0x27]"
| "token_type_name End_array = [CHR 0x27, CHR '']'', CHR 0x27]"
| "token_type_name End_object = [CHR 0x27, CHR ''}'', CHR 0x27]"
| "token_type_name Name_separator = [CHR 0x27, CHR '':'', CHR 0x27]"
| "token_type_name Value_separator = [CHR 0x27, CHR '','', CHR 0x27]"
| "token_type_name Token_error = ''<parse error>''"
| "token_type_name End_of_input = ''end of input''"
| "token_type_name Literal_or_value =
     [CHR 0x27, CHR ''['', CHR 0x27] @ '', '' @ [CHR 0x27, CHR ''{'', CHR 0x27] @ '', or a literal''"

text \<open>
  The input adapter of a buffer is what is left between its cursor and its limit. \<open>asserts_hold\<close> is
  no field of the code: it says that no \<open>assert\<close> of the lexer has failed so far. The operations go on after
  an assertion that fails; the parser turns the flag into the failure \<open>Assertion\<close> before it does anything
  that can be seen.
\<close>

record lexer =
  ia :: string
  current :: int
  next_unget :: bool
  position :: position_t
  token_string :: string
  token_buffer :: string
  lexer_error :: string
  value_integer :: int
  value_unsigned :: int
  value_float :: double
  asserts_hold :: bool

abbreviation EOF :: int where "EOF \<equiv> - 1"

abbreviation ord :: "char \<Rightarrow> int" where "ord c \<equiv> of_char c"

definition position_zero :: position_t where
  "position_zero = \<lparr> chars_read_total = 0, chars_read_current_line = 0, lines_read = 0 \<rparr>"

definition lexer_init :: "string \<Rightarrow> lexer" where
  "lexer_init input =
     \<lparr> ia = input, current = EOF, next_unget = False, position = position_zero,
       token_string = [], token_buffer = [], lexer_error = [],
       value_integer = 0, value_unsigned = 0, value_float = 0, asserts_hold = True \<rparr>"

definition assert_that :: "bool \<Rightarrow> lexer \<Rightarrow> lexer" where
  "assert_that P lx = lx\<lparr> asserts_hold := asserts_hold lx \<and> P \<rparr>"

lemma assert_that_fields [simp]:
  "ia (assert_that P lx) = ia lx" "current (assert_that P lx) = current lx"
  "next_unget (assert_that P lx) = next_unget lx" "position (assert_that P lx) = position lx"
  "token_string (assert_that P lx) = token_string lx" "token_buffer (assert_that P lx) = token_buffer lx"
  "lexer_error (assert_that P lx) = lexer_error lx" "value_integer (assert_that P lx) = value_integer lx"
  "value_unsigned (assert_that P lx) = value_unsigned lx" "value_float (assert_that P lx) = value_float lx"
  "asserts_hold (assert_that P lx) \<longleftrightarrow> asserts_hold lx \<and> P"
  by (simp_all add: assert_that_def)

lemma assert_that_True [simp]: "assert_that True lx = lx"
  by (simp add: assert_that_def)

definition get_character :: "string \<Rightarrow> int \<times> string" where
  "get_character s = (case s of [] \<Rightarrow> (EOF, []) | c # cs \<Rightarrow> (ord c, cs))"

section \<open>Input management\<close>

definition reset :: "lexer \<Rightarrow> lexer" where
  "reset lx = lx\<lparr> token_buffer := [], token_string := [char_of (current lx)] \<rparr>"

lemma reset_fields [simp]: "current (reset lx) = current lx" "asserts_hold (reset lx) = asserts_hold lx"
  by (simp_all add: reset_def)

definition get_input :: "lexer \<Rightarrow> lexer" where
  "get_input lx =
     (if next_unget lx then lx\<lparr> next_unget := False \<rparr>
      else lx\<lparr> current := fst (get_character (ia lx)), ia := snd (get_character (ia lx)) \<rparr>)"

definition get :: "lexer \<Rightarrow> lexer" where
  "get lx =
     (let pos = position lx;
          total = chars_read_total pos + 1;
          column = chars_read_current_line pos + 1;
          lx1 = get_input lx;
          lx2 = (if current lx1 \<noteq> EOF
                 then lx1\<lparr> token_string := token_string lx1 @ [char_of (current lx1)] \<rparr> else lx1)
      in lx2\<lparr> position :=
           (if current lx2 = ord CHR 0x0A
            then \<lparr> chars_read_total = total, chars_read_current_line = 0,
                   lines_read = lines_read pos + 1 \<rparr>
            else \<lparr> chars_read_total = total, chars_read_current_line = column,
                   lines_read = lines_read pos \<rparr>) \<rparr>)"

definition unget :: "lexer \<Rightarrow> lexer" where
  "unget lx =
     (let pos = position lx;
          pos' = (if chars_read_current_line pos = 0
                  then (if 0 < lines_read pos then pos\<lparr> lines_read := lines_read pos - 1 \<rparr> else pos)
                  else pos\<lparr> chars_read_current_line := chars_read_current_line pos - 1 \<rparr>)
      in assert_that (current lx \<noteq> EOF \<longrightarrow> token_string lx \<noteq> [])
           (lx\<lparr> next_unget := True,
               position := pos'\<lparr> chars_read_total := chars_read_total pos - 1 \<rparr>,
               token_string := (if current lx \<noteq> EOF then butlast (token_string lx) else token_string lx) \<rparr>))"

definition add :: "int \<Rightarrow> lexer \<Rightarrow> lexer" where
  "add c lx = lx\<lparr> token_buffer := token_buffer lx @ [char_of c] \<rparr>"

definition token_error :: "string \<Rightarrow> lexer \<Rightarrow> lexer + lexer" where
  "token_error msg lx = Inl (lx\<lparr> lexer_error := msg \<rparr>)"

text \<open>Control characters of the last token as \<open><U+XXXX>\<close>, for error messages.\<close>

definition hex_digit :: "int \<Rightarrow> char" where
  "hex_digit n = (if n < 10 then char_of (48 + n) else char_of (55 + n))"

definition get_token_string :: "lexer \<Rightarrow> string" where
  "get_token_string lx =
     concat (map (\<lambda>c. if ord c \<le> 31
                      then ''<U+00'' @ [hex_digit (ord c div 16), hex_digit (ord c mod 16)] @ ''>''
                      else [c]) (token_string lx))"

section \<open>Strings\<close>

text \<open>
  The four digits after an escaped \<open>u\<close>: the code point, or -1 at the first character that is
  no hexadecimal digit.
\<close>

definition hex_value :: "int \<Rightarrow> int option" where
  "hex_value c =
     (if ord CHR ''0'' \<le> c \<and> c \<le> ord CHR ''9'' then Some (c - 48)
      else if ord CHR ''A'' \<le> c \<and> c \<le> ord CHR ''F'' then Some (c - 55)
      else if ord CHR ''a'' \<le> c \<and> c \<le> ord CHR ''f'' then Some (c - 87)
      else None)"

fun get_codepoint_loop :: "nat list \<Rightarrow> int \<Rightarrow> lexer \<Rightarrow> int \<times> lexer" where
  "get_codepoint_loop [] codepoint lx = (codepoint, lx)"
| "get_codepoint_loop (factor # factors) codepoint lx =
     (let lx1 = get lx in
      case hex_value (current lx1) of
        Some v \<Rightarrow> get_codepoint_loop factors (codepoint + push_bit factor v) lx1
      | None \<Rightarrow> (- 1, lx1))"

definition get_codepoint :: "lexer \<Rightarrow> int \<times> lexer" where
  "get_codepoint lx =
     (let (codepoint, lx1) = get_codepoint_loop [12, 8, 4, 0] 0 (assert_that (current lx = ord CHR ''u'') lx)
      in (codepoint, if codepoint = - 1 then lx1 else assert_that (0 \<le> codepoint \<and> codepoint \<le> 0xFFFF) lx1))"

text \<open>The continuation bytes of a multi-byte character, each with its bounds.\<close>

fun next_bytes :: "(int \<times> int) list \<Rightarrow> lexer \<Rightarrow> lexer + lexer" where
  "next_bytes [] lx = Inr lx"
| "next_bytes ((lo, hi) # ranges) lx =
     (let lx1 = get lx in
      if lo \<le> current lx1 \<and> current lx1 \<le> hi then next_bytes ranges (add (current lx1) lx1)
      else token_error ''invalid string: ill-formed UTF-8 byte'' lx1)"

definition next_byte_in_range :: "(int \<times> int) list \<Rightarrow> lexer \<Rightarrow> lexer + lexer" where
  "next_byte_in_range ranges lx =
     next_bytes ranges (add (current lx) (assert_that (2 * length ranges \<in> {2, 4, 6}) lx))"

text \<open>The bytes of a code point.\<close>

definition utf8_bytes :: "int \<Rightarrow> int list" where
  "utf8_bytes cp =
     (if cp < 0x80 then [cp]
      else if cp \<le> 0x7FF then [0xC0 OR drop_bit 6 cp, 0x80 OR (cp AND 0x3F)]
      else if cp \<le> 0xFFFF then
        [0xE0 OR drop_bit 12 cp, 0x80 OR (drop_bit 6 cp AND 0x3F), 0x80 OR (cp AND 0x3F)]
      else
        [0xF0 OR drop_bit 18 cp, 0x80 OR (drop_bit 12 cp AND 0x3F),
         0x80 OR (drop_bit 6 cp AND 0x3F), 0x80 OR (cp AND 0x3F)])"

definition add_codepoint :: "int \<Rightarrow> lexer \<Rightarrow> lexer" where
  "add_codepoint cp lx = fold add (utf8_bytes cp) (assert_that (0 \<le> cp \<and> cp \<le> 0x10FFFF) lx)"

definition hex_message :: string where
  "hex_message = ''invalid string: '' @ [CHR 0x27, CHR 0x5C] @ ''u'' @ [CHR 0x27] @ '' must be followed by 4 hex digits''"

definition surrogate_message :: string where
  "surrogate_message =
     ''invalid string: surrogate U+DC00..U+DFFF must be followed by U+DC00..U+DFFF''"

text \<open>
  An escaped code unit: a high surrogate has to be followed by an escaped low one. The second
  condition of the test for a backslash and a \<open>u\<close> reads a character only if the first holds.
\<close>

definition scan_unicode :: "lexer \<Rightarrow> lexer + lexer" where
  "scan_unicode lx =
     (let (cp1, lx1) = get_codepoint lx in
      if cp1 = - 1 then token_error hex_message lx1
      else if 0xD800 \<le> cp1 \<and> cp1 \<le> 0xDBFF then
        (let lx2 = get lx1 in
         if current lx2 = ord CHR 0x5C then
           (let lx3 = get lx2 in
            if current lx3 = ord CHR ''u'' then
              (let (cp2, lx4) = get_codepoint lx3 in
               if cp2 = - 1 then token_error hex_message lx4
               else if 0xDC00 \<le> cp2 \<and> cp2 \<le> 0xDFFF
                 then Inr (add_codepoint (push_bit 10 cp1 + cp2 - 0x35FDC00) lx4)
               else token_error surrogate_message lx4)
            else token_error surrogate_message lx3)
         else token_error surrogate_message lx2)
      else if 0xDC00 \<le> cp1 \<and> cp1 \<le> 0xDFFF
        then token_error ''invalid string: surrogate U+DC00..U+DFFF must follow U+D800..U+DBFF'' lx1
      else Inr (add_codepoint cp1 lx1))"

text \<open>What an escaped character stands for.\<close>

definition escaped :: "int \<Rightarrow> int option" where
  "escaped c =
     (if c = ord CHR 0x22 \<or> c = ord CHR 0x5C \<or> c = ord CHR ''/'' then Some c
      else if c = ord CHR ''b'' then Some 8
      else if c = ord CHR ''f'' then Some 12
      else if c = ord CHR ''n'' then Some 10
      else if c = ord CHR ''r'' then Some 13
      else if c = ord CHR ''t'' then Some 9
      else None)"

definition scan_escape :: "lexer \<Rightarrow> lexer + lexer" where
  "scan_escape lx =
     (let lx1 = get lx in
      case escaped (current lx1) of
        Some c \<Rightarrow> Inr (add c lx1)
      | None \<Rightarrow>
          (if current lx1 = ord CHR ''u'' then scan_unicode lx1
           else token_error ''invalid string: forbidden character after backslash'' lx1))"

text \<open>The error of each control character: its abbreviation, and the short escape it has.\<close>

definition control_names :: "string list" where
  "control_names =
     [''NUL'', ''SOH'', ''STX'', ''ETX'', ''EOT'', ''ENQ'', ''ACK'', ''BEL'', ''BS'', ''HT'', ''LF'', ''VT'', ''FF'', ''CR'', ''SO'', ''SI'', ''DLE'', ''DC1'', ''DC2'', ''DC3'', ''DC4'', ''NAK'', ''SYN'', ''ETB'', ''CAN'', ''EM'', ''SUB'', ''ESC'', ''FS'', ''GS'', ''RS'', ''US'']"

definition short_escape :: "int \<Rightarrow> string" where
  "short_escape c =
     (if c = 8 then '' or '' @ [CHR 0x5C, CHR ''b'']
      else if c = 9 then '' or '' @ [CHR 0x5C, CHR ''t'']
      else if c = 10 then '' or '' @ [CHR 0x5C, CHR ''n'']
      else if c = 12 then '' or '' @ [CHR 0x5C, CHR ''f'']
      else if c = 13 then '' or '' @ [CHR 0x5C, CHR ''r'']
      else [])"

definition control_message :: "int \<Rightarrow> string" where
  "control_message c =
     (let hex = ''00'' @ [hex_digit (c div 16), hex_digit (c mod 16)]
      in ''invalid string: control character U+'' @ hex @ '' ('' @ control_names ! nat c @
         '') must be escaped to '' @ [CHR 0x5C, CHR ''u''] @ hex @ short_escape c)"

text \<open>The lead byte of a multi-byte character determines the bounds of the bytes after it.\<close>

definition utf8_ranges :: "int \<Rightarrow> (int \<times> int) list option" where
  "utf8_ranges c =
     (if 0xC2 \<le> c \<and> c \<le> 0xDF then Some [(0x80, 0xBF)]
      else if c = 0xE0 then Some [(0xA0, 0xBF), (0x80, 0xBF)]
      else if (0xE1 \<le> c \<and> c \<le> 0xEC) \<or> c = 0xEE \<or> c = 0xEF then Some [(0x80, 0xBF), (0x80, 0xBF)]
      else if c = 0xED then Some [(0x80, 0x9F), (0x80, 0xBF)]
      else if c = 0xF0 then Some [(0x90, 0xBF), (0x80, 0xBF), (0x80, 0xBF)]
      else if 0xF1 \<le> c \<and> c \<le> 0xF3 then Some [(0x80, 0xBF), (0x80, 0xBF), (0x80, 0xBF)]
      else if c = 0xF4 then Some [(0x80, 0x8F), (0x80, 0xBF), (0x80, 0xBF)]
      else None)"

definition scan_plain :: "lexer \<Rightarrow> lexer + lexer" where
  "scan_plain lx =
     (let c = current lx in
      if 0 \<le> c \<and> c \<le> 0x1F then token_error (control_message c) lx
      else if 0x20 \<le> c \<and> c \<le> 0x7F then Inr (add c lx)
      else case utf8_ranges c of
             Some ranges \<Rightarrow> next_byte_in_range ranges lx
           | None \<Rightarrow> token_error ''invalid string: ill-formed UTF-8 byte'' lx)"

text \<open>
  One turn of the loop over the characters of a string: \<open>None\<close> at the closing quote.
\<close>

definition scan_string_step :: "lexer \<Rightarrow> (lexer + lexer) option" where
  "scan_string_step lx =
     (if current lx = EOF then Some (token_error ''invalid string: missing closing quote'' lx)
      else if current lx = ord CHR 0x22 then None
      else if current lx = ord CHR 0x5C then Some (scan_escape lx)
      else Some (scan_plain lx))"

section \<open>The input that is left\<close>

text \<open>The characters the next calls of \<open>get\<close> deliver.\<close>

definition pending :: "lexer \<Rightarrow> string" where
  "pending lx =
     (if next_unget lx \<and> current lx \<noteq> EOF then char_of (current lx) # ia lx else ia lx)"

text \<open>
  A state the lexer is in between two operations: the current character is a byte or
  \<open>EOF\<close>, and after \<open>EOF\<close> was read there is nothing left.
\<close>

definition lexer_ok :: "lexer \<Rightarrow> bool" where
  "lexer_ok lx \<longleftrightarrow> EOF \<le> current lx \<and> current lx < 256 \<and>
     (next_unget lx \<and> current lx = EOF \<longrightarrow> ia lx = [])"

definition shrinks :: "lexer \<Rightarrow> lexer \<Rightarrow> bool" where
  "shrinks lx lx' \<longleftrightarrow> length (pending lx') \<le> length (pending lx)"

lemma shrinks_refl [simp]: "shrinks lx lx"
  by (simp add: shrinks_def)

lemma shrinks_trans [trans]: "shrinks a b \<Longrightarrow> shrinks b c \<Longrightarrow> shrinks a c"
  by (simp add: shrinks_def)

lemma get_fields:
  "current (get lx) = current (get_input lx)"
  "ia (get lx) = ia (get_input lx)"
  "next_unget (get lx) = False"
  "token_buffer (get lx) = token_buffer lx"
  "lexer_error (get lx) = lexer_error lx"
  "value_integer (get lx) = value_integer lx"
  "value_unsigned (get lx) = value_unsigned lx"
  "value_float (get lx) = value_float lx"
  "asserts_hold (get lx) = asserts_hold lx"
  by (simp_all add: get_def get_input_def Let_def)

lemma pending_get:
  "current (get lx) \<noteq> EOF \<Longrightarrow> length (pending (get lx)) < length (pending lx)"
  "shrinks lx (get lx)"
  by (auto simp: get_fields get_input_def pending_def shrinks_def get_character_def
      split: list.splits if_splits)

lemma pending_add [simp]: "pending (add c lx) = pending lx"
  by (simp add: add_def pending_def)

lemma pending_assert_that [simp]: "pending (assert_that P lx) = pending lx"
  by (simp add: pending_def)

lemma pending_fold_add [simp]: "pending (fold add cs lx) = pending lx"
  by (induction cs arbitrary: lx) simp_all

lemma shrinks_get_then: "shrinks (get lx) lx' \<Longrightarrow> shrinks lx lx'"
  by (rule shrinks_trans [OF pending_get(2)])

lemma get_codepoint_loop_shrinks: "get_codepoint_loop fs cp lx = (c, lx') \<Longrightarrow> shrinks lx lx'"
  by (induction fs cp lx rule: get_codepoint_loop.induct)
     (auto simp: Let_def pending_get split: option.splits intro: shrinks_get_then)

lemma get_codepoint_result:
  assumes "get_codepoint lx = (c, lx')"
  obtains lx1 where "get_codepoint_loop [12, 8, 4, 0] 0 (assert_that (current lx = ord CHR ''u'') lx) = (c, lx1)"
    and "lx' = (if c = - 1 then lx1 else assert_that (0 \<le> c \<and> c \<le> 0xFFFF) lx1)"
  using assms by (auto simp: get_codepoint_def split: prod.splits)

lemma get_codepoint_shrinks: "get_codepoint lx = (c, lx') \<Longrightarrow> shrinks lx lx'"
  by (erule get_codepoint_result, drule get_codepoint_loop_shrinks) (simp add: shrinks_def)

text \<open>The same for a step that may end in an error.\<close>

definition shrinksE :: "lexer \<Rightarrow> lexer + lexer \<Rightarrow> bool" where
  "shrinksE lx r \<longleftrightarrow> (case r of Inl lx' \<Rightarrow> shrinks lx lx' | Inr lx' \<Rightarrow> shrinks lx lx')"

lemma shrinksE_simps [simp]:
  "shrinksE lx (Inl lx') = shrinks lx lx'" "shrinksE lx (Inr lx') = shrinks lx lx'"
  by (simp_all add: shrinksE_def)

lemma pending_get_le: "length (pending (get lx)) \<le> length (pending lx)"
  using pending_get(2) [of lx] by (simp add: shrinks_def)

lemma shrinksE_token_error [simp]: "shrinksE lx (token_error msg lx') = shrinks lx lx'"
  by (simp add: token_error_def shrinksE_def shrinks_def pending_def)

lemma next_bytes_shrinks: "shrinksE lx (next_bytes rs lx)"
proof (induction rs lx rule: next_bytes.induct)
  case (2 lo hi ranges lx)
  show ?case
  proof (cases "lo \<le> current (get lx) \<and> current (get lx) \<le> hi")
    case True
    with 2 have "shrinksE (add (current (get lx)) (get lx)) (next_bytes ranges (add (current (get lx)) (get lx)))"
      by (simp add: Let_def)
    then show ?thesis using True pending_get_le [of lx]
      by (auto simp: Let_def shrinks_def shrinksE_def split: sum.splits)
  qed (auto simp: Let_def pending_get)
qed simp

lemma next_byte_shrinks: "shrinksE lx (next_byte_in_range rs lx)"
  using next_bytes_shrinks [of "add (current lx) (assert_that (2 * length rs \<in> {2, 4, 6}) lx)" rs]
  by (auto simp: next_byte_in_range_def shrinks_def shrinksE_def split: sum.splits)

lemma get_codepoint_pending: "get_codepoint lx = (c, lx') \<Longrightarrow> length (pending lx') \<le> length (pending lx)"
  using get_codepoint_shrinks by (simp add: shrinks_def)

lemma scan_unicode_shrinks: "shrinksE lx (scan_unicode lx)"
proof -
  obtain c1 l1 where 1: "get_codepoint lx = (c1, l1)" by fastforce
  obtain c2 l2 where 2: "get_codepoint (get (get l1)) = (c2, l2)" by fastforce
  show ?thesis
    using get_codepoint_pending [OF 1] get_codepoint_pending [OF 2]
      pending_get_le [of l1] pending_get_le [of "get l1"]
    by (simp add: scan_unicode_def 1 2 Let_def add_codepoint_def) (simp add: shrinks_def)
qed

lemma scan_string_step_shrinks: "scan_string_step lx = Some r \<Longrightarrow> shrinksE lx r"
proof -
  have esc: "shrinksE lx (scan_escape lx)"
  proof -
    have "shrinksE lx (scan_unicode (get lx))"
      using scan_unicode_shrinks [of "get lx"] pending_get_le [of lx]
      by (auto simp: shrinks_def shrinksE_def split: sum.splits)
    then show ?thesis
      by (auto simp: scan_escape_def Let_def shrinks_def pending_get_le split: option.splits)
  qed
  have plain: "shrinksE lx (scan_plain lx)"
  proof (cases "utf8_ranges (current lx)")
    case None
    then show ?thesis by (simp add: scan_plain_def Let_def) (simp add: shrinks_def)
  next
    case (Some rs)
    then show ?thesis by (simp add: scan_plain_def Let_def next_byte_shrinks) (simp add: shrinks_def)
  qed
  assume "scan_string_step lx = Some r"
  then show ?thesis using esc plain by (auto simp: scan_string_step_def split: if_splits)
qed

function scan_string_loop :: "lexer \<Rightarrow> token_type \<times> lexer" where
  "scan_string_loop lx =
     (let lx1 = get lx in
      case scan_string_step lx1 of
        None \<Rightarrow> (Value_string, lx1)
      | Some (Inl lx2) \<Rightarrow> (Token_error, lx2)
      | Some (Inr lx2) \<Rightarrow> scan_string_loop lx2)"
  by auto
termination
proof (relation "measure (\<lambda>lx. length (pending lx))", goal_cases)
  case (2 lx lx1 r lx2)
  then have step: "scan_string_step (get lx) = Some (Inr lx2)" by simp
  then have "current (get lx) \<noteq> EOF"
    by (auto simp: scan_string_step_def token_error_def)
  then show ?case
    using pending_get(1) [of lx] scan_string_step_shrinks [OF step] by (simp add: shrinks_def)
qed simp

declare scan_string_loop.simps [simp del]

definition scan_string :: "lexer \<Rightarrow> token_type \<times> lexer" where
  "scan_string lx =
     (let lx1 = reset lx in scan_string_loop (assert_that (current lx1 = ord CHR 0x22) lx1))"

section \<open>Numbers\<close>

text \<open>
  The states of the scanner and the jumps between them. A state is entered after its
  character was added to the buffer; \<open>number_type\<close> is the type of the number so far. In the
  \<open>C\<close> locale the decimal point is the character itself.
\<close>

definition digit_code :: "int \<Rightarrow> bool" where
  "digit_code c \<longleftrightarrow> ord CHR ''0'' \<le> c \<and> c \<le> ord CHR ''9''"

lemma digit_code_not [simp]: "\<not> digit_code 46" "\<not> digit_code EOF"
  by (simp_all add: digit_code_def)

definition nonzero_code :: "int \<Rightarrow> bool" where
  "nonzero_code c \<longleftrightarrow> ord CHR ''1'' \<le> c \<and> c \<le> ord CHR ''9''"

definition exp_code :: "int \<Rightarrow> bool" where
  "exp_code c \<longleftrightarrow> c = ord CHR ''e'' \<or> c = ord CHR ''E''"

definition number_error :: "string \<Rightarrow> lexer \<Rightarrow> token_type \<times> lexer" where
  "number_error msg lx = (Token_error, lx\<lparr> lexer_error := msg \<rparr>)"

text \<open>The assertions compare \<open>endptr\<close> with the end of the buffer: the whole text is a number.\<close>

definition scan_number_done :: "token_type \<Rightarrow> lexer \<Rightarrow> token_type \<times> lexer" where
  "scan_number_done number_type lx =
     (let lx1 = unget lx;
          (u, u_range) = strtoull (token_buffer lx1);
          (i, i_range) = strtoll (token_buffer lx1);
          lx2 = (if number_type = Value_unsigned \<or> number_type = Value_integer
                 then assert_that (strtol_rest (token_buffer lx1) = []) lx1 else lx1)
      in if number_type = Value_unsigned \<and> \<not> u_range
           then (Value_unsigned, lx2\<lparr> value_unsigned := u \<rparr>)
         else if number_type = Value_integer \<and> \<not> i_range
           then (Value_integer, lx2\<lparr> value_integer := i \<rparr>)
         else (Value_float,
               assert_that (strtod_rest (token_buffer lx1) = [])
                 (lx2\<lparr> value_float := strtod (token_buffer lx1) \<rparr>)))"

function scan_number_any2 :: "token_type \<Rightarrow> lexer \<Rightarrow> token_type \<times> lexer" where
  "scan_number_any2 number_type lx =
     (let lx1 = get lx; c = current lx1 in
      if digit_code c then scan_number_any2 number_type (add c lx1)
      else scan_number_done number_type lx1)"
  by auto
termination
  by (relation "measure (\<lambda>(t, lx). length (pending lx))")
     (auto simp: digit_code_def intro!: pending_get(1))

definition scan_number_sign :: "token_type \<Rightarrow> lexer \<Rightarrow> token_type \<times> lexer" where
  "scan_number_sign number_type lx =
     (let lx1 = get lx; c = current lx1 in
      if digit_code c then scan_number_any2 number_type (add c lx1)
      else number_error ''invalid number; expected digit after exponent sign'' lx1)"

definition scan_number_exponent :: "lexer \<Rightarrow> token_type \<times> lexer" where
  "scan_number_exponent lx =
     (let lx1 = get lx; c = current lx1 in
      if c = ord CHR ''+'' \<or> c = ord CHR ''-'' then scan_number_sign Value_float (add c lx1)
      else if digit_code c then scan_number_any2 Value_float (add c lx1)
      else number_error
        (''invalid number; expected '' @ [CHR 0x27, CHR ''+'', CHR 0x27] @ '', '' @
         [CHR 0x27, CHR ''-'', CHR 0x27] @ '', or digit after exponent'') lx1)"

function scan_number_decimal2 :: "token_type \<Rightarrow> lexer \<Rightarrow> token_type \<times> lexer" where
  "scan_number_decimal2 number_type lx =
     (let lx1 = get lx; c = current lx1 in
      if digit_code c then scan_number_decimal2 number_type (add c lx1)
      else if exp_code c then scan_number_exponent (add c lx1)
      else scan_number_done number_type lx1)"
  by auto
termination
  by (relation "measure (\<lambda>(t, lx). length (pending lx))")
     (auto simp: digit_code_def intro!: pending_get(1))

definition scan_number_decimal1 :: "lexer \<Rightarrow> token_type \<times> lexer" where
  "scan_number_decimal1 lx =
     (let lx1 = get lx; c = current lx1 in
      if digit_code c then scan_number_decimal2 Value_float (add c lx1)
      else number_error
        (''invalid number; expected digit after '' @ [CHR 0x27, CHR ''.'', CHR 0x27]) lx1)"

function scan_number_any1 :: "token_type \<Rightarrow> lexer \<Rightarrow> token_type \<times> lexer" where
  "scan_number_any1 number_type lx =
     (let lx1 = get lx; c = current lx1 in
      if digit_code c then scan_number_any1 number_type (add c lx1)
      else if c = ord CHR ''.'' then scan_number_decimal1 (add c lx1)
      else if exp_code c then scan_number_exponent (add c lx1)
      else scan_number_done number_type lx1)"
  by auto
termination
  by (relation "measure (\<lambda>(t, lx). length (pending lx))")
     (auto simp: digit_code_def intro!: pending_get(1))

definition scan_number_zero :: "token_type \<Rightarrow> lexer \<Rightarrow> token_type \<times> lexer" where
  "scan_number_zero number_type lx =
     (let lx1 = get lx; c = current lx1 in
      if c = ord CHR ''.'' then scan_number_decimal1 (add c lx1)
      else if exp_code c then scan_number_exponent (add c lx1)
      else scan_number_done number_type lx1)"

definition scan_number_minus :: "lexer \<Rightarrow> token_type \<times> lexer" where
  "scan_number_minus lx =
     (let lx1 = get lx; c = current lx1 in
      if c = ord CHR ''0'' then scan_number_zero Value_integer (add c lx1)
      else if nonzero_code c then scan_number_any1 Value_integer (add c lx1)
      else number_error
        (''invalid number; expected digit after '' @ [CHR 0x27, CHR ''-'', CHR 0x27]) lx1)"

text \<open>The first state: the current character is a minus sign or a digit, anything else is an \<open>assert\<close>.\<close>

definition scan_number :: "lexer \<Rightarrow> token_type \<times> lexer" where
  "scan_number lx =
     (let lx1 = reset lx; c = current lx1 in
      if c = ord CHR ''-'' then scan_number_minus (add c lx1)
      else if c = ord CHR ''0'' then scan_number_zero Value_unsigned (add c lx1)
      else if nonzero_code c then scan_number_any1 Value_unsigned (add c lx1)
      else (Token_error, assert_that False lx1))"

declare scan_number_any1.simps [simp del] scan_number_any2.simps [simp del]
  scan_number_decimal2.simps [simp del]

section \<open>Literals and the scanner\<close>

fun scan_literal_loop :: "string \<Rightarrow> token_type \<Rightarrow> lexer \<Rightarrow> token_type \<times> lexer" where
  "scan_literal_loop [] return_type lx = (return_type, lx)"
| "scan_literal_loop (c # cs) return_type lx =
     (let lx1 = get lx in
      if current lx1 \<noteq> ord c then (Token_error, lx1\<lparr> lexer_error := ''invalid literal'' \<rparr>)
      else scan_literal_loop cs return_type lx1)"

definition scan_literal :: "string \<Rightarrow> token_type \<Rightarrow> lexer \<Rightarrow> token_type \<times> lexer" where
  "scan_literal literal_text return_type lx =
     scan_literal_loop (tl literal_text) return_type (assert_that (current lx = ord (hd literal_text)) lx)"

text \<open>The byte order mark: what was read of an incomplete one is gone.\<close>

definition skip_bom :: "lexer \<Rightarrow> bool \<times> lexer" where
  "skip_bom lx =
     (let lx1 = get lx in
      if current lx1 = 0xEF then
        (let lx2 = get lx1 in
         if current lx2 = 0xBB then (let lx3 = get lx2 in (current lx3 = 0xBF, lx3))
         else (False, lx2))
      else (True, unget lx1))"

definition is_ws :: "int \<Rightarrow> bool" where
  "is_ws c \<longleftrightarrow> c = ord CHR '' '' \<or> c = ord CHR 0x09 \<or> c = ord CHR 0x0A \<or> c = ord CHR 0x0D"

function skip_whitespace :: "lexer \<Rightarrow> lexer" where
  "skip_whitespace lx =
     (let lx1 = get lx in if is_ws (current lx1) then skip_whitespace lx1 else lx1)"
  by auto
termination
  by (relation "measure (\<lambda>lx. length (pending lx))") (auto simp: is_ws_def intro!: pending_get(1))

declare skip_whitespace.simps [simp del]

definition scan_token :: "lexer \<Rightarrow> token_type \<times> lexer" where
  "scan_token lx =
     (let c = current lx in
      if c = ord CHR ''['' then (Begin_array, lx)
      else if c = ord CHR '']'' then (End_array, lx)
      else if c = ord CHR ''{'' then (Begin_object, lx)
      else if c = ord CHR ''}'' then (End_object, lx)
      else if c = ord CHR '':'' then (Name_separator, lx)
      else if c = ord CHR '','' then (Value_separator, lx)
      else if c = ord CHR ''t'' then scan_literal ''true'' Literal_true lx
      else if c = ord CHR ''f'' then scan_literal ''false'' Literal_false lx
      else if c = ord CHR ''n'' then scan_literal ''null'' Literal_null lx
      else if c = ord CHR 0x22 then scan_string lx
      else if c = ord CHR ''-'' \<or> digit_code c then scan_number lx
      else if c = 0 \<or> c = EOF then (End_of_input, lx)
      else (Token_error, lx\<lparr> lexer_error := ''invalid literal'' \<rparr>))"

definition scan :: "lexer \<Rightarrow> token_type \<times> lexer" where
  "scan lx =
     (let (ok, lx1) = (if chars_read_total (position lx) = 0 then skip_bom lx else (True, lx))
      in if \<not> ok
         then (Token_error,
               lx1\<lparr> lexer_error := ''invalid BOM; must be 0xEF 0xBB 0xBF if given'' \<rparr>)
         else scan_token (skip_whitespace lx1))"

section \<open>What a scan consumes\<close>

lemma pending_update [simp]:
  "pending (lx\<lparr> lexer_error := m \<rparr>) = pending lx"
  "pending (lx\<lparr> value_integer := i \<rparr>) = pending lx"
  "pending (lx\<lparr> value_unsigned := u \<rparr>) = pending lx"
  "pending (lx\<lparr> value_float := d \<rparr>) = pending lx"
  "pending (reset lx) = pending lx"
  by (simp_all add: pending_def reset_def)

lemma shrinks_unget_get: "shrinks lx (unget (get lx))"
  by (auto simp: unget_def get_fields get_input_def pending_def shrinks_def get_character_def Let_def
      split: list.splits)

lemma scan_string_loop_shrinks: "shrinks lx (snd (scan_string_loop lx))"
proof (induction lx rule: scan_string_loop.induct)
  case (1 lx)
  show ?case
  proof (cases "scan_string_step (get lx)")
    case None
    then show ?thesis by (subst scan_string_loop.simps) (simp add: Let_def pending_get)
  next
    case (Some r)
    then have r: "shrinksE (get lx) r" by (rule scan_string_step_shrinks)
    show ?thesis
    proof (cases r)
      case (Inl lx2)
      then show ?thesis using Some r pending_get(2)
        by (subst scan_string_loop.simps) (auto simp: Let_def intro: shrinks_trans)
    next
      case (Inr lx2)
      have "shrinks lx2 (snd (scan_string_loop lx2))"
        by (rule "1.IH" [OF refl Some]) (rule Inr)
      then show ?thesis using Some r Inr pending_get(2)
        by (subst scan_string_loop.simps) (auto simp: Let_def intro: shrinks_trans)
    qed
  qed
qed

lemma scan_number_done_shrinks: "shrinks lx (snd (scan_number_done t (get lx)))"
  using shrinks_unget_get [of lx]
  by (auto simp: scan_number_done_def shrinks_def Let_def split: prod.splits)

lemma shrinks_add_get: "shrinks (add c (get lx)) lx' \<Longrightarrow> shrinks lx lx'"
  by (rule shrinks_get_then) (simp add: shrinks_def)

lemma number_error_shrinks: "shrinks lx (snd (number_error msg (get lx)))"
  by (simp add: number_error_def shrinks_def pending_get_le)

lemma scan_number_any2_shrinks: "shrinks lx (snd (scan_number_any2 t lx))"
proof (induction t lx rule: scan_number_any2.induct)
  case (1 t lx)
  then show ?case
    by (subst scan_number_any2.simps)
       (auto simp: Let_def intro: shrinks_add_get scan_number_done_shrinks)
qed

lemma scan_number_exponent_shrinks: "shrinks lx (snd (scan_number_exponent lx))"
  by (auto simp: scan_number_exponent_def scan_number_sign_def Let_def
      intro!: number_error_shrinks shrinks_add_get [OF scan_number_any2_shrinks]
        shrinks_add_get [OF number_error_shrinks]
        shrinks_add_get [OF shrinks_add_get [OF scan_number_any2_shrinks]])

lemma scan_number_decimal2_shrinks: "shrinks lx (snd (scan_number_decimal2 t lx))"
proof (induction t lx rule: scan_number_decimal2.induct)
  case (1 t lx)
  then show ?case
    by (subst scan_number_decimal2.simps)
       (auto simp: Let_def intro: shrinks_add_get scan_number_done_shrinks
          shrinks_add_get [OF scan_number_exponent_shrinks])
qed

lemma scan_number_decimal1_shrinks: "shrinks lx (snd (scan_number_decimal1 lx))"
  by (auto simp: scan_number_decimal1_def Let_def
      intro: number_error_shrinks shrinks_add_get [OF scan_number_decimal2_shrinks])

lemma scan_number_any1_shrinks: "shrinks lx (snd (scan_number_any1 t lx))"
proof (induction t lx rule: scan_number_any1.induct)
  case (1 t lx)
  then show ?case
    by (subst scan_number_any1.simps)
       (auto simp: Let_def intro: shrinks_add_get scan_number_done_shrinks
          shrinks_add_get [OF scan_number_exponent_shrinks]
          shrinks_add_get [OF scan_number_decimal1_shrinks])
qed

lemma scan_number_zero_shrinks: "shrinks lx (snd (scan_number_zero t lx))"
  by (auto simp: scan_number_zero_def Let_def
      intro: scan_number_done_shrinks shrinks_add_get [OF scan_number_exponent_shrinks]
        shrinks_add_get [OF scan_number_decimal1_shrinks])

lemma scan_number_minus_shrinks: "shrinks lx (snd (scan_number_minus lx))"
  by (auto simp: scan_number_minus_def Let_def
      intro: number_error_shrinks shrinks_add_get [OF scan_number_zero_shrinks]
        shrinks_add_get [OF scan_number_any1_shrinks])

lemma scan_number_shrinks: "shrinks lx (snd (scan_number lx))"
  using scan_number_minus_shrinks [of "add (current (reset lx)) (reset lx)"]
    scan_number_zero_shrinks [of "add (current (reset lx)) (reset lx)"]
    scan_number_any1_shrinks [of "add (current (reset lx)) (reset lx)"]
  by (auto simp: scan_number_def Let_def shrinks_def)

lemma scan_literal_loop_shrinks: "shrinks lx (snd (scan_literal_loop cs t lx))"
proof (induction cs t lx rule: scan_literal_loop.induct)
  case (2 c cs t lx)
  have "shrinks lx (snd (scan_literal_loop cs t (get lx)))" if "current (get lx) = ord c"
    by (rule shrinks_get_then) (rule "2.IH" [OF refl], use that in simp)
  then show ?case by (simp add: Let_def) (simp add: shrinks_def pending_get_le)
qed simp

lemma scan_string_shrinks: "shrinks lx (snd (scan_string lx))"
  using scan_string_loop_shrinks [of "assert_that (current lx = ord CHR 0x22) (reset lx)"]
  by (simp add: scan_string_def shrinks_def Let_def)

lemma scan_literal_shrinks: "shrinks lx (snd (scan_literal cs t lx))"
  using scan_literal_loop_shrinks [of "assert_that (current lx = ord (hd cs)) lx" "tl cs" t]
  by (simp add: scan_literal_def shrinks_def)

lemma scan_token_shrinks: "shrinks lx (snd (scan_token lx))"
proof -
  have "shrinks lx (lx\<lparr> lexer_error := m \<rparr>)" for m by (simp add: shrinks_def)
  then show ?thesis
    unfolding scan_token_def Let_def
    by (simp only: if_distrib [of snd] if_distrib [of "shrinks lx"] snd_conv shrinks_refl
        scan_literal_shrinks scan_string_shrinks scan_number_shrinks if_cancel)
qed

lemma skip_whitespace_shrinks:
  "shrinks lx (skip_whitespace lx) \<and>
   (current (skip_whitespace lx) \<noteq> EOF \<longrightarrow>
      length (pending (skip_whitespace lx)) < length (pending lx))"
proof (induction lx rule: skip_whitespace.induct)
  case (1 lx)
  show ?case
  proof (cases "is_ws (current (get lx))")
    case True
    then have "current (get lx) \<noteq> EOF" by (auto simp: is_ws_def)
    then show ?thesis using 1 True pending_get [of lx]
      by (subst (1 2 3) skip_whitespace.simps) (auto simp: Let_def shrinks_def)
  next
    case False
    then show ?thesis using pending_get [of lx]
      by (subst (1 2 3) skip_whitespace.simps) (auto simp: Let_def)
  qed
qed

text \<open>A scan never adds input, and any token but an error and the end consumes some.\<close>

lemma scan_shrinks:
  assumes "scan lx = (t, lx')"
  shows "shrinks lx lx'"
    and "t \<notin> {Token_error, End_of_input} \<Longrightarrow> length (pending lx') < length (pending lx)"
proof -
  obtain ok lx1 where bom: "(if chars_read_total (position lx) = 0 then skip_bom lx else (True, lx)) = (ok, lx1)"
    by fastforce
  have 1: "shrinks lx lx1"
    using bom shrinks_unget_get [of lx] pending_get_le [of lx] pending_get_le [of "get lx"]
      pending_get_le [of "get (get lx)"]
    by (auto simp: skip_bom_def shrinks_def Let_def split: if_splits)
  let ?w = "skip_whitespace lx1"
  have r: "(t, lx') = (if \<not> ok then (Token_error, lx1\<lparr> lexer_error := ''invalid BOM; must be 0xEF 0xBB 0xBF if given'' \<rparr>) else scan_token ?w)"
    using assms bom by (simp add: scan_def)
  show "shrinks lx lx'"
  proof (cases ok)
    case True
    then have "lx' = snd (scan_token ?w)" using r by (metis snd_conv)
    then show ?thesis using 1 skip_whitespace_shrinks [of lx1] scan_token_shrinks [of ?w]
      by (auto intro: shrinks_trans)
  qed (use r 1 in \<open>simp add: shrinks_def\<close>)
  assume t: "t \<notin> {Token_error, End_of_input}"
  then have ok and e: "(t, lx') = scan_token ?w" using r by (auto split: if_splits)
  have "current ?w \<noteq> EOF"
  proof
    assume "current ?w = EOF"
    then have "t = End_of_input" using e by (simp add: scan_token_def Let_def digit_code_def)
    then show False using t by simp
  qed
  then show "length (pending lx') < length (pending lx)"
    using 1 skip_whitespace_shrinks [of lx1] scan_token_shrinks [of ?w] e
    by (auto simp: shrinks_def) (metis order_less_le_trans le_less_trans snd_conv)
qed

end
