(* ===== verification/Json_Parser.thy ===== *)
theory Json_Parser
  imports Json_Lexer
begin

text \<open>
  The parser of the JSON library: \<open>sax_parse_internal\<close> drives an event handler (a \<open>sax\<close>)
  with the events of the text. The loop keeps a stack of the containers that are open, and
  never recurses. It is modelled one turn at a time; every turn consumes input, so the loop
  returns for every text and every handler.
\<close>

section \<open>Event handlers\<close>

text \<open>
  The operations of a handler on its own state. Each says whether parsing goes on, or ends in
  an exception. The text parser passes \<open>size_t(-1)\<close>, an unknown size, to the start of a
  container, for which the handlers skip their check of the size; the argument is left out.
\<close>

type_synonym 's sax_result = "(bool \<times> 's) jres"

record 's sax =
  sax_null :: "'s \<Rightarrow> 's sax_result"
  sax_boolean :: "bool \<Rightarrow> 's \<Rightarrow> 's sax_result"
  sax_number_integer :: "int \<Rightarrow> 's \<Rightarrow> 's sax_result"
  sax_number_unsigned :: "int \<Rightarrow> 's \<Rightarrow> 's sax_result"
  sax_number_float :: "double \<Rightarrow> string \<Rightarrow> 's \<Rightarrow> 's sax_result"
  sax_string :: "string \<Rightarrow> 's \<Rightarrow> 's sax_result"
  sax_start_object :: "'s \<Rightarrow> 's sax_result"
  sax_key :: "string \<Rightarrow> 's \<Rightarrow> 's sax_result"
  sax_end_object :: "'s \<Rightarrow> 's sax_result"
  sax_start_array :: "'s \<Rightarrow> 's sax_result"
  sax_end_array :: "'s \<Rightarrow> 's sax_result"
  sax_parse_error :: "nat \<Rightarrow> string \<Rightarrow> json_exception \<Rightarrow> 's \<Rightarrow> 's sax_result"

section \<open>The parser\<close>

record parser =
  last_token :: token_type
  m_lexer :: lexer

definition get_token :: "parser \<Rightarrow> parser" where
  "get_token p =
     (let (t, lx) = scan (m_lexer p) in p\<lparr> last_token := t, m_lexer := lx \<rparr>)"

definition parser_init :: "string \<Rightarrow> parser" where
  "parser_init input = get_token \<lparr> last_token = Uninitialized, m_lexer = lexer_init input \<rparr>"

definition exception_message :: "parser \<Rightarrow> token_type \<Rightarrow> string \<Rightarrow> string" where
  "exception_message p expected context =
     ''syntax error '' @
     (if context \<noteq> [] then ''while parsing '' @ context @ '' '' else []) @
     ''- '' @
     (if last_token p = Token_error
      then lexer_error (m_lexer p) @ ''; last read: '' @
           [CHR 0x27] @ get_token_string (m_lexer p) @ [CHR 0x27]
      else ''unexpected '' @ token_type_name (last_token p)) @
     (if expected \<noteq> Uninitialized then ''; expected '' @ token_type_name expected else [])"

text \<open>How a turn ends: the loop returns, or it goes on with the open containers (\<open>True\<close> for an
  array), the innermost first, and with or without the first half of the next turn.\<close>

datatype sax_next =
    Return bool
  | Continue bool "bool list"

type_synonym 's sax_turn = "(sax_next option \<times> 's \<times> parser) jres"

text \<open>
  An \<open>assert\<close> of the lexer that failed ends the program there: \<open>checked\<close> looks at the flag of the lexer
  before a handler is called and before the parser returns.
\<close>

definition checked :: "parser \<Rightarrow> 'a jres \<Rightarrow> 'a jres" where
  "checked p r = (if asserts_hold (m_lexer p) then r else Inl Assertion)"

lemma checked_holds [simp]: "asserts_hold (m_lexer p) \<Longrightarrow> checked p r = r"
  by (simp add: checked_def)

lemma checked_Inr: "checked p r = Inr x \<longleftrightarrow> asserts_hold (m_lexer p) \<and> r = Inr x"
  by (simp add: checked_def)

definition report :: "'s sax \<Rightarrow> json_exception \<Rightarrow> 's \<Rightarrow> parser \<Rightarrow> 's sax_turn" where
  "report sax ex s p =
     checked p (mapE (\<lambda>(r, s'). (Some (Return r), s', p))
       (sax_parse_error sax (chars_read_total (position (m_lexer p))) (get_token_string (m_lexer p)) ex s))"

definition syntax_error :: "'s sax \<Rightarrow> token_type \<Rightarrow> string \<Rightarrow> 's \<Rightarrow> parser \<Rightarrow> 's sax_turn" where
  "syntax_error sax expected context s p =
     report sax (parse_error_create 101 (position (m_lexer p)) (exception_message p expected context)) s p"

text \<open>An event: if the handler stops, the loop returns \<open>false\<close>.\<close>

definition event :: "'s sax_result \<Rightarrow> parser \<Rightarrow> ('s \<Rightarrow> 's sax_turn) \<Rightarrow> 's sax_turn" where
  "event r p k =
     checked p (bindE r (\<lambda>(go, s'). if \<not> go then Inr (Some (Return False), s', p) else k s'))"

abbreviation value_done :: "parser \<Rightarrow> 's \<Rightarrow> 's sax_turn" where
  "value_done p s \<equiv> Inr (None, s, p)"

text \<open>A key and the separator after it; the value follows.\<close>

definition parse_key :: "'s sax \<Rightarrow> bool list \<Rightarrow> 's \<Rightarrow> parser \<Rightarrow> 's sax_turn" where
  "parse_key sax states s p =
     (if last_token p \<noteq> Value_string then syntax_error sax Value_string ''object key'' s p
      else event (sax_key sax (token_buffer (m_lexer p)) s) p (\<lambda>s1.
        let p1 = get_token p in
        if last_token p1 \<noteq> Name_separator
        then syntax_error sax Name_separator ''object separator'' s1 p1
        else Inr (Some (Continue False states), s1, get_token p1)))"

text \<open>The first half of a turn: a value, or the beginning of one.\<close>

definition parse_value :: "'s sax \<Rightarrow> bool list \<Rightarrow> 's \<Rightarrow> parser \<Rightarrow> 's sax_turn" where
  "parse_value sax states s p =
     (let lx = m_lexer p in
      case last_token p of
        Begin_object \<Rightarrow>
          event (sax_start_object sax s) p (\<lambda>s1.
            let p1 = get_token p in
            if last_token p1 = End_object then event (sax_end_object sax s1) p1 (value_done p1)
            else parse_key sax (False # states) s1 p1)
      | Begin_array \<Rightarrow>
          event (sax_start_array sax s) p (\<lambda>s1.
            let p1 = get_token p in
            if last_token p1 = End_array then event (sax_end_array sax s1) p1 (value_done p1)
            else Inr (Some (Continue False (True # states)), s1, p1))
      | Value_float \<Rightarrow>
          (if \<not> isfinite (value_float lx)
           then report sax (out_of_range_create 406 (''number overflow parsing '' @ [CHR 0x27] @
                  get_token_string lx @ [CHR 0x27])) s p
           else event (sax_number_float sax (value_float lx) (token_buffer lx) s) p (value_done p))
      | Literal_false \<Rightarrow> event (sax_boolean sax False s) p (value_done p)
      | Literal_null \<Rightarrow> event (sax_null sax s) p (value_done p)
      | Literal_true \<Rightarrow> event (sax_boolean sax True s) p (value_done p)
      | Value_integer \<Rightarrow> event (sax_number_integer sax (value_integer lx) s) p (value_done p)
      | Value_string \<Rightarrow> event (sax_string sax (token_buffer lx) s) p (value_done p)
      | Value_unsigned \<Rightarrow> event (sax_number_unsigned sax (value_unsigned lx) s) p (value_done p)
      | Token_error \<Rightarrow> syntax_error sax Uninitialized ''value'' s p
      | _ \<Rightarrow> syntax_error sax Literal_or_value ''value'' s p)"

text \<open>The second half: after a value, in the innermost container.\<close>

definition evaluate_state :: "'s sax \<Rightarrow> bool list \<Rightarrow> 's \<Rightarrow> parser \<Rightarrow> 's sax_turn" where
  "evaluate_state sax states s p =
     (case states of
        [] \<Rightarrow> Inr (Some (Return True), s, p)
      | True # outer \<Rightarrow>
          (let p1 = get_token p in
           if last_token p1 = Value_separator
           then Inr (Some (Continue False states), s, get_token p1)
           else if last_token p1 = End_array
           then event (sax_end_array sax s) p1 (\<lambda>s1. Inr (Some (Continue True outer), s1, p1))
           else syntax_error sax End_array ''array'' s p1)
      | False # outer \<Rightarrow>
          (let p1 = get_token p in
           if last_token p1 = Value_separator
           then parse_key sax states s (get_token p1)
           else if last_token p1 = End_object
           then event (sax_end_object sax s) p1 (\<lambda>s1. Inr (Some (Continue True outer), s1, p1))
           else syntax_error sax End_object ''object'' s p1))"

definition sax_step :: "'s sax \<Rightarrow> bool \<Rightarrow> bool list \<Rightarrow> 's \<Rightarrow> parser \<Rightarrow> 's sax_turn" where
  "sax_step sax skip states s p =
     (if skip then evaluate_state sax states s p
      else bindE (parse_value sax states s p) (\<lambda>(next, s1, p1).
             case next of
               None \<Rightarrow> evaluate_state sax states s1 p1
             | Some n \<Rightarrow> Inr (Some n, s1, p1)))"

section \<open>Every turn consumes input\<close>

definition parser_weight :: "parser \<Rightarrow> nat" where
  "parser_weight p =
     2 * length (pending (m_lexer p)) +
     (if last_token p \<in> {Token_error, End_of_input} then 0 else 1)"

lemma get_token_weight:
  "parser_weight (get_token p) \<le> 2 * length (pending (m_lexer p))"
  "length (pending (m_lexer (get_token p))) \<le> length (pending (m_lexer p))"
  using scan_shrinks [of "m_lexer p"]
  by (fastforce simp: get_token_def parser_weight_def shrinks_def split: prod.splits)+

lemma get_token_consumes:
  "last_token (get_token p) \<notin> {Token_error, End_of_input} \<Longrightarrow>
     length (pending (m_lexer (get_token p))) < length (pending (m_lexer p))"
  using scan_shrinks [of "m_lexer p"] by (auto simp: get_token_def split: prod.splits)

lemma get_token_twice:
  assumes "last_token (get_token p) \<notin> {Token_error, End_of_input}"
  shows "parser_weight (get_token (get_token p)) < 2 * length (pending (m_lexer p))"
  using get_token_weight(1) [of "get_token p"] get_token_consumes [OF assms] by simp

lemma event_Inr:
  "event r p k = Inr (n, s', p') \<longleftrightarrow> asserts_hold (m_lexer p) \<and>
     ((\<exists>s1. r = Inr (True, s1) \<and> k s1 = Inr (n, s', p')) \<or>
      (r = Inr (False, s') \<and> n = Some (Return False) \<and> p' = p))"
  by (auto simp: event_def checked_Inr res_iff split: prod.splits if_splits)

lemma report_Inr:
  "report sax ex s p = Inr (n, s', p') \<Longrightarrow> \<exists>r. n = Some (Return r)"
  by (auto simp: report_def checked_Inr res_iff)

lemma syntax_error_Inr:
  "syntax_error sax t c s p = Inr (n, s', p') \<Longrightarrow> \<exists>r. n = Some (Return r)"
  unfolding syntax_error_def by (rule report_Inr)

lemma parse_key_weight:
  assumes "parse_key sax states s p = Inr (Some (Continue skip states'), s', p')"
  shows "parser_weight p' < 2 * length (pending (m_lexer p))"
  using assms get_token_twice [of p]
  by (auto simp: parse_key_def Let_def event_Inr dest: syntax_error_Inr split: if_splits)

text \<open>
  The weight goes down whenever the first half of a turn goes on to the next turn, and does
  not go up before the second half, which gets another token.
\<close>

lemma parse_value_weight:
  assumes "parse_value sax states s p = Inr (n, s', p')"
  shows "n = Some (Continue skip states') \<Longrightarrow> parser_weight p' < parser_weight p"
    and "n = None \<Longrightarrow> 2 * length (pending (m_lexer p')) < parser_weight p"
proof -
  have 1: "2 * length (pending (m_lexer (get_token p))) \<le> 2 * length (pending (m_lexer p))"
    using get_token_weight(2) [of p] by simp
  show "parser_weight p' < parser_weight p" if "n = Some (Continue skip states')"
    using assms that 1 get_token_weight(1) [of p]
    by (cases "last_token p")
       (auto simp: parse_value_def event_Inr Let_def parser_weight_def [of p]
         dest!: parse_key_weight dest: syntax_error_Inr report_Inr split: if_splits)
  show "2 * length (pending (m_lexer p')) < parser_weight p" if "n = None"
    using assms that 1
    by (cases "last_token p")
       (auto simp: parse_value_def event_Inr Let_def parser_weight_def parse_key_def
         dest: syntax_error_Inr report_Inr split: if_splits)
qed

lemma evaluate_state_weight:
  assumes "evaluate_state sax states s p = Inr (Some (Continue skip states'), s', p')"
  shows "parser_weight p' < 2 * length (pending (m_lexer p))"
proof -
  let ?q = "get_token p"
  have sep: "2 * length (pending (m_lexer (get_token ?q))) \<le> 2 * length (pending (m_lexer ?q))"
    using get_token_weight(2) [of ?q] by simp
  have done_: "parser_weight ?q < 2 * length (pending (m_lexer p))"
    if "last_token ?q \<in> {End_array, End_object}"
    using get_token_consumes [of p] that by (auto simp: parser_weight_def)
  show ?thesis
  proof (cases states)
    case Nil
    then show ?thesis using assms by (simp add: evaluate_state_def)
  next
    case (Cons c outer)
    then show ?thesis
      using assms sep done_ get_token_consumes [of p] get_token_twice [of p]
      by (cases c) (auto simp: evaluate_state_def Let_def event_Inr
          dest!: parse_key_weight dest: syntax_error_Inr split: if_splits)
  qed
qed

lemma sax_step_weight:
  assumes "sax_step sax skip states s p = Inr (Some (Continue skip' states'), s', p')"
  shows "parser_weight p' < parser_weight p"
proof (cases skip)
  case True
  then show ?thesis using assms evaluate_state_weight [of sax states s p skip' states' s' p']
    by (simp add: sax_step_def parser_weight_def [of p])
next
  case False
  then obtain n s1 p1 where v: "parse_value sax states s p = Inr (n, s1, p1)"
    and r: "(case n of None \<Rightarrow> evaluate_state sax states s1 p1 | Some n \<Rightarrow> Inr (Some n, s1, p1)) =
      Inr (Some (Continue skip' states'), s', p')"
    using assms by (auto simp: sax_step_def res_iff)
  show ?thesis
  proof (cases n)
    case None
    then show ?thesis
      using r parse_value_weight(2) [OF v None]
        evaluate_state_weight [of sax states s1 p1 skip' states' s' p'] by simp
  next
    case (Some m)
    then show ?thesis using r v parse_value_weight(1) [OF v, of skip' states'] by simp
  qed
qed

text \<open>The loop, and the parser around it.\<close>

function sax_loop :: "'s sax \<Rightarrow> bool \<Rightarrow> bool list \<Rightarrow> 's \<Rightarrow> parser \<Rightarrow> (bool \<times> 's \<times> parser) jres" where
  "sax_loop sax skip states s p =
     (case sax_step sax skip states s p of
        Inl err \<Rightarrow> Inl err
      | Inr (None, s', p') \<Rightarrow> Inr (True, s', p')
      | Inr (Some (Return r), s', p') \<Rightarrow> Inr (r, s', p')
      | Inr (Some (Continue skip' states'), s', p') \<Rightarrow> sax_loop sax skip' states' s' p')"
  by pat_completeness auto
termination
  by (relation "measure (\<lambda>(sax, skip, states, s, p). parser_weight p)")
     (auto dest: sax_step_weight)

declare sax_loop.simps [simp del]

definition sax_parse_internal :: "'s sax \<Rightarrow> 's \<Rightarrow> parser \<Rightarrow> (bool \<times> 's \<times> parser) jres" where
  "sax_parse_internal sax s p = sax_loop sax False [] s p"

text \<open>The error of input after the value.\<close>

definition expect_end :: "'s sax \<Rightarrow> 's \<Rightarrow> parser \<Rightarrow> 's sax_result" where
  "expect_end sax s p =
     checked p (sax_parse_error sax (chars_read_total (position (m_lexer p))) (get_token_string (m_lexer p))
       (parse_error_create 101 (position (m_lexer p)) (exception_message p End_of_input ''value'')) s)"

definition sax_parse :: "'s sax \<Rightarrow> bool \<Rightarrow> 's \<Rightarrow> parser \<Rightarrow> 's sax_result" where
  "sax_parse sax strict s p =
     bindE (sax_parse_internal sax s p) (\<lambda>(result, s1, p1).
       if result \<and> strict
       then (let p2 = get_token p1 in
             if last_token p2 \<noteq> End_of_input then expect_end sax s1 p2 else checked p2 (Inr (result, s1)))
       else checked p1 (Inr (result, s1)))"

end
