(* ===== verification/Json_Sax.thy ===== *)
theory Json_Sax
  imports Json_Parser
begin

text \<open>
  The three handlers the JSON library drives its parser with: \<open>json_sax_dom_parser\<close> builds a
  value, \<open>json_sax_dom_callback_parser\<close> asks a callback which parts of it to keep, and
  \<open>json_sax_acceptor\<close> only looks for errors; \<open>parse\<close> and \<open>accept\<close> on a text. The code refers
  to parts of the value it builds by pointers; a pointer is modelled as the path from the root
  to the part.
\<close>

section \<open>References into a value\<close>

datatype ref_step =
    Key string
  | Index nat

type_synonym ref_path = "ref_step list"

fun deref :: "ref_path \<Rightarrow> json \<Rightarrow> json" where
  "deref [] j = j"
| "deref (Key k # p) (JObject m) = deref p (case map_of m k of None \<Rightarrow> JNull | Some v \<Rightarrow> v)"
| "deref (Index i # p) (JArray a) = deref p (a ! i)"
| "deref (s # p) j = JNull"

fun assign :: "ref_path \<Rightarrow> json \<Rightarrow> json \<Rightarrow> json" where
  "assign [] v j = v"
| "assign (Key k # p) v (JObject m) =
     JObject (obj_set k (assign p v (case map_of m k of None \<Rightarrow> JNull | Some x \<Rightarrow> x)) m)"
| "assign (Index i # p) v (JArray a) = JArray (a[i := assign p v (a ! i)])"
| "assign (s # p) v j = j"

text \<open>The path leads to a part of the value.\<close>

fun valid_ref :: "ref_path \<Rightarrow> json \<Rightarrow> bool" where
  "valid_ref [] j = True"
| "valid_ref (Key k # p) (JObject m) =
     (case map_of m k of None \<Rightarrow> False | Some v \<Rightarrow> valid_ref p v)"
| "valid_ref (Index i # p) (JArray a) = (i < length a \<and> valid_ref p (a ! i))"
| "valid_ref (s # p) j = False"

lemma deref_assign [simp]: "valid_ref p j \<Longrightarrow> deref p (assign p v j) = v"
  by (induction p v j rule: assign.induct) (auto split: option.splits)

lemma assign_assign [simp]: "assign p v (assign p w j) = assign p v j"
proof (induction p w j rule: assign.induct)
  case (3 i p w a)
  then show ?case by (cases "i < length a") (auto simp: list_update_beyond)
qed auto

lemma valid_assign [simp]: "valid_ref p j \<Longrightarrow> valid_ref p (assign p v j)"
  by (induction p v j rule: assign.induct) (auto split: option.splits)

lemma deref_append: "valid_ref p j \<Longrightarrow> deref (p @ q) j = deref q (deref p j)"
  by (induction p j rule: valid_ref.induct) (auto split: option.splits)

lemma valid_append: "valid_ref p j \<Longrightarrow> valid_ref (p @ q) j = valid_ref q (deref p j)"
  by (induction p j rule: valid_ref.induct) (auto split: option.splits)

lemma assign_append: "valid_ref p j \<Longrightarrow> assign (p @ q) v j = assign p (assign q v (deref p j)) j"
  by (induction p j rule: valid_ref.induct) (auto split: option.splits)

section \<open>Building a value\<close>

text \<open>The innermost container is the first of \<open>ref_stack\<close>, which is its \<open>back()\<close> in the code.\<close>

record dom_state =
  root :: json
  ref_stack :: "ref_path list"
  object_element :: "ref_path option"
  errored :: bool

definition dom_init :: dom_state where
  "dom_init = \<lparr> root = JNull, ref_stack = [], object_element = None, errored = False \<rparr>"

definition handle_value :: "json \<Rightarrow> dom_state \<Rightarrow> (ref_path \<times> dom_state) jres" where
  "handle_value v d =
     (case ref_stack d of
        [] \<Rightarrow> Inr ([], d\<lparr> root := v \<rparr>)
      | r # _ \<Rightarrow>
          (case deref r (root d) of
             JArray a \<Rightarrow>
               Inr (r @ [Index (length a)], d\<lparr> root := assign r (JArray (a @ [v])) (root d) \<rparr>)
           | JObject m \<Rightarrow>
               (case object_element d of
                  None \<Rightarrow> Inl Assertion
                | Some q \<Rightarrow> Inr (q, d\<lparr> root := assign q v (root d) \<rparr>))
           | _ \<Rightarrow> Inl Assertion))"

definition dom_value :: "json \<Rightarrow> dom_state \<Rightarrow> dom_state sax_result" where
  "dom_value v d = mapE (\<lambda>(_, d'). (True, d')) (handle_value v d)"

definition dom_start :: "value_t \<Rightarrow> dom_state \<Rightarrow> dom_state sax_result" where
  "dom_start t d =
     mapE (\<lambda>(r, d'). (True, d'\<lparr> ref_stack := r # ref_stack d' \<rparr>)) (handle_value (json_of_type t) d)"

text \<open>\<open>operator[]\<close> of the map: a key that is not there is inserted with \<open>null\<close>.\<close>

definition dom_key :: "string \<Rightarrow> dom_state \<Rightarrow> dom_state sax_result" where
  "dom_key k d =
     (case ref_stack d of
        [] \<Rightarrow> Inl Undefined
      | r # _ \<Rightarrow>
          (case deref r (root d) of
             JObject m \<Rightarrow>
               Inr (True, d\<lparr> root := assign r (JObject (case map_of m k of
                                  None \<Rightarrow> obj_set k JNull m | Some _ \<Rightarrow> m)) (root d),
                             object_element := Some (r @ [Key k]) \<rparr>)
           | _ \<Rightarrow> Inl Undefined))"

definition dom_end :: "dom_state \<Rightarrow> dom_state sax_result" where
  "dom_end d =
     (case ref_stack d of [] \<Rightarrow> Inl Undefined | _ # rs \<Rightarrow> Inr (True, d\<lparr> ref_stack := rs \<rparr>))"

text \<open>Throwing an exception object by the class its number belongs to.\<close>

definition rethrow :: "json_exception \<Rightarrow> json_fail" where
  "rethrow ex = (if (ex_id ex div 100) mod 100 \<in> {1, 2, 3, 4, 5} then Throw ex else Assertion)"

definition dom_parse_error :: "bool \<Rightarrow> nat \<Rightarrow> string \<Rightarrow> json_exception \<Rightarrow> dom_state \<Rightarrow> dom_state sax_result" where
  "dom_parse_error allow_exceptions pos tok ex d =
     (if allow_exceptions then Inl (rethrow ex) else Inr (False, d\<lparr> errored := True \<rparr>))"

definition dom_sax :: "bool \<Rightarrow> dom_state sax" where
  "dom_sax allow_exceptions =
     \<lparr> sax_null = dom_value JNull,
       sax_boolean = (\<lambda>b. dom_value (JBoolean b)),
       sax_number_integer = (\<lambda>i. dom_value (JInteger i)),
       sax_number_unsigned = (\<lambda>i. dom_value (JUnsigned i)),
       sax_number_float = (\<lambda>x s. dom_value (JFloat x)),
       sax_string = (\<lambda>s. dom_value (JString s)),
       sax_start_object = dom_start V_object,
       sax_key = dom_key,
       sax_end_object = dom_end,
       sax_start_array = dom_start V_array,
       sax_end_array = dom_end,
       sax_parse_error = dom_parse_error allow_exceptions \<rparr>"

section \<open>Checking a text\<close>

definition acceptor_sax :: "unit sax" where
  "acceptor_sax =
     \<lparr> sax_null = (\<lambda>s. Inr (True, s)),
       sax_boolean = (\<lambda>b s. Inr (True, s)),
       sax_number_integer = (\<lambda>i s. Inr (True, s)),
       sax_number_unsigned = (\<lambda>i s. Inr (True, s)),
       sax_number_float = (\<lambda>x t s. Inr (True, s)),
       sax_string = (\<lambda>t s. Inr (True, s)),
       sax_start_object = (\<lambda>s. Inr (True, s)),
       sax_key = (\<lambda>k s. Inr (True, s)),
       sax_end_object = (\<lambda>s. Inr (True, s)),
       sax_start_array = (\<lambda>s. Inr (True, s)),
       sax_end_array = (\<lambda>s. Inr (True, s)),
       sax_parse_error = (\<lambda>pos tok ex s. Inr (False, s)) \<rparr>"

section \<open>Parsing and accepting\<close>

text \<open>\<open>parser::parse\<close> without a callback; with errors that are not thrown the value is discarded.\<close>

definition parser_parse :: "bool \<Rightarrow> bool \<Rightarrow> parser \<Rightarrow> json jres" where
  "parser_parse allow_exceptions strict p =
     (let sax = dom_sax allow_exceptions in
      bindE (sax_parse_internal sax dom_init p) (\<lambda>(_, d1, p1).
      bindE (if strict
             then (let p2 = get_token p1 in
                   if last_token p2 \<noteq> End_of_input then expect_end sax d1 p2 else checked p2 (Inr (True, d1)))
             else checked p1 (Inr (True, d1))) (\<lambda>(_, d2).
      Inr (if errored d2 then JDiscarded else root d2))))"

definition json_parse :: "bool \<Rightarrow> string \<Rightarrow> json jres" where
  "json_parse allow_exceptions input = parser_parse allow_exceptions True (parser_init input)"

definition json_accept :: "string \<Rightarrow> bool jres" where
  "json_accept input = mapE fst (sax_parse acceptor_sax True () (parser_init input))"

end
