(* ===== verification/Json_Utf8.thy ===== *)
theory Json_Utf8
  imports Json_Lexer
begin

unbundle bit_operations_syntax

text \<open>
  UTF-8 as a reference: a string is valid when it is the encoding of a list of scalar values.
  The scanner of strings accepts bytes by the ranges of each lead byte and encodes escaped
  code units; both add the encoding of one scalar value at a time, so that every string a
  token carries is valid.
\<close>

section \<open>Scalar values and their encoding\<close>

definition scalar :: "int \<Rightarrow> bool" where
  "scalar cp \<longleftrightarrow> 0 \<le> cp \<and> cp \<le> 0x10FFFF \<and> \<not> (0xD800 \<le> cp \<and> cp \<le> 0xDFFF)"

definition utf8_codes :: "int \<Rightarrow> int list" where
  "utf8_codes cp =
     (if cp < 0x80 then [cp]
      else if cp < 0x800 then [0xC0 + cp div 64, 0x80 + cp mod 64]
      else if cp < 0x10000 then [0xE0 + cp div 4096, 0x80 + cp div 64 mod 64, 0x80 + cp mod 64]
      else [0xF0 + cp div 262144, 0x80 + cp div 4096 mod 64, 0x80 + cp div 64 mod 64,
            0x80 + cp mod 64])"

definition utf8_char :: "int \<Rightarrow> string" where
  "utf8_char cp = map char_of (utf8_codes cp)"

definition utf8 :: "string \<Rightarrow> bool" where
  "utf8 s \<longleftrightarrow> (\<exists>cps. (\<forall>cp \<in> set cps. scalar cp) \<and> s = concat (map utf8_char cps))"

lemma utf8_Nil [simp]: "utf8 []"
  unfolding utf8_def by (intro exI [of _ "[]"]) simp

lemma utf8_snoc: "utf8 s \<Longrightarrow> scalar cp \<Longrightarrow> utf8 (s @ utf8_char cp)"
proof -
  assume "utf8 s" "scalar cp"
  then obtain cps where "\<forall>cp \<in> set cps. scalar cp" "s = concat (map utf8_char cps)"
    by (auto simp: utf8_def)
  then show ?thesis using \<open>scalar cp\<close> unfolding utf8_def
    by (intro exI [of _ "cps @ [cp]"]) auto
qed

lemma utf8_append: "utf8 s \<Longrightarrow> utf8 t \<Longrightarrow> utf8 (s @ t)"
proof -
  assume "utf8 s" "utf8 t"
  then obtain c1 c2 where "\<forall>cp \<in> set c1. scalar cp" "s = concat (map utf8_char c1)"
    "\<forall>cp \<in> set c2. scalar cp" "t = concat (map utf8_char c2)"
    by (auto simp: utf8_def)
  then show ?thesis unfolding utf8_def by (intro exI [of _ "c1 @ c2"]) auto
qed

lemma ord_bounds: "0 \<le> ord c" "ord c < 256"
proof -
  have "ord c mod 256 = ord c" by (rule of_char_mod_256)
  then show "0 \<le> ord c" "ord c < 256"
    using pos_mod_sign [of 256 "ord c"] pos_mod_bound [of 256 "ord c"] by simp_all
qed

lemma utf8_ascii: "\<forall>c \<in> set s. ord c < 128 \<Longrightarrow> utf8 s"
proof (induction s)
  case (Cons c s)
  have "utf8 [c]" unfolding utf8_def
    by (intro exI [of _ "[ord c]"]) (use Cons.prems ord_bounds [of c] in \<open>auto simp: scalar_def utf8_char_def utf8_codes_def\<close>)
  then show ?case using utf8_append [of "[c]" s] Cons by auto
qed simp

section \<open>The encoder of the scanner\<close>

lemma or_lead:
  "\<forall>x \<in> {0..31}. (0xC0 :: int) OR x = 0xC0 + x"
  "\<forall>x \<in> {0..15}. (0xE0 :: int) OR x = 0xE0 + x"
  "\<forall>x \<in> {0..7}. (0xF0 :: int) OR x = 0xF0 + x"
  "\<forall>x \<in> {0..63}. (0x80 :: int) OR x = 0x80 + x"
  by code_simp+

lemma and_63: "x AND (0x3F :: int) = x mod 64"
proof -
  have "(0x3F :: int) = mask 6" by (simp add: mask_eq_exp_minus_1)
  then show ?thesis by (simp only: take_bit_eq_mask [symmetric] take_bit_eq_mod) simp
qed

lemma or_plus:
  "0 \<le> x \<Longrightarrow> x < 32 \<Longrightarrow> (0xC0 :: int) OR x = 0xC0 + x"
  "0 \<le> x \<Longrightarrow> x < 16 \<Longrightarrow> (0xE0 :: int) OR x = 0xE0 + x"
  "0 \<le> x \<Longrightarrow> x < 8 \<Longrightarrow> (0xF0 :: int) OR x = 0xF0 + x"
  "0 \<le> x \<Longrightarrow> x < 64 \<Longrightarrow> (0x80 :: int) OR x = 0x80 + x"
  using or_lead by (auto simp: Ball_def)

lemma utf8_bytes_codes:
  assumes "0 \<le> cp" and "cp \<le> 0x10FFFF"
  shows "utf8_bytes cp = utf8_codes cp"
proof -
  have d: "drop_bit 6 cp = cp div 64" "drop_bit 12 cp = cp div 4096" "drop_bit 18 cp = cp div 262144"
    by (simp_all add: drop_bit_eq_div)
  have m: "(0x80 :: int) OR (x mod 64) = 0x80 + x mod 64" for x
    by (rule or_plus) simp_all
  have "cp < 0x800 \<Longrightarrow> cp div 64 < 32" "cp < 0x10000 \<Longrightarrow> cp div 4096 < 16" "cp div 262144 < 8"
    using assms by linarith+
  then show ?thesis using assms
    by (simp add: utf8_bytes_def utf8_codes_def d and_63 m or_plus)
qed

lemma map_char_of_ord [simp]: "map (\<lambda>c. char_of (ord c)) s = s"
  by (induction s) (auto intro: of_char_eqI)

lemma char_of_ord [simp]: "char_of (ord c) = c"
  by (auto intro: of_char_eqI)

section \<open>What the scanner adds\<close>

lemma fold_add: "fold add cs lx = lx\<lparr> token_buffer := token_buffer lx @ map char_of cs \<rparr>"
  by (induction cs arbitrary: lx) (simp_all add: add_def)

lemma add_codepoint_buffer:
  "scalar cp \<Longrightarrow> add_codepoint cp lx = lx\<lparr> token_buffer := token_buffer lx @ utf8_char cp \<rparr>"
  by (simp add: add_codepoint_def fold_add utf8_char_def utf8_bytes_codes scalar_def)

text \<open>A lead byte and the bytes within its ranges encode a scalar value.\<close>

definition in_ranges :: "(int \<times> int) list \<Rightarrow> int list \<Rightarrow> bool" where
  "in_ranges rs bs \<longleftrightarrow> list_all2 (\<lambda>(lo, hi) b. lo \<le> b \<and> b \<le> hi) rs bs"

lemma in_ranges_cases:
  "in_ranges [] bs \<longleftrightarrow> bs = []"
  "in_ranges ((lo, hi) # rs) bs \<longleftrightarrow> (\<exists>b bs'. bs = b # bs' \<and> lo \<le> b \<and> b \<le> hi \<and> in_ranges rs bs')"
  by (auto simp: in_ranges_def list_all2_Cons1)

lemma digit64:
  assumes "0 \<le> (r :: int)" "r < 64"
  shows "(q * 64 + r) div 64 = q" "(q * 64 + r) mod 64 = r"
    "(q * 64 + r) div 4096 = q div 64" "(q * 64 + r) div 262144 = q div 4096"
proof -
  show 1: "(q * 64 + r) div 64 = q" and "(q * 64 + r) mod 64 = r" using assms by simp_all
  have "x div 4096 = x div 64 div 64" "x div 262144 = x div 64 div 4096" for x :: int
    by (simp_all add: zdiv_zmult2_eq [symmetric])
  then show "(q * 64 + r) div 4096 = q div 64" "(q * 64 + r) div 262144 = q div 4096"
    by (simp_all only: 1)
qed

lemma codes2:
  assumes "0xC2 \<le> c" "c \<le> 0xDF" "0x80 \<le> b" "b \<le> 0xBF"
  shows "\<exists>cp. utf8_codes cp = [c, b] \<and> scalar cp"
proof -
  let ?cp = "(c - 0xC0) * 64 + (b - 0x80)"
  have "?cp div 64 = c - 0xC0" "?cp mod 64 = b - 0x80"
    by (rule digit64, use assms in simp, use assms in simp)+
  moreover have "0x80 \<le> ?cp" "?cp < 0x800" using assms by auto
  ultimately show ?thesis by (intro exI [of _ ?cp]) (simp add: utf8_codes_def scalar_def)
qed

lemma codes3:
  assumes "0xE0 \<le> c" "c \<le> 0xEF" "0x80 \<le> b" "b \<le> 0xBF" "0x80 \<le> d" "d \<le> 0xBF"
    and "c = 0xE0 \<Longrightarrow> 0xA0 \<le> b" and "c = 0xED \<Longrightarrow> b \<le> 0x9F"
  shows "\<exists>cp. utf8_codes cp = [c, b, d] \<and> scalar cp"
proof -
  let ?q = "(c - 0xE0) * 64 + (b - 0x80)"
  let ?cp = "?q * 64 + (d - 0x80)"
  have "?q div 64 = c - 0xE0" "?q mod 64 = b - 0x80"
    by (rule digit64, use assms in simp, use assms in simp)+
  moreover have "?cp div 64 = ?q" "?cp mod 64 = d - 0x80" "?cp div 4096 = ?q div 64"
    by (rule digit64, use assms in simp, use assms in simp)+
  moreover have "0x800 \<le> ?cp" using assms by (cases "c = 0xE0") auto
  moreover have "?cp < 0x10000" using assms by auto
  moreover have "\<not> (0xD800 \<le> ?cp \<and> ?cp \<le> 0xDFFF)"
    using assms by (cases "c < 0xED"; cases "c = 0xED") auto
  ultimately show ?thesis by (intro exI [of _ ?cp]) (simp add: utf8_codes_def scalar_def)
qed

lemma codes4:
  assumes "0xF0 \<le> c" "c \<le> 0xF4" "0x80 \<le> b" "b \<le> 0xBF" "0x80 \<le> d" "d \<le> 0xBF" "0x80 \<le> e" "e \<le> 0xBF"
    and "c = 0xF0 \<Longrightarrow> 0x90 \<le> b" and "c = 0xF4 \<Longrightarrow> b \<le> 0x8F"
  shows "\<exists>cp. utf8_codes cp = [c, b, d, e] \<and> scalar cp"
proof -
  define q where "q = (c - 0xF0) * 64 + (b - 0x80)"
  define r where "r = q * 64 + (d - 0x80)"
  define cp where "cp = r * 64 + (e - 0x80)"
  have q: "q div 64 = c - 0xF0" "q mod 64 = b - 0x80"
    unfolding q_def by (rule digit64, use assms in simp, use assms in simp)+
  have r: "r div 64 = q" "r mod 64 = d - 0x80" "r div 4096 = q div 64"
    unfolding r_def by (rule digit64, use assms in simp, use assms in simp)+
  have cp: "cp div 64 = r" "cp mod 64 = e - 0x80" "cp div 4096 = r div 64" "cp div 262144 = r div 4096"
    unfolding cp_def by (rule digit64, use assms in simp, use assms in simp)+
  have "0x10000 \<le> cp"
    unfolding cp_def r_def q_def using assms by (cases "c = 0xF0") auto
  moreover have "cp \<le> 0x10FFFF"
    unfolding cp_def r_def q_def using assms by (cases "c = 0xF4") auto
  ultimately have "utf8_codes cp = [c, b, d, e]" "scalar cp"
    unfolding utf8_codes_def scalar_def cp r q by simp_all
  then show ?thesis by blast
qed

lemma utf8_ranges_cases:
  assumes "utf8_ranges c = Some rs"
  obtains "0xC2 \<le> c" "c \<le> 0xDF" "rs = [(0x80, 0xBF)]"
    | lo hi where "0xE0 \<le> c" "c \<le> 0xEF" "rs = [(lo, hi), (0x80, 0xBF)]" "0x80 \<le> lo" "hi \<le> 0xBF"
        "c = 0xE0 \<Longrightarrow> lo = 0xA0" "c = 0xED \<Longrightarrow> hi = 0x9F"
    | lo hi where "0xF0 \<le> c" "c \<le> 0xF4" "rs = [(lo, hi), (0x80, 0xBF), (0x80, 0xBF)]"
        "0x80 \<le> lo" "hi \<le> 0xBF" "c = 0xF0 \<Longrightarrow> lo = 0x90" "c = 0xF4 \<Longrightarrow> hi = 0x8F"
proof -
  note two = that(1) and three = that(2) and four = that(3)
  from assms consider "0xC2 \<le> c \<and> c \<le> 0xDF \<and> rs = [(0x80, 0xBF)]"
    | "c = 0xE0 \<and> rs = [(0xA0, 0xBF), (0x80, 0xBF)]"
    | "(0xE1 \<le> c \<and> c \<le> 0xEC \<or> c = 0xEE \<or> c = 0xEF) \<and> rs = [(0x80, 0xBF), (0x80, 0xBF)]"
    | "c = 0xED \<and> rs = [(0x80, 0x9F), (0x80, 0xBF)]"
    | "c = 0xF0 \<and> rs = [(0x90, 0xBF), (0x80, 0xBF), (0x80, 0xBF)]"
    | "0xF1 \<le> c \<and> c \<le> 0xF3 \<and> rs = [(0x80, 0xBF), (0x80, 0xBF), (0x80, 0xBF)]"
    | "c = 0xF4 \<and> rs = [(0x80, 0x8F), (0x80, 0xBF), (0x80, 0xBF)]"
    unfolding utf8_ranges_def by (simp split: if_split_asm)
  then show thesis
  proof cases
    case 1
    then show thesis using two by simp
  next
    case 2
    then show thesis by (intro three) auto
  next
    case 3
    then show thesis by (intro three) auto
  next
    case 4
    then show thesis by (intro three) auto
  next
    case 5
    then show thesis by (intro four) auto
  next
    case 6
    then show thesis by (intro four) auto
  next
    case 7
    then show thesis by (intro four) auto
  qed
qed

lemma ranges_encode:
  assumes "utf8_ranges c = Some rs" and "in_ranges rs bs"
  shows "\<exists>cp. utf8_codes cp = c # bs \<and> scalar cp"
  using assms(1)
proof (cases rule: utf8_ranges_cases)
  case 1
  then obtain b where "bs = [b]" "0x80 \<le> b" "b \<le> 0xBF"
    using assms(2) by (auto simp: in_ranges_cases)
  then show ?thesis using codes2 [of c b] 1 by simp
next
  case (2 lo hi)
  then obtain b d where b: "bs = [b, d]" "lo \<le> b" "b \<le> hi" "0x80 \<le> d" "d \<le> 0xBF"
    using assms(2) by (auto simp: in_ranges_cases)
  show ?thesis unfolding b(1) by (rule codes3) (use 2 b in auto)
next
  case (3 lo hi)
  then obtain b d e where b: "bs = [b, d, e]" "lo \<le> b" "b \<le> hi" "0x80 \<le> d" "d \<le> 0xBF"
    "0x80 \<le> e" "e \<le> 0xBF"
    using assms(2) by (auto simp: in_ranges_cases)
  show ?thesis unfolding b(1) by (rule codes4) (use 3 b in auto)
qed

section \<open>The strings of tokens\<close>

lemma hex_value_bounds: "hex_value c = Some v \<Longrightarrow> 0 \<le> v \<and> v < 16"
  by (auto simp: hex_value_def split: if_splits)

lemma get_codepoint_loop_buffer:
  "get_codepoint_loop fs cp lx = (c, lx') \<Longrightarrow> token_buffer lx' = token_buffer lx"
  by (induction fs cp lx rule: get_codepoint_loop.induct)
     (auto simp: Let_def get_fields split: option.splits)

lemma get_codepoint_bounds:
  assumes "get_codepoint lx = (c, lx')"
  shows "c = - 1 \<or> (0 \<le> c \<and> c \<le> 0xFFFF)" and "token_buffer lx' = token_buffer lx"
proof -
  have "c = - 1 \<or> (\<exists>v1 v2 v3 v4. c = push_bit 12 v1 + push_bit 8 v2 + push_bit 4 v3 + v4 \<and>
      0 \<le> v1 \<and> v1 < 16 \<and> 0 \<le> v2 \<and> v2 < 16 \<and> 0 \<le> v3 \<and> v3 < 16 \<and> 0 \<le> v4 \<and> v4 < 16)"
    using assms
    by (auto simp: get_codepoint_def Let_def split: option.splits dest!: hex_value_bounds)
  then show "c = - 1 \<or> (0 \<le> c \<and> c \<le> 0xFFFF)" by (auto simp: push_bit_eq_mult)
  show "token_buffer lx' = token_buffer lx"
    using assms by (rule get_codepoint_result) (drule get_codepoint_loop_buffer, simp)
qed

definition adds_char :: "lexer \<Rightarrow> lexer + lexer \<Rightarrow> bool" where
  "adds_char lx r \<longleftrightarrow>
     (case r of Inl _ \<Rightarrow> True
      | Inr lx' \<Rightarrow> \<exists>cp. scalar cp \<and> token_buffer lx' = token_buffer lx @ utf8_char cp)"

lemma adds_char_simps [simp]:
  "adds_char lx (Inr lx') \<longleftrightarrow> (\<exists>cp. scalar cp \<and> token_buffer lx' = token_buffer lx @ utf8_char cp)"
  "adds_char lx (token_error m lx')"
  by (simp_all add: adds_char_def token_error_def)

lemma scan_unicode_adds: "adds_char lx (scan_unicode lx)"
proof -
  obtain c1 l1 where 1: "get_codepoint lx = (c1, l1)" by fastforce
  obtain c2 l2 where 2: "get_codepoint (get (get l1)) = (c2, l2)" by fastforce
  have pair: "scalar (push_bit 10 c1 + c2 - 0x35FDC00)"
    if "0xD800 \<le> c1" "c1 \<le> 0xDBFF" "0xDC00 \<le> c2" "c2 \<le> 0xDFFF"
    using that by (auto simp: scalar_def push_bit_eq_mult)
  have single: "scalar c1" if "c1 \<noteq> - 1" "\<not> (0xD800 \<le> c1 \<and> c1 \<le> 0xDBFF)" "\<not> (0xDC00 \<le> c1 \<and> c1 \<le> 0xDFFF)"
    using that get_codepoint_bounds(1) [OF 1] by (auto simp: scalar_def)
  have "adds_char lx (Inr (add_codepoint (push_bit 10 c1 + c2 - 0x35FDC00) l2))"
    if "0xD800 \<le> c1" "c1 \<le> 0xDBFF" "0xDC00 \<le> c2" "c2 \<le> 0xDFFF"
    using pair [OF that] get_codepoint_bounds(2) [OF 1] get_codepoint_bounds(2) [OF 2]
    by (simp add: add_codepoint_buffer get_fields) blast
  moreover have "adds_char lx (Inr (add_codepoint c1 l1))"
    if "c1 \<noteq> - 1" "\<not> (0xD800 \<le> c1 \<and> c1 \<le> 0xDBFF)" "\<not> (0xDC00 \<le> c1 \<and> c1 \<le> 0xDFFF)"
    using single [OF that] get_codepoint_bounds(2) [OF 1]
    by (simp add: add_codepoint_buffer) blast
  ultimately show ?thesis
    by (simp add: scan_unicode_def 1 2 Let_def del: adds_char_simps(1))
qed

lemma ascii_char: "0 \<le> c \<Longrightarrow> c < 128 \<Longrightarrow> scalar c \<and> utf8_char c = [char_of c]"
  by (simp add: scalar_def utf8_char_def utf8_codes_def)

lemma scan_escape_adds: "adds_char lx (scan_escape lx)"
proof (cases "escaped (current (get lx))")
  case None
  have "adds_char lx (scan_unicode (get lx))"
    using scan_unicode_adds [of "get lx"] by (auto simp: adds_char_def get_fields split: sum.splits)
  then show ?thesis by (simp add: scan_escape_def None Let_def)
next
  case (Some c)
  then have "0 \<le> c \<and> c < 128" by (auto simp: escaped_def split: if_splits)
  then have "adds_char lx (Inr (add c (get lx)))"
    using ascii_char [of c] by (auto simp: add_def get_fields)
  then show ?thesis by (simp add: scan_escape_def Some Let_def)
qed

lemma next_bytes_Inr:
  "next_bytes rs lx = Inr lx' \<Longrightarrow>
     \<exists>bs. in_ranges rs bs \<and> token_buffer lx' = token_buffer lx @ map char_of bs"
proof (induction rs lx rule: next_bytes.induct)
  case (1 lx)
  then show ?case by (intro exI [of _ "[]"]) (simp add: in_ranges_cases)
next
  case (2 lo hi ranges lx)
  let ?c = "current (get lx)"
  have c: "lo \<le> ?c \<and> ?c \<le> hi" and r: "next_bytes ranges (add ?c (get lx)) = Inr lx'"
    using "2.prems" by (auto simp: Let_def token_error_def split: if_splits)
  obtain bs where "in_ranges ranges bs" "token_buffer lx' = token_buffer (add ?c (get lx)) @ map char_of bs"
    using "2.IH" [OF refl c r] by blast
  then show ?case using c
    by (intro exI [of _ "?c # bs"]) (simp add: in_ranges_cases add_def get_fields)
qed

lemma scan_plain_adds: "adds_char lx (scan_plain lx)"
proof (cases "utf8_ranges (current lx)")
  case None
  then show ?thesis using ascii_char [of "current lx"]
    by (auto simp: scan_plain_def Let_def add_def)
next
  case (Some rs)
  have "adds_char lx (next_byte_in_range rs lx)"
  proof (cases "next_byte_in_range rs lx")
    case (Inr lx')
    then obtain bs where b: "in_ranges rs bs"
      "token_buffer lx' = token_buffer lx @ char_of (current lx) # map char_of bs"
      using next_bytes_Inr [of rs "add (current lx) (assert_that (2 * length rs \<in> {2, 4, 6}) lx)" lx']
      by (auto simp: next_byte_in_range_def add_def)
    obtain cp where "scalar cp" "utf8_codes cp = current lx # bs"
      using ranges_encode [OF Some b(1)] by blast
    then show ?thesis using Inr b(2) by (auto simp: utf8_char_def intro!: exI [of _ cp])
  qed (simp add: adds_char_def)
  then show ?thesis using Some ascii_char [of "current lx"]
    by (auto simp: scan_plain_def Let_def add_def)
qed

lemma scan_string_step_adds: "scan_string_step lx = Some r \<Longrightarrow> adds_char lx r"
  using scan_escape_adds [of lx] scan_plain_adds [of lx]
  by (auto simp: scan_string_step_def split: if_splits)

lemma scan_string_loop_utf8:
  "scan_string_loop lx = (Value_string, lx') \<Longrightarrow> utf8 (token_buffer lx) \<Longrightarrow> utf8 (token_buffer lx')"
proof (induction lx rule: scan_string_loop.induct)
  case (1 lx)
  show ?case
  proof (cases "scan_string_step (get lx)")
    case None
    then show ?thesis using "1.prems" by (subst (asm) scan_string_loop.simps) (auto simp: Let_def get_fields)
  next
    case (Some r)
    show ?thesis
    proof (cases r)
      case (Inl lx2)
      then show ?thesis using "1.prems" Some
        by (subst (asm) scan_string_loop.simps) (simp add: Let_def)
    next
      case (Inr lx2)
      obtain cp where "scalar cp" "token_buffer lx2 = token_buffer lx @ utf8_char cp"
        using scan_string_step_adds [OF Some] Inr by (auto simp: get_fields)
      then have "utf8 (token_buffer lx2)" using "1.prems"(2) by (simp add: utf8_snoc)
      moreover have "scan_string_loop lx2 = (Value_string, lx')"
        using "1.prems"(1) Some Inr by (subst (asm) scan_string_loop.simps) (simp add: Let_def)
      ultimately show ?thesis by (intro "1.IH" [OF refl Some Inr])
    qed
  qed
qed

text \<open>What the value of a token satisfies.\<close>

definition token_ok :: "token_type \<Rightarrow> lexer \<Rightarrow> bool" where
  "token_ok t lx \<longleftrightarrow>
     (t = Value_string \<longrightarrow> utf8 (token_buffer lx)) \<and>
     (t = Value_integer \<longrightarrow> in64 (value_integer lx)) \<and>
     (t = Value_unsigned \<longrightarrow> inu64 (value_unsigned lx))"

lemma token_ok_number_error [simp]: "token_ok (fst (number_error m lx)) (snd (number_error m lx))"
  by (simp add: number_error_def token_ok_def)

lemma token_ok_error [simp]: "token_ok Token_error lx"
  by (simp add: token_ok_def)

lemma token_ok_number_done: "case_prod token_ok (scan_number_done t lx)"
proof -
  have "v mod 18446744073709551616 \<le> 18446744073709551615" for v :: int
    using pos_mod_bound [of 18446744073709551616 v] by simp
  then have "inu64 (fst (strtoull s))" for s
    by (simp add: strtoull_def inu64_def split: option.splits)
  moreover have "in64 (fst (strtoll s))" for s
    by (simp add: strtoll_def in64_def split: option.splits)
  ultimately show ?thesis
    by (auto simp: scan_number_done_def token_ok_def Let_def split: prod.splits) (metis fst_conv)+
qed

abbreviation number_ok :: "token_type \<times> lexer \<Rightarrow> bool" where
  "number_ok r \<equiv> token_ok (fst r) (snd r)"

lemma number_ok_done [simp]: "number_ok (scan_number_done t lx)"
  using token_ok_number_done [of t lx] by (simp add: case_prod_beta)

lemma number_ok_any2 [simp]: "number_ok (scan_number_any2 t lx)"
  by (induction t lx rule: scan_number_any2.induct) (subst (1 2) scan_number_any2.simps, simp add: Let_def)

lemma number_ok_exponent [simp]: "number_ok (scan_number_exponent lx)"
  by (simp add: scan_number_exponent_def scan_number_sign_def Let_def)

lemma number_ok_decimal2 [simp]: "number_ok (scan_number_decimal2 t lx)"
  by (induction t lx rule: scan_number_decimal2.induct)
     (subst (1 2) scan_number_decimal2.simps, simp add: Let_def)

lemma number_ok_decimal1 [simp]: "number_ok (scan_number_decimal1 lx)"
  by (simp add: scan_number_decimal1_def Let_def)

lemma number_ok_any1 [simp]: "number_ok (scan_number_any1 t lx)"
  by (induction t lx rule: scan_number_any1.induct)
     (subst (1 2) scan_number_any1.simps, simp add: Let_def)

lemma number_ok_zero [simp]: "number_ok (scan_number_zero t lx)"
  by (simp add: scan_number_zero_def Let_def)

lemma number_ok_scan [simp]: "number_ok (scan_number lx)"
  by (simp add: scan_number_def scan_number_minus_def Let_def)

lemma scan_literal_loop_token: "fst (scan_literal_loop cs t lx) \<in> {t, Token_error}"
  by (induction cs t lx rule: scan_literal_loop.induct) (auto simp: Let_def)

lemma scan_string_loop_token: "fst (scan_string_loop lx) \<in> {Value_string, Token_error}"
proof (induction lx rule: scan_string_loop.induct)
  case (1 lx)
  then show ?case
    by (subst scan_string_loop.simps) (auto simp: Let_def split: option.splits sum.splits)
qed

lemma number_ok_string: "number_ok (scan_string lx)"
proof -
  let ?lx = "assert_that (current lx = ord CHR 0x22) (reset lx)"
  have "utf8 (token_buffer ?lx)" by (simp add: reset_def)
  then show ?thesis
    using scan_string_loop_token [of ?lx] scan_string_loop_utf8 [of ?lx "snd (scan_string_loop ?lx)"]
    by (cases "scan_string_loop ?lx") (auto simp: scan_string_def Let_def token_ok_def)
qed

lemma number_ok_literal:
  "t \<in> {Literal_true, Literal_false, Literal_null} \<Longrightarrow> number_ok (scan_literal cs t lx)"
  using scan_literal_loop_token [of "tl cs" t "assert_that (current lx = ord (hd cs)) lx"]
  by (auto simp: scan_literal_def token_ok_def)

lemma scan_token_ok: "number_ok (scan_token lx)"
  using number_ok_literal
  by (simp add: scan_token_def Let_def number_ok_string) (simp add: token_ok_def)

lemma scan_ok: "scan lx = (t, lx') \<Longrightarrow> token_ok t lx'"
proof -
  assume s: "scan lx = (t, lx')"
  obtain ok lx1 where "(if chars_read_total (position lx) = 0 then skip_bom lx else (True, lx)) = (ok, lx1)"
    by fastforce
  then show ?thesis using s scan_token_ok [of "skip_whitespace lx1"]
    by (cases ok) (auto simp: scan_def token_ok_def)
qed

end
