(* ===== verification/Json_Asserts.thy ===== *)
theory Json_Asserts
  imports Json_Utf8
begin

text \<open>
  No assertion of the lexer fails: \<open>scan\<close> leaves the flag \<open>asserts_hold\<close> as it is, for every state of
  the lexer. The assertions on code points follow from the digits read; the ones on \<open>endptr\<close> from the
  states of the number scanner, in each of which the buffer is a known part of a number, and from
  what \<open>strtoull\<close>, \<open>strtoll\<close> and \<open>strtod\<close> consume of a whole number.
\<close>

section \<open>Strings and literals\<close>

lemma asserts_add [simp]: "asserts_hold (add c lx) = asserts_hold lx"
  by (simp add: add_def)

lemma asserts_get [simp]: "asserts_hold (get lx) = asserts_hold lx"
  by (rule get_fields)

lemma asserts_unget_get [simp]: "asserts_hold (unget (get lx)) = asserts_hold lx"
  by (auto simp: unget_def get_def Let_def get_input_def)

text \<open>The flag of the state in which a step ends, with or without an error.\<close>

definition keeps :: "lexer \<Rightarrow> lexer + lexer \<Rightarrow> bool" where
  "keeps lx r \<longleftrightarrow> asserts_hold (case r of Inl lx' \<Rightarrow> lx' | Inr lx' \<Rightarrow> lx') = asserts_hold lx"

lemma keeps_simps [simp]:
  "keeps lx (Inr lx') \<longleftrightarrow> asserts_hold lx' = asserts_hold lx"
  "keeps lx (token_error msg lx') \<longleftrightarrow> asserts_hold lx' = asserts_hold lx"
  by (simp_all add: keeps_def token_error_def)

lemma keeps_cong: "asserts_hold lx' = asserts_hold lx \<Longrightarrow> keeps lx' r = keeps lx r"
  by (simp add: keeps_def)

lemma next_bytes_keeps: "keeps lx (next_bytes rs lx)"
proof (induction rs lx rule: next_bytes.induct)
  case (2 lo hi ranges lx)
  then show ?case using keeps_cong [of "add (current (get lx)) (get lx)" lx] by (simp add: Let_def)
qed simp

lemma utf8_ranges_length: "utf8_ranges c = Some rs \<Longrightarrow> 2 * length rs \<in> {2, 4, 6}"
  by (auto simp: utf8_ranges_def split: if_splits)

lemma next_byte_keeps: "utf8_ranges c = Some rs \<Longrightarrow> keeps lx (next_byte_in_range rs lx)"
  using next_bytes_keeps [of "add (current lx) lx" rs] keeps_cong [of "add (current lx) lx" lx]
  unfolding next_byte_in_range_def by (simp only: utf8_ranges_length assert_that_True asserts_add)

lemma get_codepoint_loop_keeps:
  "get_codepoint_loop fs cp lx = (c, lx') \<Longrightarrow> asserts_hold lx' = asserts_hold lx"
  by (induction fs cp lx rule: get_codepoint_loop.induct) (auto simp: Let_def split: option.splits)

lemma get_codepoint_keeps:
  assumes "get_codepoint lx = (c, lx')" and "current lx = ord CHR ''u''"
  shows "asserts_hold lx' = asserts_hold lx"
  using assms(1)
proof (rule get_codepoint_result)
  fix lx1
  assume "get_codepoint_loop [12, 8, 4, 0] 0 (assert_that (current lx = ord CHR ''u'') lx) = (c, lx1)"
    and lx': "lx' = (if c = - 1 then lx1 else assert_that (0 \<le> c \<and> c \<le> 0xFFFF) lx1)"
  then have "asserts_hold lx1 = asserts_hold lx"
    using get_codepoint_loop_keeps assms(2) by fastforce
  then show ?thesis using lx' get_codepoint_bounds(1) [OF assms(1)] by auto
qed

lemma add_codepoint_keeps: "scalar cp \<Longrightarrow> asserts_hold (add_codepoint cp lx) = asserts_hold lx"
  by (simp add: add_codepoint_buffer)

lemma scan_unicode_keeps:
  assumes "current lx = ord CHR ''u''"
  shows "keeps lx (scan_unicode lx)"
proof -
  obtain c1 l1 where 1: "get_codepoint lx = (c1, l1)" by fastforce
  obtain c2 l2 where 2: "get_codepoint (get (get l1)) = (c2, l2)" by fastforce
  have l1: "asserts_hold l1 = asserts_hold lx" by (rule get_codepoint_keeps [OF 1 assms])
  have l2: "asserts_hold l2 = asserts_hold lx" if "current (get (get l1)) = ord CHR ''u''"
    using get_codepoint_keeps [OF 2 that] l1 by simp
  have "scalar (push_bit 10 c1 + c2 - 0x35FDC00)"
    if "0xD800 \<le> c1" "c1 \<le> 0xDBFF" "0xDC00 \<le> c2" "c2 \<le> 0xDFFF"
    using that by (auto simp: scalar_def push_bit_eq_mult)
  moreover have "scalar c1" if "c1 \<noteq> - 1" "\<not> (0xD800 \<le> c1 \<and> c1 \<le> 0xDBFF)" "\<not> (0xDC00 \<le> c1 \<and> c1 \<le> 0xDFFF)"
    using that get_codepoint_bounds(1) [OF 1] by (auto simp: scalar_def)
  ultimately show ?thesis using l1 l2
    by (simp add: scan_unicode_def 1 2 Let_def add_codepoint_keeps)
qed

lemma scan_escape_keeps: "keeps lx (scan_escape lx)"
  using scan_unicode_keeps [of "get lx"] keeps_cong [of "get lx" lx]
  by (auto simp: scan_escape_def Let_def split: option.splits)

lemma scan_plain_keeps: "keeps lx (scan_plain lx)"
  using next_byte_keeps by (auto simp: scan_plain_def Let_def split: option.splits)

lemma scan_string_step_keeps: "scan_string_step lx = Some r \<Longrightarrow> keeps lx r"
  using scan_escape_keeps scan_plain_keeps by (auto simp: scan_string_step_def split: if_splits)

lemma scan_string_loop_keeps: "asserts_hold (snd (scan_string_loop lx)) = asserts_hold lx"
proof (induction lx rule: scan_string_loop.induct)
  case (1 lx)
  show ?case
  proof (cases "scan_string_step (get lx)")
    case None
    then show ?thesis by (subst scan_string_loop.simps) (simp add: Let_def)
  next
    case (Some r)
    then have k: "keeps (get lx) r" by (rule scan_string_step_keeps)
    show ?thesis
    proof (cases r)
      case (Inl lx2)
      then show ?thesis using Some k by (subst scan_string_loop.simps) (simp add: Let_def keeps_def)
    next
      case (Inr lx2)
      then show ?thesis using Some k "1.IH" [OF refl Some Inr]
        by (subst scan_string_loop.simps) (simp add: Let_def)
    qed
  qed
qed

lemma scan_string_keeps: "current lx = ord CHR 0x22 \<Longrightarrow> asserts_hold (snd (scan_string lx)) = asserts_hold lx"
  by (simp add: scan_string_def Let_def scan_string_loop_keeps)

lemma scan_literal_loop_keeps: "asserts_hold (snd (scan_literal_loop cs t lx)) = asserts_hold lx"
  by (induction cs t lx rule: scan_literal_loop.induct) (auto simp: Let_def)

lemma scan_literal_keeps:
  "current lx = ord (hd cs) \<Longrightarrow> asserts_hold (snd (scan_literal cs t lx)) = asserts_hold lx"
  by (simp add: scan_literal_def scan_literal_loop_keeps)

section \<open>Texts of numbers\<close>

definition all_digits :: "string \<Rightarrow> bool" where
  "all_digits ds \<longleftrightarrow> ds \<noteq> [] \<and> list_all is_digit ds"

definition int_text :: "string \<Rightarrow> bool" where
  "int_text b \<longleftrightarrow> (\<exists>sg ds. b = sg @ ds \<and> sg \<in> {[], ''-''} \<and> all_digits ds)"

definition frac_text :: "string \<Rightarrow> bool" where
  "frac_text b \<longleftrightarrow> (\<exists>m fs. b = m @ CHR ''.'' # fs \<and> int_text m \<and> all_digits fs)"

definition exp_start :: "string \<Rightarrow> bool" where
  "exp_start b \<longleftrightarrow> (\<exists>m e. b = m @ [e] \<and> (int_text m \<or> frac_text m) \<and> e \<in> {CHR ''e'', CHR ''E''})"

definition sign_text :: "string \<Rightarrow> bool" where
  "sign_text b \<longleftrightarrow> (\<exists>m sg. b = m @ sg \<and> exp_start m \<and> sg \<in> {[], ''+'', ''-''})"

definition exp_text :: "string \<Rightarrow> bool" where
  "exp_text b \<longleftrightarrow> (\<exists>m ds. b = m @ ds \<and> sign_text m \<and> all_digits ds)"

lemma all_digits_snoc: "ds = [] \<or> all_digits ds \<Longrightarrow> is_digit c \<Longrightarrow> all_digits (ds @ [c])"
  by (auto simp: all_digits_def)

lemma text_snoc:
  "int_text b \<Longrightarrow> is_digit c \<Longrightarrow> int_text (b @ [c])"
  "b \<in> {[], ''-''} \<Longrightarrow> is_digit c \<Longrightarrow> int_text (b @ [c])"
  "int_text b \<Longrightarrow> is_digit c \<Longrightarrow> frac_text (b @ [CHR ''.'', c])"
  "frac_text b \<Longrightarrow> is_digit c \<Longrightarrow> frac_text (b @ [c])"
  "sign_text b \<Longrightarrow> is_digit c \<Longrightarrow> exp_text (b @ [c])"
  "exp_text b \<Longrightarrow> is_digit c \<Longrightarrow> exp_text (b @ [c])"
proof -
  show "int_text b \<Longrightarrow> is_digit c \<Longrightarrow> int_text (b @ [c])"
    unfolding int_text_def using all_digits_snoc by (metis append_assoc)
  show "b \<in> {[], ''-''} \<Longrightarrow> is_digit c \<Longrightarrow> int_text (b @ [c])"
    unfolding int_text_def all_digits_def by (intro exI [of _ b] exI [of _ "[c]"]) simp
  show "int_text b \<Longrightarrow> is_digit c \<Longrightarrow> frac_text (b @ [CHR ''.'', c])"
    unfolding frac_text_def all_digits_def by (intro exI [of _ b] exI [of _ "[c]"]) simp
  show "frac_text b \<Longrightarrow> is_digit c \<Longrightarrow> frac_text (b @ [c])"
    unfolding frac_text_def using all_digits_snoc by (metis append_assoc append_Cons)
  show "sign_text b \<Longrightarrow> is_digit c \<Longrightarrow> exp_text (b @ [c])"
    unfolding exp_text_def all_digits_def by (intro exI [of _ b] exI [of _ "[c]"]) simp
  show "exp_text b \<Longrightarrow> is_digit c \<Longrightarrow> exp_text (b @ [c])"
    unfolding exp_text_def using all_digits_snoc by (metis append_assoc)
qed

lemma span_digits:
  "list_all is_digit ds \<Longrightarrow> takeWhile is_digit (ds @ r) = ds @ takeWhile is_digit r"
  "list_all is_digit ds \<Longrightarrow> dropWhile is_digit (ds @ r) = dropWhile is_digit r"
  by (induction ds) auto

lemma only_digits:
  "list_all is_digit ds \<Longrightarrow> takeWhile is_digit ds = ds \<and> dropWhile is_digit ds = []"
  by (induction ds) auto

lemma not_digits [simp]:
  "\<not> is_digit CHR ''.''" "\<not> is_digit CHR ''e''" "\<not> is_digit CHR ''E''" "\<not> is_digit CHR ''+''" "\<not> is_digit CHR ''-''"
  by (simp_all add: is_digit_def)

text \<open>What the conversions leave of a number and of what follows it.\<close>

lemma exponent_rest_end: "exponent_rest [] = []"
  by (simp add: exponent_rest_def)

lemma exponent_rest_digits:
  assumes "e \<in> {CHR ''e'', CHR ''E''}" "sg \<in> {[], ''+'', ''-''}" "all_digits ds"
  shows "exponent_rest (e # sg @ ds) = []"
proof -
  obtain d ds' where d: "ds = d # ds'" "is_digit d" using assms(3) by (cases ds) (auto simp: all_digits_def)
  then have "d \<noteq> CHR ''-''" "d \<noteq> CHR ''+''" using digit_not_sign by auto
  then show ?thesis
    using assms d only_digits [of ds] by (auto simp: exponent_rest_def Let_def all_digits_def)
qed

lemma strtod_int_text:
  assumes "int_text m" and "r = [] \<or> hd r \<in> {CHR ''e'', CHR ''E''}"
  shows "strtod_rest (m @ r) = exponent_rest r"
proof -
  obtain sg ds where m: "m = sg @ ds" "sg \<in> {[], ''-''}" "all_digits ds"
    using assms(1) by (auto simp: int_text_def)
  obtain d ds' where d: "ds = d # ds'" "is_digit d" using m(3) by (cases ds) (auto simp: all_digits_def)
  have u: "strtod_unsigned_rest (ds @ r) = Some (exponent_rest r)"
    using m(3) assms(2) span_digits [of ds r]
    by (cases r) (auto simp: only_digits strtod_unsigned_rest_def Let_def all_digits_def exponent_rest_end)
  have "\<not> is_space CHR ''-''" by (simp add: is_space_def)
  then show ?thesis using m(1,2) d u digit_not_sign [OF d(2)] digit_not_space [OF d(2)]
    by (auto simp: strtod_rest_def)
qed

lemma strtod_frac_text:
  assumes "frac_text m" and "r = [] \<or> hd r \<in> {CHR ''e'', CHR ''E''}"
  shows "strtod_rest (m @ r) = exponent_rest r"
proof -
  obtain sg ds fs where m: "m = sg @ ds @ CHR ''.'' # fs" "sg \<in> {[], ''-''}" "all_digits ds" "all_digits fs"
  proof -
    obtain k fs where k: "m = k @ CHR ''.'' # fs" "int_text k" "all_digits fs"
      using assms(1) unfolding frac_text_def by blast
    obtain sg ds where "k = sg @ ds" "sg \<in> {[], ''-''}" "all_digits ds"
      using k(2) unfolding int_text_def by blast
    then show thesis using that k(1,3) by simp
  qed
  obtain d ds' where d: "ds = d # ds'" "is_digit d" using m(3) by (cases ds) (auto simp: all_digits_def)
  have "dropWhile is_digit r = r" using assms(2) by (cases r) auto
  then have u: "strtod_unsigned_rest (ds @ CHR ''.'' # fs @ r) = Some (exponent_rest r)"
    using m(3,4) span_digits [of ds "CHR ''.'' # fs @ r"] span_digits [of fs r]
    by (simp add: strtod_unsigned_rest_def Let_def all_digits_def)
  have "\<not> is_space CHR ''-''" by (simp add: is_space_def)
  then show ?thesis using m(1,2) d u digit_not_sign [OF d(2)] digit_not_space [OF d(2)]
    by (auto simp: strtod_rest_def)
qed

lemma strtol_int_text: "int_text m \<Longrightarrow> strtol_rest m = []"
proof -
  assume "int_text m"
  then obtain sg ds where m: "m = sg @ ds" "sg \<in> {[], ''-''}" "all_digits ds"
    by (auto simp: int_text_def)
  obtain d ds' where d: "ds = d # ds'" "is_digit d" using m(3) by (cases ds) (auto simp: all_digits_def)
  have "\<exists>v. scan_digits ds = Some (v, [])"
    using m(3) only_digits [of ds] d(1) by (auto simp: scan_digits_def all_digits_def)
  moreover have "\<not> is_space CHR ''-''" by (simp add: is_space_def)
  ultimately show ?thesis using m(1,2) d digit_not_sign [OF d(2)] digit_not_space [OF d(2)]
    by (auto simp: strtol_rest_def scan_d_def)
qed

text \<open>The conversions consume a whole number.\<close>

lemma strtod_whole: "int_text b \<or> frac_text b \<or> exp_text b \<Longrightarrow> strtod_rest b = []"
proof (elim disjE)
  assume "exp_text b"
  then obtain m e sg ds where b: "b = m @ e # sg @ ds" "int_text m \<or> frac_text m"
    "e \<in> {CHR ''e'', CHR ''E''}" "sg \<in> {[], ''+'', ''-''}" "all_digits ds"
  proof -
    obtain k ds where k: "b = k @ ds" "sign_text k" "all_digits ds"
      using \<open>exp_text b\<close> unfolding exp_text_def by blast
    obtain n sg where n: "k = n @ sg" "exp_start n" "sg \<in> {[], ''+'', ''-''}"
      using k(2) unfolding sign_text_def by blast
    obtain m e where "n = m @ [e]" "int_text m \<or> frac_text m" "e \<in> {CHR ''e'', CHR ''E''}"
      using n(2) unfolding exp_start_def by blast
    then show thesis using that k(1,3) n(1,3) by simp
  qed
  then show ?thesis
    using strtod_int_text [of m "e # sg @ ds"] strtod_frac_text [of m "e # sg @ ds"]
      exponent_rest_digits [OF b(3-5)] by auto
qed (use strtod_int_text [of b "[]"] strtod_frac_text [of b "[]"] exponent_rest_end in auto)

section \<open>The states of the number scanner\<close>

lemma digit_char_of: "digit_code c \<Longrightarrow> is_digit (char_of c)"
proof -
  have o: "ord d = int (of_char d)" for d by (simp only: of_nat_of_char)
  assume "digit_code c"
  then have "ord (char_of c) = c" "48 \<le> c" "c \<le> 57" by (simp_all add: digit_code_def)
  then show ?thesis using o [of "char_of c"] by (simp add: is_digit_def)
qed

lemma char_of_codes [simp]:
  "char_of (46 :: int) = CHR ''.''" "char_of (45 :: int) = CHR ''-''" "char_of (43 :: int) = CHR ''+''"
  "char_of (101 :: int) = CHR ''e''" "char_of (69 :: int) = CHR ''E''"
  by code_simp+

lemma nonzero_code_digit: "nonzero_code c \<Longrightarrow> digit_code c" "digit_code 48"
  by (simp_all add: nonzero_code_def digit_code_def)

lemma number_error_keeps [simp]: "asserts_hold (snd (number_error m lx)) = asserts_hold lx"
  by (simp add: number_error_def)

lemma buffer_add_get: "token_buffer (add c (get lx)) = token_buffer lx @ [char_of c]"
  by (simp add: add_def get_fields)

lemma unget_buffer: "token_buffer (unget (get lx)) = token_buffer lx"
  by (simp add: unget_def Let_def get_fields)

lemma number_done_keeps:
  assumes "ty \<noteq> Value_float \<Longrightarrow> int_text (token_buffer lx)"
    and "int_text (token_buffer lx) \<or> frac_text (token_buffer lx) \<or> exp_text (token_buffer lx)"
  shows "asserts_hold (snd (scan_number_done ty (get lx))) = asserts_hold lx"
  using strtod_whole [OF assms(2)] strtol_int_text [OF assms(1)]
  by (auto simp: scan_number_done_def Let_def unget_buffer split: prod.splits)

lemma number_any2_keeps:
  "ty = Value_float \<Longrightarrow> exp_text (token_buffer lx) \<Longrightarrow>
     asserts_hold (snd (scan_number_any2 ty lx)) = asserts_hold lx"
proof (induction ty lx rule: scan_number_any2.induct)
  case (1 ty lx)
  then show ?case
    using text_snoc(6) [OF 1(3) digit_char_of] number_done_keeps [of ty lx]
    by (subst scan_number_any2.simps) (auto simp: Let_def buffer_add_get)
qed

lemma number_sign_keeps:
  "sign_text (token_buffer lx) \<Longrightarrow> asserts_hold (snd (scan_number_sign Value_float lx)) = asserts_hold lx"
  using text_snoc(5) [of "token_buffer lx" "char_of (current (get lx))"] digit_char_of
  by (auto simp: scan_number_sign_def Let_def number_any2_keeps buffer_add_get)

lemma exp_start_sign:
  "exp_start b \<Longrightarrow> sign_text b"
  "exp_start b \<Longrightarrow> sg \<in> {CHR ''+'', CHR ''-''} \<Longrightarrow> sign_text (b @ [sg])"
  unfolding sign_text_def by (metis append_Nil2 insertI1, metis insertE insertI1 insertI2 singletonD)

lemma number_exponent_keeps:
  assumes "exp_start (token_buffer lx)"
  shows "asserts_hold (snd (scan_number_exponent lx)) = asserts_hold lx"
proof -
  let ?c = "current (get lx)"
  have "sign_text (token_buffer lx @ [char_of ?c])" if "?c = 43 \<or> ?c = 45"
    by (rule exp_start_sign(2) [OF assms]) (use that in auto)
  moreover have "exp_text (token_buffer lx @ [char_of ?c])" if "digit_code ?c"
    by (rule text_snoc(5) [OF exp_start_sign(1) [OF assms] digit_char_of [OF that]])
  ultimately show ?thesis
    by (simp add: scan_number_exponent_def Let_def number_any2_keeps number_sign_keeps buffer_add_get)
qed

lemma exp_start_code:
  "int_text b \<or> frac_text b \<Longrightarrow> exp_code c \<Longrightarrow> exp_start (b @ [char_of c])"
  by (auto simp: exp_start_def exp_code_def)

lemma number_decimal2_keeps:
  "ty = Value_float \<Longrightarrow> frac_text (token_buffer lx) \<Longrightarrow>
     asserts_hold (snd (scan_number_decimal2 ty lx)) = asserts_hold lx"
proof (induction ty lx rule: scan_number_decimal2.induct)
  case (1 ty lx)
  then show ?case
    using text_snoc(4) [OF 1(3) digit_char_of] number_done_keeps [of ty lx]
      exp_start_code [of "token_buffer lx"]
    by (subst scan_number_decimal2.simps) (auto simp: Let_def buffer_add_get number_exponent_keeps)
qed

lemma number_decimal1_keeps:
  "token_buffer lx = m @ ''.'' \<Longrightarrow> int_text m \<Longrightarrow> asserts_hold (snd (scan_number_decimal1 lx)) = asserts_hold lx"
  using text_snoc(3) [of m "char_of (current (get lx))"] digit_char_of
  by (auto simp: scan_number_decimal1_def Let_def number_decimal2_keeps buffer_add_get)

lemma number_any1_keeps:
  "int_text (token_buffer lx) \<Longrightarrow> asserts_hold (snd (scan_number_any1 ty lx)) = asserts_hold lx"
proof (induction ty lx rule: scan_number_any1.induct)
  case (1 ty lx)
  then show ?case
    using text_snoc(1) [OF 1(2) digit_char_of] number_done_keeps [of ty lx]
      exp_start_code [of "token_buffer lx"]
    by (subst scan_number_any1.simps)
       (auto simp: Let_def buffer_add_get number_exponent_keeps number_decimal1_keeps)
qed

lemma number_zero_keeps:
  "int_text (token_buffer lx) \<Longrightarrow> asserts_hold (snd (scan_number_zero ty lx)) = asserts_hold lx"
  using number_done_keeps [of ty lx] exp_start_code [of "token_buffer lx"]
  by (auto simp: scan_number_zero_def Let_def buffer_add_get number_exponent_keeps number_decimal1_keeps)

lemma number_minus_keeps:
  "token_buffer lx = ''-'' \<Longrightarrow> asserts_hold (snd (scan_number_minus lx)) = asserts_hold lx"
  using text_snoc(2) [of "''-''" "char_of (current (get lx))"] digit_char_of nonzero_code_digit
  by (auto simp: scan_number_minus_def Let_def buffer_add_get number_zero_keeps number_any1_keeps)

lemma buffer_add_reset: "token_buffer (add c (reset lx)) = [char_of c]"
  by (simp add: add_def reset_def)

lemma scan_number_keeps:
  assumes "current lx = ord CHR ''-'' \<or> digit_code (current lx)"
  shows "asserts_hold (snd (scan_number lx)) = asserts_hold lx"
proof -
  have "digit_code c \<Longrightarrow> c \<noteq> 48 \<Longrightarrow> nonzero_code c" for c by (simp add: digit_code_def nonzero_code_def)
  then show ?thesis
    using assms text_snoc(2) [of "[]" "char_of (current lx)"] digit_char_of [of "current lx"]
    by (auto simp: scan_number_def Let_def buffer_add_reset number_minus_keeps number_zero_keeps
        number_any1_keeps)
qed

section \<open>The scanner\<close>

lemma scan_token_keeps: "asserts_hold (snd (scan_token lx)) = asserts_hold lx"
proof -
  have "asserts_hold (snd (scan_literal cs t lx)) = asserts_hold lx" if "current lx = ord (hd cs)" for cs t
    using that by (rule scan_literal_keeps)
  then show ?thesis
    by (simp add: scan_token_def Let_def scan_string_keeps scan_number_keeps)
qed

lemma skip_whitespace_keeps: "asserts_hold (skip_whitespace lx) = asserts_hold lx"
proof (induction lx rule: skip_whitespace.induct)
  case (1 lx)
  then show ?case by (subst skip_whitespace.simps) (simp add: Let_def)
qed

text \<open>For every state: no assertion fails in \<open>scan\<close>.\<close>

lemma scan_keeps [simp]: "asserts_hold (snd (scan lx)) = asserts_hold lx"
proof -
  obtain ok lx1 where b: "(if chars_read_total (position lx) = 0 then skip_bom lx else (True, lx)) = (ok, lx1)"
    by fastforce
  then have "asserts_hold lx1 = asserts_hold lx" by (auto simp: skip_bom_def Let_def split: if_splits)
  then show ?thesis by (simp add: scan_def b scan_token_keeps skip_whitespace_keeps)
qed

end
