(* ===== verification/Json_Simulation.thy ===== *)
theory Json_Simulation
  imports Json_Parser Json_Asserts
begin

text \<open>
  The contract between the parser and its handlers. The parser calls a handler in a fixed
  order: \<open>R states ready s t\<close> relates the states of two handlers while the containers
  \<open>states\<close> are open, \<open>ready\<close> when the next event is a value. A pair of handlers that keeps
  such a relation is driven in lockstep, and no call fails unless the parser reports an error.
\<close>

text \<open>The exceptions the parser reports: a syntax error, and a number that overflows.\<close>

definition reported :: "json_exception \<Rightarrow> bool" where
  "reported ex \<longleftrightarrow> ex_id ex = 101 \<or> ex_id ex = 406"

definition both_go ::
  "('s \<Rightarrow> 't \<Rightarrow> bool) \<Rightarrow> 's sax_result \<Rightarrow> 't sax_result \<Rightarrow> bool" where
  "both_go Q r1 r2 \<longleftrightarrow> (\<exists>s t. r1 = Inr (True, s) \<and> r2 = Inr (True, t) \<and> Q s t)"

text \<open>The token at hand carries a value as the lexer makes them, and no assertion of the lexer failed.\<close>

definition parser_ok :: "parser \<Rightarrow> bool" where
  "parser_ok p \<longleftrightarrow> token_ok (last_token p) (m_lexer p) \<and> asserts_hold (m_lexer p)"

lemma parser_ok_asserts: "parser_ok p \<Longrightarrow> asserts_hold (m_lexer p)"
  by (simp add: parser_ok_def)

lemma asserts_get_token [simp]: "asserts_hold (m_lexer (get_token p)) = asserts_hold (m_lexer p)"
  by (simp add: get_token_def case_prod_beta)

lemma parser_ok_get_token [simp]: "parser_ok (get_token p) \<longleftrightarrow> asserts_hold (m_lexer p)"
  using scan_ok [of "m_lexer p"] by (auto simp: get_token_def parser_ok_def case_prod_beta)

lemma parser_ok_init [simp]: "parser_ok (parser_init s)"
  by (simp add: parser_init_def lexer_init_def)

locale sax_simulation =
  fixes sax1 :: "'s sax" and sax2 :: "'t sax"
    and R :: "bool list \<Rightarrow> bool \<Rightarrow> 's \<Rightarrow> 't \<Rightarrow> bool"
    and E :: "'s sax_result \<Rightarrow> 't sax_result \<Rightarrow> bool"
  assumes primitives:
    "R st True s t \<Longrightarrow> both_go (R st False) (sax_null sax1 s) (sax_null sax2 t)"
    "R st True s t \<Longrightarrow> both_go (R st False) (sax_boolean sax1 b s) (sax_boolean sax2 b t)"
    "R st True s t \<Longrightarrow> in64 i \<Longrightarrow>
       both_go (R st False) (sax_number_integer sax1 i s) (sax_number_integer sax2 i t)"
    "R st True s t \<Longrightarrow> inu64 i \<Longrightarrow>
       both_go (R st False) (sax_number_unsigned sax1 i s) (sax_number_unsigned sax2 i t)"
    "R st True s t \<Longrightarrow> isfinite d \<Longrightarrow>
       both_go (R st False) (sax_number_float sax1 d x s) (sax_number_float sax2 d x t)"
    "R st True s t \<Longrightarrow> utf8 x \<Longrightarrow>
       both_go (R st False) (sax_string sax1 x s) (sax_string sax2 x t)"
    and start_object: "R st True s t \<Longrightarrow>
      both_go (R (False # st) False) (sax_start_object sax1 s) (sax_start_object sax2 t)"
    and key: "R (False # st) False s t \<Longrightarrow> utf8 x \<Longrightarrow>
      both_go (R (False # st) True) (sax_key sax1 x s) (sax_key sax2 x t)"
    and end_object: "R (False # st) False s t \<Longrightarrow>
      both_go (R st False) (sax_end_object sax1 s) (sax_end_object sax2 t)"
    and start_array: "R st True s t \<Longrightarrow>
      both_go (R (True # st) False) (sax_start_array sax1 s) (sax_start_array sax2 t)"
    and next_element: "R (True # st) False s t \<Longrightarrow> R (True # st) True s t"
    and end_array: "R (True # st) False s t \<Longrightarrow>
      both_go (R st False) (sax_end_array sax1 s) (sax_end_array sax2 t)"
    and errors: "R st f s t \<Longrightarrow> reported ex \<Longrightarrow>
      E (sax_parse_error sax1 n x ex s) (sax_parse_error sax2 n x ex t)"
begin

definition fails :: "'s sax_turn \<Rightarrow> 't sax_turn \<Rightarrow> bool" where
  "fails r1 r2 \<longleftrightarrow> (\<exists>e1 e2 p. E e1 e2 \<and> asserts_hold (m_lexer p) \<and>
     r1 = mapE (\<lambda>(r, s). (Some (Return r), s, p)) e1 \<and>
     r2 = mapE (\<lambda>(r, t). (Some (Return r), t, p)) e2)"

definition goes_on :: "'s sax_turn \<Rightarrow> 't sax_turn \<Rightarrow> bool" where
  "goes_on r1 r2 \<longleftrightarrow> (\<exists>skip st s t p. R st (\<not> skip) s t \<and> parser_ok p \<and>
     r1 = Inr (Some (Continue skip st), s, p) \<and> r2 = Inr (Some (Continue skip st), t, p))"

definition has_value :: "bool list \<Rightarrow> 's sax_turn \<Rightarrow> 't sax_turn \<Rightarrow> bool" where
  "has_value st r1 r2 \<longleftrightarrow> (\<exists>s t p. R st False s t \<and> parser_ok p \<and>
     r1 = Inr (None, s, p) \<and> r2 = Inr (None, t, p))"

lemma goes_on_Continue [simp]:
  "goes_on (Inr (Some (Continue skip st), s, p)) (Inr (Some (Continue skip st), t, p)) =
     (R st (\<not> skip) s t \<and> parser_ok p)"
  by (auto simp: goes_on_def)

lemma fails_syntax_error:
  "R st f s t \<Longrightarrow> asserts_hold (m_lexer p) \<Longrightarrow>
     fails (syntax_error sax1 tok c s p) (syntax_error sax2 tok c t p)"
  unfolding syntax_error_def report_def fails_def
  by (intro exI [where x = p] exI conjI) (auto intro!: errors simp: reported_def)

lemma fails_report:
  "R st f s t \<Longrightarrow> reported ex \<Longrightarrow> asserts_hold (m_lexer p) \<Longrightarrow>
     fails (report sax1 ex s p) (report sax2 ex t p)"
  unfolding report_def fails_def by (intro exI conjI) (auto intro!: errors)

lemma event_go:
  assumes "asserts_hold (m_lexer p)" and "both_go Q r1 r2" and "\<And>s t. Q s t \<Longrightarrow> P (k1 s) (k2 t)"
  shows "P (event r1 p k1) (event r2 p k2)"
  using assms by (auto simp: both_go_def event_def)

lemma has_value_event:
  "parser_ok p \<Longrightarrow> both_go (R st False) r1 r2 \<Longrightarrow> has_value st (event r1 p (value_done p)) (event r2 p (value_done p))"
  by (rule event_go [where P = "has_value st", OF parser_ok_asserts]) (auto simp: has_value_def)

lemma parse_key_related:
  assumes "R (False # st) False s t" and "parser_ok p"
  shows "goes_on (parse_key sax1 (False # st) s p) (parse_key sax2 (False # st) t p) \<or>
    fails (parse_key sax1 (False # st) s p) (parse_key sax2 (False # st) t p)"
proof (cases "last_token p = Value_string")
  case True
  then have k: "utf8 (token_buffer (m_lexer p))"
    using assms(2) by (simp add: parser_ok_def token_ok_def)
  have "goes_on (parse_key sax1 (False # st) s p) (parse_key sax2 (False # st) t p) \<or>
    fails (parse_key sax1 (False # st) s p) (parse_key sax2 (False # st) t p)"
    unfolding parse_key_def
    by (simp add: True, rule event_go [where P = "\<lambda>a b. goes_on a b \<or> fails a b", OF parser_ok_asserts [OF assms(2)] key [OF assms(1) k]])
       (auto simp: Let_def parser_ok_asserts [OF assms(2)] intro: fails_syntax_error)
  then show ?thesis .
qed (auto simp: parse_key_def intro: fails_syntax_error [OF assms(1) parser_ok_asserts [OF assms(2)]])

lemma parse_value_related:
  assumes "R st True s t" and ok: "parser_ok p"
  shows "has_value st (parse_value sax1 st s p) (parse_value sax2 st t p) \<or>
    goes_on (parse_value sax1 st s p) (parse_value sax2 st t p) \<or>
    fails (parse_value sax1 st s p) (parse_value sax2 st t p)"
    (is "?P (parse_value sax1 st s p) (parse_value sax2 st t p)")
proof -
  note h = parser_ok_asserts [OF ok]
  show ?thesis
proof (cases "last_token p")
  case Begin_object
  have "?P (event (sax_start_object sax1 s) p (\<lambda>s1. let p1 = get_token p in
              if last_token p1 = End_object then event (sax_end_object sax1 s1) p1 (value_done p1)
              else parse_key sax1 (False # st) s1 p1))
           (event (sax_start_object sax2 t) p (\<lambda>s1. let p1 = get_token p in
              if last_token p1 = End_object then event (sax_end_object sax2 s1) p1 (value_done p1)
              else parse_key sax2 (False # st) s1 p1))"
    by (rule event_go [where P = ?P, OF h start_object [OF assms(1)]])
       (use parse_key_related in \<open>auto simp: Let_def h has_value_event end_object\<close>)
  then show ?thesis by (simp add: parse_value_def Begin_object)
next
  case Begin_array
  have "?P (event (sax_start_array sax1 s) p (\<lambda>s1. let p1 = get_token p in
              if last_token p1 = End_array then event (sax_end_array sax1 s1) p1 (value_done p1)
              else Inr (Some (Continue False (True # st)), s1, p1)))
           (event (sax_start_array sax2 t) p (\<lambda>s1. let p1 = get_token p in
              if last_token p1 = End_array then event (sax_end_array sax2 s1) p1 (value_done p1)
              else Inr (Some (Continue False (True # st)), s1, p1)))"
    by (rule event_go [where P = ?P, OF h start_array [OF assms(1)]])
       (auto simp: Let_def h has_value_event end_array intro: next_element)
  then show ?thesis by (simp add: parse_value_def Begin_array)
next
  case Value_float
  then show ?thesis
    by (auto simp: parse_value_def Let_def reported_def
        intro: has_value_event [OF ok] primitives [OF assms(1)] fails_report [OF assms(1) _ h])
qed (use ok in \<open>auto simp: parse_value_def Let_def parser_ok_def token_ok_def
      intro: has_value_event [OF ok] primitives [OF assms(1)] fails_syntax_error [OF assms(1) h]\<close>)
qed

lemma evaluate_state_related:
  assumes "R st False s t" and "parser_ok p"
  shows "goes_on (evaluate_state sax1 st s p) (evaluate_state sax2 st t p) \<or>
    fails (evaluate_state sax1 st s p) (evaluate_state sax2 st t p) \<or>
    st = [] \<and> evaluate_state sax1 st s p = Inr (Some (Return True), s, p) \<and>
      evaluate_state sax2 st t p = Inr (Some (Return True), t, p)"
    (is "?G st \<or> _ \<or> _")
proof (cases st)
  case (Cons c outer)
  have go: "goes_on (event r1 p1 (\<lambda>s1. Inr (Some (Continue True outer), s1, p1)))
      (event r2 p1 (\<lambda>s1. Inr (Some (Continue True outer), s1, p1)))"
    if "both_go (R outer False) r1 r2" "parser_ok p1" for r1 r2 p1
    by (rule event_go [where P = goes_on, OF parser_ok_asserts [OF that(2)] that(1)]) (simp add: that(2))
  show ?thesis
  proof (cases c)
    case True
    then show ?thesis using assms Cons go end_array [of outer s t] next_element [of outer s t]
      by (auto simp: evaluate_state_def Let_def parser_ok_asserts [OF assms(2)]
          intro: fails_syntax_error)
  next
    case False
    then show ?thesis
      using assms Cons go end_object [of outer s t] parse_key_related [of outer s t "get_token (get_token p)"]
      by (auto simp: evaluate_state_def Let_def parser_ok_asserts [OF assms(2)] intro: fails_syntax_error)
  qed
qed (simp add: evaluate_state_def)

text \<open>The two loops end alike: with a value, or where the parser reported an error.\<close>

lemma sax_loop_related:
  "R states (\<not> skip) s t \<Longrightarrow> parser_ok p \<Longrightarrow>
    (\<exists>s' t' p'. sax_loop sax1 skip states s p = Inr (True, s', p') \<and>
       sax_loop sax2 skip states t p = Inr (True, t', p') \<and> R [] False s' t' \<and>
       asserts_hold (m_lexer p')) \<or>
    (\<exists>e1 e2 p'. E e1 e2 \<and> asserts_hold (m_lexer p') \<and> sax_loop sax1 skip states s p = mapE (\<lambda>(r, s). (r, s, p')) e1 \<and>
       sax_loop sax2 skip states t p = mapE (\<lambda>(r, t). (r, t, p')) e2)"
  (is "_ \<Longrightarrow> _ \<Longrightarrow> ?L sax1 sax2 skip states s t p")
proof (induction "parser_weight p" arbitrary: skip states s t p rule: less_induct)
  case less
  let ?r1 = "sax_step sax1 skip states s p" and ?r2 = "sax_step sax2 skip states t p"
  have "goes_on ?r1 ?r2 \<or> fails ?r1 ?r2 \<or>
    (\<exists>s' t' p'. ?r1 = Inr (Some (Return True), s', p') \<and> ?r2 = Inr (Some (Return True), t', p') \<and>
       R [] False s' t' \<and> asserts_hold (m_lexer p'))"
  proof (cases skip)
    case True
    then show ?thesis using less.prems evaluate_state_related [of states s t p]
      by (auto simp: sax_step_def parser_ok_asserts)
  next
    case False
    then have R: "R states True s t" using less.prems by simp
    from parse_value_related [OF R less.prems(2)] show ?thesis
    proof (elim disjE)
      assume "has_value states (parse_value sax1 states s p) (parse_value sax2 states t p)"
      then obtain s1 t1 p1 where "R states False s1 t1" "parser_ok p1"
        "parse_value sax1 states s p = Inr (None, s1, p1)"
        "parse_value sax2 states t p = Inr (None, t1, p1)" by (auto simp: has_value_def)
      then show ?thesis using False evaluate_state_related [of states s1 t1 p1]
        by (auto simp: sax_step_def parser_ok_asserts)
    next
      assume "goes_on (parse_value sax1 states s p) (parse_value sax2 states t p)"
      then have "goes_on ?r1 ?r2" using False by (auto simp: sax_step_def goes_on_def)
      then show ?thesis by simp
    next
      assume "fails (parse_value sax1 states s p) (parse_value sax2 states t p)"
      then obtain e1 e2 p' where e: "E e1 e2" "asserts_hold (m_lexer p')"
        "parse_value sax1 states s p = mapE (\<lambda>(r, s). (Some (Return r), s, p')) e1"
        "parse_value sax2 states t p = mapE (\<lambda>(r, t). (Some (Return r), t, p')) e2"
        by (auto simp: fails_def)
      then have "?r1 = mapE (\<lambda>(r, s). (Some (Return r), s, p')) e1"
        "?r2 = mapE (\<lambda>(r, t). (Some (Return r), t, p')) e2"
        using False by (cases e1; cases e2; auto simp: sax_step_def)+
      then have "fails ?r1 ?r2" using e(1,2) unfolding fails_def by blast
      then show ?thesis by simp
    qed
  qed
  then show ?case
  proof (elim disjE)
    assume "goes_on ?r1 ?r2"
    then obtain skip' st s1 t1 p1 where g: "R st (\<not> skip') s1 t1" "parser_ok p1"
      "?r1 = Inr (Some (Continue skip' st), s1, p1)" "?r2 = Inr (Some (Continue skip' st), t1, p1)"
      by (auto simp: goes_on_def)
    have "?L sax1 sax2 skip' st s1 t1 p1"
      by (rule less.hyps [OF sax_step_weight [OF g(3)] g(1,2)])
    then show ?thesis using g(3,4) by (simp add: sax_loop.simps [of _ skip])
  next
    assume "fails ?r1 ?r2"
    then obtain e1 e2 p' where e: "E e1 e2" "asserts_hold (m_lexer p')"
      "?r1 = mapE (\<lambda>(r, s). (Some (Return r), s, p')) e1"
      "?r2 = mapE (\<lambda>(r, t). (Some (Return r), t, p')) e2" by (auto simp: fails_def)
    then have "sax_loop sax1 skip states s p = mapE (\<lambda>(r, s). (r, s, p')) e1"
      "sax_loop sax2 skip states t p = mapE (\<lambda>(r, t). (r, t, p')) e2"
      by (cases e1; cases e2; auto simp: sax_loop.simps [of _ skip])+
    then show ?thesis using e(1,2) by blast
  qed (auto simp: sax_loop.simps [of _ skip])
qed

end

end
