(* ===== verification/Json_Accept.thy ===== *)
theory Json_Accept
  imports Json_Sax Json_Simulation "HOL-Library.Sublist"
begin

text \<open>
  Parsing never runs into an assertion or an access that is not defined: while containers are
  open, the references of \<open>json_sax_dom_parser\<close> lead to containers of the right kind. With it
  the three ways to look at a text agree: \<open>accept\<close>, \<open>parse\<close> with exceptions, and \<open>parse\<close> that
  discards the value.
\<close>

section \<open>Well-formed values\<close>

text \<open>
  What every value built from a text satisfies: the keys of an object are sorted, strings and
  keys are valid UTF-8, integers fit their type, numbers are finite, nothing is discarded.
\<close>

fun wf_json :: "json \<Rightarrow> bool" where
  "wf_json JNull = True"
| "wf_json (JObject m) = (sorted_keys m \<and> (\<forall>p \<in> set m. utf8 (fst p) \<and> wf_json (snd p)))"
| "wf_json (JArray a) = (\<forall>x \<in> set a. wf_json x)"
| "wf_json (JString s) = utf8 s"
| "wf_json (JBoolean b) = True"
| "wf_json (JInteger i) = in64 i"
| "wf_json (JUnsigned i) = inu64 i"
| "wf_json (JFloat d) = isfinite d"
| "wf_json JDiscarded = False"

lemma obj_set_all: "P (k, v) \<Longrightarrow> \<forall>p \<in> set m. P p \<Longrightarrow> \<forall>p \<in> set (obj_set k v m). P p"
proof (induction m)
  case (Cons p m)
  then show ?case by (cases p) (simp, metis)
qed simp

lemma wf_obj_set:
  "utf8 k \<Longrightarrow> wf_json v \<Longrightarrow> wf_json (JObject m) \<Longrightarrow> wf_json (JObject (obj_set k v m))"
  using obj_set_all [of "\<lambda>p. utf8 (fst p) \<and> wf_json (snd p)" k v m] by simp

lemma wf_lookup: "wf_json (JObject m) \<Longrightarrow> map_of m k = Some x \<Longrightarrow> utf8 k \<and> wf_json x"
  by (auto dest!: map_of_SomeD)

lemma wf_assign: "wf_json v \<Longrightarrow> wf_json j \<Longrightarrow> valid_ref p j \<Longrightarrow> wf_json (assign p v j)"
proof (induction p v j rule: assign.induct)
  case (2 k p v m)
  then obtain x where x: "map_of m k = Some x" "valid_ref p x" by (auto split: option.splits)
  have k: "utf8 k" "wf_json x" using wf_lookup [OF "2.prems"(2) x(1)] by auto
  then have "wf_json (assign p v x)" using "2.IH" "2.prems"(1) x by simp
  then show ?case using wf_obj_set [OF k(1) _ "2.prems"(2)] x(1) by simp
next
  case (3 i p v a)
  then show ?case using set_update_subset_insert [of a i "assign p v (a ! i)"] by auto
qed auto

lemma wf_deref: "wf_json j \<Longrightarrow> valid_ref p j \<Longrightarrow> wf_json (deref p j)"
proof (induction p j rule: deref.induct)
  case (2 k p m)
  then show ?case using wf_lookup [OF "2.prems"(1)] by (auto split: option.splits)
qed auto

text \<open>Assigning a part to where it is changes nothing.\<close>

lemma assign_deref: "wf_json j \<Longrightarrow> valid_ref p j \<Longrightarrow> assign p (deref p j) j = j"
proof (induction p j rule: deref.induct)
  case (2 k p m)
  then show ?case using wf_lookup [OF "2.prems"(1)]
    by (auto split: option.splits simp: obj_set_same)
qed auto

section \<open>The references of the builder\<close>

definition container :: "bool \<Rightarrow> json \<Rightarrow> bool" where
  "container c j \<longleftrightarrow> (if c then \<exists>a. j = JArray a else \<exists>m. j = JObject m)"

lemma container_simps [simp]:
  "container True (JArray a)" "container False (JObject m)"
  by (simp_all add: container_def)

fun open_refs :: "bool list \<Rightarrow> ref_path list \<Rightarrow> json \<Rightarrow> bool" where
  "open_refs [] rs j = (rs = [])"
| "open_refs (c # cs) [] j = False"
| "open_refs (c # cs) (r # rs) j =
     (valid_ref r j \<and> container c (deref r j) \<and> (\<forall>r' \<in> set rs. strict_prefix r' r) \<and>
      open_refs cs rs j)"

lemma container_assign: "container c (assign (s # q) v x) = container c x"
  by (cases s; cases x) (auto simp: container_def)

text \<open>An assignment below the open containers keeps them.\<close>

lemma open_refs_assign:
  assumes "valid_ref q j" and "\<forall>r \<in> set rs. strict_prefix r q" and "open_refs cs rs j"
  shows "open_refs cs rs (assign q v j)"
  using assms(2,3)
proof (induction cs rs j rule: open_refs.induct)
  case (3 c cs r rs j)
  obtain s q' where q: "q = r @ s # q'" using "3.prems"(1) by (auto elim: strict_prefixE')
  have r: "valid_ref r j" using "3.prems"(2) by simp
  have "assign q v j = assign r (assign (s # q') v (deref r j)) j"
    unfolding q by (rule assign_append [OF r])
  then have "valid_ref r (assign q v j)" "deref r (assign q v j) = assign (s # q') v (deref r j)"
    using r by simp_all
  then show ?case using 3 by (auto simp: container_assign simp del: assign.simps)
qed auto

text \<open>
  The shape of the builder's state: the open containers, and where a value is expected
  (\<open>ready\<close>) in an object, the member of the last key.
\<close>

definition dom_shape :: "bool list \<Rightarrow> bool \<Rightarrow> dom_state \<Rightarrow> bool" where
  "dom_shape states ready d \<longleftrightarrow> open_refs states (ref_stack d) (root d) \<and>
     (ready \<longrightarrow> (case states of False # _ \<Rightarrow>
        (\<exists>k. object_element d = Some (hd (ref_stack d) @ [Key k]) \<and>
             valid_ref (hd (ref_stack d) @ [Key k]) (root d)) | _ \<Rightarrow> True))"

definition dom_rel :: "bool list \<Rightarrow> bool \<Rightarrow> dom_state \<Rightarrow> bool" where
  "dom_rel states ready d \<longleftrightarrow> dom_shape states ready d \<and> \<not> errored d \<and> wf_json (root d)"

lemma strict_prefix_step:
  "strict_prefix r (r @ [x])" "strict_prefix r' r \<Longrightarrow> strict_prefix r' (r @ [x])"
  by (auto simp: strict_prefix_def prefix_def)

text \<open>
  Where a value goes: the new reference, below the open containers. Only a well-formed value keeps
  the root well formed.
\<close>

definition same_flags :: "dom_state \<Rightarrow> dom_state \<Rightarrow> bool" where
  "same_flags d d' \<longleftrightarrow> errored d' = errored d \<and> (wf_json (root d) \<longrightarrow> wf_json (root d'))"

lemma handle_value_shape:
  assumes "dom_shape states True d"
  shows "\<exists>r d'. handle_value v d = Inr (r, d') \<and> dom_shape states False d' \<and>
    ref_stack d' = ref_stack d \<and> valid_ref r (root d') \<and> deref r (root d') = v \<and>
    (\<forall>r' \<in> set (ref_stack d'). strict_prefix r' r) \<and> (wf_json v \<longrightarrow> same_flags d d')"
proof (cases states)
  case Nil
  then show ?thesis using assms by (simp add: dom_shape_def handle_value_def same_flags_def)
next
  case (Cons c cs)
  then obtain r rs where rs: "ref_stack d = r # rs" and r: "valid_ref r (root d)" "container c (deref r (root d))"
    and below: "\<forall>r' \<in> set rs. strict_prefix r' r" and rest: "open_refs cs rs (root d)"
    using assms by (cases "ref_stack d") (auto simp: dom_shape_def)
  show ?thesis
  proof (cases c)
    case True
    then obtain a where a: "deref r (root d) = JArray a" using r(2) by (auto simp: container_def)
    let ?j = "assign r (JArray (a @ [v])) (root d)"
    have "valid_ref (r @ [Index (length a)]) ?j" "deref (r @ [Index (length a)]) ?j = v"
      using r(1) by (simp_all add: valid_append deref_append)
    moreover have "\<forall>r' \<in> set (r # rs). strict_prefix r' (r @ [Index (length a)])"
      using below by (auto intro: strict_prefix_step)
    moreover have "open_refs cs rs ?j" by (rule open_refs_assign [OF r(1) below rest])
    moreover have "wf_json ?j" if "wf_json v" "wf_json (root d)"
    proof -
      have "wf_json (JArray a)" using wf_deref [OF that(2) r(1)] by (simp add: a)
      then show ?thesis using that by (intro wf_assign r) simp_all
    qed
    ultimately show ?thesis using r(1) below Cons True
      by (simp add: handle_value_def rs a dom_shape_def same_flags_def)
  next
    case False
    then obtain m where m: "deref r (root d) = JObject m" using r(2) by (auto simp: container_def)
    obtain k where k: "object_element d = Some (r @ [Key k])" "valid_ref (r @ [Key k]) (root d)"
      using assms Cons False rs by (auto simp: dom_shape_def)
    let ?q = "r @ [Key k]"
    have b: "\<forall>r' \<in> set (r # rs). strict_prefix r' ?q"
      using below by (auto intro: strict_prefix_step)
    have "open_refs (c # cs) (r # rs) (root d)" using r below rest by simp
    then have "open_refs (c # cs) (r # rs) (assign ?q v (root d))"
      by (rule open_refs_assign [OF k(2) b])
    moreover have "wf_json v \<longrightarrow> wf_json (root d) \<longrightarrow> wf_json (assign ?q v (root d))"
      using k(2) by (simp add: wf_assign)
    ultimately show ?thesis using k b Cons rs m
      by (simp add: handle_value_def dom_shape_def same_flags_def)
  qed
qed

lemma dom_value_shape:
  "dom_shape st True d \<Longrightarrow> \<exists>d'. dom_value v d = Inr (True, d') \<and> dom_shape st False d' \<and> (wf_json v \<longrightarrow> same_flags d d')"
  using handle_value_shape [of st d v] by (auto simp: dom_value_def)

lemma dom_start_shape:
  assumes "dom_shape st True d" and "t = (if c then V_array else V_object)"
  shows "\<exists>d'. dom_start t d = Inr (True, d') \<and> dom_shape (c # st) False d' \<and> same_flags d d'"
proof -
  have "wf_json (json_of_type t)" using assms(2) by (cases c) simp_all
  then obtain r d' where "handle_value (json_of_type t) d = Inr (r, d')" "dom_shape st False d'"
    "ref_stack d' = ref_stack d" "valid_ref r (root d')" "deref r (root d') = json_of_type t"
    "\<forall>r' \<in> set (ref_stack d'). strict_prefix r' r" "same_flags d d'"
    using handle_value_shape [OF assms(1), of "json_of_type t"] by auto
  then show ?thesis using assms(2) by (cases c) (auto simp: dom_start_def dom_shape_def same_flags_def)
qed

lemma dom_key_shape:
  assumes "dom_shape (False # st) False d"
  shows "\<exists>d'. dom_key k d = Inr (True, d') \<and> dom_shape (False # st) True d' \<and> (utf8 k \<longrightarrow> same_flags d d')"
proof -
  obtain r rs where rs: "ref_stack d = r # rs" and r: "valid_ref r (root d)" "container False (deref r (root d))"
    and below: "\<forall>r' \<in> set rs. strict_prefix r' r" and rest: "open_refs st rs (root d)"
    using assms by (cases "ref_stack d") (auto simp: dom_shape_def)
  obtain m where m: "deref r (root d) = JObject m" using r(2) by (auto simp: container_def)
  let ?m = "case map_of m k of None \<Rightarrow> obj_set k JNull m | Some _ \<Rightarrow> m"
  have "\<exists>x. map_of ?m k = Some x" by (cases "map_of m k") auto
  then have "valid_ref (r @ [Key k]) (assign r (JObject ?m) (root d))"
    using r(1) by (auto simp: valid_append)
  moreover have "open_refs st rs (assign r (JObject ?m) (root d))"
    by (rule open_refs_assign [OF r(1) below rest])
  moreover have "wf_json (assign r (JObject ?m) (root d))" if k: "utf8 k" and w: "wf_json (root d)"
  proof -
    have "wf_json (JObject m)" using wf_deref [OF w r(1)] by (simp add: m)
    then have "wf_json (JObject ?m)" using wf_obj_set [OF k, of JNull m] by (simp split: option.split)
    then show ?thesis by (intro wf_assign w r)
  qed
  ultimately show ?thesis using r(1) below by (simp add: dom_key_def rs m dom_shape_def same_flags_def)
qed

lemma dom_end_shape:
  "dom_shape (c # st) False d \<Longrightarrow> \<exists>d'. dom_end d = Inr (True, d') \<and> dom_shape st False d' \<and> same_flags d d'"
  by (cases "ref_stack d") (auto simp: dom_end_def dom_shape_def same_flags_def)

lemma dom_next_shape: "dom_shape (True # st) False d \<Longrightarrow> dom_shape (True # st) True d"
  by (simp add: dom_shape_def)

text \<open>The same for a state without errors and with a well-formed root.\<close>

lemma handle_value_ok:
  "dom_rel states True d \<Longrightarrow> wf_json v \<Longrightarrow> \<exists>r d'. handle_value v d = Inr (r, d') \<and> dom_rel states False d' \<and>
     ref_stack d' = ref_stack d \<and> valid_ref r (root d') \<and> deref r (root d') = v \<and>
     (\<forall>r' \<in> set (ref_stack d'). strict_prefix r' r)"
  using handle_value_shape [of states d v] by (auto simp: dom_rel_def same_flags_def)

lemma dom_value_ok: "dom_rel st True d \<Longrightarrow> wf_json v \<Longrightarrow> \<exists>d'. dom_value v d = Inr (True, d') \<and> dom_rel st False d'"
  using dom_value_shape [of st d v] by (auto simp: dom_rel_def same_flags_def)

lemma dom_start_ok:
  "dom_rel st True d \<Longrightarrow> t = (if c then V_array else V_object) \<Longrightarrow>
     \<exists>d'. dom_start t d = Inr (True, d') \<and> dom_rel (c # st) False d'"
  using dom_start_shape [of st d t c] by (auto simp: dom_rel_def same_flags_def)

lemmas dom_start_object_ok = dom_start_ok [where c = False and t = V_object, simplified]
lemmas dom_start_array_ok = dom_start_ok [where c = True and t = V_array, simplified]

lemma dom_key_ok:
  "dom_rel (False # st) False d \<Longrightarrow> utf8 k \<Longrightarrow> \<exists>d'. dom_key k d = Inr (True, d') \<and> dom_rel (False # st) True d'"
  using dom_key_shape [of st d k] by (auto simp: dom_rel_def same_flags_def)

lemma dom_end_ok: "dom_rel (c # st) False d \<Longrightarrow> \<exists>d'. dom_end d = Inr (True, d') \<and> dom_rel st False d'"
  using dom_end_shape [of c st d] by (auto simp: dom_rel_def same_flags_def)

lemma dom_next_ok: "dom_rel (True # st) False d \<Longrightarrow> dom_rel (True # st) True d"
  by (simp add: dom_rel_def dom_next_shape)

lemmas dom_ok = dom_value_ok dom_start_object_ok dom_start_array_ok dom_key_ok dom_end_ok

lemma reported_throws: "reported ex \<Longrightarrow> rethrow ex = Throw ex"
  by (auto simp: reported_def rethrow_def)

section \<open>Agreement\<close>

text \<open>The builder and the acceptor.\<close>

definition dom_error :: "bool \<Rightarrow> dom_state sax_result \<Rightarrow> bool" where
  "dom_error allow r \<longleftrightarrow>
     (if allow then \<exists>ex. r = Inl (Throw ex) else \<exists>d. r = Inr (False, d) \<and> errored d)"

interpretation accepts: sax_simulation "dom_sax allow" acceptor_sax
  "\<lambda>st f d u. dom_rel st f d" "\<lambda>r1 r2. dom_error allow r1 \<and> r2 = Inr (False, ())" for allow
  by unfold_locales
     (auto simp: both_go_def dom_sax_def acceptor_sax_def dom_parse_error_def dom_error_def
       reported_throws dom_next_ok intro: dom_ok)

text \<open>The builder with and without exceptions.\<close>

interpretation discards: sax_simulation "dom_sax True" "dom_sax False"
  "\<lambda>st f d d'. d = d' \<and> dom_rel st f d" "\<lambda>r1 r2. dom_error True r1 \<and> dom_error False r2"
  by unfold_locales
     (auto simp: both_go_def dom_sax_def dom_parse_error_def dom_error_def
       reported_throws dom_next_ok intro: dom_ok)

lemma dom_rel_init [simp]: "dom_rel [] f dom_init"
  by (simp add: dom_rel_def dom_shape_def dom_init_def)

lemma expect_end_throws:
  assumes "asserts_hold (m_lexer p)"
  shows "expect_end (dom_sax True) d p = Inl (Throw (parse_error_create 101 (position (m_lexer p))
     (exception_message p End_of_input ''value'')))"
  "expect_end (dom_sax False) d p = Inr (False, d\<lparr> errored := True \<rparr>)"
  "expect_end acceptor_sax () p = Inr (False, ())"
  using assms by (simp_all add: expect_end_def dom_sax_def acceptor_sax_def dom_parse_error_def rethrow_def)

lemma parse_outcomes:
  "\<exists>b. json_accept s = Inr b \<and>
     (if b then \<exists>j. json_parse True s = Inr j \<and> json_parse False s = Inr j
      else (\<exists>ex. json_parse True s = Inl (Throw ex)) \<and> json_parse False s = Inr JDiscarded)"
proof -
  let ?p = "parser_init s"
  let ?loop = "\<lambda>sax. sax_loop sax False []"
  have d: "(\<exists>d p'. ?loop (dom_sax True) dom_init ?p = Inr (True, d, p') \<and>
       ?loop (dom_sax False) dom_init ?p = Inr (True, d, p') \<and> dom_rel [] False d \<and> asserts_hold (m_lexer p')) \<or>
    (\<exists>e1 e2 p'. dom_error True e1 \<and> dom_error False e2 \<and> asserts_hold (m_lexer p') \<and>
       ?loop (dom_sax True) dom_init ?p = mapE (\<lambda>(r, s). (r, s, p')) e1 \<and>
       ?loop (dom_sax False) dom_init ?p = mapE (\<lambda>(r, t). (r, t, p')) e2)"
    using discards.sax_loop_related [where states = "[]" and skip = False and s = dom_init and t = dom_init and p = ?p] by auto
  have a: "(\<exists>d p'. ?loop (dom_sax True) dom_init ?p = Inr (True, d, p') \<and>
       ?loop acceptor_sax () ?p = Inr (True, (), p')) \<or>
    (\<exists>e1 p'. dom_error True e1 \<and> asserts_hold (m_lexer p') \<and>
       ?loop (dom_sax True) dom_init ?p = mapE (\<lambda>(r, s). (r, s, p')) e1 \<and>
       ?loop acceptor_sax () ?p = Inr (False, (), p'))"
    using accepts.sax_loop_related [where allow = True and states = "[]" and skip = False and s = dom_init and p = ?p] by auto
  from d show ?thesis
  proof (elim disjE exE conjE)
    fix d p'
    assume l: "?loop (dom_sax True) dom_init ?p = Inr (True, d, p')"
      "?loop (dom_sax False) dom_init ?p = Inr (True, d, p')" "dom_rel [] False d" "asserts_hold (m_lexer p')"
    then have "?loop acceptor_sax () ?p = Inr (True, (), p')"
      using a by (auto simp: dom_error_def)
    note runs = l(1,2) this
    have "\<not> errored d" using l(3) by (simp add: dom_rel_def)
    then show ?thesis
      by (intro exI [of _ "last_token (get_token p') = End_of_input"])
         (simp add: json_accept_def json_parse_def parser_parse_def sax_parse_def
           sax_parse_internal_def Let_def expect_end_throws runs l(4))
  next
    fix e1 e2 p'
    assume h: "asserts_hold (m_lexer p')" and l: "dom_error True e1" "dom_error False e2"
      "?loop (dom_sax True) dom_init ?p = mapE (\<lambda>(r, s). (r, s, p')) e1"
      "?loop (dom_sax False) dom_init ?p = mapE (\<lambda>(r, t). (r, t, p')) e2"
    then have "\<exists>p'. ?loop acceptor_sax () ?p = Inr (False, (), p') \<and> asserts_hold (m_lexer p')"
      using a by (auto simp: dom_error_def)
    then obtain p'' where acc: "?loop acceptor_sax () ?p = Inr (False, (), p'')" "asserts_hold (m_lexer p'')" by blast
    obtain ex where e1: "e1 = Inl (Throw ex)" using l(1) by (auto simp: dom_error_def)
    obtain d where e2: "e2 = Inr (False, d)" "errored d" using l(2) by (auto simp: dom_error_def)
    show ?thesis
      by (rule exI [of _ False])
         (simp add: json_accept_def json_parse_def parser_parse_def sax_parse_def
           sax_parse_internal_def Let_def expect_end_throws acc l(3,4) h e1 e2)
  qed
qed

lemma json_parse_throws: "json_parse True s = Inl err \<Longrightarrow> \<exists>ex. err = Throw ex"
  using parse_outcomes [of s] by (auto split: if_splits)

lemma json_parse_wf:
  assumes "json_parse True s = Inr j"
  shows "wf_json j"
proof -
  let ?p = "parser_init s"
  have d: "(\<exists>d p'. sax_loop (dom_sax True) False [] dom_init ?p = Inr (True, d, p') \<and> dom_rel [] False d \<and>
       asserts_hold (m_lexer p')) \<or>
    (\<exists>e1 p'. dom_error True e1 \<and> asserts_hold (m_lexer p') \<and>
       sax_loop (dom_sax True) False [] dom_init ?p = mapE (\<lambda>(r, s). (r, s, p')) e1)"
    using accepts.sax_loop_related
      [where allow = True and states = "[]" and skip = False and s = dom_init and p = ?p] by auto
  then show ?thesis using assms
    by (auto simp: json_parse_def parser_parse_def sax_parse_internal_def Let_def expect_end_throws
        dom_rel_def dom_error_def split: if_splits)
qed

text \<open>
  C35. The three ways to check a text agree, for every text: where \<open>accept\<close> says yes, \<open>parse\<close>
  returns a value, the same with and without exceptions; where it says no, \<open>parse\<close> throws an
  exception, and without exceptions returns the discarded value. No other outcome is possible: all
  three return, no assertion of the lexer, the parser or the handlers fails, and no access that is not
  defined is reached.
\<close>

theorem accept_parse_agree:
  "\<exists>b. json_accept s = Inr b \<and>
     (if b then \<exists>j. json_parse True s = Inr j \<and> json_parse False s = Inr j
      else (\<exists>ex. json_parse True s = Inl (Throw ex)) \<and> json_parse False s = Inr JDiscarded)"
  by (rule parse_outcomes)

text \<open>
  C36. Every value that \<open>parse\<close> builds is well formed: the keys of its objects are sorted and
  distinct, its strings and keys are valid UTF-8, its integers fit their types, its floating
  point numbers are finite, and no part of it is discarded.
\<close>

theorem parsed_value_well_formed:
  assumes "json_parse True s = Inr j"
  shows "wf_json j"
  using assms by (rule json_parse_wf)

theorem parsed_value_well_formed_witness:
  "\<exists>j. json_parse True ''7'' = Inr j \<and> wf_json j"
proof -
  have "json_parse True ''7'' = Inr (JUnsigned 7)" by code_simp
  then show ?thesis using parsed_value_well_formed [of "''7''"] by blast
qed

end
