(* ===== verification/DataShard.thy ===== *)
theory DataShard
  imports Wire Json_Accept
begin

text \<open>
  The data shard files of \<open>server/src/util.cpp\<close>: \<open>load_data_shard\<close> fills the balance
  table from a file of one JSON object per line, \<open>update_data_shard\<close> is meant to write
  the balances back. The lemmas say what a load stores, and that an update leaves every
  line of the file as it was.
\<close>

section \<open>Paths and lines\<close>

text \<open>\<open>std::filesystem::path(base) / name\<close> for a relative name.\<close>

definition path_append :: "string \<Rightarrow> string \<Rightarrow> string" where
  "path_append base name =
     (if base = [] \<or> last base = CHR ''/'' then base @ name else base @ ''/'' @ name)"

definition load_path :: "env \<Rightarrow> int \<Rightarrow> string" where
  "load_path e cluster =
     path_append (data_shard_base e) (''dataShard'' @ dec_int cluster @ ''.jsonl'')"

definition update_path :: "env \<Rightarrow> int \<Rightarrow> string" where
  "update_path e cluster =
     path_append (data_shard_base e) (''dataShard'' @ dec_int cluster @ ''.nlohmann::jsonl'')"

abbreviation newline :: char where "newline \<equiv> CHR 0x0A"

text \<open>
  The loop that cuts the buffer at the newlines; a last line without one is kept when
  it is not empty. \<open>cur\<close> is the text between \<open>start\<close> and \<open>i\<close>.
\<close>

fun split_lines :: "string \<Rightarrow> string \<Rightarrow> string list" where
  "split_lines cur [] = (if cur = [] then [] else [cur])"
| "split_lines cur (c # cs) =
     (if c = newline then cur # split_lines [] cs else split_lines (cur @ [c]) cs)"

definition unlines :: "string list \<Rightarrow> string" where
  "unlines ls = concat (map (\<lambda>l. l @ [newline]) ls)"

text \<open>
  Reading the whole file: \<open>None\<close> when the file is missing (\<open>open\<close> yields -1 and
  \<open>fstat\<close> fails on it), when \<open>fstat\<close> fails, or when \<open>read\<close> fails. A short read leaves
  only the bytes it delivered.
\<close>

definition read_lines :: "env \<Rightarrow> (string \<Rightarrow> string option) \<Rightarrow> string \<Rightarrow> string list option" where
  "read_lines e disk path =
     (case disk path of
        None \<Rightarrow> None
      | Some content \<Rightarrow>
          (if \<not> fstat_ok e then None
           else let n = read_ret e (int (length content))
                in if n = -1 then None
                   else Some (split_lines [] (take (nat n) content))))"

section \<open>Loading and updating\<close>

text \<open>
  A member of the value \<open>j\<close> as an \<open>int\<close>: \<open>operator[]\<close>, which may insert into \<open>j\<close>, and the
  conversion.
\<close>

definition int_member :: "env \<Rightarrow> string \<Rightarrow> json \<Rightarrow> (json \<times> int) jres" where
  "int_member e key j =
     bindE (index_key j key) (\<lambda>(j1, v). mapE (Pair j1) (from_json_int (double_to_int e) v))"

text \<open>
  The body of the \<open>try\<close> block; its failures are exceptions of the library (see
  \<open>load_item_throws\<close>), which are caught and end the iteration.
\<close>

definition load_item :: "env \<Rightarrow> string \<Rightarrow> (int \<times> int) jres" where
  "load_item e line =
     bindE (json_parse True line) (\<lambda>j.
     bindE (int_member e ''id'' j) (\<lambda>(j1, i).
     mapE (\<lambda>(j2, b). (i, b)) (int_member e ''units'' j1)))"

fun load_line :: "env \<Rightarrow> string \<Rightarrow> int umap \<Rightarrow> int umap" where
  "load_line e line tb =
     (case load_item e line of Inl err \<Rightarrow> tb | Inr (i, b) \<Rightarrow> tb(i \<mapsto> b))"

definition load_data_shard :: "env \<Rightarrow> World \<Rightarrow> RaftState \<Rightarrow> RaftState" where
  "load_data_shard e w st =
     (case read_lines e (files w) (load_path e (cluster_id st)) of
        None \<Rightarrow> st
      | Some lines \<Rightarrow>
          st\<lparr>local_balance_tb := fold (load_line e) lines (local_balance_tb st)\<rparr>)"

text \<open>
  In the update loop \<open>j\<close> is a local value: the assignment to its member \<open>balance\<close> is
  lost, and what remains of an iteration is the insertion that
  \<open>local_balance_tb_[j["id"]]\<close> makes for an item the table does not hold.
\<close>

definition update_item :: "env \<Rightarrow> string \<Rightarrow> int jres" where
  "update_item e line =
     bindE (json_parse True line) (\<lambda>j. mapE snd (int_member e ''id'' j))"

fun update_line :: "env \<Rightarrow> string \<Rightarrow> int umap \<Rightarrow> int umap" where
  "update_line e line tb =
     (case update_item e line of Inl err \<Rightarrow> tb | Inr i \<Rightarrow> um_touch 0 tb i)"

text \<open>The write loop: it stops at the first write that fails.\<close>

fun write_lines :: "env \<Rightarrow> nat \<Rightarrow> string list \<Rightarrow> string \<Rightarrow> string" where
  "write_lines e n [] out = out"
| "write_lines e n (l # ls) out =
     (if write_ok e n then write_lines e (Suc n) ls (out @ l @ [newline]) else out)"

definition update_data_shard :: "env \<Rightarrow> World \<Rightarrow> RaftState \<Rightarrow> World \<times> RaftState" where
  "update_data_shard e w st =
     (let path = update_path e (cluster_id st) in
      case read_lines e (files w) path of
        None \<Rightarrow> (w, st)
      | Some lines \<Rightarrow>
          (let st' = st\<lparr>local_balance_tb := fold (update_line e) lines (local_balance_tb st)\<rparr>
           in if \<not> ftruncate_ok e then (w, st')
              else (w\<lparr>files := (files w)(path \<mapsto> write_lines e 0 lines [])\<rparr>, st')))"

section \<open>Lines are cut and joined back\<close>

lemma unlines_simps [simp]:
  "unlines [] = []" "unlines (l # ls) = l @ newline # unlines ls"
  by (simp_all add: unlines_def)

lemma unlines_split_lines:
  "unlines (split_lines cur s) =
     (if cur @ s = [] \<or> s \<noteq> [] \<and> last s = newline then cur @ s else cur @ s @ [newline])"
  by (induction cur s rule: split_lines.induct) auto

text \<open>
  What the file holds after all lines were written: the same bytes, with a newline
  added at the end if it had none.
\<close>

definition end_line :: "string \<Rightarrow> string" where
  "end_line s = (if s = [] \<or> last s = newline then s else s @ [newline])"

lemma unlines_split: "unlines (split_lines [] s) = end_line s"
  by (auto simp: unlines_split_lines end_line_def)

lemma split_lines_end_line: "split_lines cur (s @ [newline]) =
    (if cur @ s = [] then [[]]
     else if s \<noteq> [] \<and> last s = newline then split_lines cur s @ [[]] else split_lines cur s)"
  by (induction cur s rule: split_lines.induct) auto

lemma split_end_line: "split_lines [] (end_line s) = split_lines [] s"
  by (auto simp: end_line_def split_lines_end_line)

lemma write_lines_all: "(\<And>n. write_ok e n) \<Longrightarrow> write_lines e n ls out = out @ unlines ls"
  by (induction ls arbitrary: n out) auto

section \<open>Failures of a line\<close>

lemma int_member_throws: "int_member e key j = Inl err \<Longrightarrow> \<exists>ex. err = Throw ex"
  by (auto simp: int_member_def bindE_Inl_iff dest: index_key_throws from_json_int_throws)

lemma load_item_throws: "load_item e line = Inl err \<Longrightarrow> \<exists>ex. err = Throw ex"
  by (auto simp: load_item_def bindE_Inl_iff dest: json_parse_throws int_member_throws)

lemma update_item_throws: "update_item e line = Inl err \<Longrightarrow> \<exists>ex. err = Throw ex"
  by (auto simp: update_item_def bindE_Inl_iff dest: json_parse_throws int_member_throws)

section \<open>What an update changes\<close>

lemma fold_update_line_val: "um_val 0 (fold (update_line e) ls tb) k = um_val 0 tb k"
  by (induction ls arbitrary: tb) (auto split: sum.splits)

lemma fold_update_line_dom: "dom tb \<subseteq> dom (fold (update_line e) ls tb)"
proof (induction ls arbitrary: tb)
  case (Cons l ls)
  have "dom tb \<subseteq> dom (update_line e l tb)" by (auto split: sum.splits)
  then show ?case using Cons.IH [of "update_line e l tb"] by auto
qed simp

text \<open>
  An update never changes a balance, and it touches no other member of the state and
  nothing of the world but the one file.
\<close>

lemma update_data_shard_state:
  "update_data_shard e w st = (w', st') \<Longrightarrow>
     st' = st\<lparr>local_balance_tb := local_balance_tb st'\<rparr> \<and> (\<forall>k. balance st' k = balance st k)"
  by (auto simp: update_data_shard_def Let_def fold_update_line_val split: option.splits if_splits)

lemma update_data_shard_world:
  "update_data_shard e w st = (w', st') \<Longrightarrow>
     w' = w\<lparr>files := files w'\<rparr> \<and>
     (\<forall>p. p \<noteq> update_path e (cluster_id st) \<longrightarrow> files w' p = files w p)"
  by (auto simp: update_data_shard_def Let_def split: option.splits if_splits)

lemma update_data_shard_frame:
  assumes "update_data_shard e w st = (w', st')"
  shows "raft_frame st st'" "log st' = log st" "local_lock st' = local_lock st"
    "commit_index st' = commit_index st" "coming_commit_index st' = coming_commit_index st"
    "balance st' k = balance st k" "log_granted_num st' = log_granted_num st"
    "ring w' = ring w" "closed w' = closed w"
proof -
  from update_data_shard_state [OF assms] have "st' = st\<lparr>local_balance_tb := local_balance_tb st'\<rparr>"
    and b: "\<forall>k. balance st' k = balance st k" by auto
  then obtain tb where tb: "st' = st\<lparr>local_balance_tb := tb\<rparr>" by blast
  then show "raft_frame st st'" "log st' = log st" "local_lock st' = local_lock st"
    "commit_index st' = commit_index st" "coming_commit_index st' = coming_commit_index st"
    "log_granted_num st' = log_granted_num st"
    by (simp_all add: raft_frame_def)
  show "balance st' k = balance st k" using b by simp
  obtain d where "w' = w\<lparr>files := d\<rparr>" using update_data_shard_world [OF assms] by blast
  then show "ring w' = ring w" "closed w' = closed w" by simp_all
qed

lemma load_update_path_differ: "load_path e c \<noteq> update_path e c'"
proof
  assume "load_path e c = update_path e c'"
  then have "take 6 (rev (load_path e c)) = take 6 (rev (update_path e c'))" by simp
  then show False
    by (simp add: load_path_def update_path_def path_append_def split: if_splits)
qed

text \<open>A file whose lines all name an item and its units fills the table with them.\<close>

lemma load_data_shard_frame:
  "raft_frame st (load_data_shard e w st)" "log (load_data_shard e w st) = log st"
  "commit_index (load_data_shard e w st) = commit_index st"
  "local_lock (load_data_shard e w st) = local_lock st"
  by (simp_all add: load_data_shard_def raft_frame_def split: option.splits)

section \<open>What persists\<close>

text \<open>
  C31. Nothing persists: writing the data shard back changes no balance and leaves every file
  that a server loads, of any cluster, as it was, so that a server that loads its shard
  afterwards starts with the balances it would have loaded before.
\<close>

theorem update_persists_nothing:
  assumes "update_data_shard e w st = (w', st')"
  shows "balance st' k = balance st k \<and> files w' (load_path e c) = files w (load_path e c) \<and>
    load_data_shard e w' st0 = load_data_shard e w st0"
proof -
  have f: "files w' (load_path e c) = files w (load_path e c)" for c
    using update_data_shard_world [OF assms] load_update_path_differ by blast
  show ?thesis using update_data_shard_frame(6) [OF assms] f
    by (simp add: load_data_shard_def read_lines_def)
qed

text \<open>
  The file that an update does open is read and written back: if every file operation
  succeeds and the whole file is read, it holds the same bytes afterwards, with a newline
  added at the end if there was none.
\<close>

theorem update_rewrites_same_lines:
  assumes "update_data_shard e w st = (w', st')"
    and "files w (update_path e (cluster_id st)) = Some content"
    and "fstat_ok e" and "read_ret e (int (length content)) = int (length content)"
    and "ftruncate_ok e" and "\<And>n. write_ok e n"
  shows "files w' (update_path e (cluster_id st)) =
    Some (if content = [] \<or> last content = newline then content else content @ [newline])"
  using assms
  by (auto simp: update_data_shard_def read_lines_def write_lines_all unlines_split end_line_def Let_def)

definition ex_disk :: World where
  "ex_disk = empty_world\<lparr>files := [update_path env0 0 \<mapsto> ''ab'' @ [newline] @ ''c'']\<rparr>"

theorem update_persists_nothing_witness:
  "\<exists>w' st'. update_data_shard env0 ex_disk blank = (w', st') \<and>
     files w' (load_path env0 0) = None \<and> balance st' 1 = 0"
proof -
  obtain w' st' where u: "update_data_shard env0 ex_disk blank = (w', st')" by fastforce
  then show ?thesis using update_persists_nothing [OF u, of 1 0] load_update_path_differ [of env0 0 0]
    by (simp add: ex_disk_def empty_world_def blank_def RaftState_init_def)
qed

theorem update_rewrites_same_lines_witness:
  "\<exists>w' st'. update_data_shard env0 ex_disk blank = (w', st') \<and>
     files w' (update_path env0 0) = Some (''ab'' @ [newline] @ ''c'' @ [newline])"
proof -
  obtain w' st' where u: "update_data_shard env0 ex_disk blank = (w', st')" by fastforce
  then show ?thesis
    using update_rewrites_same_lines [OF u, of "''ab'' @ [newline] @ ''c''"]
    by (simp add: ex_disk_def blank_def RaftState_init_def env0_def)
qed

end
