(* ===== verification/RequestVote.thy ===== *)
theory RequestVote
  imports DataShard
begin

text \<open>
  \<open>RequestVoteExecutor\<close> of \<open>server/src/excutor/requestVoteExecutor.cpp\<close>: the two
  handlers of an election, and how each branch changes the term, the vote and the role.
\<close>

section \<open>The handlers\<close>

text \<open>
  The condition under which a request is turned down at once: its term is old, or it is
  the receiver's own term and its log does not reach further. A request of a newer term
  is not compared with the log.
\<close>

definition rv_refused :: "RaftState \<Rightarrow> RequestVoteReq \<Rightarrow> bool" where
  "rv_refused st req \<longleftrightarrow>
     rv_term req < current_term st \<or>
     rv_term req = current_term st \<and> rv_lastLogIndex req \<le> lastlogindex st"

definition rv_update_term :: "RaftState \<Rightarrow> RequestVoteReq \<Rightarrow> RaftState" where
  "rv_update_term st req =
     (if current_term st < rv_term req then st\<lparr>current_term := rv_term req, voted_for := -1\<rparr>
      else st)"

definition rv_executeReq ::
    "env \<Rightarrow> int \<Rightarrow> World \<Rightarrow> RaftState \<Rightarrow> RequestVoteReq \<Rightarrow> (World \<times> RaftState) res" where
  "rv_executeReq e client_socket w st req =
     (if rv_refused st req then
        respond e client_socket
          (MRequestVoteRsp \<lparr>rvr_term = current_term st, rvr_voteGranted = False\<rparr>) w st
      else
        (let st1 = rv_update_term st req in
         if voted_for st1 = -1 then
           respond e client_socket
             (MRequestVoteRsp \<lparr>rvr_term = current_term st1, rvr_voteGranted = True\<rparr>) w
             (st1\<lparr>voted_for := rv_candidateId req, role := FOLLOWER, heard_heart_beat := True\<rparr>)
         else
           respond e client_socket
             (MRequestVoteRsp \<lparr>rvr_term = current_term st1, rvr_voteGranted = False\<rparr>) w st1))"

definition rv_executeRsp ::
    "env \<Rightarrow> int \<Rightarrow> World \<Rightarrow> RaftState \<Rightarrow> RequestVoteRsp \<Rightarrow> (World \<times> RaftState) res" where
  "rv_executeRsp e client_socket w st rsp =
     bindE
       (if role st = CANDIDATE \<and> rvr_term rsp = current_term st \<and> rvr_voteGranted rsp then
          bindE (add32 (vote_granted_num st) 1) (\<lambda>n.
            Inr (if 2 \<le> n then
                   st\<lparr>vote_granted_num := n, role := LEADER,
                      matched_log_size := replicate 3 (int (length (log st)))\<rparr>
                 else st\<lparr>vote_granted_num := n\<rparr>))
        else Inr st)
       (\<lambda>st1.
          let st2 = (if current_term st1 < rvr_term rsp
                     then st1\<lparr>current_term := rvr_term rsp, role := FOLLOWER\<rparr> else st1)
          in Inr (close_fd client_socket w, st2))"

section \<open>Requests\<close>

text \<open>
  The granted flag the handler sends, as a function of the state and the request.
\<close>

definition rv_grants :: "RaftState \<Rightarrow> RequestVoteReq \<Rightarrow> bool" where
  "rv_grants st req \<longleftrightarrow> \<not> rv_refused st req \<and> voted_for (rv_update_term st req) = -1"

definition rv_after :: "RaftState \<Rightarrow> RequestVoteReq \<Rightarrow> RaftState" where
  "rv_after st req =
     (if rv_refused st req then st
      else if rv_grants st req then
        (rv_update_term st req)
          \<lparr>voted_for := rv_candidateId req, role := FOLLOWER, heard_heart_beat := True\<rparr>
      else rv_update_term st req)"

text \<open>The handler in closed form: one response, and the state \<open>rv_after\<close>.\<close>

lemma rv_executeReq_closed:
  "rv_executeReq e s w st req =
     respond e s (MRequestVoteRsp
       \<lparr>rvr_term = current_term (rv_after st req), rvr_voteGranted = rv_grants st req\<rparr>)
       w (rv_after st req)"
  by (auto simp: rv_executeReq_def rv_after_def rv_grants_def Let_def)

lemma rv_grants_iff:
  "rv_grants st req \<longleftrightarrow>
     current_term st < rv_term req \<or>
     rv_term req = current_term st \<and> lastlogindex st < rv_lastLogIndex req \<and> voted_for st = -1"
  by (auto simp: rv_grants_def rv_refused_def rv_update_term_def)

lemma rv_after_log [simp]:
  "log (rv_after st req) = log st" "commit_index (rv_after st req) = commit_index st"
  "coming_commit_index (rv_after st req) = coming_commit_index st"
  "local_balance_tb (rv_after st req) = local_balance_tb st"
  "local_lock (rv_after st req) = local_lock st"
  "matched_log_size (rv_after st req) = matched_log_size st"
  "cluster_id (rv_after st req) = cluster_id st" "server_id (rv_after st req) = server_id st"
  by (simp_all add: rv_after_def rv_update_term_def)

lemma rv_after_term: "current_term (rv_after st req) = max (current_term st) (rv_term req)"
  by (auto simp: rv_after_def rv_update_term_def rv_refused_def)

lemma rv_after_grant:
  "rv_grants st req \<Longrightarrow>
     voted_for (rv_after st req) = rv_candidateId req \<and> role (rv_after st req) = FOLLOWER \<and>
     current_term (rv_after st req) = rv_term req"
  by (auto simp: rv_after_def rv_grants_def rv_update_term_def rv_refused_def)

lemma rv_after_no_grant:
  "\<not> rv_grants st req \<Longrightarrow> rv_after st req = st"
  by (auto simp: rv_after_def rv_grants_def rv_update_term_def rv_refused_def)

section \<open>Responses\<close>

fun_cases bindE_InrE: "bindE m f = Inr x"

lemma rv_executeRsp_cases:
  assumes "rv_executeRsp e s w st rsp = Inr (w', st')"
  obtains (win) "role st = CANDIDATE" "rvr_term rsp = current_term st" "rvr_voteGranted rsp"
      "1 \<le> vote_granted_num st"
      "st' = st\<lparr>vote_granted_num := vote_granted_num st + 1, role := LEADER,
         matched_log_size := replicate 3 (int (length (log st)))\<rparr>" "w' = close_fd s w"
    | (count) "role st = CANDIDATE" "rvr_term rsp = current_term st" "rvr_voteGranted rsp"
      "vote_granted_num st < 1"
      "st' = st\<lparr>vote_granted_num := vote_granted_num st + 1\<rparr>" "w' = close_fd s w"
    | (newer) "current_term st < rvr_term rsp"
      "st' = st\<lparr>current_term := rvr_term rsp, role := FOLLOWER\<rparr>" "w' = close_fd s w"
    | (ignored) "st' = st" "w' = close_fd s w"
proof (cases "role st = CANDIDATE \<and> rvr_term rsp = current_term st \<and> rvr_voteGranted rsp")
  case True
  then have "w' = close_fd s w" and
    "st' = (if 1 \<le> vote_granted_num st
       then st\<lparr>vote_granted_num := vote_granted_num st + 1, role := LEADER,
              matched_log_size := replicate 3 (int (length (log st)))\<rparr>
       else st\<lparr>vote_granted_num := vote_granted_num st + 1\<rparr>)"
    using assms by (auto simp: rv_executeRsp_def res_iff)
  with True show ?thesis by (cases "1 \<le> vote_granted_num st") (auto intro: win count)
next
  case False
  then have "w' = close_fd s w" and
    "st' = (if current_term st < rvr_term rsp
       then st\<lparr>current_term := rvr_term rsp, role := FOLLOWER\<rparr> else st)"
    using assms by (auto simp: rv_executeRsp_def)
  then show ?thesis by (cases "current_term st < rvr_term rsp") (auto intro: newer ignored)
qed

lemma rv_executeRsp_data:
  assumes "rv_executeRsp e s w st rsp = Inr (w', st')"
  shows "log st' = log st" "commit_index st' = commit_index st"
    "coming_commit_index st' = coming_commit_index st"
    "local_balance_tb st' = local_balance_tb st" "local_lock st' = local_lock st"
    "voted_for st' = voted_for st" "cluster_id st' = cluster_id st" "server_id st' = server_id st"
  using assms by (cases rule: rv_executeRsp_cases; simp)+

lemma rv_no_ub:
  "no_ub (rv_executeReq e s w st req)"
  "vote_granted_num st < 2147483647 \<Longrightarrow> - 2147483649 \<le> vote_granted_num st \<Longrightarrow>
   no_ub (rv_executeRsp e s w st rsp)"
  by (auto simp: rv_executeReq_closed rv_executeRsp_def add32_def in32_def Let_def)

lemma rv_adds [ring_adds]:
  "rv_executeReq e s w st req = Inr (w', st') \<Longrightarrow> adds is_write w w'"
  "rv_executeRsp e s w st rsp = Inr (w', st') \<Longrightarrow> adds is_write w w'"
  by (auto simp: rv_executeReq_closed intro: respond_adds)
     (auto simp: rv_executeRsp_def res_iff Let_def close_fd_def intro: adds_same)

section \<open>The rule for votes\<close>

text \<open>
  C18. A vote is granted exactly to a request of a newer term, or to one of the receiver's own
  term whose last log index is beyond the receiver's when the receiver has not voted; the log
  is not looked at for a newer term, and its last term never. The answer carries the flag and
  the term, the receiver follows the candidate it voted for, and a refusal of an older or
  equal term changes nothing.
\<close>

theorem vote_request_outcome:
  assumes "rv_executeReq e s w st req = Inr (w', st')"
    and "g \<longleftrightarrow> current_term st < rv_term req \<or>
      rv_term req = current_term st \<and> lastlogindex st < rv_lastLogIndex req \<and> voted_for st = -1"
  shows "ring w' = ring w @ [write_sqe e s
      (MRequestVoteRsp \<lparr>rvr_term = max (current_term st) (rv_term req), rvr_voteGranted = g\<rparr>) NO_RESPONSE] \<and>
    st' = (if g then st\<lparr>current_term := rv_term req, voted_for := rv_candidateId req, role := FOLLOWER,
        heard_heart_beat := True\<rparr> else st)"
proof -
  have g: "rv_grants st req = g" using assms(2) by (simp add: rv_grants_iff)
  have "st' = rv_after st req" using assms(1) by (simp add: rv_executeReq_closed respond_Inr)
  moreover have "rv_after st req = (if g then st\<lparr>current_term := rv_term req,
      voted_for := rv_candidateId req, role := FOLLOWER, heard_heart_beat := True\<rparr> else st)"
  proof (cases g)
    case True
    then show ?thesis using g assms(2)
      by (auto simp: rv_after_def rv_grants_def rv_update_term_def rv_refused_def)
  next
    case False
    then show ?thesis using g rv_after_no_grant by simp
  qed
  moreover have "ring w' = ring w @ [write_sqe e s
      (MRequestVoteRsp \<lparr>rvr_term = current_term (rv_after st req), rvr_voteGranted = rv_grants st req\<rparr>) NO_RESPONSE]"
    using assms(1) by (simp only: rv_executeReq_closed respond_Inr) simp
  then have "ring w' = ring w @ [write_sqe e s
      (MRequestVoteRsp \<lparr>rvr_term = max (current_term st) (rv_term req), rvr_voteGranted = g\<rparr>) NO_RESPONSE]"
    by (simp only: rv_after_term g)
  ultimately show ?thesis by simp
qed

text \<open>A server with three entries votes for a candidate with an empty log and a newer term.\<close>

definition ex_voter :: RaftState where
  "ex_voter = blank\<lparr>current_term := 4, voted_for := 2,
     log := map (\<lambda>i. \<lparr>le_term = 4, le_index = i, le_command = ''[ABORT]'', le_id = i, le_req_fd = -1\<rparr>) [0, 1, 2]\<rparr>"

definition ex_candidate_req :: RequestVoteReq where
  "ex_candidate_req = \<lparr>rv_candidateId = 1, rv_term = 5, rv_lastLogIndex = -1, rv_lastLogTerm = -1\<rparr>"

theorem vote_request_outcome_witness:
  "\<exists>w' st'. rv_executeReq env0 9 empty_world ex_voter ex_candidate_req = Inr (w', st') \<and>
     voted_for st' = 1 \<and> current_term st' = 5"
proof -
  obtain w' st' where r: "rv_executeReq env0 9 empty_world ex_voter ex_candidate_req = Inr (w', st')"
    by (simp add: rv_executeReq_closed respond_answered)
  from vote_request_outcome [OF r refl] show ?thesis using r
    by (simp add: ex_voter_def ex_candidate_req_def blank_def RaftState_init_def)
qed

end
