(* ===== verification/IntraShard.thy ===== *)
theory IntraShard
  imports DataShard
begin

text \<open>
  \<open>IntraShardExecutor\<close> of \<open>server/src/excutor/intraShardExecutor.cpp\<close>: a transaction
  whose two items belong to the same shard is refused, or logged with its items locked.
\<close>

section \<open>The handler\<close>

text \<open>
  The condition reads the tables with \<open>operator[]\<close> and stops at the first disjunct that
  holds; every read may insert a default element. \<open>is_probe\<close> is the state after the
  reads, \<open>is_busy\<close> the value of the condition.
\<close>

definition is_busy :: "RaftState \<Rightarrow> IntraShardReq \<Rightarrow> bool" where
  "is_busy st req \<longleftrightarrow>
     locked st (is_senderId req) \<or> locked st (is_receiverId req) \<or>
     balance st (is_senderId req) < is_amount req"

definition is_probe :: "RaftState \<Rightarrow> IntraShardReq \<Rightarrow> RaftState" where
  "is_probe st req =
     (let st1 = touch_lock (is_senderId req) st in
      if locked st (is_senderId req) then st1
      else let st2 = touch_lock (is_receiverId req) st1 in
           if locked st1 (is_receiverId req) then st2
           else touch_balance (is_senderId req) st2)"

definition is_rsp :: "IntraShardResultType \<Rightarrow> IntraShardReq \<Rightarrow> WrapperMessage" where
  "is_rsp res req = MIntraShardRsp \<lparr>isr_result = res, isr_id = is_id req\<rparr>"

definition is_entry :: "env \<Rightarrow> int \<Rightarrow> RaftState \<Rightarrow> IntraShardReq \<Rightarrow> LogEntry" where
  "is_entry e client_socket st req =
     \<lparr> le_term = current_term st, le_index = int (length (log st)),
       le_command = fmt_format e intra_fmt [is_senderId req, is_receiverId req, is_amount req],
       le_id = is_id req, le_req_fd = client_socket \<rparr>"

definition is_executeReq ::
    "env \<Rightarrow> int \<Rightarrow> World \<Rightarrow> RaftState \<Rightarrow> IntraShardReq \<Rightarrow> (World \<times> RaftState) res" where
  "is_executeReq e client_socket w st req =
     (let st1 = is_probe st req in
      if is_busy st req then respond e client_socket (is_rsp FAIL req) w st1
      else if list_ex (\<lambda>entry. le_id entry = is_id req) (log st1) then
        respond e client_socket (is_rsp FAIL req) w st1
      else Inr (w, set_lock (is_receiverId req) True
                     (set_lock (is_senderId req) True
                        (push_log (is_entry e client_socket st1 req) st1))))"

section \<open>What a request does\<close>

lemma is_probe_simps [simp]:
  "log (is_probe st req) = log st" "balance (is_probe st req) k = balance st k"
  "locked (is_probe st req) k = locked st k" "raft_frame st (is_probe st req)"
  "commit_index (is_probe st req) = commit_index st"
  "coming_commit_index (is_probe st req) = coming_commit_index st"
  "current_term (is_probe st req) = current_term st" "role (is_probe st req) = role st"
  "cluster_id (is_probe st req) = cluster_id st"
  by (auto simp: is_probe_def Let_def raft_frame_def touch_lock_def touch_balance_def)

definition is_accepts :: "RaftState \<Rightarrow> IntraShardReq \<Rightarrow> bool" where
  "is_accepts st req \<longleftrightarrow> \<not> is_busy st req \<and> is_id req \<notin> le_id ` set (log st)"

text \<open>The two outcomes: the request is answered with \<open>FAIL\<close>, or becomes a log entry.\<close>

lemma is_executeReq_refuse:
  "\<not> is_accepts st req \<Longrightarrow>
     is_executeReq e s w st req = respond e s (is_rsp FAIL req) w (is_probe st req)"
  by (auto simp: is_executeReq_def is_accepts_def Let_def list_ex_iff image_iff)

lemma is_executeReq_accept:
  "is_accepts st req \<Longrightarrow>
     is_executeReq e s w st req =
       Inr (w, set_lock (is_receiverId req) True (set_lock (is_senderId req) True
                 (push_log (is_entry e s (is_probe st req) req) (is_probe st req))))"
  by (auto simp: is_executeReq_def is_accepts_def Let_def list_ex_iff image_iff)

lemma is_executeReq_state:
  assumes "is_executeReq e s w st req = Inr (w', st')"
  shows "raft_frame st st'" "commit_index st' = commit_index st"
    "coming_commit_index st' = coming_commit_index st" "balance st' k = balance st k"
    "log st' = (if is_accepts st req then log st @ [is_entry e s st req] else log st)"
    "locked st' k \<longleftrightarrow> locked st k \<or> is_accepts st req \<and> k \<in> {is_senderId req, is_receiverId req}"
proof -
  have "st' = (if is_accepts st req
      then set_lock (is_receiverId req) True (set_lock (is_senderId req) True
             (push_log (is_entry e s (is_probe st req) req) (is_probe st req)))
      else is_probe st req)"
    using assms by (auto simp: is_executeReq_refuse is_executeReq_accept respond_Inr)
  then show "raft_frame st st'" "commit_index st' = commit_index st"
    "coming_commit_index st' = coming_commit_index st" "balance st' k = balance st k"
    "log st' = (if is_accepts st req then log st @ [is_entry e s st req] else log st)"
    "locked st' k \<longleftrightarrow> locked st k \<or> is_accepts st req \<and> k \<in> {is_senderId req, is_receiverId req}"
    by (simp_all add: is_entry_def)
qed

text \<open>What an accepted request can pay is available to its sender.\<close>

lemma is_accepts_funds: "is_accepts st req \<Longrightarrow> is_amount req \<le> balance st (is_senderId req)"
  by (simp add: is_accepts_def is_busy_def)

text \<open>The command of the entry is scanned back to the request's transaction.\<close>

lemma is_entry_scan:
  assumes "fmt_documented e" "in32 (is_senderId req)" "in32 (is_receiverId req)" "in32 (is_amount req)"
  shows "sscanf3 (le_command (is_entry e s st req)) intra_scan =
    Inr (is_senderId req, is_receiverId req, is_amount req)"
    and "char0 (le_command (is_entry e s st req)) \<noteq> CHR ''[''"
  using assms intra_codec.scan_print [OF assms(2-4)]
  by (simp_all add: is_entry_def fmt_documented_def)

lemma is_no_ub: "no_ub (is_executeReq e s w st req)"
  by (cases "is_accepts st req") (simp_all add: is_executeReq_refuse is_executeReq_accept)

lemma is_adds [ring_adds]:
  "is_executeReq e s w st req = Inr (w', st') \<Longrightarrow> adds is_write w w'"
  by (cases "is_accepts st req")
     (auto simp: is_executeReq_refuse is_executeReq_accept intro: respond_adds)

lemma is_keeps_leader: "is_executeReq e s w st req = Inr (w', st') \<Longrightarrow> keeps_leader st st'"
  using is_executeReq_state [of e s w st req w' st'] by (auto intro: keeps_leader_frame)

end
