(* ===== verification/AppendEntries.thy ===== *)
theory AppendEntries
  imports DataShard
begin

text \<open>
  \<open>AppendEntriesExecutor\<close> of \<open>server/src/excutor/appendEntriesExecutor.cpp\<close>:
  replication of the log on a follower, the leader's bookkeeping of the answers, and the
  application of committed commands to the balance table on both sides.
\<close>

section \<open>The follower's side\<close>

definition ae_log_entry :: "Entry \<Rightarrow> LogEntry" where
  "ae_log_entry en =
     \<lparr> le_term = ent_term en, le_index = ent_index en, le_command = ent_command en,
       le_id = ent_id en, le_req_fd = -1 \<rparr>"

text \<open>
  The search for the first entry that is not in the log with the same term, starting at
  entry number \<open>idx\<close>; the log is cut there. \<open>log_idx_base\<close> is the position of entry 0.
  A negative position would be a read before the start of the vector.
\<close>

fun ae_match :: "int \<Rightarrow> nat \<Rightarrow> Entry list \<Rightarrow> LogEntry list \<Rightarrow> (nat \<times> LogEntry list) res" where
  "ae_match log_idx_base idx [] lg = Inr (idx, lg)"
| "ae_match log_idx_base idx (en # ens) lg =
     (if int (length lg) \<le> log_idx_base + int idx then Inr (idx, lg)
      else bindE (vec_at lg (log_idx_base + int idx)) (\<lambda>l.
        if ent_term en \<noteq> le_term l then Inr (idx, take (nat (log_idx_base + int idx)) lg)
        else ae_match log_idx_base (Suc idx) ens lg))"

text \<open>Only a command that does not start with a bracket moves money at commit time.\<close>

definition ae_follower_commit :: "int \<Rightarrow> RaftState \<Rightarrow> RaftState res" where
  "ae_follower_commit idx st =
     bindE (vec_at (log st) idx) (\<lambda>en.
       if char0 (le_command en) \<noteq> CHR ''['' then
         bindE (sscanf3 (le_command en) intra_scan) (\<lambda>(s, r, a). transfer s r a st)
       else Inr st)"

definition ae_log_mismatch :: "RaftState \<Rightarrow> AppendEntriesReq \<Rightarrow> bool" where
  "ae_log_mismatch st req \<longleftrightarrow>
     int (length (log st)) \<le> ae_prevLogIndex req \<or>
     0 \<le> ae_prevLogIndex req \<and>
       le_term (log st ! nat (ae_prevLogIndex req)) \<noteq> ae_prevLogTerm req"

definition ae_accept_term :: "RaftState \<Rightarrow> AppendEntriesReq \<Rightarrow> RaftState" where
  "ae_accept_term st req =
     st\<lparr>current_term := max (current_term st) (ae_term req), role := FOLLOWER,
        heard_heart_beat := True\<rparr>"

definition ae_replicate :: "RaftState \<Rightarrow> AppendEntriesReq \<Rightarrow> RaftState res" where
  "ae_replicate st req =
     bindE (ae_match (ae_prevLogIndex req + 1) 0 (ae_entries req) (log st)) (\<lambda>(idx, lg).
       Inr (st\<lparr>log := lg @ map ae_log_entry (drop idx (ae_entries req))\<rparr>))"

definition ae_commit_upto :: "RaftState \<Rightarrow> int \<Rightarrow> RaftState res" where
  "ae_commit_upto st c =
     mapE (\<lambda>st'. st'\<lparr>commit_index := c\<rparr>)
       (forE ae_follower_commit [commit_index st + 1..c] st)"

definition ae_rsp :: "RaftState \<Rightarrow> bool \<Rightarrow> AppendEntriesReq \<Rightarrow> WrapperMessage" where
  "ae_rsp st ok req =
     MAppendEntriesRsp \<lparr>aer_term = current_term st, aer_success = ok,
       aer_serverId = ae_serverId req\<rparr>"

definition ae_executeReq ::
    "env \<Rightarrow> int \<Rightarrow> World \<Rightarrow> RaftState \<Rightarrow> AppendEntriesReq \<Rightarrow> (World \<times> RaftState) res" where
  "ae_executeReq e client_socket w st req =
     (if ae_term req < current_term st then
        respond e client_socket (ae_rsp st False req) w st
      else
        (let st1 = ae_accept_term st req in
         if ae_log_mismatch st1 req then
           respond e client_socket (ae_rsp st1 False req) w st1
         else
           bindE (ae_replicate st1 req) (\<lambda>st2.
           bindE (ae_commit_upto st2 (ae_commitIndex req)) (\<lambda>st3.
             respond e client_socket (ae_rsp st3 True req) w st3))))"

section \<open>The leader's side\<close>

definition clear_req_fd :: "int \<Rightarrow> RaftState \<Rightarrow> RaftState" where
  "clear_req_fd idx st =
     st\<lparr>log := (log st)[nat idx := (log st ! nat idx)\<lparr>le_req_fd := -1\<rparr>]\<rparr>"

text \<open>
  The answer to the client that waits for an entry, if there is one, and the reset of its
  descriptor.
\<close>

definition ae_answer ::
    "env \<Rightarrow> int \<Rightarrow> LogEntry \<Rightarrow> WrapperMessage \<Rightarrow> World \<Rightarrow> RaftState \<Rightarrow> (World \<times> RaftState) res" where
  "ae_answer e idx en m w st =
     (if le_req_fd en \<noteq> -1 then
        bindE (respond e (le_req_fd en) m w st) (\<lambda>(w', st'). Inr (w', clear_req_fd idx st'))
      else Inr (w, st))"

definition ae_leader_commit ::
    "env \<Rightarrow> int \<Rightarrow> World \<times> RaftState \<Rightarrow> (World \<times> RaftState) res" where
  "ae_leader_commit e idx ws =
     (case ws of (w, st) \<Rightarrow>
       bindE (vec_at (log st) idx) (\<lambda>en.
         if char0 (le_command en) = CHR ''['' then
           (if take 9 (le_command en) = ''[PREPARE]'' then
              bindE (sscanf3 (le_command en) prepare_scan) (\<lambda>(s, r, a).
                ae_answer e idx en
                  (MCrossShardRsp \<lparr>csr_result = YES, csr_id = le_id en\<rparr>) w
                  (set_lock r False (set_lock s False st)))
            else Inr (w, st))
         else
           bindE (sscanf3 (le_command en) intra_scan) (\<lambda>(s, r, a).
             bindE (transfer s r a st) (\<lambda>st1.
               ae_answer e idx en
                 (MIntraShardRsp \<lparr>isr_result = SUCCESS, isr_id = le_id en\<rparr>) w
                 (set_lock r False (set_lock s False st1))))))"

definition ae_commit_all :: "env \<Rightarrow> World \<Rightarrow> RaftState \<Rightarrow> (World \<times> RaftState) res" where
  "ae_commit_all e w st =
     bindE (forE (ae_leader_commit e) [commit_index st + 1..coming_commit_index st] (w, st))
       (\<lambda>(w1, st1).
         if commit_index st1 \<noteq> coming_commit_index st1 then
           (let (w2, st2) = update_data_shard e w1 st1
            in Inr (w2, st2\<lparr>commit_index := coming_commit_index st2\<rparr>))
         else Inr (w1, st1))"

text \<open>The condition under which an answer makes the leader commit.\<close>

definition ae_may_commit :: "RaftState \<Rightarrow> bool res" where
  "ae_may_commit st =
     (if 2 \<le> log_granted_num st \<and> 0 \<le> coming_commit_index st then
        mapE (\<lambda>en. le_term en = current_term st) (vec_at (log st) (coming_commit_index st))
      else Inr False)"

definition set_matched :: "int \<Rightarrow> int \<Rightarrow> RaftState \<Rightarrow> RaftState res" where
  "set_matched serverid m st =
     mapE (\<lambda>ms. st\<lparr>matched_log_size := ms\<rparr>) (vec_set (matched_log_size st) (serverid smod SERVER_NUM_PER_CLUSTER) m)"

definition ae_rsp_success :: "env \<Rightarrow> World \<Rightarrow> RaftState \<Rightarrow> AppendEntriesRsp \<Rightarrow> (World \<times> RaftState) res" where
  "ae_rsp_success e w st rsp =
     bindE (add32 (log_granted_num st) 1) (\<lambda>g.
       let st1 = st\<lparr>log_granted_num := g\<rparr> in
       bindE (ae_may_commit st1) (\<lambda>go.
       bindE (if go then ae_commit_all e w st1 else Inr (w, st1)) (\<lambda>(w2, st2).
       bindE (add32 (coming_commit_index st2) 1) (\<lambda>m.
         mapE (\<lambda>st3. (w2, st3)) (set_matched (aer_serverId rsp) m st2)))))"

definition ae_rsp_fail :: "World \<Rightarrow> RaftState \<Rightarrow> AppendEntriesRsp \<Rightarrow> (World \<times> RaftState) res" where
  "ae_rsp_fail w st rsp =
     bindE (vec_at (matched_log_size st) (aer_serverId rsp smod SERVER_NUM_PER_CLUSTER)) (\<lambda>m.
     bindE (sub32 m 1) (\<lambda>m'.
       mapE (\<lambda>st1. (w, st1)) (set_matched (aer_serverId rsp) m' st)))"

definition ae_executeRsp ::
    "env \<Rightarrow> int \<Rightarrow> World \<Rightarrow> RaftState \<Rightarrow> AppendEntriesRsp \<Rightarrow> (World \<times> RaftState) res" where
  "ae_executeRsp e client_socket w st rsp =
     bindE
       (if role st = LEADER \<and> aer_term rsp = current_term st then
          (if aer_success rsp then ae_rsp_success e w st rsp else ae_rsp_fail w st rsp)
        else Inr (w, st))
       (\<lambda>(w1, st1).
          let st2 = (if current_term st1 < aer_term rsp
                     then st1\<lparr>current_term := aer_term rsp, role := FOLLOWER\<rparr> else st1)
          in Inr (close_fd client_socket w1, st2))"

section \<open>Replication: the log after a request\<close>

text \<open>
  \<open>ae_match\<close> stops at entry \<open>j\<close>: the entries before it are in the log with the same
  term, and the log is cut at its position unless every entry was found.
\<close>

lemma ae_match_spec:
  assumes "ae_match (int b) i ens lg = Inr (j, lg')"
  shows "i \<le> j \<and> j \<le> i + length ens \<and>
    (\<forall>k. i \<le> k \<and> k < j \<longrightarrow> b + k < length lg \<and> le_term (lg ! (b + k)) = ent_term (ens ! (k - i))) \<and>
    lg' = (if j = i + length ens then lg else take (b + j) lg)"
  using assms
proof (induction ens arbitrary: i)
  case (Cons en ens)
  show ?case
  proof (cases "length lg \<le> b + i \<or> ent_term en \<noteq> le_term (lg ! (b + i))")
    case True
    with Cons.prems have "j = i \<and> lg' = take (b + i) lg"
      by (auto simp: res_iff nat_plus_as_int split: if_splits)
    then show ?thesis by auto
  next
    case False
    with Cons.prems have rec: "ae_match (int b) (Suc i) ens lg = Inr (j, lg')"
      by (auto simp: res_iff nat_plus_as_int split: if_splits)
    note IH = Cons.IH [OF rec]
    have "b + k < length lg \<and> le_term (lg ! (b + k)) = ent_term ((en # ens) ! (k - i))"
      if "i \<le> k" "k < j" for k
    proof (cases "k = i")
      case False
      with that have "Suc i \<le> k" "k - i = Suc (k - Suc i)" by auto
      then show ?thesis using IH that(2) by simp
    qed (use False in simp)
    then show ?thesis using IH by auto
  qed
qed simp

lemma ae_match_negative: "base < 0 \<Longrightarrow>
    ae_match base 0 ens lg = (if ens = [] then Inr (0, lg) else Inl OutOfBounds)"
  by (cases ens) (auto simp: vec_at_def)

text \<open>
  The facts about the log after a replication, for a request whose first entry goes to
  position \<open>b\<close>: what was before \<open>b\<close> is kept, every entry of the request is present with
  its term, and entries the log already held are neither rewritten nor cut off.
\<close>

definition ae_extended :: "nat \<Rightarrow> nat \<Rightarrow> Entry list \<Rightarrow> LogEntry list \<Rightarrow> LogEntry list \<Rightarrow> bool" where
  "ae_extended b j ens lg lg' \<longleftrightarrow>
     j \<le> length ens \<and> b + j \<le> length lg \<and>
     (\<forall>k<j. le_term (lg ! (b + k)) = ent_term (ens ! k)) \<and>
     lg' = (if j = length ens then lg else take (b + j) lg @ map ae_log_entry (drop j ens))"

lemma ae_replicate_spec:
  assumes r: "ae_replicate st req = Inr st'" and b: "ae_prevLogIndex req + 1 = int b"
    and len: "b \<le> length (log st)"
  shows "\<exists>j. ae_extended b j (ae_entries req) (log st) (log st')"
proof -
  from r obtain j lg' where m: "ae_match (int b) 0 (ae_entries req) (log st) = Inr (j, lg')"
    and st': "st' = st\<lparr>log := lg' @ map ae_log_entry (drop j (ae_entries req))\<rparr>"
    by (auto simp: ae_replicate_def res_iff b)
  note spec = ae_match_spec [OF m]
  have "b + j \<le> length (log st)"
  proof (cases j)
    case (Suc i)
    then have "b + i < length (log st)" using spec by simp
    then show ?thesis using Suc by simp
  qed (use len in simp)
  then have "ae_extended b j (ae_entries req) (log st) (log st')"
    using spec st' by (simp add: ae_extended_def del: take_append)
  then show ?thesis ..
qed

lemma ae_replicate_terms:
  assumes "ae_replicate st req = Inr st'" and "ae_prevLogIndex req + 1 = int b"
    and "b \<le> length (log st)"
  shows "take b (log st') = take b (log st)" "b + length (ae_entries req) \<le> length (log st')"
    "\<And>k. k < length (ae_entries req) \<Longrightarrow>
       le_term (log st' ! (b + k)) = ent_term (ae_entries req ! k)"
proof -
  obtain j where j: "ae_extended b j (ae_entries req) (log st) (log st')"
    using ae_replicate_spec [OF assms] ..
  show "take b (log st') = take b (log st)" "b + length (ae_entries req) \<le> length (log st')"
    using j by (auto simp: ae_extended_def min_def)
  fix k
  assume k: "k < length (ae_entries req)"
  show "le_term (log st' ! (b + k)) = ent_term (ae_entries req ! k)"
  proof (cases "k < j")
    case True
    then show ?thesis using j k by (auto simp: ae_extended_def nth_append)
  next
    case False
    let ?pre = "take (b + j) (log st)" and ?new = "map ae_log_entry (drop j (ae_entries req))"
    have "log st' = ?pre @ ?new" "length ?pre = b + j"
      using False j k by (auto simp: ae_extended_def)
    then have "log st' ! (b + k) = ?new ! (k - j)"
      using False by (simp only: nth_append) simp
    then show ?thesis using False k j by (simp add: ae_log_entry_def ae_extended_def)
  qed
qed

text \<open>Positions stay consistent when the request numbers its entries from \<open>b\<close> on.\<close>

definition ae_numbered :: "AppendEntriesReq \<Rightarrow> bool" where
  "ae_numbered req \<longleftrightarrow>
     (\<forall>k < length (ae_entries req).
        ent_index (ae_entries req ! k) = ae_prevLogIndex req + 1 + int k)"

lemma positions_ok_append:
  assumes "positions_ok es" and "\<And>k. k < length fs \<Longrightarrow> le_index (fs ! k) = int (length es + k)"
  shows "positions_ok (es @ fs)"
  unfolding positions_ok_def
proof (intro allI impI)
  fix i
  assume "i < length (es @ fs)"
  then show "le_index ((es @ fs) ! i) = int i"
    using assms(1) assms(2) [of "i - length es"]
    by (cases "i < length es") (auto simp: positions_ok_def nth_append)
qed

lemma ae_replicate_positions:
  assumes "ae_replicate st req = Inr st'" and "ae_prevLogIndex req + 1 = int b"
    and "b \<le> length (log st)" and "positions_ok (log st)" and "ae_numbered req"
  shows "positions_ok (log st')"
proof -
  obtain j where j: "ae_extended b j (ae_entries req) (log st) (log st')"
    using ae_replicate_spec [OF assms(1-3)] ..
  have "positions_ok (take (b + j) (log st) @ map ae_log_entry (drop j (ae_entries req)))"
  proof (rule positions_ok_append)
    fix k
    assume "k < length (map ae_log_entry (drop j (ae_entries req)))"
    then show "le_index (map ae_log_entry (drop j (ae_entries req)) ! k) =
        int (length (take (b + j) (log st)) + k)"
      using j assms(2,5) by (simp add: ae_extended_def ae_log_entry_def ae_numbered_def)
  qed (rule positions_ok_take [OF assms(4)])
  then show ?thesis using j assms(4) by (simp add: ae_extended_def)
qed
section \<open>Redelivery\<close>

lemma ae_match_all:
  assumes "b + length ens \<le> length lg"
    and "\<And>k. k < length ens \<Longrightarrow> le_term (lg ! (b + k)) = ent_term (ens ! k)"
  shows "ae_match (int b) 0 ens lg = Inr (length ens, lg)"
proof -
  have "ae_match (int b) i (drop i ens) lg = Inr (length ens, lg)" if "i \<le> length ens" for i
    using that
  proof (induction "length ens - i" arbitrary: i)
    case (Suc n)
    then have i: "i < length ens" "drop i ens = ens ! i # drop (Suc i) ens"
      by (auto simp: Cons_nth_drop_Suc)
    moreover have "ae_match (int b) (Suc i) (drop (Suc i) ens) lg = Inr (length ens, lg)"
      using Suc i by auto
    moreover have "vec_at lg (int b + int i) = Inr (lg ! (b + i))"
      using i assms(1) by (simp add: vec_at_def nat_int_add)
    ultimately show ?case using assms(1) assms(2) [of i] by simp
  qed simp
  from this [of 0] show ?thesis by simp
qed

text \<open>
  After a request that succeeded, the same request finds all its entries and nothing to
  commit.
\<close>

lemma ae_replicate_again:
  assumes "ae_replicate st req = Inr st1" and "ae_prevLogIndex req + 1 = int b"
    and "b \<le> length (log st)" and "log st2 = log st1"
  shows "ae_replicate st2 req = Inr st2"
  using ae_match_all [of b "ae_entries req" "log st1"] ae_replicate_terms [OF assms(1-3)]
  by (simp add: ae_replicate_def assms(2,4))

lemma ae_commit_upto_nothing: "commit_index st = c \<Longrightarrow> ae_commit_upto st c = Inr st"
  by (simp add: ae_commit_upto_def)

section \<open>The state machine the log drives\<close>

text \<open>
  What committing an entry means for the balances, as a function of the command only: an
  intra-shard command moves its amount, a bracketed one changes nothing.
\<close>

definition pay :: "int \<Rightarrow> int \<Rightarrow> int \<Rightarrow> (int \<Rightarrow> int) \<Rightarrow> int \<Rightarrow> int" where
  "pay s r a b = (let b1 = b(s := b s - a) in b1(r := b1 r + a))"

definition apply_command :: "string \<Rightarrow> (int \<Rightarrow> int) \<Rightarrow> int \<Rightarrow> int" where
  "apply_command cmd b =
     (if char0 cmd = CHR ''['' then b
      else case sscanf3 cmd intra_scan of Inr (s, r, a) \<Rightarrow> pay s r a b | Inl _ \<Rightarrow> b)"

lemma transfer_pay: "transfer s r a st = Inr st' \<Longrightarrow> balance st' = pay s r a (balance st)"
  by (rule ext) (auto simp: transfer_balance pay_def Let_def)

lemma pay_total: "finite A \<Longrightarrow> s \<in> A \<Longrightarrow> r \<in> A \<Longrightarrow> sum (pay s r a b) A = sum b A"
proof -
  assume A: "finite A" "s \<in> A" "r \<in> A"
  have "sum (pay s r a b) A = (\<Sum>k\<in>A. b k + ((if k = r then a else 0) - (if k = s then a else 0)))"
    by (rule sum.cong) (auto simp: pay_def Let_def)
  also have "\<dots> = sum b A + ((\<Sum>k\<in>A. if k = r then a else 0) - (\<Sum>k\<in>A. if k = s then a else 0))"
    by (simp add: sum.distrib sum_subtractf)
  finally show ?thesis using A by simp
qed

text \<open>The fold over the positions of the entries, in the order of the loop.\<close>

definition run_log :: "LogEntry list \<Rightarrow> int list \<Rightarrow> (int \<Rightarrow> int) \<Rightarrow> int \<Rightarrow> int" where
  "run_log lg idxs b = fold (\<lambda>i. apply_command (le_command (lg ! nat i))) idxs b"

lemma run_log_simps [simp]:
  "run_log lg [] b = b"
  "run_log lg (i # is) b = run_log lg is (apply_command (le_command (lg ! nat i)) b)"
  by (simp_all add: run_log_def)

lemma run_log_cong:
  "(\<And>i. i \<in> set idxs \<Longrightarrow> le_command (lg ! nat i) = le_command (lg' ! nat i)) \<Longrightarrow>
    run_log lg idxs b = run_log lg' idxs b"
  by (induction idxs arbitrary: b) auto

lemma ae_follower_commit_spec:
  assumes "ae_follower_commit idx st = Inr st'"
  shows "balance st' = apply_command (le_command (log st ! nat idx)) (balance st)"
    "st' = st\<lparr>local_balance_tb := local_balance_tb st'\<rparr>" "0 \<le> idx \<and> idx < int (length (log st))"
proof -
  from assms have idx: "0 \<le> idx \<and> idx < int (length (log st))"
    by (auto simp: ae_follower_commit_def res_iff)
  then show "0 \<le> idx \<and> idx < int (length (log st))" .
  let ?c = "le_command (log st ! nat idx)"
  have "char0 ?c = CHR ''['' \<and> st' = st \<or> char0 ?c \<noteq> CHR ''['' \<and>
      (\<exists>s r a. sscanf3 ?c intra_scan = Inr (s, r, a) \<and> transfer s r a st = Inr st')"
    using assms by (auto simp: ae_follower_commit_def res_iff split: if_splits)
  then show "balance st' = apply_command ?c (balance st)"
    "st' = st\<lparr>local_balance_tb := local_balance_tb st'\<rparr>"
    by (auto simp: apply_command_def transfer_pay dest: transfer_only_table)
qed

lemma ae_follower_loop:
  assumes "forE ae_follower_commit idxs st = Inr st'"
  shows "balance st' = run_log (log st) idxs (balance st) \<and>
    st' = st\<lparr>local_balance_tb := local_balance_tb st'\<rparr> \<and>
    (\<forall>i\<in>set idxs. 0 \<le> i \<and> i < int (length (log st)))"
  using assms
proof (induction idxs arbitrary: st)
  case (Cons i idxs)
  then obtain st1 where s: "ae_follower_commit i st = Inr st1"
    "forE ae_follower_commit idxs st1 = Inr st'" by (auto simp: res_iff)
  note 1 = ae_follower_commit_spec [OF s(1)] and 2 = Cons.IH [OF s(2)]
  obtain tb where tb: "st1 = st\<lparr>local_balance_tb := tb\<rparr>" using 1(2) by blast
  then have l: "log st1 = log st" by simp
  have "st' = st\<lparr>local_balance_tb := local_balance_tb st'\<rparr>"
  proof -
    obtain tb2 where "st' = st1\<lparr>local_balance_tb := tb2\<rparr>" using 2 by blast
    then show ?thesis by (simp add: tb)
  qed
  then show ?case using 1 2 l by auto
qed simp

lemma ae_commit_upto_spec:
  assumes "ae_commit_upto st c = Inr st'"
  shows "balance st' = run_log (log st) [commit_index st + 1..c] (balance st)"
    "st' = st\<lparr>local_balance_tb := local_balance_tb st', commit_index := c\<rparr>"
    "\<forall>i \<in> {commit_index st + 1..c}. 0 \<le> i \<and> i < int (length (log st))"
proof -
  from assms obtain st1 where l: "forE ae_follower_commit [commit_index st + 1..c] st = Inr st1"
    and st': "st' = st1\<lparr>commit_index := c\<rparr>" by (auto simp: ae_commit_upto_def res_iff)
  note spec = ae_follower_loop [OF l]
  then show "balance st' = run_log (log st) [commit_index st + 1..c] (balance st)"
    "\<forall>i \<in> {commit_index st + 1..c}. 0 \<le> i \<and> i < int (length (log st))"
    using st' by auto
  obtain tb where "st1 = st\<lparr>local_balance_tb := tb\<rparr>" using spec by blast
  then show "st' = st\<lparr>local_balance_tb := local_balance_tb st', commit_index := c\<rparr>"
    by (simp add: st')
qed

section \<open>Committing on the leader\<close>

text \<open>
  Entries up to the descriptor of a waiting client, and logs that agree up to it.
\<close>

definition entry_core :: "LogEntry \<Rightarrow> LogEntry" where
  "entry_core en = en\<lparr>le_req_fd := -1\<rparr>"

definition same_log :: "LogEntry list \<Rightarrow> LogEntry list \<Rightarrow> bool" where
  "same_log lg lg' \<longleftrightarrow> map entry_core lg' = map entry_core lg"

lemma same_log_refl [simp]: "same_log lg lg"
  by (simp add: same_log_def)

lemma same_log_trans: "same_log a b \<Longrightarrow> same_log b c \<Longrightarrow> same_log a c"
  by (simp add: same_log_def)

lemma same_log_length: "same_log lg lg' \<Longrightarrow> length lg' = length lg"
  unfolding same_log_def by (metis length_map)

lemma same_log_nth:
  assumes "same_log lg lg'" and "i < length lg"
  shows "le_command (lg' ! i) = le_command (lg ! i)" "le_term (lg' ! i) = le_term (lg ! i)"
    "le_index (lg' ! i) = le_index (lg ! i)" "le_id (lg' ! i) = le_id (lg ! i)"
proof -
  have "map entry_core lg' ! i = map entry_core lg ! i"
    using assms(1) by (simp add: same_log_def)
  then have "entry_core (lg' ! i) = entry_core (lg ! i)"
    using assms same_log_length [OF assms(1)] by simp
  then show "le_command (lg' ! i) = le_command (lg ! i)" "le_term (lg' ! i) = le_term (lg ! i)"
    "le_index (lg' ! i) = le_index (lg ! i)" "le_id (lg' ! i) = le_id (lg ! i)"
    by (auto simp: entry_core_def LogEntry.defs(2) dest: arg_cong [of _ _ le_command]
        arg_cong [of _ _ le_term] arg_cong [of _ _ le_index] arg_cong [of _ _ le_id])
qed

lemma same_log_clear: "same_log (log st) (log (clear_req_fd idx st))"
proof (cases "nat idx < length (log st)")
  case True
  then show ?thesis
    unfolding same_log_def
    by (intro nth_equalityI) (auto simp: clear_req_fd_def entry_core_def nth_list_update)
qed (simp add: clear_req_fd_def list_update_beyond)

text \<open>
  One step of the leader's loop: the balances change as the command says, the log keeps
  its entries, and nothing that takes part in elections or replication is touched.
\<close>

definition leader_frame :: "RaftState \<Rightarrow> RaftState \<Rightarrow> bool" where
  "leader_frame st st' \<longleftrightarrow>
     raft_frame st st' \<and> same_log (log st) (log st') \<and> commit_index st' = commit_index st \<and>
     coming_commit_index st' = coming_commit_index st \<and>
     log_granted_num st' = log_granted_num st"

lemma leader_frame_refl [simp]: "leader_frame st st"
  by (simp add: leader_frame_def)

lemma leader_frame_trans: "leader_frame a b \<Longrightarrow> leader_frame b c \<Longrightarrow> leader_frame a c"
  unfolding leader_frame_def by (auto intro: raft_frame_trans same_log_trans)

lemma leader_frame_lock [simp]: "leader_frame st0 (set_lock k b st) = leader_frame st0 st"
  by (simp add: leader_frame_def set_lock_def raft_frame_def)

lemma leader_frame_transfer: "transfer s r a st = Inr st' \<Longrightarrow> leader_frame st st'"
  by (auto simp: leader_frame_def dest: transfer_frame transfer_only_table)
     (auto simp: transfer_def res_iff debit_Inr credit_Inr)

lemma leader_frame_clear: "leader_frame st (clear_req_fd idx st)"
  using same_log_clear [of st idx]
  by (simp add: leader_frame_def raft_frame_def) (simp add: clear_req_fd_def)

lemma clear_req_fd_balance [simp]:
  "local_balance_tb (clear_req_fd idx st) = local_balance_tb st"
  "local_lock (clear_req_fd idx st) = local_lock st"
  by (simp_all add: clear_req_fd_def)

lemma ae_answer_spec:
  assumes "ae_answer e idx en m w st = Inr (w', st')"
  shows "leader_frame st st'" "local_balance_tb st' = local_balance_tb st"
    "local_lock st' = local_lock st" "closed w' = closed w" "files w' = files w"
    "st' = (if le_req_fd en \<noteq> -1 then clear_req_fd idx st else st)"
    "ring w' = (if le_req_fd en \<noteq> -1
       then ring w @ [write_sqe e (le_req_fd en) m NO_RESPONSE] else ring w)"
  using assms
  by (auto simp: ae_answer_def res_iff respond_Inr leader_frame_clear split: if_splits prod.splits)

text \<open>The items a command names at the leader's commit, whose locks are released.\<close>

definition command_items :: "string \<Rightarrow> int set" where
  "command_items cmd =
     (if char0 cmd = CHR ''['' then
        (if take 9 cmd = ''[PREPARE]'' then
           (case sscanf3 cmd prepare_scan of Inr (s, r, a) \<Rightarrow> {s, r} | Inl _ \<Rightarrow> {})
         else {})
      else (case sscanf3 cmd intra_scan of Inr (s, r, a) \<Rightarrow> {s, r} | Inl _ \<Rightarrow> {}))"

lemma ae_leader_commit_spec:
  assumes "ae_leader_commit e idx (w, st) = Inr (w', st')"
  shows "leader_frame st st' \<and> 0 \<le> idx \<and> idx < int (length (log st)) \<and>
    balance st' = apply_command (le_command (log st ! nat idx)) (balance st) \<and>
    (\<forall>k. locked st' k \<longleftrightarrow> locked st k \<and> k \<notin> command_items (le_command (log st ! nat idx)))"
proof -
  let ?en = "log st ! nat idx" and ?c = "le_command (log st ! nat idx)"
  have idx: "0 \<le> idx \<and> idx < int (length (log st))"
    using assms by (auto simp: ae_leader_commit_def res_iff)
  consider (prepare) s r a where "char0 ?c = CHR ''[''" "take 9 ?c = ''[PREPARE]''"
      "sscanf3 ?c prepare_scan = Inr (s, r, a)"
      "ae_answer e idx ?en (MCrossShardRsp \<lparr>csr_result = YES, csr_id = le_id ?en\<rparr>) w
         (set_lock r False (set_lock s False st)) = Inr (w', st')"
    | (other) "char0 ?c = CHR ''[''" "take 9 ?c \<noteq> ''[PREPARE]''" "st' = st"
    | (intra) s r a st1 where "char0 ?c \<noteq> CHR ''[''"
      "sscanf3 ?c intra_scan = Inr (s, r, a)" "transfer s r a st = Inr st1"
      "ae_answer e idx ?en (MIntraShardRsp \<lparr>isr_result = SUCCESS, isr_id = le_id ?en\<rparr>) w
         (set_lock r False (set_lock s False st1)) = Inr (w', st')"
    using assms by (auto simp: ae_leader_commit_def res_iff split: if_splits)
  then show ?thesis
  proof cases
    case prepare
    note a = ae_answer_spec [OF prepare(4)]
    have "leader_frame st st'" using a(1) by (rule leader_frame_trans [rotated]) simp
    then show ?thesis using a(2,3) idx prepare(1-3)
      by (simp add: apply_command_def command_items_def set_lock_def)
  next
    case other
    then show ?thesis using idx by (simp add: apply_command_def command_items_def)
  next
    case intra
    note a = ae_answer_spec [OF intra(4)]
    have "leader_frame st st'"
      using a(1) by (rule leader_frame_trans [rotated]) (simp add: leader_frame_transfer [OF intra(3)])
    moreover have "local_lock st1 = local_lock st" using transfer_frame [OF intra(3)] by simp
    ultimately show ?thesis using a(2,3) idx intra(1,2) transfer_pay [OF intra(3)]
      by (simp add: apply_command_def command_items_def set_lock_def)
  qed
qed

lemma ae_leader_loop:
  assumes "forE (ae_leader_commit e) idxs (w, st) = Inr (w', st')"
  shows "leader_frame st st' \<and> balance st' = run_log (log st) idxs (balance st) \<and>
    (\<forall>i\<in>set idxs. 0 \<le> i \<and> i < int (length (log st))) \<and>
    (\<forall>k. locked st' k \<longleftrightarrow>
       locked st k \<and> (\<forall>i\<in>set idxs. k \<notin> command_items (le_command (log st ! nat i))))"
  using assms
proof (induction idxs arbitrary: w st)
  case (Cons i idxs)
  then obtain w1 st1 where s: "ae_leader_commit e i (w, st) = Inr (w1, st1)"
    "forE (ae_leader_commit e) idxs (w1, st1) = Inr (w', st')" by (auto simp: res_iff)
  note 1 = ae_leader_commit_spec [OF s(1)] and 2 = Cons.IH [OF s(2)]
  have sl: "same_log (log st) (log st1)" using 1 by (simp add: leader_frame_def)
  have len: "length (log st1) = length (log st)" by (rule same_log_length [OF sl])
  have cmd: "le_command (log st1 ! nat j) = le_command (log st ! nat j)" if "j \<in> set idxs" for j
    using 2 that len by (intro same_log_nth [OF sl]) auto
  have "leader_frame st st'" using 1 2 by (auto intro: leader_frame_trans)
  moreover have "run_log (log st1) idxs (balance st1) = run_log (log st) idxs (balance st1)"
    by (rule run_log_cong) (simp add: cmd)
  ultimately show ?case using 1 2 len cmd by auto
qed simp

text \<open>
  The whole commit of the leader: the commit index reaches the coming one, the balances
  are those of the run over the entries in between, their items are unlocked, and
  writing the data shard changes no balance.
\<close>

lemma ae_commit_all_spec:
  assumes "ae_commit_all e w st = Inr (w', st')"
  shows "raft_frame st st' \<and> same_log (log st) (log st') \<and>
    commit_index st' = coming_commit_index st \<and>
    coming_commit_index st' = coming_commit_index st \<and> log_granted_num st' = log_granted_num st \<and>
    balance st' = run_log (log st) [commit_index st + 1..coming_commit_index st] (balance st) \<and>
    (\<forall>k. locked st' k \<longleftrightarrow> locked st k \<and>
       (\<forall>i\<in>{commit_index st + 1..coming_commit_index st}.
          k \<notin> command_items (le_command (log st ! nat i))))"
proof -
  obtain w1 st1 where l: "forE (ae_leader_commit e) [commit_index st + 1..coming_commit_index st] (w, st)
      = Inr (w1, st1)"
    and rest: "(if commit_index st1 \<noteq> coming_commit_index st1
      then (let (w2, st2) = update_data_shard e w1 st1
            in Inr (w2, st2\<lparr>commit_index := coming_commit_index st2\<rparr>))
      else Inr (w1, st1)) = (Inr (w', st') :: (World \<times> RaftState) res)"
    using assms by (auto simp: ae_commit_all_def res_iff)
  note spec = ae_leader_loop [OF l]
  show ?thesis
  proof (cases "commit_index st1 = coming_commit_index st1")
    case True
    then have "st' = st1" using rest by simp
    then show ?thesis using spec True by (auto simp: leader_frame_def)
  next
    case False
    obtain w2 st2 where u: "update_data_shard e w1 st1 = (w2, st2)" by fastforce
    then have st': "st' = st2\<lparr>commit_index := coming_commit_index st2\<rparr>"
      using rest False by simp
    note f = update_data_shard_frame [OF u]
    have "raft_frame st st'"
      using spec f(1) st' by (auto simp: leader_frame_def raft_frame_def)
    moreover have "balance st' = balance st1" by (rule ext) (simp add: st' f(6))
    ultimately show ?thesis using spec f(2,3,5,7) st' by (simp add: leader_frame_def)
  qed
qed

section \<open>The effect of a response\<close>

lemma set_matched_Inr:
  "set_matched i m st = Inr st' \<longleftrightarrow>
     0 \<le> i smod 3 \<and> i smod 3 < int (length (matched_log_size st)) \<and>
     st' = st\<lparr>matched_log_size := (matched_log_size st)[nat (i smod 3) := m]\<rparr>"
  by (auto simp: set_matched_def res_iff)

text \<open>
  What a response may change of the members the election is about: nothing but the term
  and, with it, the role.
\<close>

definition quiet :: "RaftState \<Rightarrow> RaftState \<Rightarrow> bool" where
  "quiet st st' \<longleftrightarrow>
     cluster_id st' = cluster_id st \<and> server_id st' = server_id st \<and>
     voted_for st' = voted_for st \<and> current_term st \<le> current_term st' \<and>
     (role st' = FOLLOWER \<or> role st' = role st \<and> current_term st' = current_term st) \<and>
     vote_granted_num st' = vote_granted_num st"

lemma quiet_frame: "raft_frame st st' \<Longrightarrow> quiet st st'"
  by (simp add: raft_frame_def quiet_def)

lemma quiet_trans: "quiet a b \<Longrightarrow> quiet b c \<Longrightarrow> quiet a c"
  by (auto simp: quiet_def)

lemma ae_rsp_success_quiet:
  assumes "ae_rsp_success e w st rsp = Inr (w', st')"
  shows "quiet st st'" and "role st' = role st"
proof -
  from assms obtain g go w2 st2 m where
    c: "(if go then ae_commit_all e w (st\<lparr>log_granted_num := g\<rparr>) else Inr (w, st\<lparr>log_granted_num := g\<rparr>))
        = (Inr (w2, st2) :: (World \<times> RaftState) res)"
    and s: "set_matched (aer_serverId rsp) m st2 = Inr st'"
    by (auto simp: ae_rsp_success_def res_iff Let_def)
  have "raft_frame st st2"
    using c ae_commit_all_spec [of e w "st\<lparr>log_granted_num := g\<rparr>" w2 st2]
    by (auto simp: raft_frame_def split: if_splits)
  then show "quiet st st'" and "role st' = role st"
    using s by (auto simp: set_matched_Inr raft_frame_def quiet_def)
qed

lemma ae_rsp_fail_quiet:
  assumes "ae_rsp_fail w st rsp = Inr (w', st')"
  shows "quiet st st'" and "role st' = role st" and "w' = w"
    "log st' = log st" "local_balance_tb st' = local_balance_tb st"
    "local_lock st' = local_lock st" "commit_index st' = commit_index st"
  using assms by (auto simp: ae_rsp_fail_def res_iff set_matched_Inr quiet_def)

lemma ae_executeRsp_quiet:
  assumes "ae_executeRsp e s w st rsp = Inr (w', st')"
  shows "quiet st st'"
proof -
  from assms obtain w1 st1 where
    b: "(if role st = LEADER \<and> aer_term rsp = current_term st
         then (if aer_success rsp then ae_rsp_success e w st rsp else ae_rsp_fail w st rsp)
         else Inr (w, st)) = Inr (w1, st1)"
    and st': "st' = (if current_term st1 < aer_term rsp
                     then st1\<lparr>current_term := aer_term rsp, role := FOLLOWER\<rparr> else st1)"
    by (auto simp: ae_executeRsp_def res_iff Let_def)
  have "quiet st st1"
    using b by (auto dest: ae_rsp_success_quiet ae_rsp_fail_quiet simp: quiet_def split: if_splits)
  moreover have "quiet st1 st'" using st' by (simp add: quiet_def)
  ultimately show ?thesis by (rule quiet_trans)
qed

lemma ae_executeReq_cases:
  assumes "ae_executeReq e s w st req = Inr (w', st')"
  obtains (stale) "ae_term req < current_term st" "st' = st"
      "respond e s (ae_rsp st False req) w st = Inr (w', st')"
    | (mismatch) "current_term st \<le> ae_term req" "ae_log_mismatch st req"
      "st' = ae_accept_term st req"
      "respond e s (ae_rsp st' False req) w st' = Inr (w', st')"
    | (success) st2 where "current_term st \<le> ae_term req" "\<not> ae_log_mismatch st req"
      "ae_replicate (ae_accept_term st req) req = Inr st2"
      "ae_commit_upto st2 (ae_commitIndex req) = Inr st'"
      "respond e s (ae_rsp st' True req) w st' = Inr (w', st')"
proof (cases "ae_term req < current_term st")
  case True
  then show ?thesis using assms by (intro stale) (auto simp: ae_executeReq_def dest: respond_state)
next
  case False
  have m: "ae_log_mismatch (ae_accept_term st req) req = ae_log_mismatch st req"
    by (simp add: ae_log_mismatch_def ae_accept_term_def)
  show ?thesis
  proof (cases "ae_log_mismatch st req")
    case True
    then have "respond e s (ae_rsp (ae_accept_term st req) False req) w (ae_accept_term st req)
        = Inr (w', st')"
      using assms False by (simp add: ae_executeReq_def m Let_def)
    then show ?thesis using True False by (intro mismatch) (auto dest: respond_state)
  next
    case nm: False
    then obtain st2 st3 where r:
      "ae_replicate (ae_accept_term st req) req = Inr st2"
      "ae_commit_upto st2 (ae_commitIndex req) = Inr st3"
      "respond e s (ae_rsp st3 True req) w st3 = Inr (w', st')"
      using assms False by (auto simp: ae_executeReq_def m res_iff Let_def)
    then have "st3 = st'" using respond_state by blast
    then show ?thesis using nm False r by (intro success [of st2]) auto
  qed
qed

lemma ae_replicate_only_log: "ae_replicate st req = Inr st' \<Longrightarrow> st' = st\<lparr>log := log st'\<rparr>"
  by (auto simp: ae_replicate_def res_iff)

lemma ae_executeReq_quiet:
  assumes "ae_executeReq e s w st req = Inr (w', st')"
  shows "quiet st st'"
  using assms
proof (cases rule: ae_executeReq_cases)
  case (success st2)
  obtain lg where "st2 = (ae_accept_term st req)\<lparr>log := lg\<rparr>"
    using ae_replicate_only_log [OF success(3)] by blast
  moreover obtain tb c where "st' = st2\<lparr>local_balance_tb := tb, commit_index := c\<rparr>"
    using ae_commit_upto_spec(2) [OF success(4)] by blast
  ultimately show ?thesis by (simp add: quiet_def ae_accept_term_def)
qed (auto simp: quiet_def ae_accept_term_def)

section \<open>What the handlers submit\<close>

lemma ae_answer_adds:
  assumes "ae_answer e idx en m w st = Inr (w', st')"
  shows "adds is_write w w'"
  using assms by (auto simp: ae_answer_def res_iff intro: respond_adds split: if_splits)

lemma ae_leader_commit_adds:
  assumes "ae_leader_commit e idx (w, st) = Inr (w', st')"
  shows "adds is_write w w'"
  using assms by (auto simp: ae_leader_commit_def res_iff intro: ae_answer_adds split: if_splits)

lemma ae_commit_all_adds:
  assumes "ae_commit_all e w st = Inr (w', st')"
  shows "adds is_write w w'"
proof -
  obtain w1 st1 where l: "forE (ae_leader_commit e) [commit_index st + 1..coming_commit_index st] (w, st)
      = Inr (w1, st1)"
    and rest: "(if commit_index st1 \<noteq> coming_commit_index st1
      then (let (w2, st2) = update_data_shard e w1 st1
            in Inr (w2, st2\<lparr>commit_index := coming_commit_index st2\<rparr>))
      else Inr (w1, st1)) = (Inr (w', st') :: (World \<times> RaftState) res)"
    using assms by (auto simp: ae_commit_all_def res_iff)
  have "adds is_write w (fst (w1, st1))"
  proof (rule forE_inv [OF l, where P = "\<lambda>ws. adds is_write w (fst ws)"])
    fix x ws ws'
    assume "adds is_write w (fst ws)" "ae_leader_commit e x ws = Inr ws'"
    then show "adds is_write w (fst ws')"
      using ae_leader_commit_adds [of e x "fst ws" "snd ws" "fst ws'" "snd ws'"]
      by (auto intro: adds_trans)
  qed simp
  moreover have "ring w' = ring w1"
  proof (cases "commit_index st1 = coming_commit_index st1")
    case False
    obtain w2 st2 where u: "update_data_shard e w1 st1 = (w2, st2)" by fastforce
    then have "w' = w2" using rest False by simp
    then show ?thesis using update_data_shard_frame(8) [OF u] by simp
  qed (use rest in simp)
  ultimately show ?thesis by (auto simp: adds_def)
qed

lemma ae_rsp_success_adds:
  "ae_rsp_success e w st rsp = Inr (w', st') \<Longrightarrow> adds is_write w w'"
  by (auto simp: ae_rsp_success_def res_iff Let_def dest: ae_commit_all_adds split: if_splits)

lemma ae_executeRsp_adds [ring_adds]:
  assumes "ae_executeRsp e s w st rsp = Inr (w', st')"
  shows "adds is_write w w'"
proof -
  from assms obtain w1 st1 where
    b: "(if role st = LEADER \<and> aer_term rsp = current_term st
         then (if aer_success rsp then ae_rsp_success e w st rsp else ae_rsp_fail w st rsp)
         else Inr (w, st)) = Inr (w1, st1)"
    and w': "w' = close_fd s w1"
    by (auto simp: ae_executeRsp_def res_iff Let_def)
  have "adds is_write w w1"
    using b ae_rsp_success_adds [of e w st rsp w1 st1] ae_rsp_fail_quiet(3) [of w st rsp w1 st1]
    by (auto split: if_splits)
  then show ?thesis using w' by (simp add: adds_def close_fd_def)
qed

lemma ae_executeReq_adds [ring_adds]:
  assumes "ae_executeReq e s w st req = Inr (w', st')"
  shows "adds is_write w w'"
  using assms by (cases rule: ae_executeReq_cases) (blast intro: respond_adds)+

section \<open>A leader's bookkeeping is kept\<close>

lemma ae_executeReq_role:
  assumes "ae_executeReq e s w st req = Inr (w', st')"
  shows "st' = st \<or> role st' = FOLLOWER"
  using assms
proof (cases rule: ae_executeReq_cases)
  case (success st2)
  obtain lg where "st2 = (ae_accept_term st req)\<lparr>log := lg\<rparr>"
    using ae_replicate_only_log [OF success(3)] by blast
  moreover obtain tb c where "st' = st2\<lparr>local_balance_tb := tb, commit_index := c\<rparr>"
    using ae_commit_upto_spec(2) [OF success(4)] by blast
  ultimately show ?thesis by (simp add: ae_accept_term_def)
qed (simp_all add: ae_accept_term_def)

lemma ae_executeReq_keeps_leader:
  "ae_executeReq e s w st req = Inr (w', st') \<Longrightarrow> keeps_leader st st'"
  by (auto dest!: ae_executeReq_role intro: keeps_leader_follower)

lemma ae_rsp_success_keeps_leader:
  assumes "ae_rsp_success e w st rsp = Inr (w', st')"
  shows "keeps_leader st st'"
proof -
  from assms obtain g go w2 st2 m where
    c: "(if go then ae_commit_all e w (st\<lparr>log_granted_num := g\<rparr>) else Inr (w, st\<lparr>log_granted_num := g\<rparr>))
        = (Inr (w2, st2) :: (World \<times> RaftState) res)"
    and s: "set_matched (aer_serverId rsp) m st2 = Inr st'"
    by (auto simp: ae_rsp_success_def res_iff Let_def)
  have "raft_frame st st2 \<and> length (log st2) = length (log st) \<and>
      coming_commit_index st2 = coming_commit_index st"
    using c ae_commit_all_spec [of e w "st\<lparr>log_granted_num := g\<rparr>" w2 st2]
    by (auto simp: raft_frame_def dest: same_log_length split: if_splits)
  then show ?thesis
    using s by (auto simp: set_matched_Inr raft_frame_def keeps_leader_def)
qed

lemma ae_rsp_fail_keeps_leader:
  "ae_rsp_fail w st rsp = Inr (w', st') \<Longrightarrow> keeps_leader st st'"
  by (auto simp: ae_rsp_fail_def res_iff set_matched_Inr keeps_leader_def)

lemma ae_executeRsp_keeps_leader:
  assumes "ae_executeRsp e s w st rsp = Inr (w', st')"
  shows "keeps_leader st st'"
proof -
  from assms obtain w1 st1 where
    b: "(if role st = LEADER \<and> aer_term rsp = current_term st
         then (if aer_success rsp then ae_rsp_success e w st rsp else ae_rsp_fail w st rsp)
         else Inr (w, st)) = Inr (w1, st1)"
    and st': "st' = (if current_term st1 < aer_term rsp
                     then st1\<lparr>current_term := aer_term rsp, role := FOLLOWER\<rparr> else st1)"
    by (auto simp: ae_executeRsp_def res_iff Let_def)
  have "keeps_leader st st1"
    using b by (auto dest: ae_rsp_success_keeps_leader ae_rsp_fail_keeps_leader split: if_splits)
  then show ?thesis using st' by (simp add: keeps_leader_def)
qed

section \<open>What a leader's handler may access\<close>

lemma sscanf3_Inl: "sscanf3 s f = Inl err \<Longrightarrow> err = Unconverted"
  by (auto simp: sscanf3_def split: list.splits if_splits)

lemma transfer_Inl: "transfer s r a st = Inl err \<Longrightarrow> err = SignedOverflow"
  by (auto simp: transfer_def debit_def credit_def bindE_Inl_iff sub32_def add32_def split: if_splits)

lemma respond_Inl: "respond e s m w st \<noteq> Inl OutOfBounds"
  by (auto simp: respond_def add_write_request_msg_def add_write_request_buf_def submit_def
      serialize_msg_to_buf_def Let_def)

lemma ae_answer_in_bounds: "ae_answer e idx en m w st \<noteq> Inl OutOfBounds"
  using respond_Inl by (auto simp: ae_answer_def bindE_Inl_iff split: if_splits)

lemma ae_leader_commit_in_bounds:
  "0 \<le> idx \<Longrightarrow> idx < int (length (log st)) \<Longrightarrow> ae_leader_commit e idx (w, st) \<noteq> Inl OutOfBounds"
  by (auto simp: ae_leader_commit_def bindE_Inl_iff vec_at_def ae_answer_in_bounds
      dest: sscanf3_Inl transfer_Inl split: if_splits)

lemma ae_commit_all_in_bounds:
  assumes "-1 \<le> commit_index st" and "coming_commit_index st < int (length (log st))"
  shows "ae_commit_all e w st \<noteq> Inl OutOfBounds"
proof
  assume "ae_commit_all e w st = Inl OutOfBounds"
  then have l: "forE (ae_leader_commit e) [commit_index st + 1..coming_commit_index st] (w, st) = Inl OutOfBounds"
    by (auto simp: ae_commit_all_def bindE_Inl_iff Let_def split: prod.splits if_splits)
  have "\<exists>i ws. i \<in> set [commit_index st + 1..coming_commit_index st] \<and>
      length (log (snd ws)) = length (log st) \<and> ae_leader_commit e i ws = Inl OutOfBounds"
  proof (rule forE_Inl [OF l, where P = "\<lambda>ws. length (log (snd ws)) = length (log st)"])
    fix i ws ws'
    assume "length (log (snd ws)) = length (log st)" "ae_leader_commit e i ws = Inr ws'"
    then show "length (log (snd ws')) = length (log st)"
      using ae_leader_commit_spec [of e i "fst ws" "snd ws" "fst ws'" "snd ws'"]
      by (auto simp: leader_frame_def dest: same_log_length)
  qed simp
  then obtain i ws where i: "commit_index st + 1 \<le> i" "i \<le> coming_commit_index st"
    "length (log (snd ws)) = length (log st)" "ae_leader_commit e i ws = Inl OutOfBounds" by auto
  then show False
    using ae_leader_commit_in_bounds [of i "snd ws" e "fst ws"] assms by simp
qed

end
