(* ===== verification/CrossShard.thy ===== *)
theory CrossShard
  imports DataShard
begin

text \<open>
  \<open>CrossShardExecutor\<close> of \<open>server/src/excutor/crossShardExecutor.cpp\<close>: the participant
  of the two-phase commit. Each of the two clusters holds one side of the transaction;
  the handler looks only at the side that is its own.
\<close>

section \<open>The prepare phase\<close>

definition cs_sender_here :: "RaftState \<Rightarrow> CrossShardReq \<Rightarrow> bool" where
  "cs_sender_here st req \<longleftrightarrow> cs_senderClusterId req = cluster_id st"

definition cs_receiver_here :: "RaftState \<Rightarrow> CrossShardReq \<Rightarrow> bool" where
  "cs_receiver_here st req \<longleftrightarrow> cs_receiverClusterId req = cluster_id st"

definition cs_busy :: "RaftState \<Rightarrow> CrossShardReq \<Rightarrow> bool" where
  "cs_busy st req \<longleftrightarrow>
     cs_sender_here st req \<and>
       (locked st (cs_senderId req) \<or> balance st (cs_senderId req) < cs_amount req) \<or>
     cs_receiver_here st req \<and> locked st (cs_receiverId req)"

text \<open>The default elements that evaluating the condition inserts.\<close>

definition cs_probe :: "RaftState \<Rightarrow> CrossShardReq \<Rightarrow> RaftState" where
  "cs_probe st req =
     (let st1 = (if cs_sender_here st req then
                   (let t = touch_lock (cs_senderId req) st in
                    if locked st (cs_senderId req) then t else touch_balance (cs_senderId req) t)
                 else st)
      in if cs_sender_here st req \<and>
            (locked st (cs_senderId req) \<or> balance st (cs_senderId req) < cs_amount req) then st1
         else if cs_receiver_here st req then touch_lock (cs_receiverId req) st1 else st1)"

definition cs_rsp :: "CrossShardResultType \<Rightarrow> CrossShardReq \<Rightarrow> WrapperMessage" where
  "cs_rsp res req = MCrossShardRsp \<lparr>csr_result = res, csr_id = cs_id req\<rparr>"

definition cs_entry :: "env \<Rightarrow> string \<Rightarrow> int \<Rightarrow> int \<Rightarrow> RaftState \<Rightarrow> CrossShardReq \<Rightarrow> LogEntry" where
  "cs_entry e fmt trm client_socket st req =
     \<lparr> le_term = trm, le_index = int (length (log st)),
       le_command = fmt_format e fmt [cs_senderId req, cs_receiverId req, cs_amount req],
       le_id = cs_id req, le_req_fd = client_socket \<rparr>"

text \<open>
  A log entry of the same transaction that stops a second prepare; both branches of the
  loop answer \<open>NO\<close>.
\<close>

definition cs_prepare_seen :: "CrossShardReq \<Rightarrow> LogEntry \<Rightarrow> bool" where
  "cs_prepare_seen req entry \<longleftrightarrow>
     le_id entry = cs_id req \<and>
     (take 9 (le_command entry) = ''[PREPARE]'' \<or> take 7 (le_command entry) = ''[ABORT]'')"

definition cs_lock_items :: "CrossShardReq \<Rightarrow> RaftState \<Rightarrow> RaftState" where
  "cs_lock_items req st =
     (let st1 = (if cs_sender_here st req then set_lock (cs_senderId req) True st else st)
      in if cs_receiver_here st1 req then set_lock (cs_receiverId req) True st1 else st1)"

definition cs_prepare ::
    "env \<Rightarrow> int \<Rightarrow> World \<Rightarrow> RaftState \<Rightarrow> CrossShardReq \<Rightarrow> (World \<times> RaftState) res" where
  "cs_prepare e client_socket w st req =
     (let st1 = cs_probe st req in
      if cs_busy st req then respond e client_socket (cs_rsp NO req) w st1
      else if list_ex (cs_prepare_seen req) (log st1) then
        respond e client_socket (cs_rsp NO req) w st1
      else Inr (w, cs_lock_items req
              (push_log (cs_entry e prepare_fmt (current_term st1) client_socket st1 req) st1)))"

section \<open>The commit and abort phases\<close>

text \<open>Entries written by a server that is not the leader carry the term -1.\<close>

definition cs_entry_term :: "RaftState \<Rightarrow> int" where
  "cs_entry_term st = (if role st = LEADER then current_term st else -1)"

definition cs_apply :: "CrossShardReq \<Rightarrow> RaftState \<Rightarrow> RaftState res" where
  "cs_apply req st =
     bindE (if cs_sender_here st req then debit (cs_senderId req) (cs_amount req) st else Inr st)
       (\<lambda>st1. if cs_receiver_here st1 req then credit (cs_receiverId req) (cs_amount req) st1
              else Inr st1)"

definition cs_commit ::
    "env \<Rightarrow> int \<Rightarrow> World \<Rightarrow> RaftState \<Rightarrow> CrossShardReq \<Rightarrow> (World \<times> RaftState) res" where
  "cs_commit e client_socket w st req =
     (if list_ex (\<lambda>entry. le_id entry = cs_id req \<and> take 8 (le_command entry) = ''[COMMIT]'')
           (log st)
      then respond e client_socket (cs_rsp ACK req) w st
      else
        bindE (cs_apply req (push_log (cs_entry e commit_fmt (cs_entry_term st) (-1) st req) st))
          (\<lambda>st1. let (w1, st2) = update_data_shard e w st1
                 in respond e client_socket (cs_rsp ACK req) w1 st2))"

definition cs_abort ::
    "env \<Rightarrow> int \<Rightarrow> World \<Rightarrow> RaftState \<Rightarrow> CrossShardReq \<Rightarrow> (World \<times> RaftState) res" where
  "cs_abort e client_socket w st req =
     (if list_ex (\<lambda>entry. le_id entry = cs_id req \<and> take 7 (le_command entry) = ''[ABORT]'')
           (log st)
      then respond e client_socket (cs_rsp ACK req) w st
      else respond e client_socket (cs_rsp ACK req) w
             (push_log (cs_entry e abort_fmt (cs_entry_term st) (-1) st req) st))"

definition cs_executeReq ::
    "env \<Rightarrow> int \<Rightarrow> World \<Rightarrow> RaftState \<Rightarrow> CrossShardReq \<Rightarrow> (World \<times> RaftState) res" where
  "cs_executeReq e client_socket w st req =
     (case cs_phase req of
        PREPARE \<Rightarrow> cs_prepare e client_socket w st req
      | COMMIT \<Rightarrow> cs_commit e client_socket w st req
      | _ \<Rightarrow> cs_abort e client_socket w st req)"

section \<open>Prepare\<close>

lemma cs_probe_simps [simp]:
  "log (cs_probe st req) = log st" "balance (cs_probe st req) k = balance st k"
  "locked (cs_probe st req) k = locked st k" "raft_frame st (cs_probe st req)"
  "commit_index (cs_probe st req) = commit_index st"
  "coming_commit_index (cs_probe st req) = coming_commit_index st"
  "current_term (cs_probe st req) = current_term st" "role (cs_probe st req) = role st"
  "cluster_id (cs_probe st req) = cluster_id st"
  by (simp_all add: cs_probe_def Let_def)

definition cs_votes_yes :: "RaftState \<Rightarrow> CrossShardReq \<Rightarrow> bool" where
  "cs_votes_yes st req \<longleftrightarrow> \<not> cs_busy st req \<and> \<not> list_ex (cs_prepare_seen req) (log st)"

lemma cs_lock_items_simps [simp]:
  "log (cs_lock_items req st) = log st" "balance (cs_lock_items req st) k = balance st k"
  "raft_frame st0 (cs_lock_items req st) = raft_frame st0 st"
  "commit_index (cs_lock_items req st) = commit_index st"
  "coming_commit_index (cs_lock_items req st) = coming_commit_index st"
  by (simp_all add: cs_lock_items_def Let_def)

lemma cs_lock_items_locked:
  "locked (cs_lock_items req st) k \<longleftrightarrow> locked st k \<or>
     cs_sender_here st req \<and> k = cs_senderId req \<or>
     cs_receiver_here st req \<and> k = cs_receiverId req"
  by (auto simp: cs_lock_items_def cs_sender_here_def cs_receiver_here_def Let_def)

lemma cs_prepare_no:
  "\<not> cs_votes_yes st req \<Longrightarrow>
     cs_prepare e s w st req = respond e s (cs_rsp NO req) w (cs_probe st req)"
  by (auto simp: cs_prepare_def cs_votes_yes_def Let_def)

lemma cs_prepare_yes:
  "cs_votes_yes st req \<Longrightarrow>
     cs_prepare e s w st req = Inr (w, cs_lock_items req
       (push_log (cs_entry e prepare_fmt (current_term st) s st req) (cs_probe st req)))"
  by (auto simp: cs_prepare_def cs_votes_yes_def cs_entry_def Let_def)

text \<open>A prepare that passed protects its own side: funds are there and the item was free.\<close>

lemma cs_votes_yes_funds:
  "cs_votes_yes st req \<Longrightarrow> cs_sender_here st req \<Longrightarrow>
     cs_amount req \<le> balance st (cs_senderId req) \<and> \<not> locked st (cs_senderId req)"
  by (auto simp: cs_votes_yes_def cs_busy_def)

section \<open>Commit\<close>

lemma cs_apply_balance:
  assumes "cs_apply req st = Inr st'"
  shows "balance st' k = balance st k
      - (if cs_sender_here st req \<and> k = cs_senderId req then cs_amount req else 0)
      + (if cs_receiver_here st req \<and> k = cs_receiverId req then cs_amount req else 0)"
    "raft_frame st st'" "log st' = log st" "local_lock st' = local_lock st"
    "commit_index st' = commit_index st" "coming_commit_index st' = coming_commit_index st"
  using assms
  by (auto simp: cs_apply_def res_iff debit_Inr credit_Inr cs_sender_here_def cs_receiver_here_def
      raft_frame_def split: if_splits)

definition cs_committed :: "RaftState \<Rightarrow> CrossShardReq \<Rightarrow> bool" where
  "cs_committed st req \<longleftrightarrow>
     (\<exists>entry\<in>set (log st). le_id entry = cs_id req \<and> take 8 (le_command entry) = ''[COMMIT]'')"

definition cs_aborted :: "RaftState \<Rightarrow> CrossShardReq \<Rightarrow> bool" where
  "cs_aborted st req \<longleftrightarrow>
     (\<exists>entry\<in>set (log st). le_id entry = cs_id req \<and> take 7 (le_command entry) = ''[ABORT]'')"

lemma cs_commit_again:
  "cs_committed st req \<Longrightarrow> cs_commit e s w st req = respond e s (cs_rsp ACK req) w st"
  by (auto simp: cs_commit_def cs_committed_def list_ex_iff)

lemma cs_abort_again:
  "cs_aborted st req \<Longrightarrow> cs_abort e s w st req = respond e s (cs_rsp ACK req) w st"
  by (auto simp: cs_abort_def cs_aborted_def list_ex_iff)

lemma cs_commit_first:
  assumes "cs_commit e s w st req = Inr (w', st')" and "\<not> cs_committed st req"
  shows "balance st' k = balance st k
      - (if cs_sender_here st req \<and> k = cs_senderId req then cs_amount req else 0)
      + (if cs_receiver_here st req \<and> k = cs_receiverId req then cs_amount req else 0)"
    "raft_frame st st'" "local_lock st' = local_lock st"
    "log st' = log st @ [cs_entry e commit_fmt (cs_entry_term st) (-1) st req]"
    "commit_index st' = commit_index st" "coming_commit_index st' = coming_commit_index st"
proof -
  let ?p = "push_log (cs_entry e commit_fmt (cs_entry_term st) (-1) st req) st"
  have "\<not> list_ex (\<lambda>entry. le_id entry = cs_id req \<and> take 8 (le_command entry) = ''[COMMIT]'') (log st)"
    using assms(2) by (auto simp: cs_committed_def list_ex_iff)
  then obtain st1 where a: "cs_apply req ?p = Inr st1"
    and r1: "(let (w1, st2) = update_data_shard e w st1
              in respond e s (cs_rsp ACK req) w1 st2) = Inr (w', st')"
    using assms(1) unfolding cs_commit_def by (simp only: if_False bindE_Inr_iff) blast
  obtain w1 st2 where u: "update_data_shard e w st1 = (w1, st2)" by fastforce
  then have r: "respond e s (cs_rsp ACK req) w1 st2 = Inr (w', st')"
    using r1 by simp
  have st': "st' = st2" using r by (rule respond_state)
  note f = update_data_shard_frame [OF u] and c = cs_apply_balance [OF a]
  have here: "cs_sender_here ?p req = cs_sender_here st req"
    "cs_receiver_here ?p req = cs_receiver_here st req" "local_lock ?p = local_lock st"
    by (simp_all add: cs_sender_here_def cs_receiver_here_def push_log_def)
  show "raft_frame st st'"
    using raft_frame_trans [OF raft_frame_trans [OF _ c(2)] f(1)] st' by simp
  show "balance st' k = balance st k
      - (if cs_sender_here st req \<and> k = cs_senderId req then cs_amount req else 0)
      + (if cs_receiver_here st req \<and> k = cs_receiverId req then cs_amount req else 0)"
    unfolding st' f(6) c(1) here by simp
  show "local_lock st' = local_lock st" "commit_index st' = commit_index st"
    "coming_commit_index st' = coming_commit_index st"
    "log st' = log st @ [cs_entry e commit_fmt (cs_entry_term st) (-1) st req]"
    unfolding st' f(2-5) c(3-6) here by simp_all
qed

text \<open>The command of a commit or abort entry, and the phase it is recognised by.\<close>

lemma cs_entry_prefix:
  assumes "fmt_documented e"
  shows "take 9 (le_command (cs_entry e prepare_fmt t s st req)) = ''[PREPARE]''"
    "take 8 (le_command (cs_entry e commit_fmt t s st req)) = ''[COMMIT]''"
    "take 7 (le_command (cs_entry e abort_fmt t s st req)) = ''[ABORT]''"
  using assms by (simp_all add: cs_entry_def fmt_documented_def fill_formats)

lemma cs_executeReq_frame:
  assumes "cs_executeReq e s w st req = Inr (w', st')"
  shows "raft_frame st st'"
proof -
  have p: "raft_frame st st'" if "cs_prepare e s w st req = Inr (w', st')"
    using that by (cases "cs_votes_yes st req") (auto simp: cs_prepare_no cs_prepare_yes respond_Inr)
  have c: "raft_frame st st'" if "cs_commit e s w st req = Inr (w', st')"
    using that cs_commit_first(2) [OF that]
    by (cases "cs_committed st req") (auto simp: cs_commit_again respond_Inr)
  have a: "raft_frame st st'" if "cs_abort e s w st req = Inr (w', st')"
    using that by (auto simp: cs_abort_def respond_Inr split: if_splits)
  show ?thesis
    using assms p c a by (auto simp: cs_executeReq_def split: CrossShardPhaseType.splits)
qed

lemma cs_commit_adds:
  assumes "cs_commit e s w st req = Inr (w', st')"
  shows "adds is_write w w'"
proof (cases "cs_committed st req")
  case True
  then show ?thesis using assms by (auto simp: cs_commit_again intro: respond_adds)
next
  case False
  then have "\<not> list_ex (\<lambda>entry. le_id entry = cs_id req \<and> take 8 (le_command entry) = ''[COMMIT]'') (log st)"
    by (auto simp: cs_committed_def list_ex_iff)
  then obtain st1 where r1: "(let (w1, st2) = update_data_shard e w st1
              in respond e s (cs_rsp ACK req) w1 st2) = Inr (w', st')"
    using assms unfolding cs_commit_def by (simp only: if_False bindE_Inr_iff) blast
  obtain w1 st2 where u: "update_data_shard e w st1 = (w1, st2)" by fastforce
  then have "respond e s (cs_rsp ACK req) w1 st2 = Inr (w', st')" using r1 by simp
  then have "adds is_write w1 w'" by (rule respond_adds)
  then show ?thesis using update_data_shard_frame(8) [OF u] by (simp add: adds_def)
qed

lemma cs_adds [ring_adds]:
  assumes "cs_executeReq e s w st req = Inr (w', st')"
  shows "adds is_write w w'"
proof -
  have p: "adds is_write w w'" if "cs_prepare e s w st req = Inr (w', st')"
    using that by (cases "cs_votes_yes st req")
      (auto simp: cs_prepare_no cs_prepare_yes intro: respond_adds)
  have a: "adds is_write w w'" if "cs_abort e s w st req = Inr (w', st')"
    using that by (auto simp: cs_abort_def intro: respond_adds split: if_splits)
  show ?thesis
    using assms p a cs_commit_adds
    by (auto simp: cs_executeReq_def split: CrossShardPhaseType.splits)
qed

text \<open>What a request may append to the log: at most one entry, at the end.\<close>

lemma cs_executeReq_log:
  assumes "cs_executeReq e s w st req = Inr (w', st')"
  shows "(log st' = log st \<or> (\<exists>en. log st' = log st @ [en] \<and> le_id en = cs_id req \<and>
      le_index en = int (length (log st)))) \<and>
    commit_index st' = commit_index st \<and> coming_commit_index st' = coming_commit_index st"
proof -
  let ?P = "(log st' = log st \<or> (\<exists>en. log st' = log st @ [en] \<and> le_id en = cs_id req \<and>
      le_index en = int (length (log st)))) \<and>
    commit_index st' = commit_index st \<and> coming_commit_index st' = coming_commit_index st"
  have p: ?P if "cs_prepare e s w st req = Inr (w', st')"
    using that
    by (cases "cs_votes_yes st req") (auto simp: cs_prepare_no cs_prepare_yes respond_Inr cs_entry_def)
  have c: ?P if "cs_commit e s w st req = Inr (w', st')"
  proof (cases "cs_committed st req")
    case True
    then show ?thesis using that by (auto simp: cs_commit_again respond_Inr)
  next
    case False
    then show ?thesis using cs_commit_first(4-6) [OF that] by (simp add: cs_entry_def)
  qed
  have a: ?P if "cs_abort e s w st req = Inr (w', st')"
    using that by (auto simp: cs_abort_def respond_Inr cs_entry_def split: if_splits)
  show ?thesis
    using assms p c a by (simp add: cs_executeReq_def split: CrossShardPhaseType.splits)
qed

lemma cs_keeps_leader: "cs_executeReq e s w st req = Inr (w', st') \<Longrightarrow> keeps_leader st st'"
  using cs_executeReq_log [of e s w st req w' st'] cs_executeReq_frame [of e s w st req w' st']
  by (auto intro: keeps_leader_frame)

end
