(* ===== verification/PrintState.thy ===== *)
theory PrintState
  imports DataShard
begin

text \<open>
  The two read-only executors, \<open>PrintBalanceExecutor\<close> and \<open>PrintDatastoreExecutor\<close> of
  \<open>server/src/excutor/printBalanceExecutor.cpp\<close> and \<open>printDatastoreExecutor.cpp\<close>.
\<close>

definition pb_executeReq ::
    "env \<Rightarrow> int \<Rightarrow> World \<Rightarrow> RaftState \<Rightarrow> PrintBalanceReq \<Rightarrow> (World \<times> RaftState) res" where
  "pb_executeReq e client_socket w st req =
     respond e client_socket
       (MPrintBalanceRsp
          \<lparr>pbr_clusterId = pb_clusterId req, pbr_serverId = pb_serverId req,
           pbr_dataItemID = pb_dataItemID req,
           pbr_balance = (case local_balance_tb st (pb_dataItemID req) of
                            Some b \<Rightarrow> b | None \<Rightarrow> -1)\<rparr>) w st"

text \<open>
  The copy of a log entry into a response; its \<open>id\<close> is not set and stays 0.
\<close>

definition pd_entry :: "LogEntry \<Rightarrow> Entry" where
  "pd_entry en = \<lparr>ent_term = le_term en, ent_index = le_index en,
                  ent_command = le_command en, ent_id = 0\<rparr>"

definition pd_executeReq ::
    "env \<Rightarrow> int \<Rightarrow> World \<Rightarrow> RaftState \<Rightarrow> PrintDatastoreReq \<Rightarrow> (World \<times> RaftState) res" where
  "pd_executeReq e client_socket w st req =
     bindE
       (forE (\<lambda>idx es. mapE (\<lambda>en. es @ [pd_entry en]) (vec_at (log st) idx))
          [0..commit_index st] [])
       (\<lambda>es. respond e client_socket
          (MPrintDatastoreRsp
             \<lparr>pdr_clusterId = pd_clusterId req, pdr_serverId = pd_serverId req,
              pdr_entries = es\<rparr>) w st)"

section \<open>What is printed\<close>

lemma pd_loop:
  assumes "\<forall>i\<in>set is. 0 \<le> i \<and> i < int (length lg)"
  shows "forE (\<lambda>idx es. mapE (\<lambda>en. es @ [pd_entry en]) (vec_at lg idx)) is es =
    Inr (es @ map (\<lambda>i. pd_entry (lg ! nat i)) is)"
  using assms by (induction "is" arbitrary: es) (auto simp: vec_at_def)

lemma upto_take:
  assumes "n \<le> length lg"
  shows "map (\<lambda>i. f (lg ! nat i)) [0..int n - 1] = map f (take n lg)"
  using assms
proof (induction n)
  case (Suc n)
  have "[0..int (Suc n) - 1] = [0..int n - 1] @ [int n]"
    using upto_rec2 [of 0 "int n"] by simp
  then show ?case using Suc by (simp add: take_Suc_conv_app_nth)
qed simp

text \<open>
  The answer to a datastore request is the committed prefix of the log, whenever the
  commit index lies inside the log.
\<close>

lemma pd_executeReq_committed:
  assumes "commit_index st = int n - 1" and "n \<le> length (log st)"
  shows "pd_executeReq e s w st req =
    respond e s (MPrintDatastoreRsp
      \<lparr>pdr_clusterId = pd_clusterId req, pdr_serverId = pd_serverId req,
       pdr_entries = map pd_entry (take n (log st))\<rparr>) w st"
proof -
  have "\<forall>i\<in>set [0..commit_index st]. 0 \<le> i \<and> i < int (length (log st))"
    using assms by auto
  then show ?thesis
    unfolding pd_executeReq_def
    by (simp add: pd_loop assms(1) upto_take [OF assms(2)])
qed

lemma pd_state: "pd_executeReq e s w st req = Inr (w', st') \<Longrightarrow> st' = st"
  by (auto simp: pd_executeReq_def res_iff respond_Inr)

lemma pb_state: "pb_executeReq e s w st req = Inr (w', st') \<Longrightarrow> st' = st"
  by (auto simp: pb_executeReq_def respond_Inr)

lemma pd_adds [ring_adds]: "pd_executeReq e s w st req = Inr (w', st') \<Longrightarrow> adds is_write w w'"
  by (auto simp: pd_executeReq_def res_iff intro: respond_adds)

lemma pb_adds [ring_adds]: "pb_executeReq e s w st req = Inr (w', st') \<Longrightarrow> adds is_write w w'"
  by (auto simp: pb_executeReq_def intro: respond_adds)

text \<open>
  The datastore that is printed is the committed prefix of the log, entry by entry and in
  order, without the transaction ids, and printing changes nothing but the ring.
\<close>

theorem datastore_is_committed_prefix:
  assumes "pd_executeReq e s w st req = Inr (w', st')" and "commit_index st = int n - 1"
  shows "n \<le> length (log st) \<and> st' = st \<and> ring w' = ring w @ [write_sqe e s (MPrintDatastoreRsp
      \<lparr>pdr_clusterId = pd_clusterId req, pdr_serverId = pd_serverId req,
       pdr_entries = map (\<lambda>en. \<lparr>ent_term = le_term en, ent_index = le_index en,
         ent_command = le_command en, ent_id = 0\<rparr>) (take n (log st))\<rparr>) NO_RESPONSE]"
proof -
  obtain es where loop: "forE (\<lambda>idx es. mapE (\<lambda>en. es @ [pd_entry en]) (vec_at (log st) idx))
      [0..commit_index st] [] = Inr es"
    using assms(1) by (auto simp: pd_executeReq_def bindE_Inr_iff)
  have "n \<le> length (log st)"
  proof (rule ccontr)
    assume n: "\<not> n \<le> length (log st)"
    have "[0..commit_index st] = [0..int (length (log st)) - 1] @ [int (length (log st))..commit_index st]"
      using upto_split1 [of 0 "int (length (log st))" "commit_index st"] n assms(2) by simp
    moreover have "[int (length (log st))..commit_index st] =
        int (length (log st)) # [int (length (log st)) + 1..commit_index st]"
      using n assms(2) by (intro upto_rec1) simp
    ultimately have "forE (\<lambda>idx es. mapE (\<lambda>en. es @ [pd_entry en]) (vec_at (log st) idx))
        [0..commit_index st] [] = Inl OutOfBounds"
      using pd_loop [of "[0..int (length (log st)) - 1]" "log st" "[]"]
      by (simp add: forE_append vec_at_def)
    then show False using loop by simp
  qed
  moreover have "pd_entry = (\<lambda>en. \<lparr>ent_term = le_term en, ent_index = le_index en,
         ent_command = le_command en, ent_id = 0\<rparr>)" by (rule ext) (simp add: pd_entry_def)
  ultimately show ?thesis
    using assms pd_executeReq_committed [OF assms(2), of e s w req]
    by (simp add: respond_Inr)
qed

definition ex_store :: RaftState where
  "ex_store = blank\<lparr>commit_index := 0,
     log := map (\<lambda>i. \<lparr>le_term = 4, le_index = i, le_command = ''[ABORT]'', le_id = i + 7, le_req_fd = -1\<rparr>) [0, 1]\<rparr>"

theorem datastore_is_committed_prefix_witness:
  "\<exists>w' st'. pd_executeReq env0 9 empty_world ex_store \<lparr>pd_clusterId = 0, pd_serverId = 0\<rparr> = Inr (w', st') \<and>
     length (ring w') = 1"
proof -
  have c: "commit_index ex_store = int 1 - 1" by (simp add: ex_store_def)
  obtain w' st' where
    r: "pd_executeReq env0 9 empty_world ex_store \<lparr>pd_clusterId = 0, pd_serverId = 0\<rparr> = Inr (w', st')"
    by (simp add: pd_executeReq_def vec_at_def ex_store_def respond_answered upto.simps)
  from datastore_is_committed_prefix [OF r c] show ?thesis using r by (simp add: empty_world_def)
qed

end
