(* ===== verification/AIOServer.thy ===== *)
theory AIOServer
  imports RequestVote IntraShard AppendEntries CrossShard PrintState
begin

text \<open>
  The server of \<open>server/include/aIOServer.hpp\<close> and \<open>server/src/aIOServer.cpp\<close>: the
  broadcasts, the dispatch of messages to the executors, and the event loop over the
  completions of the ring.
\<close>

section \<open>The server\<close>

record AIOServer =
  srv_cluster_id :: int
  srv_server_id :: int
  routing_service_ip_port_pair :: "string \<times> int"
  server_ip_port_pairs :: "(string \<times> int) list list"
  pretend_fail :: bool
  keep_running :: bool
  raft :: RaftState
  world :: World

abbreviation HEAT_BEAT_INTERVAL_MS :: int where "HEAT_BEAT_INTERVAL_MS \<equiv> 100"
abbreviation TERM_TIMEOUT_MS :: int where "TERM_TIMEOUT_MS \<equiv> 200"

definition self_idx :: "AIOServer \<Rightarrow> int" where
  "self_idx srv = srv_server_id srv smod SERVER_NUM_PER_CLUSTER"

definition peer_addr :: "AIOServer \<Rightarrow> int \<Rightarrow> (string \<times> int) res" where
  "peer_addr srv idx =
     bindE (vec_at (server_ip_port_pairs srv) (srv_cluster_id srv)) (\<lambda>row. vec_at row idx)"

text \<open>The loop over the servers of the cluster that leaves out the server itself.\<close>

definition for_peers :: "(int \<Rightarrow> World \<Rightarrow> World res) \<Rightarrow> AIOServer \<Rightarrow> World \<Rightarrow> World res" where
  "for_peers f srv w =
     forE (\<lambda>idx w. if idx = self_idx srv then Inr w else f idx w)
       [0..SERVER_NUM_PER_CLUSTER - 1] w"

definition send_peer ::
    "env \<Rightarrow> AIOServer \<Rightarrow> int \<Rightarrow> WrapperMessage \<Rightarrow> World \<Rightarrow> World res" where
  "send_peer e srv idx m w =
     bindE (peer_addr srv idx) (\<lambda>(ip, port). add_connect_request e ip port m WAIT_RESPONSE w)"

definition send_routing :: "env \<Rightarrow> AIOServer \<Rightarrow> WrapperMessage \<Rightarrow> World \<Rightarrow> World res" where
  "send_routing e srv m w =
     add_connect_request e (fst (routing_service_ip_port_pair srv))
       (snd (routing_service_ip_port_pair srv)) m NO_RESPONSE w"

section \<open>Broadcasts\<close>

definition vote_req :: "AIOServer \<Rightarrow> RaftState \<Rightarrow> RequestVoteReq" where
  "vote_req srv st =
     \<lparr> rv_candidateId = srv_server_id srv, rv_term = current_term st,
       rv_lastLogIndex = lastlogindex st, rv_lastLogTerm = lastlogterm st \<rparr>"

definition broadcast_vote :: "env \<Rightarrow> AIOServer \<Rightarrow> AIOServer res" where
  "broadcast_vote e srv =
     bindE (add32 (current_term (raft srv)) 1) (\<lambda>t.
       let st = (raft srv)\<lparr>role := CANDIDATE, current_term := t,
                  voted_for := srv_server_id srv, vote_granted_num := 1\<rparr>;
           m = MRequestVoteReq (vote_req srv st)
       in bindE (send_routing e srv m (world srv)) (\<lambda>w1.
          mapE (\<lambda>w2. srv\<lparr>raft := st, world := w2\<rparr>)
            (for_peers (\<lambda>idx. send_peer e srv idx m) srv w1)))"

definition log_to_entry :: "LogEntry \<Rightarrow> Entry" where
  "log_to_entry en = \<lparr>ent_term = le_term en, ent_index = le_index en,
                      ent_command = le_command en, ent_id = le_id en\<rparr>"

text \<open>
  The loop \<open>for (int i = matched; i < log_.size(); i++)\<close> compares with an unsigned size:
  a negative start is a huge number and the loop does not run.
\<close>

definition unmatched_entries :: "RaftState \<Rightarrow> int \<Rightarrow> Entry list" where
  "unmatched_entries st m = (if m < 0 then [] else map log_to_entry (drop (nat m) (log st)))"

definition heart_beat_req :: "AIOServer \<Rightarrow> RaftState \<Rightarrow> int \<Rightarrow> AppendEntriesReq res" where
  "heart_beat_req srv st idx =
     bindE (prevlogindex st idx) (\<lambda>pi.
     bindE (prevlogterm st idx) (\<lambda>pt.
     mapE (\<lambda>m.
       \<lparr> ae_term = current_term st, ae_leaderId = srv_server_id srv, ae_prevLogIndex = pi,
         ae_prevLogTerm = pt, ae_entries = unmatched_entries st m,
         ae_commitIndex = commit_index st,
         ae_serverId = srv_server_id srv sdiv SERVER_NUM_PER_CLUSTER * SERVER_NUM_PER_CLUSTER + idx \<rparr>)
       (vec_at (matched_log_size st) idx)))"

text \<open>The message for the routing service sets two members; the others keep their defaults.\<close>

definition routing_heart_beat :: "AIOServer \<Rightarrow> AppendEntriesReq" where
  "routing_heart_beat srv =
     \<lparr> ae_term = current_term (raft srv), ae_leaderId = srv_server_id srv, ae_prevLogIndex = 0,
       ae_prevLogTerm = 0, ae_entries = [], ae_commitIndex = 0, ae_serverId = 0 \<rparr>"

definition broadcast_heart_beat :: "env \<Rightarrow> AIOServer \<Rightarrow> AIOServer res" where
  "broadcast_heart_beat e srv =
     bindE (send_routing e srv (MAppendEntriesReq (routing_heart_beat srv)) (world srv)) (\<lambda>w1.
       let st = (raft srv)\<lparr>coming_commit_index := int (length (log (raft srv))) - 1\<rparr>
       in mapE (\<lambda>w2. srv\<lparr>raft := st, world := w2\<rparr>)
            (for_peers (\<lambda>idx w. bindE (heart_beat_req srv st idx) (\<lambda>req.
                          send_peer e srv idx (MAppendEntriesReq req) w)) srv w1))"

section \<open>Dispatch\<close>

text \<open>An executor works on the shared I/O layer and state of the server.\<close>

definition run_exec ::
    "(World \<Rightarrow> RaftState \<Rightarrow> (World \<times> RaftState) res) \<Rightarrow> AIOServer \<Rightarrow> AIOServer res" where
  "run_exec f srv = mapE (\<lambda>(w, st). srv\<lparr>world := w, raft := st\<rparr>) (f (world srv) (raft srv))"

definition addressed :: "AIOServer \<Rightarrow> int \<Rightarrow> int \<Rightarrow> bool" where
  "addressed srv c s \<longleftrightarrow> c = srv_cluster_id srv \<and> s = srv_server_id srv"

text \<open>The messages a server that pretends to have failed does not look at.\<close>

fun dispatch :: "env \<Rightarrow> int \<Rightarrow> WrapperMessage \<Rightarrow> AIOServer \<Rightarrow> AIOServer res" where
  "dispatch e s (MIntraShardReq req) srv =
     (if is_clusterId req = srv_cluster_id srv
      then run_exec (\<lambda>w st. is_executeReq e s w st req) srv else Inr srv)"
| "dispatch e s (MCrossShardReq req) srv =
     (if cs_senderClusterId req = srv_cluster_id srv \<or> cs_receiverClusterId req = srv_cluster_id srv
      then run_exec (\<lambda>w st. cs_executeReq e s w st req) srv else Inr srv)"
| "dispatch e s (MAppendEntriesReq req) srv =
     run_exec (\<lambda>w st. ae_executeReq e s w st req) srv"
| "dispatch e s (MAppendEntriesRsp rsp) srv =
     run_exec (\<lambda>w st. ae_executeRsp e s w st rsp) srv"
| "dispatch e s (MRequestVoteReq req) srv =
     run_exec (\<lambda>w st. rv_executeReq e s w st req) srv"
| "dispatch e s (MRequestVoteRsp rsp) srv =
     bindE (run_exec (\<lambda>w st. rv_executeRsp e s w st rsp) srv) (\<lambda>srv1.
       if role (raft srv1) = LEADER then broadcast_heart_beat e srv1 else Inr srv1)"
| "dispatch e s (MPrintBalanceReq req) srv =
     (if addressed srv (pb_clusterId req) (pb_serverId req)
      then run_exec (\<lambda>w st. pb_executeReq e s w st req) srv else Inr srv)"
| "dispatch e s (MPrintDatastoreReq req) srv =
     (if addressed srv (pd_clusterId req) (pd_serverId req)
      then run_exec (\<lambda>w st. pd_executeReq e s w st req) srv else Inr srv)"
| "dispatch e s _ srv =
     Inl (FatalError (fmt_format e (''[{}:{}][MSG] Unknown message type.'' @ [newline])
       [srv_cluster_id srv, srv_server_id srv]))"

fun process_msg :: "env \<Rightarrow> int \<Rightarrow> WrapperMessage \<Rightarrow> AIOServer \<Rightarrow> AIOServer res" where
  "process_msg e s (Exit c i) srv =
     Inr (if addressed srv c i then srv\<lparr>keep_running := False\<rparr> else srv)"
| "process_msg e s (Resume c i) srv =
     Inr (if addressed srv c i then srv\<lparr>pretend_fail := False\<rparr> else srv)"
| "process_msg e s (Stop c i) srv =
     Inr (if addressed srv c i then srv\<lparr>pretend_fail := True\<rparr> else srv)"
| "process_msg e s m srv = (if pretend_fail srv then Inr srv else dispatch e s m srv)"

section \<open>The event loop\<close>

text \<open>
  A completion: the result and the metadata of the request it belongs to. For a read the
  buffer holds what the kernel delivered.
\<close>

record CQE =
  res :: int
  data :: AIOData

abbreviation ETIME :: int where "ETIME \<equiv> 62"

definition set_timer_request :: "env \<Rightarrow> int \<Rightarrow> AIOServer \<Rightarrow> AIOServer res" where
  "set_timer_request e ms srv =
     mapE (\<lambda>w. srv\<lparr>world := w\<rparr>) (add_timeout_request e ms (world srv))"

definition on_timeout :: "env \<Rightarrow> AIOServer \<Rightarrow> AIOServer res" where
  "on_timeout e srv =
     (if pretend_fail srv then set_timer_request e TERM_TIMEOUT_MS srv
      else case role (raft srv) of
        FOLLOWER \<Rightarrow>
          bindE (if \<not> heard_heart_beat (raft srv) then broadcast_vote e srv else Inr srv) (\<lambda>srv1.
            set_timer_request e TERM_TIMEOUT_MS
              (srv1\<lparr>raft := (raft srv1)\<lparr>heard_heart_beat := False\<rparr>\<rparr>))
      | CANDIDATE \<Rightarrow> bindE (broadcast_vote e srv) (set_timer_request e TERM_TIMEOUT_MS)
      | LEADER \<Rightarrow> bindE (broadcast_heart_beat e srv) (set_timer_request e HEAT_BEAT_INTERVAL_MS))"

definition on_accept :: "env \<Rightarrow> int \<Rightarrow> int \<Rightarrow> AIOServer \<Rightarrow> AIOServer res" where
  "on_accept e server_socket client_socket srv =
     bindE (add_accept_request e server_socket (world srv)) (\<lambda>w1.
       mapE (\<lambda>w2. srv\<lparr>world := w2\<rparr>) (add_read_request e client_socket w1))"

definition on_connect :: "env \<Rightarrow> AIOData \<Rightarrow> AIOServer \<Rightarrow> AIOServer res" where
  "on_connect e d srv =
     mapE (\<lambda>w. srv\<lparr>world := w\<rparr>)
       (add_write_request_buf e (fd d) (buf d) (buf_size d) (message_type d) (world srv))"

definition on_write :: "env \<Rightarrow> AIOData \<Rightarrow> AIOServer \<Rightarrow> AIOServer res" where
  "on_write e d srv =
     (if message_type d = WAIT_RESPONSE
      then mapE (\<lambda>w. srv\<lparr>world := w\<rparr>) (add_read_request e (fd d) (world srv))
      else Inr (srv\<lparr>world := close_fd (fd d) (world srv)\<rparr>))"

definition handle_cqe :: "env \<Rightarrow> int \<Rightarrow> CQE \<Rightarrow> AIOServer \<Rightarrow> AIOServer res" where
  "handle_cqe e server_socket c srv =
     (if res c \<noteq> - ETIME \<and> res c < 0 then Inr srv
      else if res c = - ETIME \<and> event_type (data c) \<noteq> EVENT_TIMEOUT then Inr srv
      else case event_type (data c) of
        EVENT_TIMEOUT \<Rightarrow> on_timeout e srv
      | EVENT_ACCEPT \<Rightarrow> on_accept e server_socket (res c) srv
      | EVENT_CONNECT \<Rightarrow> on_connect e (data c) srv
      | EVENT_READ \<Rightarrow>
          process_msg e (fd (data c)) (parse_buf_to_msg e (buf (data c)) (res c)) srv
      | EVENT_WRITE \<Rightarrow> on_write e (data c) srv)"

text \<open>
  The loop over what \<open>io_uring_wait_cqe\<close> delivers: \<open>None\<close> is a wait that failed.
\<close>

fun run_loop :: "env \<Rightarrow> int \<Rightarrow> CQE option list \<Rightarrow> AIOServer \<Rightarrow> AIOServer res" where
  "run_loop e server_socket [] srv = Inr srv"
| "run_loop e server_socket (c # cs) srv =
     (if \<not> keep_running srv then Inr srv
      else bindE (case c of None \<Rightarrow> Inr srv | Some c \<Rightarrow> handle_cqe e server_socket c srv)
             (run_loop e server_socket cs))"

definition server_run :: "env \<Rightarrow> int \<Rightarrow> CQE option list \<Rightarrow> AIOServer \<Rightarrow> AIOServer res" where
  "server_run e server_socket cs srv =
     bindE (add_accept_request e server_socket (world srv)) (\<lambda>w1.
     bindE (add_timeout_request e TERM_TIMEOUT_MS w1) (\<lambda>w2.
       run_loop e server_socket cs (srv\<lparr>world := w2\<rparr>)))"

definition setup_listening_socket :: "env \<Rightarrow> int \<Rightarrow> int res" where
  "setup_listening_socket e port =
     (if listen_socket_ret e = -1 then Inl (FatalError ''Failed to create listening socket.'')
      else if setsockopt_ret e < 0
        then Inl (FatalError ''Failed to set listening socket opt SO_REUSEADDR.'')
      else if bind_ret e port < 0 then Inl (FatalError ''Failed to bind listening socket.'')
      else if listen_ret e < 0 then Inl (FatalError ''Failed to listen listening socket.'')
      else Inr (listen_socket_ret e))"

text \<open>The constructor: members, data shard, socket, and the run over the completions.\<close>

definition AIOServer_new ::
    "env \<Rightarrow> int \<Rightarrow> int \<Rightarrow> string \<times> int \<Rightarrow> (string \<times> int) list list \<Rightarrow> int \<Rightarrow>
     (string \<Rightarrow> string option) \<Rightarrow> AIOServer res" where
  "AIOServer_new e cluster server routing pairs timeout disk =
     mapE (\<lambda>w.
       \<lparr> srv_cluster_id = cluster, srv_server_id = server, routing_service_ip_port_pair = routing,
         server_ip_port_pairs = pairs, pretend_fail = False, keep_running = True,
         raft = load_data_shard e w (RaftState_init cluster server), world = w \<rparr>)
       (AsyncIO_init e timeout disk)"

definition AIOServer_main ::
    "env \<Rightarrow> int \<Rightarrow> int \<Rightarrow> string \<times> int \<Rightarrow> (string \<times> int) list list \<Rightarrow> int \<Rightarrow>
     (string \<Rightarrow> string option) \<Rightarrow> CQE option list \<Rightarrow> AIOServer res" where
  "AIOServer_main e cluster server routing pairs timeout disk cs =
     bindE (AIOServer_new e cluster server routing pairs timeout disk) (\<lambda>srv.
     bindE (peer_addr srv (self_idx srv)) (\<lambda>(ip, port).
     bindE (setup_listening_socket e port) (\<lambda>server_socket.
       server_run e server_socket cs srv)))"

section \<open>Broadcasts: what they send\<close>

text \<open>The members of a server that no handler changes.\<close>

definition same_server :: "AIOServer \<Rightarrow> AIOServer \<Rightarrow> bool" where
  "same_server srv srv' \<longleftrightarrow>
     srv_cluster_id srv' = srv_cluster_id srv \<and> srv_server_id srv' = srv_server_id srv \<and>
     routing_service_ip_port_pair srv' = routing_service_ip_port_pair srv \<and>
     server_ip_port_pairs srv' = server_ip_port_pairs srv"

lemma same_server_refl [simp, intro]: "same_server srv srv"
  by (simp add: same_server_def)

lemma same_server_trans: "same_server a b \<Longrightarrow> same_server b c \<Longrightarrow> same_server a c"
  by (simp add: same_server_def)

lemma same_server_upd [simp]:
  "same_server srv0 (srv\<lparr>raft := st\<rparr>) = same_server srv0 srv"
  "same_server srv0 (srv\<lparr>world := w\<rparr>) = same_server srv0 srv"
  "same_server srv0 (srv\<lparr>pretend_fail := b\<rparr>) = same_server srv0 srv"
  "same_server srv0 (srv\<lparr>keep_running := b\<rparr>) = same_server srv0 srv"
  by (simp_all add: same_server_def)

text \<open>A connect request that carries a given kind of message to a given kind of address.\<close>

definition sends :: "env \<Rightarrow> (string \<times> int \<Rightarrow> WrapperMessage \<Rightarrow> bool) \<Rightarrow> SQE \<Rightarrow> bool" where
  "sends e M x \<longleftrightarrow> (\<exists>s ip port m t. M (ip, port) m \<and> x = connect_sqe e s ip port m t)"

lemma sends_kinds:
  assumes "sends e M x"
  shows "is_connect x" "\<not> is_timer x" "\<not> is_accept x" "\<not> is_write x"
  using assms by (auto simp: sends_def connect_sqe_def)

lemma sends_connect: "M (ip, port) m \<Longrightarrow> sends e M (connect_sqe e s ip port m t)"
  unfolding sends_def by blast

lemma sends_mono: "sends e M x \<Longrightarrow> (\<And>a m. M a m \<Longrightarrow> N a m) \<Longrightarrow> sends e N x"
  unfolding sends_def by blast

lemma add_connect_adds:
  "add_connect_request e ip port m t w = Inr w' \<Longrightarrow> M (ip, port) m \<Longrightarrow> adds (sends e M) w w'"
  by (auto simp: add_connect_request_Inr adds_def sends_connect)

lemma send_routing_adds:
  "send_routing e srv m w = Inr w' \<Longrightarrow> M (routing_service_ip_port_pair srv) m \<Longrightarrow>
   adds (sends e M) w w'"
  by (auto simp: send_routing_def intro: add_connect_adds)

lemma send_peer_adds:
  "send_peer e srv idx m w = Inr w' \<Longrightarrow> (\<And>a. peer_addr srv idx = Inr a \<Longrightarrow> M a m) \<Longrightarrow>
   adds (sends e M) w w'"
  by (auto simp: send_peer_def res_iff intro: add_connect_adds)

lemma for_peers_adds:
  assumes "for_peers f srv w = Inr w'"
    and "\<And>idx w w'. idx \<noteq> self_idx srv \<Longrightarrow> f idx w = Inr w' \<Longrightarrow> adds P w w'"
  shows "adds P w w'"
proof (rule forE_inv [OF assms(1)[unfolded for_peers_def], where P = "adds P w"])
  fix idx v v'
  assume "adds P w v" "(if idx = self_idx srv then Inr v else f idx v) = Inr v'"
  then show "adds P w v'" using assms(2) by (auto intro: adds_trans split: if_splits)
qed simp

text \<open>
  The address a server listens on, and a configuration in which a server's address
  belongs to nobody else in its cluster, nor to the routing service.
\<close>

definition own_addr :: "AIOServer \<Rightarrow> (string \<times> int) res" where
  "own_addr srv = peer_addr srv (self_idx srv)"

definition addresses_ok :: "AIOServer \<Rightarrow> bool" where
  "addresses_ok srv \<longleftrightarrow>
     (case vec_at (server_ip_port_pairs srv) (srv_cluster_id srv) of
        Inr row \<Rightarrow> distinct row \<and> routing_service_ip_port_pair srv \<notin> set row
      | Inl _ \<Rightarrow> True)"

lemma same_server_addr:
  "same_server srv srv' \<Longrightarrow> own_addr srv' = own_addr srv \<and> addresses_ok srv' = addresses_ok srv"
  by (simp add: same_server_def own_addr_def addresses_ok_def peer_addr_def self_idx_def
      split: sum.split)

lemma peer_addr_Inr:
  "peer_addr srv idx = Inr a \<longleftrightarrow>
     (\<exists>row. vec_at (server_ip_port_pairs srv) (srv_cluster_id srv) = Inr row \<and>
        0 \<le> idx \<and> idx < int (length row) \<and> a = row ! nat idx)"
  unfolding peer_addr_def bindE_Inr_iff vec_at_Inr by blast

lemma peer_not_self:
  assumes "addresses_ok srv" and "peer_addr srv idx = Inr a" and "idx \<noteq> self_idx srv"
  shows "own_addr srv \<noteq> Inr a"
  using assms unfolding own_addr_def peer_addr_Inr addresses_ok_def
  by (auto simp: nth_eq_iff_index_eq)

lemma routing_not_self:
  assumes "addresses_ok srv"
  shows "own_addr srv \<noteq> Inr (routing_service_ip_port_pair srv)"
  using assms unfolding own_addr_def peer_addr_Inr addresses_ok_def by auto

definition stand :: "AIOServer \<Rightarrow> RaftState" where
  "stand srv = (raft srv)\<lparr>role := CANDIDATE, current_term := current_term (raft srv) + 1,
      voted_for := srv_server_id srv, vote_granted_num := 1\<rparr>"

lemma broadcast_vote_spec:
  assumes "broadcast_vote e srv = Inr srv'"
  shows "raft srv' = stand srv"
    "srv' = srv\<lparr>raft := stand srv, world := world srv'\<rparr>"
    "addresses_ok srv \<Longrightarrow>
     adds (sends e (\<lambda>a m. m = MRequestVoteReq (vote_req srv (stand srv)) \<and> own_addr srv \<noteq> Inr a))
       (world srv) (world srv')"
    "adds (sends e (\<lambda>a m. True)) (world srv) (world srv')"
proof -
  let ?m = "MRequestVoteReq (vote_req srv (stand srv))"
  obtain w1 w2 where r: "send_routing e srv ?m (world srv) = Inr w1"
    and p: "for_peers (\<lambda>idx. send_peer e srv idx ?m) srv w1 = Inr w2"
    and srv': "srv' = srv\<lparr>raft := stand srv, world := w2\<rparr>"
    using assms by (auto simp: broadcast_vote_def res_iff Let_def stand_def)
  show "raft srv' = stand srv" "srv' = srv\<lparr>raft := stand srv, world := world srv'\<rparr>"
    using srv' by simp_all
  have "adds (sends e M) (world srv) (world srv')"
    if "M (routing_service_ip_port_pair srv) ?m"
      "\<And>idx a. idx \<noteq> self_idx srv \<Longrightarrow> peer_addr srv idx = Inr a \<Longrightarrow> M a ?m" for M
  proof (rule adds_trans)
    show "adds (sends e M) (world srv) w1" by (rule send_routing_adds [where M = M, OF r that(1)])
    have "adds (sends e M) w1 w2"
      by (rule for_peers_adds [OF p]) (rule send_peer_adds [where M = M], assumption, rule that(2))
    then show "adds (sends e M) w1 (world srv')" using srv' by simp
  qed
  from this [of "\<lambda>a m. m = ?m \<and> own_addr srv \<noteq> Inr a"] this [of "\<lambda>a m. True"]
  show "addresses_ok srv \<Longrightarrow> adds (sends e (\<lambda>a m. m = ?m \<and> own_addr srv \<noteq> Inr a)) (world srv) (world srv')"
    "adds (sends e (\<lambda>a m. True)) (world srv) (world srv')"
    using peer_not_self routing_not_self by blast+
qed

fun is_heart_beat :: "WrapperMessage \<Rightarrow> bool" where
  "is_heart_beat (MAppendEntriesReq _) = True"
| "is_heart_beat _ = False"

definition prepare_commit :: "RaftState \<Rightarrow> RaftState" where
  "prepare_commit st = st\<lparr>coming_commit_index := int (length (log st)) - 1\<rparr>"

lemma broadcast_heart_beat_spec:
  assumes "broadcast_heart_beat e srv = Inr srv'"
  shows "raft srv' = prepare_commit (raft srv)"
    "srv' = srv\<lparr>raft := prepare_commit (raft srv), world := world srv'\<rparr>"
    "adds (sends e (\<lambda>a. is_heart_beat)) (world srv) (world srv')"
proof -
  obtain w1 w2 where r: "send_routing e srv (MAppendEntriesReq (routing_heart_beat srv)) (world srv) = Inr w1"
    and p: "for_peers (\<lambda>idx w. bindE (heart_beat_req srv (prepare_commit (raft srv)) idx) (\<lambda>req.
                          send_peer e srv idx (MAppendEntriesReq req) w)) srv w1 = Inr w2"
    and srv': "srv' = srv\<lparr>raft := prepare_commit (raft srv), world := w2\<rparr>"
    using assms by (auto simp: broadcast_heart_beat_def res_iff Let_def prepare_commit_def)
  show "raft srv' = prepare_commit (raft srv)"
    "srv' = srv\<lparr>raft := prepare_commit (raft srv), world := world srv'\<rparr>"
    using srv' by simp_all
  have "adds (sends e (\<lambda>a. is_heart_beat)) (world srv) w1" by (rule send_routing_adds [OF r]) simp
  moreover have "adds (sends e (\<lambda>a. is_heart_beat)) w1 w2"
    by (rule for_peers_adds [OF p]) (auto simp: res_iff intro: send_peer_adds)
  ultimately show "adds (sends e (\<lambda>a. is_heart_beat)) (world srv) (world srv')"
    using srv' by (auto intro: adds_trans)
qed

section \<open>Messages: what they change\<close>

lemma run_exec_Inr:
  "run_exec f srv = Inr srv' \<longleftrightarrow>
     (\<exists>w st. f (world srv) (raft srv) = Inr (w, st) \<and> srv' = srv\<lparr>world := w, raft := st\<rparr>)"
  by (auto simp: run_exec_def res_iff)

lemma executors_quiet:
  "is_executeReq e s w st ireq = Inr (w', st') \<Longrightarrow> quiet st st'"
  "cs_executeReq e s w st creq = Inr (w', st') \<Longrightarrow> quiet st st'"
  "pb_executeReq e s w st breq = Inr (w', st') \<Longrightarrow> quiet st st'"
  "pd_executeReq e s w st dreq = Inr (w', st') \<Longrightarrow> quiet st st'"
  by (auto intro: quiet_frame dest: is_executeReq_state(1) cs_executeReq_frame pb_state pd_state)

lemmas executor_effects = executors_quiet ae_executeReq_quiet ae_executeRsp_quiet

text \<open>
  A message that is not part of an election: the vote is untouched, the term does not
  decrease, the role is kept or becomes \<open>FOLLOWER\<close>, and only answers are submitted.
\<close>

definition calm :: "AIOServer \<Rightarrow> AIOServer \<Rightarrow> bool" where
  "calm srv srv' \<longleftrightarrow> same_server srv srv' \<and> quiet (raft srv) (raft srv') \<and>
     adds is_write (world srv) (world srv')"

lemma calm_refl [simp, intro]: "calm srv srv"
  by (simp add: calm_def quiet_def)

lemma run_exec_calm:
  assumes "run_exec f srv = Inr srv'"
    and "\<And>w st w' st'. f w st = Inr (w', st') \<Longrightarrow> quiet st st'"
    and "\<And>w st w' st'. f w st = Inr (w', st') \<Longrightarrow> adds is_write w w'"
  shows "calm srv srv'"
  using assms by (auto simp: run_exec_Inr calm_def)

lemma dispatch_calm:
  assumes "dispatch e s m srv = Inr srv'" and "\<not> is_vote_msg m"
  shows "calm srv srv'"
proof (cases m)
  case (MIntraShardReq r)
  then show ?thesis using assms(1)
    by (auto split: if_splits elim!: run_exec_calm executors_quiet(1) is_adds)
next
  case (MCrossShardReq r)
  then show ?thesis using assms(1)
    by (auto split: if_splits elim!: run_exec_calm executors_quiet(2) cs_adds)
next
  case (MAppendEntriesReq r)
  then show ?thesis using assms(1)
    by (auto elim!: run_exec_calm ae_executeReq_quiet ae_executeReq_adds)
next
  case (MAppendEntriesRsp r)
  then show ?thesis using assms(1)
    by (auto elim!: run_exec_calm ae_executeRsp_quiet ae_executeRsp_adds)
next
  case (MPrintBalanceReq r)
  then show ?thesis using assms(1)
    by (auto split: if_splits elim!: run_exec_calm executors_quiet(3) pb_adds)
next
  case (MPrintDatastoreReq r)
  then show ?thesis using assms(1)
    by (auto split: if_splits elim!: run_exec_calm executors_quiet(4) pd_adds)
qed (use assms in auto)

lemma process_msg_calm:
  assumes "process_msg e s m srv = Inr srv'" and "\<not> is_vote_msg m"
  shows "calm srv srv'"
  using assms dispatch_calm [of e s m srv srv']
  by (cases m) (auto simp: calm_def quiet_def split: if_splits)

text \<open>The two messages of an election.\<close>

lemma process_vote_req:
  assumes "process_msg e s (MRequestVoteReq req) srv = Inr srv'"
  shows "pretend_fail srv \<and> srv' = srv \<or>
    \<not> pretend_fail srv \<and> raft srv' = rv_after (raft srv) req \<and> same_server srv srv' \<and>
    ring (world srv') = ring (world srv) @ [write_sqe e s (MRequestVoteRsp
       \<lparr>rvr_term = current_term (raft srv'), rvr_voteGranted = rv_grants (raft srv) req\<rparr>) NO_RESPONSE]"
  using assms
  by (auto simp: run_exec_Inr rv_executeReq_closed respond_Inr split: if_splits)

lemma process_vote_rsp:
  assumes "process_msg e s (MRequestVoteRsp rsp) srv = Inr srv'"
  obtains (failed) "pretend_fail srv" "srv' = srv"
    | (handled) w1 st1 where "rv_executeRsp e s (world srv) (raft srv) rsp = Inr (w1, st1)"
      "role st1 \<noteq> LEADER" "srv' = srv\<lparr>world := w1, raft := st1\<rparr>"
    | (leads) w1 st1 where "rv_executeRsp e s (world srv) (raft srv) rsp = Inr (w1, st1)"
      "role st1 = LEADER" "broadcast_heart_beat e (srv\<lparr>world := w1, raft := st1\<rparr>) = Inr srv'"
proof (cases "pretend_fail srv")
  case True
  then show ?thesis using assms by (intro failed) auto
next
  case False
  then obtain srv1 where 1: "run_exec (\<lambda>w st. rv_executeRsp e s w st rsp) srv = Inr srv1"
    and 2: "(if role (raft srv1) = LEADER then broadcast_heart_beat e srv1 else Inr srv1) = Inr srv'"
    using assms by (auto simp: bindE_Inr_iff)
  from 1 obtain w1 st1 where rsp: "rv_executeRsp e s (world srv) (raft srv) rsp = Inr (w1, st1)"
    and srv1: "srv1 = srv\<lparr>world := w1, raft := st1\<rparr>" by (auto simp: run_exec_Inr)
  show ?thesis
  proof (cases "role st1 = LEADER")
    case True
    then show ?thesis using rsp 2 srv1 by (intro leads) auto
  next
    case False
    then show ?thesis using rsp 2 srv1 by (intro handled) auto
  qed
qed

section \<open>Completions: timers and accepts\<close>

text \<open>A completion the loop looks at: a success, or an expired timer.\<close>

definition effective :: "CQE \<Rightarrow> bool" where
  "effective c \<longleftrightarrow> 0 \<le> res c \<or> res c = - ETIME \<and> event_type (data c) = EVENT_TIMEOUT"

lemma handle_cqe_ineffective: "\<not> effective c \<Longrightarrow> handle_cqe e sock c srv = Inr srv"
  by (auto simp: handle_cqe_def effective_def)

lemma handle_cqe_effective:
  "effective c \<Longrightarrow> handle_cqe e sock c srv =
     (case event_type (data c) of
        EVENT_TIMEOUT \<Rightarrow> on_timeout e srv
      | EVENT_ACCEPT \<Rightarrow> on_accept e sock (res c) srv
      | EVENT_CONNECT \<Rightarrow> on_connect e (data c) srv
      | EVENT_READ \<Rightarrow>
          process_msg e (fd (data c)) (parse_buf_to_msg e (buf (data c)) (res c)) srv
      | EVENT_WRITE \<Rightarrow> on_write e (data c) srv)"
  by (auto simp: handle_cqe_def effective_def)

text \<open>Every submission of the loop is one of these.\<close>

definition no_timer :: "SQE \<Rightarrow> bool" where
  "no_timer x \<longleftrightarrow> \<not> is_timer x \<and> \<not> is_accept x"

lemma no_timer_kinds: "is_write x \<Longrightarrow> no_timer x" "sends e M x \<Longrightarrow> no_timer x"
  using sends_kinds [of e M x] by (auto simp: no_timer_def sqe_kinds split: sqe_op.splits)

lemma process_no_timer:
  assumes "process_msg e s m srv = Inr srv'"
  shows "adds no_timer (world srv) (world srv')"
proof (cases "is_vote_msg m")
  case False
  then have "calm srv srv'" by (rule process_msg_calm [OF assms])
  then show ?thesis by (auto simp: calm_def intro: adds_mono no_timer_kinds)
next
  case True
  then consider (req) r where "m = MRequestVoteReq r" | (rsp) r where "m = MRequestVoteRsp r"
    by (cases m) auto
  then show ?thesis
  proof cases
    case req
    show ?thesis using process_vote_req [OF assms[unfolded req]]
      by (auto simp: adds_def no_timer_def write_sqe_def)
  next
    case rsp
    show ?thesis using assms unfolding rsp
    proof (cases rule: process_vote_rsp)
      case (handled w1 st1)
      then show ?thesis using rv_adds(2) [OF handled(1)]
        by (auto intro: adds_mono no_timer_kinds)
    next
      case (leads w1 st1)
      have "adds no_timer (world srv) w1"
        using rv_adds(2) [OF leads(1)] by (auto intro: adds_mono no_timer_kinds)
      moreover have "adds no_timer w1 (world srv')"
        using broadcast_heart_beat_spec(3) [OF leads(3)] by (auto intro: adds_mono no_timer_kinds)
      ultimately show ?thesis by (rule adds_trans)
    qed simp
  qed
qed

lemma broadcast_no_timer:
  "broadcast_vote e srv = Inr srv' \<Longrightarrow> adds no_timer (world srv) (world srv')"
  "broadcast_heart_beat e srv = Inr srv' \<Longrightarrow> adds no_timer (world srv) (world srv')"
  by (auto dest: broadcast_vote_spec(4) broadcast_heart_beat_spec(3)
      intro: adds_mono no_timer_kinds)

lemma set_timer_request_Inr:
  "set_timer_request e ms srv = Inr srv' \<longleftrightarrow>
     (\<exists>w. add_timeout_request e ms (world srv) = Inr w \<and> srv' = srv\<lparr>world := w\<rparr>)"
  by (auto simp: set_timer_request_def res_iff)

text \<open>
  The raft side of a timeout, and the interval the next timer is set to: the term timeout
  for followers and candidates, the heart beat interval for leaders.
\<close>

lemma on_timeout_cases:
  assumes "on_timeout e srv = Inr srv'"
  obtains (failed) "pretend_fail srv" "set_timer_request e TERM_TIMEOUT_MS srv = Inr srv'"
    | (heard) "\<not> pretend_fail srv" "role (raft srv) = FOLLOWER" "heard_heart_beat (raft srv)"
      "set_timer_request e TERM_TIMEOUT_MS
         (srv\<lparr>raft := (raft srv)\<lparr>heard_heart_beat := False\<rparr>\<rparr>) = Inr srv'"
    | (stands) srv1 where "\<not> pretend_fail srv" "role (raft srv) = FOLLOWER"
      "\<not> heard_heart_beat (raft srv)" "broadcast_vote e srv = Inr srv1"
      "set_timer_request e TERM_TIMEOUT_MS
         (srv1\<lparr>raft := (raft srv1)\<lparr>heard_heart_beat := False\<rparr>\<rparr>) = Inr srv'"
    | (again) srv1 where "\<not> pretend_fail srv" "role (raft srv) = CANDIDATE"
      "broadcast_vote e srv = Inr srv1" "set_timer_request e TERM_TIMEOUT_MS srv1 = Inr srv'"
    | (leads) srv1 where "\<not> pretend_fail srv" "role (raft srv) = LEADER"
      "broadcast_heart_beat e srv = Inr srv1"
      "set_timer_request e HEAT_BEAT_INTERVAL_MS srv1 = Inr srv'"
  using assms
  by (cases "role (raft srv)") (auto simp: on_timeout_def res_iff split: if_splits)

lemma set_timer_request_counts:
  assumes "set_timer_request e ms srv = Inr srv'"
  shows "submitted is_timer (world srv') = submitted is_timer (world srv) + 1 \<and>
    submitted is_accept (world srv') = submitted is_accept (world srv)"
  using assms by (auto simp: set_timer_request_Inr add_timeout_request_def submit_Inr)

lemma no_timer_counts:
  assumes "adds no_timer w w'"
  shows "submitted is_timer w' = submitted is_timer w \<and> submitted is_accept w' = submitted is_accept w"
  using adds_submitted [OF assms] by (auto simp: no_timer_def)

lemma on_timeout_counts:
  assumes "on_timeout e srv = Inr srv'"
  shows "submitted is_timer (world srv') = submitted is_timer (world srv) + 1 \<and>
    submitted is_accept (world srv') = submitted is_accept (world srv)"
  using assms
  by (cases rule: on_timeout_cases)
     (auto dest!: set_timer_request_counts no_timer_counts [OF broadcast_no_timer(1)]
        no_timer_counts [OF broadcast_no_timer(2)])

lemma on_accept_counts:
  assumes "on_accept e sock s srv = Inr srv'"
  shows "submitted is_timer (world srv') = submitted is_timer (world srv) \<and>
    submitted is_accept (world srv') = submitted is_accept (world srv) + 1"
  using assms
  by (auto simp: on_accept_def res_iff add_accept_request_def add_read_request_def submit_Inr
      set_timer_def set_nonblocking_def submitted_def)

lemma on_write_counts:
  assumes "on_write e d srv = Inr srv'"
  shows "submitted is_timer (world srv') = submitted is_timer (world srv) \<and>
    submitted is_accept (world srv') = submitted is_accept (world srv)"
  using assms
  by (auto simp: on_write_def res_iff add_read_request_def submit_Inr set_timer_def
      set_nonblocking_def close_fd_def submitted_def split: if_splits)

lemma on_connect_counts:
  assumes "on_connect e d srv = Inr srv'"
  shows "submitted is_timer (world srv') = submitted is_timer (world srv) \<and>
    submitted is_accept (world srv') = submitted is_accept (world srv)"
  using assms
  by (auto simp: on_connect_def res_iff add_write_request_buf_def submit_Inr set_timer_def
      set_nonblocking_def submitted_def)

text \<open>The completions that leave a timer, and those that leave an accept, in their place.\<close>

definition rearms_timer :: "CQE \<Rightarrow> nat" where
  "rearms_timer c = (if effective c \<and> event_type (data c) = EVENT_TIMEOUT then 1 else 0)"

definition rearms_accept :: "CQE \<Rightarrow> nat" where
  "rearms_accept c = (if 0 \<le> res c \<and> event_type (data c) = EVENT_ACCEPT then 1 else 0)"

lemma handle_cqe_counts:
  assumes "handle_cqe e sock c srv = Inr srv'"
  shows "submitted is_timer (world srv') = submitted is_timer (world srv) + rearms_timer c \<and>
    submitted is_accept (world srv') = submitted is_accept (world srv) + rearms_accept c"
proof (cases "effective c")
  case True
  then have acc: "event_type (data c) = EVENT_ACCEPT \<Longrightarrow> 0 \<le> res c" by (auto simp: effective_def)
  show ?thesis
    using assms True on_timeout_counts on_accept_counts on_write_counts on_connect_counts
      no_timer_counts [OF process_no_timer] acc
    by (auto simp: handle_cqe_effective rearms_timer_def rearms_accept_def
        split: AIOEventType.splits)
next
  case False
  then show ?thesis
    using assms by (auto simp: handle_cqe_ineffective rearms_timer_def rearms_accept_def effective_def)
qed

text \<open>
  The completions a run consumes: the loop stops looking when the server was told to exit.
\<close>

fun consumed :: "env \<Rightarrow> int \<Rightarrow> CQE option list \<Rightarrow> AIOServer \<Rightarrow> CQE list" where
  "consumed e sock [] srv = []"
| "consumed e sock (c # cs) srv =
     (if \<not> keep_running srv then []
      else case c of
        None \<Rightarrow> consumed e sock cs srv
      | Some c \<Rightarrow>
          c # (case handle_cqe e sock c srv of Inl _ \<Rightarrow> [] | Inr srv' \<Rightarrow> consumed e sock cs srv'))"

lemma run_loop_counts:
  assumes "run_loop e sock cs srv = Inr srv'"
  shows "submitted is_timer (world srv') =
      submitted is_timer (world srv) + sum_list (map rearms_timer (consumed e sock cs srv)) \<and>
    submitted is_accept (world srv') =
      submitted is_accept (world srv) + sum_list (map rearms_accept (consumed e sock cs srv))"
  using assms
proof (induction cs arbitrary: srv)
  case (Cons c cs)
  show ?case
  proof (cases "keep_running srv")
    case run: True
    show ?thesis
    proof (cases c)
      case None
      then show ?thesis using Cons run by simp
    next
      case (Some c')
      then obtain srv1 where "handle_cqe e sock c' srv = Inr srv1" "run_loop e sock cs srv1 = Inr srv'"
        using Cons.prems run by (auto simp: res_iff)
      then show ?thesis
        using Cons.IH [of srv1] handle_cqe_counts [of e sock c' srv srv1] run Some by simp
    qed
  qed (use Cons.prems in simp)
qed simp

lemma server_run_counts:
  assumes "server_run e sock cs srv = Inr srv'"
  obtains srv1 where "run_loop e sock cs srv1 = Inr srv'" "raft srv1 = raft srv"
    "same_server srv srv1" "keep_running srv1 = keep_running srv"
    "submitted is_timer (world srv1) = submitted is_timer (world srv) + 1"
    "submitted is_accept (world srv1) = submitted is_accept (world srv) + 1"
proof -
  from assms obtain w1 w2 where w: "add_accept_request e sock (world srv) = Inr w1"
    "add_timeout_request e TERM_TIMEOUT_MS w1 = Inr w2"
    and r: "run_loop e sock cs (srv\<lparr>world := w2\<rparr>) = Inr srv'"
    by (auto simp: server_run_def res_iff)
  from w have "submitted is_timer w2 = submitted is_timer (world srv) + 1 \<and>
      submitted is_accept w2 = submitted is_accept (world srv) + 1"
    by (auto simp: add_accept_request_def add_timeout_request_def submit_Inr submitted_def)
  then show thesis by (intro that [OF r]) simp_all
qed

section \<open>Runs\<close>

text \<open>
  What every handled completion keeps, a run keeps: the induction over the event loop is
  done once here.
\<close>

locale loop_invariant =
  fixes e :: env and sock :: int and ok :: "CQE \<Rightarrow> bool" and I :: "AIOServer \<Rightarrow> bool"
  assumes handled: "I srv \<Longrightarrow> ok c \<Longrightarrow> handle_cqe e sock c srv = Inr srv' \<Longrightarrow> I srv'"
begin

lemma run_keeps:
  assumes "run_loop e sock cs srv = Inr srv'" and "I srv"
    and "\<And>c. Some c \<in> set cs \<Longrightarrow> ok c"
  shows "I srv'"
  using assms
proof (induction cs arbitrary: srv)
  case (Cons c cs)
  have step: "I srv1" if "(case c of None \<Rightarrow> Inr srv | Some c \<Rightarrow> handle_cqe e sock c srv) = Inr srv1" for srv1
    using that Cons.prems(2,3) handled by (cases c) auto
  show ?case
    using Cons.prems Cons.IH step by (auto simp: res_iff split: if_splits)
qed simp

end

section \<open>A leader is always ready\<close>

lemma run_exec_keeps_leader:
  assumes "run_exec f srv = Inr srv'"
    and "\<And>w st w' st'. f w st = Inr (w', st') \<Longrightarrow> keeps_leader st st'"
  shows "keeps_leader (raft srv) (raft srv')"
  using assms by (auto simp: run_exec_Inr)

lemma dispatch_keeps_leader:
  assumes "dispatch e s m srv = Inr srv'" and "\<not> is_vote_msg m"
  shows "keeps_leader (raft srv) (raft srv')"
proof (cases m)
  case (MIntraShardReq r)
  then show ?thesis using assms(1)
    by (auto split: if_splits elim!: run_exec_keeps_leader is_keeps_leader)
next
  case (MCrossShardReq r)
  then show ?thesis using assms(1)
    by (auto split: if_splits elim!: run_exec_keeps_leader cs_keeps_leader)
next
  case (MAppendEntriesReq r)
  then show ?thesis using assms(1)
    by (auto elim!: run_exec_keeps_leader ae_executeReq_keeps_leader)
next
  case (MAppendEntriesRsp r)
  then show ?thesis using assms(1)
    by (auto elim!: run_exec_keeps_leader ae_executeRsp_keeps_leader)
next
  case (MPrintBalanceReq r)
  then show ?thesis using assms(1)
    by (auto split: if_splits dest: pb_state elim!: run_exec_keeps_leader)
next
  case (MPrintDatastoreReq r)
  then show ?thesis using assms(1)
    by (auto split: if_splits dest: pd_state elim!: run_exec_keeps_leader)
qed (use assms in auto)

lemma process_msg_keeps_leader:
  assumes "process_msg e s m srv = Inr srv'" and "\<not> is_vote_msg m"
  shows "keeps_leader (raft srv) (raft srv')"
  using assms dispatch_keeps_leader [of e s m srv srv']
  by (cases m) (auto split: if_splits)

lemma rv_after_keeps_leader: "keeps_leader st (rv_after st req)"
  by (cases "rv_grants st req")
     (auto simp: rv_after_grant rv_after_no_grant intro: keeps_leader_follower)

lemma prepare_commit_ready:
  "length (matched_log_size st) = 3 \<or> role st \<noteq> LEADER \<Longrightarrow> leader_ready (prepare_commit st)"
  by (auto simp: leader_ready_def prepare_commit_def)

lemma rv_executeRsp_matched:
  assumes "rv_executeRsp e s w st rsp = Inr (w', st')" and "leader_ready st"
  shows "length (matched_log_size st') = 3 \<or> role st' \<noteq> LEADER"
  using assms by (cases rule: rv_executeRsp_cases) (auto simp: leader_ready_def)

lemma process_msg_ready:
  assumes "process_msg e s m srv = Inr srv'" and "leader_ready (raft srv)"
  shows "leader_ready (raft srv')"
proof (cases "is_vote_msg m")
  case False
  then show ?thesis
    using process_msg_keeps_leader [OF assms(1)] assms(2) by (blast intro: keeps_leader_ready)
next
  case True
  then consider (req) r where "m = MRequestVoteReq r" | (rsp) r where "m = MRequestVoteRsp r"
    by (cases m) auto
  then show ?thesis
  proof cases
    case req
    show ?thesis
      using process_vote_req [OF assms(1)[unfolded req]] assms(2)
        keeps_leader_ready [OF rv_after_keeps_leader, of "raft srv" r]
      by auto
  next
    case rsp
    show ?thesis using assms(1) unfolding rsp
    proof (cases rule: process_vote_rsp)
      case failed
      then show ?thesis using assms(2) by simp
    next
      case (handled w1 st1)
      then show ?thesis by (simp add: leader_ready_def)
    next
      case (leads w1 st1)
      show ?thesis
        using rv_executeRsp_matched [OF leads(1) assms(2)] broadcast_heart_beat_spec(1) [OF leads(3)]
        by (simp add: prepare_commit_ready)
    qed
  qed
qed

lemma set_timer_raft: "set_timer_request e ms srv = Inr srv' \<Longrightarrow> raft srv' = raft srv"
  by (auto simp: set_timer_request_Inr)

lemma on_timeout_ready:
  assumes "on_timeout e srv = Inr srv'" and "leader_ready (raft srv)"
  shows "leader_ready (raft srv')"
  using assms(1)
proof (cases rule: on_timeout_cases)
  case failed
  then show ?thesis using assms(2) by (simp add: set_timer_raft)
next
  case heard
  then show ?thesis using assms(2) by (simp add: set_timer_raft leader_ready_def)
next
  case (stands srv1)
  then show ?thesis
    using broadcast_vote_spec(1) [OF stands(4)] by (simp add: set_timer_raft leader_ready_def stand_def)
next
  case (again srv1)
  then show ?thesis
    using broadcast_vote_spec(1) [OF again(3)] by (simp add: set_timer_raft leader_ready_def stand_def)
next
  case (leads srv1)
  have "length (matched_log_size (raft srv)) = 3"
    using assms(2) leads(2) by (simp add: leader_ready_def)
  then show ?thesis
    using set_timer_raft [OF leads(4)] broadcast_heart_beat_spec(1) [OF leads(3)]
    by (simp add: prepare_commit_ready)
qed

lemma io_raft:
  "on_accept e sock s srv = Inr srv' \<Longrightarrow> raft srv' = raft srv"
  "on_connect e d srv = Inr srv' \<Longrightarrow> raft srv' = raft srv"
  "on_write e d srv = Inr srv' \<Longrightarrow> raft srv' = raft srv"
  by (auto simp: on_accept_def on_connect_def on_write_def res_iff split: if_splits)

lemma handle_cqe_ready:
  assumes "handle_cqe e sock c srv = Inr srv'" and "leader_ready (raft srv)"
  shows "leader_ready (raft srv')"
proof (cases "effective c")
  case True
  show ?thesis
  proof (cases "event_type (data c)")
    case EVENT_ACCEPT
    then show ?thesis using assms True by (simp add: handle_cqe_effective io_raft)
  next
    case EVENT_CONNECT
    then show ?thesis using assms True by (simp add: handle_cqe_effective io_raft)
  next
    case EVENT_READ
    then show ?thesis using assms True by (auto simp: handle_cqe_effective intro: process_msg_ready)
  next
    case EVENT_WRITE
    then show ?thesis using assms True by (simp add: handle_cqe_effective io_raft)
  next
    case EVENT_TIMEOUT
    then show ?thesis using assms True by (auto simp: handle_cqe_effective intro: on_timeout_ready)
  qed
qed (use assms in \<open>simp add: handle_cqe_ineffective\<close>)

interpretation ready: loop_invariant e sock "\<lambda>_. True" "\<lambda>srv. leader_ready (raft srv)" for e sock
  by unfold_locales (rule handle_cqe_ready)

section \<open>A server to compute with\<close>

definition ex_pairs :: "(string \<times> int) list list" where
  "ex_pairs = [[(''a'', 8000), (''b'', 8001), (''c'', 8002)]]"

definition ex_server :: "int \<Rightarrow> AIOServer" where
  "ex_server i = projr (AIOServer_new env0 0 i (''r'', 7000) ex_pairs 1000 Map.empty)"

definition tick :: CQE where
  "tick = \<lparr>res = - ETIME, data = \<lparr>fd = 0, event_type = EVENT_TIMEOUT, buf = [], buf_size = 0,
             message_type = NONE\<rparr>\<rparr>"

definition arrival :: "int \<Rightarrow> WrapperMessage \<Rightarrow> CQE" where
  "arrival s m = \<lparr>res = int (length (pb_serialize env0 m)), data = \<lparr>fd = s, event_type = EVENT_READ,
     buf = pb_serialize env0 m, buf_size = 1024, message_type = NONE\<rparr>\<rparr>"

lemma tick_simps [simp]: "effective tick" "event_type (data tick) = EVENT_TIMEOUT"
  by (simp_all add: tick_def effective_def)

lemma arrival_simps [simp]:
  "effective (arrival s m)" "event_type (data (arrival s m)) = EVENT_READ"
  "fd (data (arrival s m)) = s"
  "parse_buf_to_msg env0 (buf (data (arrival s m))) (res (arrival s m)) = m"
  by (simp_all add: arrival_def effective_def parse_buf_to_msg_def)

lemma ex_server_new: "AIOServer_new env0 0 i (''r'', 7000) ex_pairs 1000 Map.empty = Inr (ex_server i)"
  by (simp add: ex_server_def AIOServer_new_def AsyncIO_init_def)

lemma ex_server_simps:
  "ex_server i =
     \<lparr> srv_cluster_id = 0, srv_server_id = i, routing_service_ip_port_pair = (''r'', 7000),
       server_ip_port_pairs = ex_pairs, pretend_fail = False, keep_running = True,
       raft = RaftState_init 0 i,
       world = \<lparr>ring = [], message_timeout_ms = 1000, nonblocking = [], closed = [], files = Map.empty\<rparr> \<rparr>"
  by (simp add: ex_server_def AIOServer_new_def AsyncIO_init_def load_data_shard_def read_lines_def)

lemmas ex_simps = handle_cqe_effective on_timeout_def broadcast_vote_def set_timer_request_def
  add_timeout_request_def submit_def send_routing_def add_connect_request_def for_peers_def
  send_peer_def peer_addr_def vec_at_def ex_pairs_def self_idx_def serialize_msg_to_buf_def
  set_nonblocking_def RaftState_init_def add32_def in32_def upto.simps Let_def

text \<open>A server whose first timer expired.\<close>

definition ex_stood :: AIOServer where
  "ex_stood = projr (handle_cqe env0 3 tick (ex_server 0))"

lemma ex_stood_simps:
  "handle_cqe env0 3 tick (ex_server 0) = Inr ex_stood"
  "raft ex_stood = (RaftState_init 0 0)\<lparr>role := CANDIDATE, current_term := 1, voted_for := 0,
     vote_granted_num := 1\<rparr>"
  by (simp_all add: ex_stood_def ex_simps ex_server_simps smod_nonneg)

end
