(* ===== verification/Election.thy ===== *)
theory Election
  imports Prelude
begin

text \<open>
  The abstract specification of an election: ballots that voters cast per term, and
  winners that hold a quorum of them. The servers' handlers are shown to implement it in
  the theory \<open>Cluster\<close>.
\<close>

section \<open>The ballot box\<close>

record Ballots =
  terms :: "int \<Rightarrow> int"
  cast :: "(int \<times> int \<times> int) set"
  won :: "(int \<times> int) set"

definition ballots_init :: Ballots where
  "ballots_init = \<lparr>terms = (\<lambda>v. 0), cast = {}, won = {}\<rparr>"

definition backers :: "Ballots \<Rightarrow> int \<Rightarrow> int \<Rightarrow> int set" where
  "backers b c t = {v. (v, c, t) \<in> cast b}"

text \<open>
  A voter may move on to a later term, cast its one ballot of a term that is not behind
  its own, and a candidate backed by a quorum wins its term.
\<close>

inductive ballot_step :: "(int set \<Rightarrow> bool) \<Rightarrow> Ballots \<Rightarrow> Ballots \<Rightarrow> bool" for quorum where
  advance: "terms b v \<le> t \<Longrightarrow> ballot_step quorum b (b\<lparr>terms := (terms b)(v := t)\<rparr>)"
| vote: "terms b v \<le> t \<Longrightarrow> (\<And>d. (v, d, t) \<notin> cast b) \<Longrightarrow>
    ballot_step quorum b (b\<lparr>terms := (terms b)(v := t), cast := insert (v, c, t) (cast b)\<rparr>)"
| win: "quorum (backers b c t) \<Longrightarrow> ballot_step quorum b (b\<lparr>won := insert (c, t) (won b)\<rparr>)"

inductive_cases ballot_stepE: "ballot_step quorum b b'"

section \<open>One winner per term\<close>

text \<open>
  What the argument needs of quorums: two of them meet, and more backers do not undo one.
\<close>

locale election =
  fixes quorum :: "int set \<Rightarrow> bool"
  assumes overlap: "quorum A \<Longrightarrow> quorum B \<Longrightarrow> A \<inter> B \<noteq> {}"
    and more: "quorum A \<Longrightarrow> A \<subseteq> B \<Longrightarrow> quorum B"
begin

definition sound :: "Ballots \<Rightarrow> bool" where
  "sound b \<longleftrightarrow>
     (\<forall>v c t. (v, c, t) \<in> cast b \<longrightarrow> t \<le> terms b v) \<and>
     (\<forall>v c d t. (v, c, t) \<in> cast b \<longrightarrow> (v, d, t) \<in> cast b \<longrightarrow> c = d) \<and>
     (\<forall>c t. (c, t) \<in> won b \<longrightarrow> quorum (backers b c t))"

lemma sound_init: "sound ballots_init"
  by (simp add: sound_def ballots_init_def)

lemma sound_step:
  assumes "ballot_step quorum b b'" and "sound b"
  shows "sound b'"
  using assms
proof (cases rule: ballot_step.cases)
  case (advance v t)
  then show ?thesis using assms(2) by (fastforce simp: sound_def backers_def)
next
  case (vote v t c)
  have "quorum (backers b' d s)" if "(d, s) \<in> won b'" for d s
  proof (rule more)
    show "quorum (backers b d s)" using assms(2) vote that by (simp add: sound_def)
    show "backers b d s \<subseteq> backers b' d s" using vote by (auto simp: backers_def)
  qed
  moreover have "\<forall>u d s. (u, d, s) \<in> cast b' \<longrightarrow> s \<le> terms b' u"
    using assms(2) vote by (fastforce simp: sound_def)
  moreover have "\<forall>u d d' s. (u, d, s) \<in> cast b' \<longrightarrow> (u, d', s) \<in> cast b' \<longrightarrow> d = d'"
    using assms(2) vote by (auto simp: sound_def)
  ultimately show ?thesis by (simp add: sound_def)
next
  case (win c t)
  then show ?thesis using assms(2) by (auto simp: sound_def backers_def)
qed

lemma sound_steps: "(ballot_step quorum)\<^sup>*\<^sup>* ballots_init b \<Longrightarrow> sound b"
  by (induction rule: rtranclp_induct) (auto intro: sound_init sound_step)

lemma one_winner:
  assumes "sound b" and "(c, t) \<in> won b" and "(d, t) \<in> won b"
  shows "c = d"
proof -
  have "quorum (backers b c t)" "quorum (backers b d t)"
    using assms by (simp_all add: sound_def)
  then obtain v where "(v, c, t) \<in> cast b" "(v, d, t) \<in> cast b"
    using overlap by (fastforce simp: backers_def)
  then show ?thesis using assms(1) unfolding sound_def by blast
qed

end

section \<open>Majorities of a cluster of three\<close>

definition members :: "int \<Rightarrow> int set" where
  "members cluster = {3 * cluster..3 * cluster + 2}"

definition majority :: "int \<Rightarrow> int set \<Rightarrow> bool" where
  "majority cluster A \<longleftrightarrow> 2 \<le> card (A \<inter> members cluster)"

lemma card_members: "card (members cluster) = 3" and finite_members [simp]: "finite (members cluster)"
  by (simp_all add: members_def)

lemma majority_overlap:
  assumes "majority c A" and "majority c B"
  shows "A \<inter> B \<noteq> {}"
proof
  assume "A \<inter> B = {}"
  then have "card (A \<inter> members c) + card (B \<inter> members c) = card ((A \<inter> members c) \<union> (B \<inter> members c))"
    by (subst card_Un_disjoint) auto
  also have "\<dots> \<le> card (members c)" by (rule card_mono) auto
  finally show False using assms by (simp add: majority_def card_members)
qed

lemma majority_more: "majority c A \<Longrightarrow> A \<subseteq> B \<Longrightarrow> majority c B"
  unfolding majority_def by (erule order_trans) (rule card_mono, auto)

interpretation cluster_election: election "majority c" for c
  by unfold_locales (use majority_overlap majority_more in blast)+

text \<open>Two backers of three are a majority.\<close>

lemma two_are_majority:
  "u \<in> members c \<Longrightarrow> v \<in> members c \<Longrightarrow> u \<noteq> v \<Longrightarrow> u \<in> A \<Longrightarrow> v \<in> A \<Longrightarrow> majority c A"
proof -
  assume "u \<in> members c" "v \<in> members c" "u \<noteq> v" "u \<in> A" "v \<in> A"
  then have "card {u, v} \<le> card (A \<inter> members c)" by (intro card_mono) auto
  then show "majority c A" using \<open>u \<noteq> v\<close> by (simp add: majority_def)
qed

end
