(* ===== verification/Cluster.thy ===== *)
theory Cluster
  imports AIOServer Election
begin

text \<open>
  The three servers of one cluster and the vote messages between them: a step relation
  over the completions each server handles, and the proof that it implements the abstract
  election, so that a term has at most one leader.
\<close>

section \<open>Messages in flight\<close>

text \<open>
  What a handled completion put on the wire: the requests appended to the ring, and the
  vote messages in their buffers, with the address a connection is made to.
\<close>

definition new_sqes :: "World \<Rightarrow> World \<Rightarrow> SQE list" where
  "new_sqes w w' = drop (length (ring w)) (ring w')"

fun sent_vote :: "env \<Rightarrow> SQE \<Rightarrow> ((string \<times> int) \<times> RequestVoteReq) list" where
  "sent_vote e x =
     (case op x of
        PrepConnect _ ip port \<Rightarrow>
          (case pb_parse e (buf (user_data x)) of
             MRequestVoteReq req \<Rightarrow> [((ip, port), req)] | _ \<Rightarrow> [])
      | _ \<Rightarrow> [])"

fun given_vote :: "env \<Rightarrow> SQE \<Rightarrow> RequestVoteRsp list" where
  "given_vote e x =
     (case op x of
        PrepWrite _ b \<Rightarrow> (case pb_parse e b of MRequestVoteRsp rsp \<Rightarrow> [rsp] | _ \<Rightarrow> [])
      | _ \<Rightarrow> [])"

declare sent_vote.simps [simp del] given_vote.simps [simp del]

definition sent_votes :: "env \<Rightarrow> World \<Rightarrow> World \<Rightarrow> ((string \<times> int) \<times> RequestVoteReq) list" where
  "sent_votes e w w' = concat (map (sent_vote e) (new_sqes w w'))"

definition given_votes :: "env \<Rightarrow> World \<Rightarrow> World \<Rightarrow> RequestVoteRsp list" where
  "given_votes e w w' = concat (map (given_vote e) (new_sqes w w'))"

text \<open>The message a completed read delivers.\<close>

definition incoming :: "env \<Rightarrow> CQE \<Rightarrow> WrapperMessage option" where
  "incoming e q =
     (if effective q \<and> event_type (data q) = EVENT_READ
      then Some (parse_buf_to_msg e (buf (data q)) (res q)) else None)"

section \<open>The cluster\<close>

text \<open>
  \<open>requests\<close> holds the vote requests that were sent, with their sender and the address
  they were sent to; \<open>answers\<close> the responses, with the voter and the server that asked. A
  message may be delivered late, out of order, more than once, or never.
\<close>

record Cluster =
  servers :: "int \<Rightarrow> AIOServer"
  requests :: "(int \<times> (string \<times> int) \<times> RequestVoteReq) set"
  answers :: "(int \<times> int \<times> RequestVoteRsp) set"

text \<open>
  One server handles one completion: anything that does not deliver a vote message (a
  timer, an accept, any other message with any content), a vote request that was sent to
  its address, or an answer to a request of its own.
\<close>

inductive cluster_step :: "env \<Rightarrow> int \<Rightarrow> Cluster \<Rightarrow> Cluster \<Rightarrow> bool" for e c where
  local_event: "i \<in> members c \<Longrightarrow> handle_cqe e sock q (servers k i) = Inr srv' \<Longrightarrow>
    (\<And>m. incoming e q = Some m \<Longrightarrow> \<not> is_vote_msg m) \<Longrightarrow>
    cluster_step e c k (k\<lparr>servers := (servers k)(i := srv'),
      requests := requests k \<union> Pair i ` set (sent_votes e (world (servers k i)) (world srv'))\<rparr>)"
| vote_request: "i \<in> members c \<Longrightarrow> handle_cqe e sock q (servers k i) = Inr srv' \<Longrightarrow>
    incoming e q = Some (MRequestVoteReq req) \<Longrightarrow> j \<in> members c \<Longrightarrow> (j, a, req) \<in> requests k \<Longrightarrow>
    own_addr (servers k i) = Inr a \<Longrightarrow>
    cluster_step e c k (k\<lparr>servers := (servers k)(i := srv'),
      answers := answers k \<union> (\<lambda>rsp. (i, j, rsp)) ` set (given_votes e (world (servers k i)) (world srv'))\<rparr>)"
| vote_answer: "i \<in> members c \<Longrightarrow> handle_cqe e sock q (servers k i) = Inr srv' \<Longrightarrow>
    incoming e q = Some (MRequestVoteRsp rsp) \<Longrightarrow> (v, i, rsp) \<in> answers k \<Longrightarrow>
    cluster_step e c k (k\<lparr>servers := (servers k)(i := srv'),
      requests := requests k \<union> Pair i ` set (sent_votes e (world (servers k i)) (world srv'))\<rparr>)"

inductive_cases cluster_stepE: "cluster_step e c k k'"

text \<open>A cluster whose servers were just constructed, with addresses of their own.\<close>

definition cluster_init :: "env \<Rightarrow> int \<Rightarrow> Cluster \<Rightarrow> bool" where
  "cluster_init e c k \<longleftrightarrow> 0 \<le> c \<and> requests k = {} \<and> answers k = {} \<and>
     (\<forall>i \<in> members c. addresses_ok (servers k i) \<and>
        (\<exists>routing pairs timeout disk.
           AIOServer_new e c i routing pairs timeout disk = Inr (servers k i)))"

section \<open>What the handlers send\<close>

lemma sent_votes_adds:
  assumes "adds P w w'" and "x \<in> set (sent_votes e w w')"
  shows "\<exists>y. P y \<and> x \<in> set (sent_vote e y)"
  using assms by (auto simp: sent_votes_def new_sqes_def adds_def list_all_iff)

lemma sent_votes_none:
  assumes "adds P w w'" and "\<And>x. P x \<Longrightarrow> sent_vote e x = []"
  shows "sent_votes e w w' = []"
proof (rule ccontr)
  assume "sent_votes e w w' \<noteq> []"
  then obtain x where "x \<in> set (sent_votes e w w')" using last_in_set by blast
  from sent_votes_adds [OF assms(1) this] assms(2) show False by auto
qed

lemma sent_vote_write: "is_write x \<Longrightarrow> sent_vote e x = []"
  by (auto simp: sent_vote.simps is_write_def split: sqe_op.splits)

lemma sent_vote_sends:
  assumes "pb_documented e" and "sends e M x" and "(a, req) \<in> set (sent_vote e x)"
  shows "M a (MRequestVoteReq req)"
  using assms
  by (auto simp: sends_def sent_vote.simps connect_sqe_def pb_documented_def
      split: WrapperMessage.splits)

lemma given_vote_write: "pb_documented e \<Longrightarrow>
    given_vote e (write_sqe e s m t) = (case m of MRequestVoteRsp rsp \<Rightarrow> [rsp] | _ \<Rightarrow> [])"
  by (simp add: given_vote.simps write_sqe_def pb_documented_def)

section \<open>The effect of one completion on the election\<close>

text \<open>
  The three kinds of step at one server, without a vote request coming in: nothing of
  interest changes, the server stands for the next term, or (on an answer) it wins.
\<close>

definition stands_step :: "env \<Rightarrow> AIOServer \<Rightarrow> AIOServer \<Rightarrow> bool" where
  "stands_step e srv srv' \<longleftrightarrow>
     current_term (raft srv') = current_term (raft srv) + 1 \<and>
     voted_for (raft srv') = srv_server_id srv \<and> role (raft srv') = CANDIDATE \<and>
     (\<forall>(a, req) \<in> set (sent_votes e (world srv) (world srv')).
        rv_candidateId req = srv_server_id srv \<and> own_addr srv \<noteq> Inr a)"

definition quiet_step :: "env \<Rightarrow> AIOServer \<Rightarrow> AIOServer \<Rightarrow> bool" where
  "quiet_step e srv srv' \<longleftrightarrow>
     voted_for (raft srv') = voted_for (raft srv) \<and>
     current_term (raft srv) \<le> current_term (raft srv') \<and>
     (role (raft srv') = FOLLOWER \<or>
        role (raft srv') = role (raft srv) \<and> current_term (raft srv') = current_term (raft srv)) \<and>
     sent_votes e (world srv) (world srv') = []"

definition wins_step :: "env \<Rightarrow> AIOServer \<Rightarrow> AIOServer \<Rightarrow> bool" where
  "wins_step e srv srv' \<longleftrightarrow>
     role (raft srv) = CANDIDATE \<and> role (raft srv') = LEADER \<and>
     voted_for (raft srv') = voted_for (raft srv) \<and>
     current_term (raft srv') = current_term (raft srv) \<and>
     sent_votes e (world srv) (world srv') = []"

lemma timer_sends_nothing: "is_timer x \<Longrightarrow> sent_vote e x = []"
  by (auto simp: sent_vote.simps is_timer_def split: sqe_op.splits)

lemma set_timer_adds: "set_timer_request e ms srv = Inr srv' \<Longrightarrow> adds is_timer (world srv) (world srv')"
  by (auto simp: set_timer_request_Inr add_timeout_request_def submit_Inr adds_def)

lemma set_timer_same: "set_timer_request e ms srv = Inr srv' \<Longrightarrow> same_server srv srv'"
  by (auto simp: set_timer_request_Inr)

lemma adds_heart_beat_none:
  "pb_documented e \<Longrightarrow> sends e (\<lambda>a. is_heart_beat) x \<Longrightarrow> sent_vote e x = []"
  using sent_vote_sends [of e "\<lambda>a. is_heart_beat" x]
  by (cases "sent_vote e x") (force, fastforce)

lemma stands_lemma:
  assumes "pb_documented e" and "addresses_ok srv" and b: "broadcast_vote e srv = Inr srv1"
    and t: "adds is_timer (world srv1) (world srv')"
    and r: "raft srv' = raft srv1 \<or> raft srv' = (raft srv1)\<lparr>heard_heart_beat := False\<rparr>"
  shows "stands_step e srv srv'"
proof -
  note spec = broadcast_vote_spec [OF b]
  let ?M = "\<lambda>a m. m = MRequestVoteReq (vote_req srv (stand srv)) \<and> own_addr srv \<noteq> Inr a"
  have "adds (\<lambda>x. sends e ?M x \<or> is_timer x) (world srv) (world srv')"
    by (rule adds_either [OF spec(3) [OF assms(2)] t])
  then have "rv_candidateId req = srv_server_id srv \<and> own_addr srv \<noteq> Inr a"
    if "(a, req) \<in> set (sent_votes e (world srv) (world srv'))" for a req
  proof -
    from sent_votes_adds [OF _ that] obtain y where
      y: "sends e ?M y \<or> is_timer y" "(a, req) \<in> set (sent_vote e y)"
      using \<open>adds (\<lambda>x. sends e ?M x \<or> is_timer x) (world srv) (world srv')\<close> by blast
    then have "sends e ?M y" using timer_sends_nothing [of y e] by auto
    from sent_vote_sends [OF assms(1) this y(2)] show ?thesis by (simp add: vote_req_def)
  qed
  then show ?thesis
    using r spec(1) by (auto simp: stands_step_def stand_def)
qed

lemma calm_quiet_step: "calm srv srv' \<Longrightarrow> quiet_step e srv srv'"
  by (auto simp: calm_def quiet_def quiet_step_def sent_votes_none [OF _ sent_vote_write])

lemma on_timeout_step:
  assumes "pb_documented e" and "addresses_ok srv" and "on_timeout e srv = Inr srv'"
  shows "same_server srv srv' \<and> (stands_step e srv srv' \<or> quiet_step e srv srv')"
  using assms(3)
proof (cases rule: on_timeout_cases)
  case failed
  then show ?thesis
    using set_timer_adds [OF failed(2)] set_timer_same [OF failed(2)]
    by (auto simp: quiet_step_def set_timer_raft sent_votes_none [OF _ timer_sends_nothing])
next
  case heard
  then show ?thesis
    using set_timer_adds [OF heard(4)] set_timer_same [OF heard(4)] set_timer_raft [OF heard(4)]
    by (auto simp: quiet_step_def sent_votes_none [OF _ timer_sends_nothing] same_server_def)
next
  case (stands srv1)
  have "same_server srv srv1" by (subst broadcast_vote_spec(2) [OF stands(4)]) simp
  moreover have "same_server srv1 srv'" using set_timer_same [OF stands(5)] by (simp add: same_server_def)
  ultimately show ?thesis
    using stands_lemma [OF assms(1,2) stands(4), of srv'] set_timer_adds [OF stands(5)]
      set_timer_raft [OF stands(5)]
    by (auto intro: same_server_trans)
next
  case (again srv1)
  have "same_server srv srv1" by (subst broadcast_vote_spec(2) [OF again(3)]) simp
  then show ?thesis
    using stands_lemma [OF assms(1,2) again(3), of srv'] set_timer_adds [OF again(4)]
      set_timer_raft [OF again(4)] set_timer_same [OF again(4)]
    by (auto intro: same_server_trans)
next
  case (leads srv1)
  note spec = broadcast_heart_beat_spec [OF leads(3)]
  have "adds (\<lambda>x. sends e (\<lambda>a. is_heart_beat) x \<or> is_timer x) (world srv) (world srv')"
    by (rule adds_either [OF spec(3) set_timer_adds [OF leads(4)]])
  then have "sent_votes e (world srv) (world srv') = []"
    by (rule sent_votes_none) (auto simp: adds_heart_beat_none [OF assms(1)] timer_sends_nothing)
  moreover have "same_server srv srv1" by (subst spec(2)) simp
  ultimately show ?thesis
    using spec(1) set_timer_raft [OF leads(4)] set_timer_same [OF leads(4)]
    by (auto simp: quiet_step_def prepare_commit_def intro: same_server_trans)
qed

text \<open>Accepts, connects and writes submit nothing that carries a new vote message.\<close>

definition plain :: "SQE \<Rightarrow> bool" where
  "plain x \<longleftrightarrow> \<not> is_connect x"

lemma plain_sends_nothing: "plain x \<Longrightarrow> sent_vote e x = []"
  by (auto simp: sent_vote.simps plain_def is_connect_def split: sqe_op.splits)

lemma io_steps:
  "on_accept e sock s srv = Inr srv' \<Longrightarrow> same_server srv srv' \<and> adds plain (world srv) (world srv')"
  "on_connect e d srv = Inr srv' \<Longrightarrow> same_server srv srv' \<and> adds plain (world srv) (world srv')"
  "on_write e d srv = Inr srv' \<Longrightarrow> same_server srv srv' \<and> adds plain (world srv) (world srv')"
  by (auto simp: on_accept_def on_connect_def on_write_def res_iff add_accept_request_def
      add_read_request_def add_write_request_buf_def submit_Inr set_timer_def set_nonblocking_def
      close_fd_def adds_def plain_def split: if_splits)

lemma io_quiet_step:
  assumes "raft srv' = raft srv" and "adds plain (world srv) (world srv')"
  shows "quiet_step e srv srv'"
  using assms(1) sent_votes_none [OF assms(2) plain_sends_nothing] by (simp add: quiet_step_def)

lemma local_event_step:
  assumes "pb_documented e" and "addresses_ok srv" and "handle_cqe e sock q srv = Inr srv'"
    and "\<And>m. incoming e q = Some m \<Longrightarrow> \<not> is_vote_msg m"
  shows "same_server srv srv' \<and> (stands_step e srv srv' \<or> quiet_step e srv srv')"
proof (cases "effective q")
  case eff: True
  note h = assms(3)[unfolded handle_cqe_effective [OF eff]]
  show ?thesis
  proof (cases "event_type (data q)")
    case EVENT_TIMEOUT
    then show ?thesis using h on_timeout_step [OF assms(1,2)] by simp
  next
    case EVENT_READ
    then have "calm srv srv'"
      using h assms(4) by (auto simp: incoming_def eff intro: process_msg_calm)
    then show ?thesis using calm_quiet_step by (auto simp: calm_def)
  next
    case EVENT_ACCEPT
    then show ?thesis using h io_steps(1) [of e sock "res q" srv srv'] io_raft(1) [of e sock "res q" srv srv']
      by (auto intro: io_quiet_step)
  next
    case EVENT_CONNECT
    then show ?thesis using h io_steps(2) [of e "data q" srv srv'] io_raft(2) [of e "data q" srv srv']
      by (auto intro: io_quiet_step)
  next
    case EVENT_WRITE
    then show ?thesis using h io_steps(3) [of e "data q" srv srv'] io_raft(3) [of e "data q" srv srv']
      by (auto intro: io_quiet_step)
  qed
next
  case False
  then show ?thesis using assms(3)
    by (auto simp: handle_cqe_ineffective quiet_step_def sent_votes_def new_sqes_def)
qed

lemma read_processes:
  assumes "handle_cqe e sock q srv = Inr srv'" and "incoming e q = Some m"
  shows "process_msg e (fd (data q)) m srv = Inr srv'"
  using assms by (auto simp: incoming_def handle_cqe_effective split: if_splits)

lemma vote_request_step:
  assumes "pb_documented e" and "process_msg e s (MRequestVoteReq req) srv = Inr srv'"
  shows "same_server srv srv' \<and> (srv' = srv \<or> raft srv' = rv_after (raft srv) req) \<and>
    (\<forall>rsp \<in> set (given_votes e (world srv) (world srv')).
       raft srv' = rv_after (raft srv) req \<and> rvr_voteGranted rsp = rv_grants (raft srv) req \<and>
       rvr_term rsp = current_term (raft srv'))"
  using process_vote_req [OF assms(2)]
  by (auto simp: given_votes_def new_sqes_def given_vote_write [OF assms(1)])

lemma vote_answer_step:
  assumes "pb_documented e" and "process_msg e s (MRequestVoteRsp rsp) srv = Inr srv'"
  shows "same_server srv srv' \<and> (quiet_step e srv srv' \<or>
    wins_step e srv srv' \<and> rvr_voteGranted rsp \<and> rvr_term rsp = current_term (raft srv))"
  using assms(2)
proof (cases rule: process_vote_rsp)
  case failed
  then show ?thesis by (simp add: quiet_step_def sent_votes_def new_sqes_def)
next
  case (handled w1 st1)
  have "sent_votes e (world srv) w1 = []"
    using rv_adds(2) [OF handled(1)] by (rule sent_votes_none) (rule sent_vote_write)
  moreover from handled(1) have "voted_for st1 = voted_for (raft srv) \<and>
      current_term (raft srv) \<le> current_term st1 \<and> (role st1 = FOLLOWER \<or>
        role st1 = role (raft srv) \<and> current_term st1 = current_term (raft srv))"
    using handled(2) by (cases rule: rv_executeRsp_cases) auto
  ultimately show ?thesis using handled(3) by (simp add: quiet_step_def)
next
  case (leads w1 st1)
  note spec = broadcast_heart_beat_spec [OF leads(3)]
  have "adds (\<lambda>x. is_write x \<or> sends e (\<lambda>a. is_heart_beat) x) (world srv) (world srv')"
    by (rule adds_either [OF rv_adds(2) [OF leads(1)]]) (use spec(3) in simp)
  then have none: "sent_votes e (world srv) (world srv') = []"
    by (rule sent_votes_none) (auto simp: adds_heart_beat_none [OF assms(1)] sent_vote_write)
  have same: "same_server srv srv'" by (subst spec(2)) simp
  from leads(1) show ?thesis
  proof (cases rule: rv_executeRsp_cases)
    case win
    then show ?thesis using spec(1) none same by (auto simp: wins_step_def prepare_commit_def)
  qed (use leads(2) spec(1) none same in \<open>auto simp: quiet_step_def prepare_commit_def\<close>)
qed

section \<open>The servers implement the election\<close>

text \<open>
  The relation between a cluster and the ballot box: a server's term and vote are those
  of the voter, candidates and leaders have voted for themselves, leaders have won, and a
  positive answer in flight is backed by a ballot.
\<close>

definition voter_rel :: "AIOServer \<Rightarrow> int \<Rightarrow> Ballots \<Rightarrow> bool" where
  "voter_rel srv i b \<longleftrightarrow>
     terms b i = current_term (raft srv) \<and>
     (role (raft srv) \<noteq> FOLLOWER \<longrightarrow> (i, i, current_term (raft srv)) \<in> cast b) \<and>
     (role (raft srv) = LEADER \<longrightarrow> (i, current_term (raft srv)) \<in> won b) \<and>
     (\<forall>d t. (i, d, t) \<in> cast b \<longrightarrow> 0 \<le> d \<and> t \<le> current_term (raft srv) \<and>
        (t = current_term (raft srv) \<longrightarrow> voted_for (raft srv) = d)) \<and>
     srv_server_id srv = i \<and> addresses_ok srv"

definition soup_rel :: "int \<Rightarrow> Cluster \<Rightarrow> Ballots \<Rightarrow> bool" where
  "soup_rel c k b \<longleftrightarrow>
     (\<forall>(j, a, req) \<in> requests k. rv_candidateId req = j \<and> own_addr (servers k j) \<noteq> Inr a) \<and>
     (\<forall>(v, j, rsp) \<in> answers k. rvr_voteGranted rsp \<longrightarrow>
        v \<in> members c \<and> v \<noteq> j \<and> (v, j, rvr_term rsp) \<in> cast b)"

definition implements :: "int \<Rightarrow> Cluster \<Rightarrow> Ballots \<Rightarrow> bool" where
  "implements c k b \<longleftrightarrow> 0 \<le> c \<and> (\<forall>i \<in> members c. voter_rel (servers k i) i b) \<and> soup_rel c k b"

lemma cluster_init_implements: "cluster_init e c k \<Longrightarrow> implements c k ballots_init"
proof -
  assume init: "cluster_init e c k"
  have "voter_rel (servers k i) i ballots_init" if "i \<in> members c" for i
  proof -
    from init that obtain routing pairs timeout disk where
      n: "AIOServer_new e c i routing pairs timeout disk = Inr (servers k i)"
      and a: "addresses_ok (servers k i)"
      unfolding cluster_init_def by blast
    then obtain w where "raft (servers k i) = load_data_shard e w (RaftState_init c i)"
      "srv_server_id (servers k i) = i" by (auto simp: AIOServer_new_def res_iff)
    then show ?thesis
      using load_data_shard_frame(1) [of "RaftState_init c i" e w] a
      by (simp add: voter_rel_def raft_frame_def RaftState_init_def ballots_init_def)
  qed
  then show ?thesis using init by (simp add: implements_def soup_rel_def cluster_init_def)
qed

text \<open>A voter at which no ballot is cast keeps its relation when others vote or win.\<close>

lemma voter_rel_other:
  assumes "voter_rel srv i b" and "i \<noteq> j"
  shows "voter_rel srv i (b\<lparr>terms := (terms b)(j := t)\<rparr>)"
    "voter_rel srv i (b\<lparr>terms := (terms b)(j := t), cast := insert (j, d, s) (cast b)\<rparr>)"
    "voter_rel srv i (b\<lparr>won := insert (j, t) (won b)\<rparr>)"
  using assms by (auto simp: voter_rel_def)

text \<open>The three kinds of step at one voter.\<close>

lemma quiet_voter:
  assumes "voter_rel srv i b" and "quiet_step e srv srv'" and "same_server srv srv'"
  shows "voter_rel srv' i (b\<lparr>terms := (terms b)(i := current_term (raft srv'))\<rparr>) \<and>
    terms b i \<le> current_term (raft srv')"
  using assms same_server_addr [OF assms(3)]
  by (fastforce simp: voter_rel_def quiet_step_def same_server_def)

lemma stands_voter:
  assumes "voter_rel srv i b" and "stands_step e srv srv'" and "same_server srv srv'" and "0 \<le> i"
  shows "voter_rel srv' i (b\<lparr>terms := (terms b)(i := current_term (raft srv')),
      cast := insert (i, i, current_term (raft srv')) (cast b)\<rparr>)"
    "terms b i \<le> current_term (raft srv')"
    "(i, d, current_term (raft srv')) \<notin> cast b"
  using assms same_server_addr [OF assms(3)]
  by (fastforce simp: voter_rel_def stands_step_def same_server_def)+

lemma wins_voter:
  assumes "voter_rel srv i b" and "wins_step e srv srv'" and "same_server srv srv'"
  shows "voter_rel srv' i (b\<lparr>won := insert (i, current_term (raft srv)) (won b)\<rparr>)"
    "i \<in> backers b i (current_term (raft srv))"
  using assms same_server_addr [OF assms(3)]
  by (auto simp: voter_rel_def wins_step_def same_server_def backers_def)

lemma grant_voter:
  assumes "voter_rel srv i b" and "rv_grants (raft srv) req"
    and "raft srv' = rv_after (raft srv) req" and "same_server srv srv'" and "0 \<le> rv_candidateId req"
  shows "voter_rel srv' i (b\<lparr>terms := (terms b)(i := rv_term req),
      cast := insert (i, rv_candidateId req, rv_term req) (cast b)\<rparr>)"
    "terms b i \<le> rv_term req" "(i, d, rv_term req) \<notin> cast b"
proof -
  have g: "current_term (raft srv) < rv_term req \<or>
      rv_term req = current_term (raft srv) \<and> voted_for (raft srv) = -1"
    using assms(2) by (auto simp: rv_grants_iff)
  show new: "(i, d, rv_term req) \<notin> cast b" for d
    using g assms(1) by (fastforce simp: voter_rel_def)
  show "terms b i \<le> rv_term req" using g assms(1) by (auto simp: voter_rel_def)
  show "voter_rel srv' i (b\<lparr>terms := (terms b)(i := rv_term req),
      cast := insert (i, rv_candidateId req, rv_term req) (cast b)\<rparr>)"
    using assms(1,3-5) rv_after_grant [OF assms(2)] same_server_addr [OF assms(4)] g new
    by (fastforce simp: voter_rel_def same_server_def)
qed

text \<open>Putting the change at one server, and the messages it sent, into the whole.\<close>

lemma implements_upd:
  assumes im: "implements c k b" and i: "i \<in> members c" and same: "same_server (servers k i) srv'"
    and v: "voter_rel srv' i b'" and o: "\<And>j srv. j \<noteq> i \<Longrightarrow> voter_rel srv j b \<Longrightarrow> voter_rel srv j b'"
    and cast: "cast b \<subseteq> cast b'"
    and R: "\<And>a req. (a, req) \<in> R \<Longrightarrow> rv_candidateId req = i \<and> own_addr (servers k i) \<noteq> Inr a"
    and A: "\<And>j rsp. (j, rsp) \<in> A \<Longrightarrow> rvr_voteGranted rsp \<Longrightarrow>
      i \<noteq> j \<and> (i, j, rvr_term rsp) \<in> cast b'"
  shows "implements c (k\<lparr>servers := (servers k)(i := srv'), requests := requests k \<union> Pair i ` R,
      answers := answers k \<union> Pair i ` A\<rparr>) b'"
proof -
  let ?S = "(servers k)(i := srv')"
  have addr: "own_addr (?S j) = own_addr (servers k j)" for j
    using same_server_addr [OF same] by simp
  have V: "voter_rel (?S j) j b'" if "j \<in> members c" for j
    using im that v o by (auto simp: implements_def)
  have RR: "rv_candidateId req = j \<and> own_addr (?S j) \<noteq> Inr a"
    if "(j, a, req) \<in> requests k \<union> Pair i ` R" for j a req
    using that im R unfolding addr by (fastforce simp: implements_def soup_rel_def)
  have AA: "u \<in> members c \<and> u \<noteq> j \<and> (u, j, rvr_term rsp) \<in> cast b'"
    if "(u, j, rsp) \<in> answers k \<union> Pair i ` A" "rvr_voteGranted rsp" for u j rsp
    using that im A i cast by (fastforce simp: implements_def soup_rel_def)
  show ?thesis
    unfolding implements_def soup_rel_def
  proof (intro conjI ballI)
    show "0 \<le> c" using im by (simp add: implements_def)
  next
    fix x
    assume "x \<in> requests (k\<lparr>servers := ?S, requests := requests k \<union> Pair i ` R,
      answers := answers k \<union> Pair i ` A\<rparr>)"
    then show "case x of (j, a, req) \<Rightarrow> rv_candidateId req = j \<and> own_addr (servers
        (k\<lparr>servers := ?S, requests := requests k \<union> Pair i ` R, answers := answers k \<union> Pair i ` A\<rparr>) j)
        \<noteq> Inr a"
      using RR [of "fst x" "fst (snd x)" "snd (snd x)"] by (simp add: split_beta)
  next
    fix x
    assume "x \<in> answers (k\<lparr>servers := ?S, requests := requests k \<union> Pair i ` R,
      answers := answers k \<union> Pair i ` A\<rparr>)"
    then show "case x of (v, j, rsp) \<Rightarrow> rvr_voteGranted rsp \<longrightarrow>
        v \<in> members c \<and> v \<noteq> j \<and> (v, j, rvr_term rsp) \<in> cast b'"
      using AA [of "fst x" "fst (snd x)" "snd (snd x)"] by (simp add: split_beta)
  qed (use V in simp)
qed

text \<open>Every step of the cluster is answered by steps of the ballot box.\<close>

lemma quiet_simulated:
  assumes im: "implements c k b" and i: "i \<in> members c" and same: "same_server (servers k i) srv'"
    and q: "quiet_step e (servers k i) srv'"
  shows "\<exists>b'. (ballot_step (majority c))\<^sup>*\<^sup>* b b' \<and>
    implements c (k\<lparr>servers := (servers k)(i := srv')\<rparr>) b'"
proof -
  have v: "voter_rel (servers k i) i b" using im i by (simp add: implements_def)
  let ?b = "b\<lparr>terms := (terms b)(i := current_term (raft srv'))\<rparr>"
  note qv = quiet_voter [OF v q same]
  have "implements c (k\<lparr>servers := (servers k)(i := srv'), requests := requests k \<union> Pair i ` {},
      answers := answers k \<union> Pair i ` {}\<rparr>) ?b"
    by (rule implements_upd [OF im i same]) (use qv in \<open>auto intro: voter_rel_other\<close>)
  moreover have "ballot_step (majority c) b ?b" using qv by (intro advance) simp
  ultimately show ?thesis by auto
qed

lemma stands_simulated:
  assumes im: "implements c k b" and i: "i \<in> members c" and same: "same_server (servers k i) srv'"
    and s: "stands_step e (servers k i) srv'"
  shows "\<exists>b'. (ballot_step (majority c))\<^sup>*\<^sup>* b b' \<and>
    implements c (k\<lparr>servers := (servers k)(i := srv'),
      requests := requests k \<union> Pair i ` set (sent_votes e (world (servers k i)) (world srv'))\<rparr>) b'"
proof -
  have v: "voter_rel (servers k i) i b" using im i by (simp add: implements_def)
  have "0 \<le> i" using i im by (auto simp: members_def implements_def)
  note sv = stands_voter [OF v s same this]
  let ?t = "current_term (raft srv')"
  let ?b = "b\<lparr>terms := (terms b)(i := ?t), cast := insert (i, i, ?t) (cast b)\<rparr>"
  have "implements c (k\<lparr>servers := (servers k)(i := srv'),
      requests := requests k \<union> Pair i ` set (sent_votes e (world (servers k i)) (world srv')),
      answers := answers k \<union> Pair i ` {}\<rparr>) ?b"
  proof (rule implements_upd [OF im i same sv(1)])
    have "srv_server_id (servers k i) = i" using v by (simp add: voter_rel_def)
    then show "rv_candidateId req = i \<and> own_addr (servers k i) \<noteq> Inr a"
      if "(a, req) \<in> set (sent_votes e (world (servers k i)) (world srv'))" for a req
      using s that by (auto simp: stands_step_def)
  qed (auto intro: voter_rel_other)
  moreover have "ballot_step (majority c) b ?b" using sv(2,3) by (intro vote)
  ultimately show ?thesis by auto
qed

lemma wins_simulated:
  assumes im: "implements c k b" and i: "i \<in> members c" and same: "same_server (servers k i) srv'"
    and s: "wins_step e (servers k i) srv'"
    and a: "(v, i, rsp) \<in> answers k" "rvr_voteGranted rsp" "rvr_term rsp = current_term (raft (servers k i))"
  shows "\<exists>b'. (ballot_step (majority c))\<^sup>*\<^sup>* b b' \<and>
    implements c (k\<lparr>servers := (servers k)(i := srv')\<rparr>) b'"
proof -
  have r: "voter_rel (servers k i) i b" using im i by (simp add: implements_def)
  note wv = wins_voter [OF r s same]
  let ?t = "current_term (raft (servers k i))"
  let ?b = "b\<lparr>won := insert (i, ?t) (won b)\<rparr>"
  have "v \<in> members c \<and> v \<noteq> i \<and> v \<in> backers b i ?t"
    using im a by (fastforce simp: implements_def soup_rel_def backers_def)
  then have "majority c (backers b i ?t)"
    using two_are_majority [of v c i] i wv(2) by blast
  then have "ballot_step (majority c) b ?b" by (rule ballot_step.win)
  moreover have "implements c (k\<lparr>servers := (servers k)(i := srv'), requests := requests k \<union> Pair i ` {},
      answers := answers k \<union> Pair i ` {}\<rparr>) ?b"
    by (rule implements_upd [OF im i same]) (use wv(1) in \<open>auto intro: voter_rel_other\<close>)
  ultimately show ?thesis by auto
qed

lemma vote_request_simulated:
  assumes im: "implements c k b" and pb: "pb_documented e" and i: "i \<in> members c" and j: "j \<in> members c"
    and p: "process_msg e s (MRequestVoteReq req) (servers k i) = Inr srv'"
    and req: "(j, a, req) \<in> requests k" "own_addr (servers k i) = Inr a"
  shows "\<exists>b'. (ballot_step (majority c))\<^sup>*\<^sup>* b b' \<and>
    implements c (k\<lparr>servers := (servers k)(i := srv'), answers := answers k \<union>
      (\<lambda>rsp. (i, j, rsp)) ` set (given_votes e (world (servers k i)) (world srv'))\<rparr>) b'"
proof -
  let ?srv = "servers k i" and ?G = "given_votes e (world (servers k i)) (world srv')"
  have v: "voter_rel ?srv i b" using im i by (simp add: implements_def)
  note step = vote_request_step [OF pb p]
  have same: "same_server ?srv srv'" using step by simp
  have cand: "rv_candidateId req = j" "i \<noteq> j"
    using im req by (auto simp: implements_def soup_rel_def)
  have img: "(\<lambda>rsp. (i, j, rsp)) ` set ?G = Pair i ` (Pair j ` set ?G)" by (simp add: image_image)
  show ?thesis
  proof (cases "rv_grants (raft ?srv) req \<and> raft srv' = rv_after (raft ?srv) req")
    case True
    have "0 \<le> rv_candidateId req" using cand(1) j im by (auto simp: members_def implements_def)
    note gv = grant_voter [OF v conjunct1 [OF True] conjunct2 [OF True] same this]
    let ?b = "b\<lparr>terms := (terms b)(i := rv_term req), cast := insert (i, j, rv_term req) (cast b)\<rparr>"
    have t: "current_term (raft srv') = rv_term req" using True rv_after_grant by auto
    have "implements c (k\<lparr>servers := (servers k)(i := srv'), requests := requests k \<union> Pair i ` {},
        answers := answers k \<union> Pair i ` (Pair j ` set ?G)\<rparr>) ?b"
      by (rule implements_upd [OF im i same])
         (use gv(1) cand t step in \<open>auto intro: voter_rel_other\<close>)
    moreover have "ballot_step (majority c) b ?b"
      using gv(2,3) by (intro vote)
    ultimately show ?thesis unfolding img by auto
  next
    case False
    then have st: "raft srv' = raft ?srv" using step rv_after_no_grant by metis
    have nog: "\<not> rvr_voteGranted rsp" if "rsp \<in> set ?G" for rsp
      using step that False by auto
    have "voter_rel srv' i b"
      using v st same same_server_addr [OF same] by (simp add: voter_rel_def same_server_def)
    then have "implements c (k\<lparr>servers := (servers k)(i := srv'), requests := requests k \<union> Pair i ` {},
        answers := answers k \<union> Pair i ` (Pair j ` set ?G)\<rparr>) b"
      by (intro implements_upd [OF im i same]) (use nog in auto)
    then show ?thesis unfolding img by auto
  qed
qed

lemma cluster_step_simulated:
  assumes step: "cluster_step e c k k'" and pb: "pb_documented e" and im: "implements c k b"
  shows "\<exists>b'. (ballot_step (majority c))\<^sup>*\<^sup>* b b' \<and> implements c k' b'"
  using step
proof cases
  case (local_event i sock q srv')
  have a: "addresses_ok (servers k i)" using im local_event(2) by (simp add: implements_def voter_rel_def)
  from local_event_step [OF pb a local_event(3,4)] show ?thesis
    using stands_simulated [OF im local_event(2), of srv' e] quiet_simulated [OF im local_event(2), of srv' e]
    by (auto simp: local_event(1) quiet_step_def)
next
  case (vote_request i sock q srv' req j a)
  show ?thesis unfolding vote_request(1)
    by (rule vote_request_simulated [OF im pb vote_request(2,5) read_processes [OF vote_request(3,4)]
          vote_request(6,7)])
next
  case (vote_answer i sock q srv' rsp v)
  from vote_answer_step [OF pb read_processes [OF vote_answer(3,4)]] show ?thesis
    using wins_simulated [OF im vote_answer(2) _ _ vote_answer(5), of srv' e]
      quiet_simulated [OF im vote_answer(2), of srv' e]
    by (auto simp: vote_answer(1) quiet_step_def wins_step_def)
qed

lemma cluster_simulated:
  assumes "(cluster_step e c)\<^sup>*\<^sup>* k k'" and "cluster_init e c k" and "pb_documented e"
  shows "\<exists>b. (ballot_step (majority c))\<^sup>*\<^sup>* ballots_init b \<and> implements c k' b"
  using assms(1)
proof (induction rule: rtranclp_induct)
  case base
  show ?case using cluster_init_implements [OF assms(2)] by blast
next
  case (step k1 k2)
  then obtain b where b: "(ballot_step (majority c))\<^sup>*\<^sup>* ballots_init b" "implements c k1 b" by blast
  from cluster_step_simulated [OF step(2) assms(3) b(2)] show ?case
    using b(1) by (meson rtranclp_trans)
qed

text \<open>
  C1. Election safety: in every state that a cluster of three servers can reach, with vote
  messages delayed, reordered, repeated or lost and every other message arbitrary, two
  servers that are leaders of the same term are one server.
\<close>

theorem election_safety:
  assumes "cluster_init e c k" and "(cluster_step e c)\<^sup>*\<^sup>* k k'" and "pb_documented e"
    and "i \<in> members c" and "j \<in> members c"
    and "role (raft (servers k' i)) = LEADER" and "role (raft (servers k' j)) = LEADER"
    and "current_term (raft (servers k' i)) = current_term (raft (servers k' j))"
  shows "i = j"
proof -
  obtain b where b: "(ballot_step (majority c))\<^sup>*\<^sup>* ballots_init b" "implements c k' b"
    using cluster_simulated [OF assms(2,1,3)] by blast
  then have "(i, current_term (raft (servers k' i))) \<in> won b"
    "(j, current_term (raft (servers k' i))) \<in> won b"
    using assms(4-8) by (auto simp: implements_def voter_rel_def)
  then show ?thesis
    by (rule cluster_election.one_winner [OF cluster_election.sound_steps [OF b(1)]])
qed

section \<open>A run in which a leader is elected\<close>

lemma incoming_simps [simp]: "incoming e tick = None" "incoming env0 (arrival s m) = Some m"
  by (simp_all add: incoming_def)

definition ex_cluster :: Cluster where
  "ex_cluster = \<lparr>servers = ex_server, requests = {}, answers = {}\<rparr>"

lemma ex_cluster_init: "cluster_init env0 0 ex_cluster"
proof -
  have "addresses_ok (ex_server i)" for i
    by (simp add: addresses_ok_def ex_server_simps vec_at_def ex_pairs_def)
  then show ?thesis using ex_server_new unfolding cluster_init_def ex_cluster_def by simp blast
qed

definition ex_req :: RequestVoteReq where
  "ex_req = \<lparr>rv_candidateId = 0, rv_term = 1, rv_lastLogIndex = -1, rv_lastLogTerm = -1\<rparr>"

definition ex_rsp :: RequestVoteRsp where
  "ex_rsp = \<lparr>rvr_term = 1, rvr_voteGranted = True\<rparr>"

text \<open>Server 0 stands, server 1 grants its vote, server 0 counts it.\<close>

definition ex_voted :: AIOServer where
  "ex_voted = projr (handle_cqe env0 3 (arrival 20 (MRequestVoteReq ex_req)) (ex_server 1))"

definition ex_leads :: AIOServer where
  "ex_leads = projr (handle_cqe env0 3 (arrival 11 (MRequestVoteRsp ex_rsp)) ex_stood)"

lemma ex_stood_sent: "((''b'', 8001), ex_req) \<in> set (sent_votes env0 (world (ex_server 0)) (world ex_stood))"
  by (simp add: ex_stood_def ex_simps ex_server_simps smod_nonneg sent_votes_def new_sqes_def
      sent_vote.simps vote_req_def ex_req_def lastlogindex_def lastlogterm_def)

lemma ex_voted_simps:
  "handle_cqe env0 3 (arrival 20 (MRequestVoteReq ex_req)) (ex_server 1) = Inr ex_voted"
  "current_term (raft ex_voted) = 1"
  "ex_rsp \<in> set (given_votes env0 (world (ex_server 1)) (world ex_voted))"
  by (simp_all add: ex_voted_def handle_cqe_effective run_exec_def rv_executeReq_closed
      respond_answered ex_server_simps rv_grants_iff rv_after_def rv_refused_def rv_update_term_def
      RaftState_init_def ex_req_def ex_rsp_def lastlogindex_def given_votes_def new_sqes_def
      given_vote_write)

lemma ex_leads_simps:
  "handle_cqe env0 3 (arrival 11 (MRequestVoteRsp ex_rsp)) ex_stood = Inr ex_leads"
  "role (raft ex_leads) = LEADER" "current_term (raft ex_leads) = 1"
  by (simp_all add: ex_leads_def ex_stood_def handle_cqe_effective run_exec_def rv_executeRsp_def
      close_fd_def broadcast_heart_beat_def heart_beat_req_def prevlogindex_def prevlogterm_def
      sub32_def sdiv_nonneg smod_nonneg ex_rsp_def ex_server_simps ex_simps unmatched_entries_def
      routing_heart_beat_def)

definition ex_cluster' :: Cluster where
  "ex_cluster' = \<lparr>servers = ex_server(0 := ex_leads, 1 := ex_voted),
     requests = Pair 0 ` set (sent_votes env0 (world (ex_server 0)) (world ex_stood)) \<union>
       Pair 0 ` set (sent_votes env0 (world ex_stood) (world ex_leads)),
     answers = (\<lambda>rsp. (1, 0, rsp)) ` set (given_votes env0 (world (ex_server 1)) (world ex_voted))\<rparr>"

lemma ex_cluster_run: "(cluster_step env0 0)\<^sup>*\<^sup>* ex_cluster ex_cluster'"
proof -
  have m: "0 \<in> members 0" "1 \<in> members 0" by (simp_all add: members_def)
  let ?k1 = "ex_cluster\<lparr>servers := (servers ex_cluster)(0 := ex_stood), requests := requests ex_cluster \<union>
    Pair 0 ` set (sent_votes env0 (world (servers ex_cluster 0)) (world ex_stood))\<rparr>"
  let ?k2 = "?k1\<lparr>servers := (servers ?k1)(1 := ex_voted), answers := answers ?k1 \<union>
    (\<lambda>rsp. (1, 0, rsp)) ` set (given_votes env0 (world (servers ?k1 1)) (world ex_voted))\<rparr>"
  let ?k3 = "?k2\<lparr>servers := (servers ?k2)(0 := ex_leads), requests := requests ?k2 \<union>
    Pair 0 ` set (sent_votes env0 (world (servers ?k2 0)) (world ex_leads))\<rparr>"
  have "cluster_step env0 0 ex_cluster ?k1"
    by (rule local_event [OF m(1), where q = tick and sock = 3])
       (simp_all add: ex_stood_simps ex_cluster_def)
  moreover have "cluster_step env0 0 ?k1 ?k2"
  proof (rule vote_request [OF m(2) _ _ m(1), where q = "arrival 20 (MRequestVoteReq ex_req)" and sock = 3])
    show "(0, (''b'', 8001), ex_req) \<in> requests ?k1"
      using ex_stood_sent by (simp add: ex_cluster_def image_iff)
    show "own_addr (servers ?k1 1) = Inr (''b'', 8001)"
      by (simp add: ex_cluster_def own_addr_def ex_server_simps ex_simps smod_nonneg)
  qed (simp_all add: ex_voted_simps ex_cluster_def)
  moreover have "cluster_step env0 0 ?k2 ?k3"
    by (rule vote_answer [OF m(1), where q = "arrival 11 (MRequestVoteRsp ex_rsp)" and sock = 3 and v = 1])
       (use ex_voted_simps(3) in \<open>simp_all add: ex_leads_simps ex_cluster_def image_iff\<close>)
  moreover have "?k3 = ex_cluster'"
    by (simp add: ex_cluster_def ex_cluster'_def fun_upd_twist)
  ultimately show ?thesis by (metis (no_types, lifting) converse_rtranclp_into_rtranclp rtranclp.rtrancl_refl)
qed

text \<open>In that run server 1 moved to the term of the leader, and is not a leader of it.\<close>

theorem election_safety_witness:
  "role (raft (servers ex_cluster' 0)) = LEADER \<and> current_term (raft (servers ex_cluster' 1)) = 1 \<and>
   role (raft (servers ex_cluster' 1)) \<noteq> LEADER"
proof -
  have s: "servers ex_cluster' 0 = ex_leads" "servers ex_cluster' 1 = ex_voted"
    by (simp_all add: ex_cluster'_def)
  have m: "0 \<in> members 0" "1 \<in> members 0" by (simp_all add: members_def)
  have "(0::int) = 1" if "role (raft (servers ex_cluster' 1)) = LEADER"
    by (rule election_safety [OF ex_cluster_init ex_cluster_run env0_documented(1) m])
       (simp_all add: s ex_leads_simps ex_voted_simps that[unfolded s])
  then show ?thesis by (auto simp: s ex_leads_simps ex_voted_simps)
qed

end
