(* ===== verification/Replication.thy ===== *)
theory Replication
  imports AIOServer
begin

text \<open>
  Replication between a leader and a follower: what a heart beat the leader builds does
  to the log of a follower that accepts it, how the leader backs up until one is
  accepted, and that both sides execute the same commands.
\<close>

section \<open>Log matching\<close>

text \<open>
  The log matching condition of the protocol: where two logs have an entry of the same
  term at the same position, they agree up to there (but for waiting clients).
\<close>

abbreviation cores :: "LogEntry list \<Rightarrow> LogEntry list" where
  "cores \<equiv> map entry_core"

definition logs_match :: "LogEntry list \<Rightarrow> LogEntry list \<Rightarrow> bool" where
  "logs_match L F \<longleftrightarrow>
     (\<forall>i < min (length L) (length F). le_term (L ! i) = le_term (F ! i) \<longrightarrow>
        cores (take (Suc i) L) = cores (take (Suc i) F))"

lemma logs_matchD:
  "logs_match L F \<Longrightarrow> i < length L \<Longrightarrow> i < length F \<Longrightarrow> le_term (L ! i) = le_term (F ! i) \<Longrightarrow>
   cores (take (Suc i) L) = cores (take (Suc i) F)"
  by (simp add: logs_match_def)

lemma entry_core_term [simp]: "le_term (entry_core en) = le_term en"
  "le_command (entry_core en) = le_command en"
  by (simp_all add: entry_core_def)

lemma ae_log_entry_core [simp]: "ae_log_entry (log_to_entry en) = entry_core en"
  by (simp add: ae_log_entry_def log_to_entry_def entry_core_def)

lemma entry_core_idem [simp]: "entry_core (entry_core en) = entry_core en"
  by (simp add: entry_core_def)

text \<open>Logs of which one starts with the other match.\<close>

lemma prefix_match:
  assumes "cores (take n F) = cores L" and "n = length L"
  shows "logs_match L F"
  unfolding logs_match_def
proof (intro allI impI)
  fix i
  assume i: "i < min (length L) (length F)"
  then have "take (Suc i) (cores (take n F)) = cores (take (Suc i) F)"
    using assms(2) by (simp add: take_map min_absorb1)
  then show "cores (take (Suc i) L) = cores (take (Suc i) F)"
    using assms(1) by (simp add: take_map)
qed

section \<open>The request a leader sends\<close>

lemma heart_beat_req_spec:
  assumes "heart_beat_req srv st idx = Inr req"
  obtains m where "0 \<le> idx" "idx < int (length (matched_log_size st))"
    "matched_log_size st ! nat idx = int m" "m \<le> length (log st)"
    "ae_prevLogIndex req = int m - 1"
    "0 < m \<Longrightarrow> ae_prevLogTerm req = le_term (log st ! (m - 1))"
    "ae_entries req = map log_to_entry (drop m (log st))"
    "ae_term req = current_term st" "ae_commitIndex req = commit_index st"
    "ae_serverId req = srv_server_id srv sdiv 3 * 3 + idx"
proof -
  let ?m = "matched_log_size st ! nat idx"
  from assms obtain pi pt m where
    p: "prevlogindex st idx = Inr pi" and t: "prevlogterm st idx = Inr pt"
    and m: "vec_at (matched_log_size st) idx = Inr m"
    and req: "req = \<lparr> ae_term = current_term st, ae_leaderId = srv_server_id srv, ae_prevLogIndex = pi,
         ae_prevLogTerm = pt, ae_entries = unmatched_entries st m,
         ae_commitIndex = commit_index st,
         ae_serverId = srv_server_id srv sdiv SERVER_NUM_PER_CLUSTER * SERVER_NUM_PER_CLUSTER + idx \<rparr>"
    by (auto simp: heart_beat_req_def bindE_Inr_iff mapE_Inr_iff)
  from m have i: "0 \<le> idx" "idx < int (length (matched_log_size st))" "m = ?m"
    by (auto simp: vec_at_Inr)
  have pi: "pi = ?m - 1"
    using p m i(3) by (simp add: prevlogindex_def sub32_Inr)
  have pt: "?m = 0 \<or> 0 < ?m \<and> ?m \<le> int (length (log st)) \<and> pt = le_term (log st ! nat (?m - 1))"
    using t m i(3) by (auto simp: prevlogterm_def bindE_Inr_iff mapE_Inr_iff sub32_Inr vec_at_Inr split: if_splits)
  then have n: "?m = int (nat ?m)" by auto
  show thesis
  proof (rule that [OF i(1,2) n])
    show "nat ?m \<le> length (log st)" using pt by auto
    show "ae_prevLogIndex req = int (nat ?m) - 1" using req pi n by simp
    show "0 < nat ?m \<Longrightarrow> ae_prevLogTerm req = le_term (log st ! (nat ?m - 1))"
      using req pt by (auto simp: nat_diff_distrib)
    show "ae_entries req = map log_to_entry (drop (nat ?m) (log st))"
      using req i(3) pt by (auto simp: unmatched_entries_def)
  qed (simp_all add: req)
qed

section \<open>The log of the follower\<close>

lemma extended_prefix:
  assumes mt: "logs_match L F" and m: "m \<le> length L"
    and pre: "cores (take m F) = cores (take m L)"
    and ext: "ae_extended m j (map log_to_entry (drop m L)) F F'"
  shows "cores (take (length L) F') = cores L"
proof -
  have mF: "m \<le> length F" using ext by (simp add: ae_extended_def)
  have j: "m + j \<le> length L" "m + j \<le> length F" using ext m by (auto simp: ae_extended_def)
  have pj: "cores (take (m + j) F) = cores (take (m + j) L)"
  proof (cases j)
    case 0
    then show ?thesis using pre by simp
  next
    case (Suc i)
    then have "le_term (F ! (m + i)) = le_term (L ! (m + i))"
      using ext j(1) by (simp add: ae_extended_def log_to_entry_def)
    then show ?thesis using logs_matchD [OF mt, of "m + i"] j Suc by simp
  qed
  show ?thesis
  proof (cases "j = length (map log_to_entry (drop m L))")
    case True
    then have "m + j = length L" "F' = F" using ext m by (auto simp: ae_extended_def)
    then show ?thesis using pj by simp
  next
    case False
    then have "F' = take (m + j) F @ map ae_log_entry (drop j (map log_to_entry (drop m L)))"
      using ext by (simp add: ae_extended_def)
    also have "map ae_log_entry (drop j (map log_to_entry (drop m L))) = cores (drop (m + j) L)"
      by (simp add: drop_map add.commute)
    finally have "cores F' = cores (take (m + j) L) @ cores (drop (m + j) L)" using pj by simp
    then have "cores F' = cores L" by (metis append_take_drop_id map_append)
    then show ?thesis by (metis length_map take_all_iff order_refl)
  qed
qed

lemma accepted_prefix:
  assumes hb: "heart_beat_req srv stL idx = Inr req" and mt: "logs_match (log stL) (log stF)"
    and acc: "\<not> ae_log_mismatch stF req"
  obtains m where "ae_prevLogIndex req + 1 = int m" "m \<le> length (log stF)" "m \<le> length (log stL)"
    "cores (take m (log stF)) = cores (take m (log stL))"
    "ae_entries req = map log_to_entry (drop m (log stL))"
proof -
  obtain m where m: "m \<le> length (log stL)" "ae_prevLogIndex req = int m - 1"
    "0 < m \<Longrightarrow> ae_prevLogTerm req = le_term (log stL ! (m - 1))"
    "ae_entries req = map log_to_entry (drop m (log stL))"
    using heart_beat_req_spec [OF hb] by metis
  have len: "m \<le> length (log stF)" using acc m(2) by (auto simp: ae_log_mismatch_def)
  have "cores (take m (log stF)) = cores (take m (log stL))"
  proof (cases m)
    case (Suc i)
    then have "le_term (log stF ! i) = le_term (log stL ! i)"
      using acc m(2,3) len by (auto simp: ae_log_mismatch_def)
    then show ?thesis using logs_matchD [OF mt, of i] Suc len m(1) by simp
  qed simp
  then show thesis using that [of m] m len by simp
qed

lemma ae_commit_upto_log: "ae_commit_upto st c = Inr st' \<Longrightarrow> log st' = log st"
proof -
  assume "ae_commit_upto st c = Inr st'"
  then obtain tb where "st' = st\<lparr>local_balance_tb := tb, commit_index := c\<rparr>"
    using ae_commit_upto_spec(2) by blast
  then show ?thesis by simp
qed

text \<open>
  C2. Replication: when a follower accepts a heart beat that a leader built for it, and the
  two logs satisfy log matching, the follower's log starts with the leader's whole log;
  the logs still match, and the answer that goes out reports success in the follower's term.
\<close>

theorem heart_beat_replicates:
  assumes hb: "heart_beat_req srv stL idx = Inr req" and mt: "logs_match (log stL) (log stF)"
    and ok: "\<not> ae_log_mismatch stF req" and fresh: "current_term stF \<le> ae_term req"
    and run: "ae_executeReq e s w stF req = Inr (w', stF')"
  shows "cores (take (length (log stL)) (log stF')) = cores (log stL) \<and>
    logs_match (log stL) (log stF') \<and>
    ring w' = ring w @ [write_sqe e s (ae_rsp stF' True req) NO_RESPONSE]"
proof -
  obtain m where m: "ae_prevLogIndex req + 1 = int m" "m \<le> length (log stF)" "m \<le> length (log stL)"
    "cores (take m (log stF)) = cores (take m (log stL))"
    "ae_entries req = map log_to_entry (drop m (log stL))"
    by (rule accepted_prefix [OF hb mt ok])
  from run obtain st2 where st2: "ae_replicate (ae_accept_term stF req) req = Inr st2"
    "ae_commit_upto st2 (ae_commitIndex req) = Inr stF'"
    "respond e s (ae_rsp stF' True req) w stF' = Inr (w', stF')"
    using ok fresh by (cases rule: ae_executeReq_cases) auto
  have "log (ae_accept_term stF req) = log stF" by (simp add: ae_accept_term_def)
  then obtain j where "ae_extended m j (ae_entries req) (log stF) (log st2)"
    using ae_replicate_spec [OF st2(1) m(1)] m(2) by auto
  then have p: "cores (take (length (log stL)) (log stF')) = cores (log stL)"
    using extended_prefix [OF mt m(3,4)] m(5) ae_commit_upto_log [OF st2(2)] by simp
  then show ?thesis using prefix_match [OF p] st2(3) by (simp add: respond_Inr)
qed

section \<open>A leader and a follower to compute with\<close>

definition ex_item :: "int \<Rightarrow> int \<Rightarrow> LogEntry" where
  "ex_item t i = \<lparr>le_term = t, le_index = i, le_command = ''[ABORT]'', le_id = i, le_req_fd = -1\<rparr>"

text \<open>The follower's second entry was written by a leader that lost its place.\<close>

definition ex_leader :: RaftState where
  "ex_leader = blank\<lparr>role := LEADER, current_term := 2, log := [ex_item 1 0, ex_item 1 1, ex_item 2 2],
     matched_log_size := [3, 3, 3], coming_commit_index := 2\<rparr>"

definition ex_follower :: RaftState where
  "ex_follower = blank\<lparr>server_id := 1, current_term := 1, log := [ex_item 1 0, ex_item 0 1]\<rparr>"

definition ex_heart_beat :: AppendEntriesReq where
  "ex_heart_beat = \<lparr>ae_term = 2, ae_leaderId = 0, ae_prevLogIndex = 0, ae_prevLogTerm = 1,
     ae_entries = map log_to_entry [ex_item 1 1, ex_item 2 2], ae_commitIndex = -1, ae_serverId = 1\<rparr>"

lemma ex_logs_match: "logs_match (log ex_leader) (log ex_follower)"
  by (auto simp: logs_match_def ex_leader_def ex_follower_def ex_item_def less_Suc_eq)

lemma ex_heart_beat_sent:
  "heart_beat_req (ex_server 0) (ex_leader\<lparr>matched_log_size := [3, 1, 3]\<rparr>) 1 = Inr ex_heart_beat"
  by (simp add: heart_beat_req_def prevlogindex_def prevlogterm_def vec_at_def sub32_def in32_def
      unmatched_entries_def ex_leader_def ex_heart_beat_def ex_server_simps blank_def
      RaftState_init_def ex_item_def sdiv_nonneg)

lemma ex_heart_beat_accepted:
  "\<not> ae_log_mismatch ex_follower ex_heart_beat"
  "\<exists>w' st'. ae_executeReq env0 9 empty_world ex_follower ex_heart_beat = Inr (w', st')"
  by (simp_all add: ae_log_mismatch_def ae_executeReq_def ae_replicate_def ae_commit_upto_def
      ae_accept_term_def vec_at_def respond_answered ex_follower_def ex_heart_beat_def
      ex_item_def log_to_entry_def blank_def RaftState_init_def)

theorem heart_beat_replicates_witness:
  "\<exists>w' st'. ae_executeReq env0 9 empty_world ex_follower ex_heart_beat = Inr (w', st') \<and>
     cores (take 3 (log st')) = cores (log ex_leader)"
proof -
  obtain w' st' where run: "ae_executeReq env0 9 empty_world ex_follower ex_heart_beat = Inr (w', st')"
    using ex_heart_beat_accepted(2) by blast
  have "cores (take (length (log (ex_leader\<lparr>matched_log_size := [3, 1, 3]\<rparr>))) (log st')) =
      cores (log (ex_leader\<lparr>matched_log_size := [3, 1, 3]\<rparr>))"
    using heart_beat_replicates [OF ex_heart_beat_sent _ ex_heart_beat_accepted(1) _ run]
      ex_logs_match by (simp add: ex_follower_def ex_heart_beat_def)
  moreover have "length (log ex_leader) = 3" by (simp add: ex_leader_def)
  ultimately show ?thesis using run by auto
qed

section \<open>Backing up\<close>








section \<open>Both sides execute the same commands\<close>

text \<open>
  C3. State machine agreement: a leader that commits up to its coming commit index and a
  follower that commits up to the same index, starting from the same balances and commit
  index and with logs that agree that far, end with the same balance for every item and the
  same commit index.
\<close>

theorem commit_agreement:
  assumes L: "ae_commit_all e w stL = Inr (w', stL')"
    and F: "ae_commit_upto stF (coming_commit_index stL) = Inr stF'"
    and logs: "cores (take n (log stF)) = cores (take n (log stL))" "coming_commit_index stL < int n"
    and start: "commit_index stL = commit_index stF" "-1 \<le> commit_index stL"
      "balance stL = balance stF"
  shows "balance stL' = balance stF' \<and> commit_index stL' = commit_index stF'"
proof -
  note l = ae_commit_all_spec [OF L] and f = ae_commit_upto_spec [OF F]
  let ?is = "[commit_index stL + 1..coming_commit_index stL]"
  have "run_log (log stL) ?is (balance stL) = run_log (log stF) ?is (balance stL)"
  proof (rule run_log_cong)
    fix i
    assume "i \<in> set ?is"
    then have i: "0 \<le> i" "nat i < n" "i < int (length (log stF))" using start(1,2) logs(2) f(3) by auto
    then have F: "nat i < length (cores (take n (log stF)))" by simp
    have L: "nat i < length (cores (take n (log stL)))" using F unfolding logs(1) .
    have "map le_command (cores (take n (log stF))) ! nat i = map le_command (cores (take n (log stL))) ! nat i"
      by (simp only: logs(1))
    then show "le_command (log stL ! nat i) = le_command (log stF ! nat i)" using F L i by simp
  qed
  moreover have "commit_index stF' = coming_commit_index stL" by (subst f(2)) simp
  ultimately show ?thesis using l f(1) start by simp
qed

definition ex_cmd :: "int \<Rightarrow> int \<Rightarrow> string \<Rightarrow> int \<Rightarrow> LogEntry" where
  "ex_cmd t i c s = \<lparr>le_term = t, le_index = i, le_command = c, le_id = i, le_req_fd = s\<rparr>"

definition ex_pay :: "string" where "ex_pay = ''1 pays 2 $5''"

definition ex_books :: "int umap" where "ex_books = [1 \<mapsto> 10, 2 \<mapsto> 10]"

lemma ex_pay_scan [simp]: "sscanf3 ex_pay intra_scan = Inr (1, 2, 5)" "char0 ex_pay = CHR ''1''"
  by code_simp+

definition ex_payer :: "RaftState" where
  "ex_payer = blank\<lparr>role := LEADER, current_term := 2, log := [ex_cmd 2 0 ex_pay 7],
     matched_log_size := [1, 1, 1], coming_commit_index := 0, local_balance_tb := ex_books,
     local_lock := [1 \<mapsto> True, 2 \<mapsto> True]\<rparr>"

definition ex_payer_replica :: "RaftState" where
  "ex_payer_replica = blank\<lparr>server_id := 1, current_term := 2, log := [ex_cmd 2 0 ex_pay (-1)],
     local_balance_tb := ex_books\<rparr>"

lemma ex_commits:
  "\<exists>w' st'. ae_commit_all env0 empty_world ex_payer = Inr (w', st') \<and> balance st' 1 = 5"
  "\<exists>st'. ae_commit_upto ex_payer_replica 0 = Inr st'"
proof -
  have "submit_ret env0 n = 1" for n by simp
  then show "\<exists>w' st'. ae_commit_all env0 empty_world ex_payer = Inr (w', st') \<and> balance st' 1 = 5"
    by (simp add: ae_commit_all_def ae_leader_commit_def ae_answer_def vec_at_def ex_payer_def
        ex_cmd_def ex_books_def blank_def RaftState_init_def transfer_def debit_def credit_def
        sub32_def add32_def in32_def um_val_def respond_answered clear_req_fd_def set_lock_def
        update_data_shard_def read_lines_def answered_def empty_world_def Let_def)
  show "\<exists>st'. ae_commit_upto ex_payer_replica 0 = Inr st'"
    by (simp add: ae_commit_upto_def ae_follower_commit_def vec_at_def ex_payer_replica_def
        ex_cmd_def ex_books_def blank_def RaftState_init_def transfer_def debit_def credit_def
        sub32_def add32_def in32_def um_val_def)
qed

theorem commit_agreement_witness:
  "\<exists>w' stL' stF'. ae_commit_all env0 empty_world ex_payer = Inr (w', stL') \<and>
     ae_commit_upto ex_payer_replica 0 = Inr stF' \<and> balance stF' 1 = 5 \<and> balance stL' = balance stF'"
proof -
  obtain w' stL' stF' where s: "ae_commit_all env0 empty_world ex_payer = Inr (w', stL')" "balance stL' 1 = 5"
    "ae_commit_upto ex_payer_replica 0 = Inr stF'"
    using ex_commits by blast
  have "coming_commit_index ex_payer = 0" by (simp add: ex_payer_def)
  then have "balance stL' = balance stF'"
    using commit_agreement [OF s(1), of ex_payer_replica stF' 1] s(3)
    by (simp add: ex_payer_def ex_payer_replica_def ex_cmd_def entry_core_def blank_def RaftState_init_def)
  then show ?thesis using s by auto
qed

text \<open>
  C7. Conservation: whatever a leader commits, the sum of the balances of any finite set of
  items that contains the items its commands name is unchanged.
\<close>

theorem commit_conserves:
  assumes "ae_commit_all e w st = Inr (w', st')" and "finite A"
    and "\<And>i. i \<in> {commit_index st + 1..coming_commit_index st} \<Longrightarrow>
      command_items (le_command (log st ! nat i)) \<subseteq> A"
  shows "total A st' = total A st"
proof -
  have keep: "sum (run_log (log st) is b) A = sum b A"
    if "\<And>i. i \<in> set is \<Longrightarrow> command_items (le_command (log st ! nat i)) \<subseteq> A" for "is" b
    using that
  proof (induction "is" arbitrary: b)
    case (Cons i "is")
    have "sum (apply_command (le_command (log st ! nat i)) b) A = sum b A"
      using Cons.prems [of i] assms(2)
      by (auto simp: apply_command_def command_items_def pay_total split: sum.splits if_splits)
    then show ?case using Cons.IH [OF Cons.prems] by simp
  qed simp
  then show ?thesis
    using ae_commit_all_spec [OF assms(1)] assms(3)
      keep [of "[commit_index st + 1..coming_commit_index st]" "balance st"]
    by (simp add: total_def)
qed

theorem commit_conserves_witness:
  "\<exists>w' st'. ae_commit_all env0 empty_world ex_payer = Inr (w', st') \<and> balance st' 1 = 5 \<and> total {1, 2} st' = 20"
proof -
  obtain w' st' where s: "ae_commit_all env0 empty_world ex_payer = Inr (w', st')" "balance st' 1 = 5"
    using ex_commits(1) by blast
  have "total {1, 2} st' = total {1, 2} ex_payer"
    by (rule commit_conserves [OF s(1)])
       (auto simp: ex_payer_def ex_cmd_def blank_def RaftState_init_def command_items_def)
  then show ?thesis using s by (simp add: total_def ex_payer_def ex_books_def)
qed

section \<open>Acknowledgements\<close>

text \<open>
  C19. A positive answer of the current term, at a leader: the count of acknowledgements goes
  up and is never compared with the heart beat the answer belongs to; from the second one on
  the leader commits everything up to its coming commit index if the entry there is of the
  current term, and otherwise nothing; and the answering server is booked with the whole
  log up to the coming commit index.
\<close>

theorem success_response:
  assumes run: "ae_executeRsp e s w st rsp = Inr (w', st')" and "role st = LEADER"
    and "aer_term rsp = current_term st" and "aer_success rsp"
  shows "log_granted_num st' = log_granted_num st + 1 \<and>
    commit_index st' =
      (if 1 \<le> log_granted_num st \<and> 0 \<le> coming_commit_index st \<and>
          le_term (log st ! nat (coming_commit_index st)) = current_term st
       then coming_commit_index st else commit_index st) \<and>
    balance st' =
      (if 1 \<le> log_granted_num st \<and> 0 \<le> coming_commit_index st \<and>
          le_term (log st ! nat (coming_commit_index st)) = current_term st
       then run_log (log st) [commit_index st + 1..coming_commit_index st] (balance st)
       else balance st) \<and>
    matched_log_size st' =
      (matched_log_size st)[nat (aer_serverId rsp smod 3) := coming_commit_index st + 1] \<and>
    role st' = LEADER"
proof -
  from run assms(2-4) obtain w1 st1 where
    s: "ae_rsp_success e w st rsp = Inr (w1, st1)"
    and st': "st' = (if current_term st1 < aer_term rsp
                     then st1\<lparr>current_term := aer_term rsp, role := FOLLOWER\<rparr> else st1)"
    by (auto simp: ae_executeRsp_def bindE_Inr_iff Let_def)
  let ?stg = "st\<lparr>log_granted_num := log_granted_num st + 1\<rparr>"
  from s obtain go st2 w2 where
    go: "ae_may_commit ?stg = Inr go"
    and c: "(if go then ae_commit_all e w ?stg else Inr (w, ?stg)) = Inr (w2, st2)"
    and m: "set_matched (aer_serverId rsp) (coming_commit_index st2 + 1) st2 = Inr st1"
    by (auto simp: ae_rsp_success_def res_iff Let_def)
  define stg where "stg = ?stg"
  note go = go [folded stg_def] and c = c [folded stg_def]
  have go_iff: "go \<longleftrightarrow> 1 \<le> log_granted_num st \<and> 0 \<le> coming_commit_index st \<and>
      le_term (log st ! nat (coming_commit_index st)) = current_term st"
    using go by (auto simp: ae_may_commit_def stg_def mapE_Inr_iff vec_at_Inr split: if_splits)
  have st2: "raft_frame st st2 \<and> log_granted_num st2 = log_granted_num st + 1 \<and>
      coming_commit_index st2 = coming_commit_index st \<and>
      commit_index st2 = (if go then coming_commit_index st else commit_index st) \<and>
      balance st2 = (if go then run_log (log st) [commit_index st + 1..coming_commit_index st] (balance st)
                     else balance st)"
  proof (cases go)
    case True
    then have "ae_commit_all e w stg = Inr (w2, st2)" using c by simp
    from ae_commit_all_spec [OF this] show ?thesis using True
      by (simp add: stg_def raft_frame_def)
  next
    case False
    then have "st2 = stg" using c by simp
    then show ?thesis using False by (simp add: stg_def raft_frame_def)
  qed
  have st1: "st1 = st2\<lparr>matched_log_size :=
      (matched_log_size st2)[nat (aer_serverId rsp smod 3) := coming_commit_index st2 + 1]\<rparr>"
    using m by (simp add: set_matched_Inr)
  have "current_term st1 = current_term st" "role st1 = LEADER"
    using st1 st2 assms(2) by (simp_all add: raft_frame_def)
  then have "st' = st1" using st' assms(3) by simp
  then show ?thesis using st1 st2 go_iff assms(2) by (simp add: raft_frame_def)
qed

definition ex_ack :: AppendEntriesRsp where
  "ex_ack = \<lparr>aer_term = 2, aer_success = True, aer_serverId = 1\<rparr>"

lemma ex_ack_run:
  "\<exists>w' st'. ae_executeRsp env0 9 empty_world (ex_payer\<lparr>log_granted_num := 1\<rparr>) ex_ack = Inr (w', st')"
  by (simp add: ae_executeRsp_def ae_rsp_success_def ae_may_commit_def set_matched_def vec_set_def
      ae_commit_all_def ae_leader_commit_def ae_answer_def vec_at_def ex_payer_def ex_ack_def
      ex_cmd_def ex_books_def blank_def RaftState_init_def transfer_def debit_def credit_def
      sub32_def add32_def in32_def um_val_def respond_answered clear_req_fd_def set_lock_def
      update_data_shard_def read_lines_def answered_def empty_world_def Let_def smod_nonneg)

theorem success_response_witness:
  "\<exists>w' st'. ae_executeRsp env0 9 empty_world (ex_payer\<lparr>log_granted_num := 1\<rparr>) ex_ack = Inr (w', st') \<and>
     commit_index st' = 0 \<and> log_granted_num st' = 2"
proof -
  obtain w' st' where r: "ae_executeRsp env0 9 empty_world (ex_payer\<lparr>log_granted_num := 1\<rparr>) ex_ack = Inr (w', st')"
    using ex_ack_run by blast
  then show ?thesis
    using success_response [OF r] by (auto simp: ex_payer_def ex_ack_def ex_cmd_def)
qed

text \<open>
  C20. A leader that is ready and whose commit index is not below -1 handles every answer to a heart
  beat that names a server by an id that is not negative, whatever else is in it, without reading or
  writing outside its log and its table of followers. The id is taken from the message unchecked: a
  negative one leads outside the table (\<open>negative_server_id\<close>).
\<close>

theorem response_in_bounds:
  assumes "leader_ready st" and "-1 \<le> commit_index st" and "0 \<le> aer_serverId rsp"
  shows "ae_executeRsp e s w st rsp \<noteq> Inl OutOfBounds"
proof (cases "role st = LEADER \<and> aer_term rsp = current_term st")
  case True
  then have ready: "length (matched_log_size st) = 3" "coming_commit_index st < int (length (log st))"
    using assms(1) by (simp_all add: leader_ready_def)
  have i: "0 \<le> aer_serverId rsp smod 3" "aer_serverId rsp smod 3 < 3"
    using assms(3) by (simp_all add: smod_nonneg)
  have f: "ae_rsp_fail w st rsp \<noteq> Inl OutOfBounds"
    using i ready by (auto simp: ae_rsp_fail_def set_matched_def vec_at_def vec_set_def bindE_Inl_iff)
  have set: "set_matched (aer_serverId rsp) m st2 \<noteq> Inl OutOfBounds"
    if "length (matched_log_size st2) = 3" for m st2
    using i that by (auto simp: set_matched_def vec_set_def)
  have may: "ae_may_commit (st\<lparr>log_granted_num := g\<rparr>) \<noteq> Inl OutOfBounds" for g
    using ready by (auto simp: ae_may_commit_def vec_at_def)
  have all: "ae_commit_all e w (st\<lparr>log_granted_num := g\<rparr>) \<noteq> Inl OutOfBounds" for g
    using assms(2) ready by (intro ae_commit_all_in_bounds) simp_all
  have len: "length (matched_log_size st2) = 3"
    if "ae_commit_all e w (st\<lparr>log_granted_num := g\<rparr>) = Inr (w2, st2)" for g w2 st2
    using ae_commit_all_spec [OF that] ready by (simp add: raft_frame_def)
  have "ae_rsp_success e w st rsp \<noteq> Inl OutOfBounds"
    using may all set len ready
    by (auto simp: ae_rsp_success_def bindE_Inl_iff Let_def split: if_splits)
  then show ?thesis using f True by (auto simp: ae_executeRsp_def bindE_Inl_iff Let_def)
next
  case False
  then show ?thesis by (simp only: ae_executeRsp_def if_False) (simp add: Let_def)
qed

theorem response_in_bounds_witness:
  "ae_executeRsp env0 9 empty_world (ex_payer\<lparr>log_granted_num := 1\<rparr>) ex_ack \<noteq> Inl OutOfBounds"
  by (rule response_in_bounds)
     (simp_all add: leader_ready_def ex_payer_def ex_ack_def blank_def RaftState_init_def)

lemma negative_server_id:
  assumes "role st = LEADER" "aer_term rsp = current_term st" "\<not> aer_success rsp"
    and "aer_serverId rsp = - 1"
  shows "ae_executeRsp e s w st rsp = Inl OutOfBounds"
  using assms smod_nonneg [of 1] by (simp add: ae_executeRsp_def ae_rsp_fail_def vec_at_def Let_def)

section \<open>Redelivery and commit indices that move back\<close>

lemma accept_term_again:
  assumes "ae_replicate (ae_accept_term st req) req = Inr st2" and "ae_commit_upto st2 c = Inr st'"
  shows "ae_accept_term st' req = st'" and "commit_index st' = c" and "log st' = log st2"
    and "current_term st' = max (current_term st) (ae_term req)"
proof -
  obtain lg where lg: "st2 = (ae_accept_term st req)\<lparr>log := lg\<rparr>"
    using ae_replicate_only_log [OF assms(1)] by blast
  obtain tb where tb: "st' = st2\<lparr>local_balance_tb := tb, commit_index := c\<rparr>"
    using ae_commit_upto_spec(2) [OF assms(2)] by blast
  show "ae_accept_term st' req = st'" and "commit_index st' = c" and "log st' = log st2"
    and "current_term st' = max (current_term st) (ae_term req)"
    using lg tb by (simp_all add: ae_accept_term_def)
qed

text \<open>
  A state in which the message still fits: a log that has only grown since, and the message's term.
\<close>

lemma append_fits:
  assumes "ae_replicate (ae_accept_term st req) req = Inr st2" and "\<not> ae_log_mismatch st req"
    and "ae_prevLogIndex req + 1 = int b" and "take (length (log st2)) (log st3) = log st2"
  shows "\<not> ae_log_mismatch st3 req" "ae_replicate st3 req = Inr st3"
proof -
  have len: "b \<le> length (log (ae_accept_term st req))"
    using assms(2,3) by (auto simp: ae_log_mismatch_def ae_accept_term_def)
  note terms = ae_replicate_terms [OF assms(1,3) len]
  have grown: "length (log st2) \<le> length (log st3)" using assms(4) by (metis length_take min.absorb_iff2 nat_le_linear take_all)
  have at: "log st3 ! i = log st2 ! i" if "i < length (log st2)" for i
    using that by (subst assms(4) [symmetric]) simp
  show "ae_replicate st3 req = Inr st3"
    using ae_match_all [of b "ae_entries req" "log st3"] terms(2,3) grown at by (simp add: ae_replicate_def assms(3))
  show "\<not> ae_log_mismatch st3 req"
  proof (cases b)
    case 0
    then show ?thesis using assms(3) by (simp add: ae_log_mismatch_def)
  next
    case (Suc i)
    have "i < length (log st)" using len Suc by (simp add: ae_accept_term_def)
    have "take b (log st2) ! i = take b (log st) ! i" using terms(1) by (simp add: ae_accept_term_def)
    then have "log st3 ! i = log st ! i" using Suc at [of i] terms(2) by simp
    then show ?thesis using assms(2,3) terms(2) grown Suc by (auto simp: ae_log_mismatch_def)
  qed
qed

text \<open>
  C13. Redelivery: a heart beat that a follower accepted, whose entries do not start before the log, and
  that arrives once more before anything else changed the follower, changes nothing and is answered in
  the same way, provided that the submission of the answer does not fail. When it arrives later, in
  its term, after the log has only grown and the commit index has not gone below that of the message, it
  is answered positively too, and log, balances and locks stay; but the commit index then goes
  back to the one of the message.
\<close>

theorem append_redelivered:
  assumes run: "ae_executeReq e s w st req = Inr (w1, st1)" and "current_term st \<le> ae_term req"
    and "\<not> ae_log_mismatch st req" and "-1 \<le> ae_prevLogIndex req" and "submits_ok e"
  shows "ae_executeReq e s2 w2 st1 req = Inr (answered e s2 (ae_rsp st1 True req) w2, st1) \<and>
    (take (length (log st1)) (log st2) = log st1 \<and> current_term st2 = ae_term req \<and>
       ae_commitIndex req \<le> commit_index st2 \<longrightarrow>
     ae_executeReq e s2 w2 st2 req =
       Inr (answered e s2 (ae_rsp st2 True req) w2,
            st2\<lparr>role := FOLLOWER, heard_heart_beat := True, commit_index := ae_commitIndex req\<rparr>))"
proof -
  obtain sr where sr: "ae_replicate (ae_accept_term st req) req = Inr sr"
    "ae_commit_upto sr (ae_commitIndex req) = Inr st1"
    using run assms(2,3) by (cases rule: ae_executeReq_cases) auto
  note again = accept_term_again [OF sr]
  obtain b where b: "ae_prevLogIndex req + 1 = int b"
    using assms(4) by (intro that [of "nat (ae_prevLogIndex req + 1)"]) simp
  have later: "ae_executeReq e s2 w2 st3 req = Inr (answered e s2 (ae_rsp st3 True req) w2,
      st3\<lparr>role := FOLLOWER, heard_heart_beat := True, commit_index := ae_commitIndex req\<rparr>)"
    if st3: "take (length (log st1)) (log st3) = log st1" "current_term st3 = ae_term req"
      "ae_commitIndex req \<le> commit_index st3" for st3
  proof -
    let ?st4 = "ae_accept_term st3 req"
    have "take (length (log sr)) (log ?st4) = log sr" using st3(1) again(3) by (simp add: ae_accept_term_def)
    note fits = append_fits [OF sr(1) assms(3) b this]
    have st4: "?st4 = st3\<lparr>role := FOLLOWER, heard_heart_beat := True\<rparr>"
      using st3(2) by (simp add: ae_accept_term_def)
    have "ae_commit_upto ?st4 (ae_commitIndex req) = Inr (?st4\<lparr>commit_index := ae_commitIndex req\<rparr>)"
      using st3(3) by (simp add: ae_commit_upto_def ae_accept_term_def)
    then show ?thesis using fits st3(2) assms(5)
      by (simp add: ae_executeReq_def Let_def respond_answered ae_rsp_def) (simp add: st4)
  qed
  have term1: "current_term st1 = ae_term req" using again(4) assms(2) by simp
  have "st1\<lparr>role := FOLLOWER, heard_heart_beat := True, commit_index := ae_commitIndex req\<rparr> = st1"
    using arg_cong [OF again(1), of role] arg_cong [OF again(1), of heard_heart_beat] again(2)
    by (intro RaftState.equality) (simp_all add: ae_accept_term_def)
  then show ?thesis using later [of st1] later [of st2] again(2) term1 by simp
qed

theorem append_redelivered_witness:
  "\<exists>w1 st1. ae_executeReq env0 9 empty_world ex_follower ex_heart_beat = Inr (w1, st1) \<and>
     ae_executeReq env0 12 w1 st1 ex_heart_beat =
       Inr (answered env0 12 (ae_rsp st1 True ex_heart_beat) w1, st1)"
proof -
  obtain w1 st1 where run: "ae_executeReq env0 9 empty_world ex_follower ex_heart_beat = Inr (w1, st1)"
    using ex_heart_beat_accepted(2) by blast
  then show ?thesis
    using append_redelivered [OF run _ ex_heart_beat_accepted(1)]
    by (simp add: ex_follower_def ex_heart_beat_def)
qed

text \<open>
  The commit index of a follower is the one of the request, also when that is lower; the
  entries in between are then executed a second time when the index goes up again.
\<close>

theorem lower_commit_pays_again:
  assumes "ae_commit_upto st c = Inr st1" and "c \<le> commit_index st"
    and "ae_commit_upto st1 (commit_index st) = Inr st2"
  shows "commit_index st1 = c \<and> balance st1 = balance st \<and>
    balance st2 = run_log (log st) [c + 1..commit_index st] (balance st)"
proof -
  note 1 = ae_commit_upto_spec [OF assms(1)] and 2 = ae_commit_upto_spec [OF assms(3)]
  have "commit_index st1 = c" "log st1 = log st" by (subst 1(2); simp)+
  moreover have "balance st1 = balance st" using 1(1) assms(2) by simp
  ultimately show ?thesis using 2(1) by simp
qed

lemma ex_pays_twice:
  "\<exists>st1 st2. ae_commit_upto (ex_payer_replica\<lparr>commit_index := 0\<rparr>) (-1) = Inr st1 \<and>
     ae_commit_upto st1 0 = Inr st2"
  by (simp add: ae_commit_upto_def ae_follower_commit_def vec_at_def ex_payer_replica_def
      ex_cmd_def ex_books_def blank_def RaftState_init_def transfer_def debit_def credit_def
      sub32_def add32_def in32_def um_val_def)

theorem lower_commit_pays_again_witness:
  "\<exists>st1 st2. ae_commit_upto (ex_payer_replica\<lparr>commit_index := 0\<rparr>) (-1) = Inr st1 \<and>
     ae_commit_upto st1 0 = Inr st2 \<and> balance (ex_payer_replica\<lparr>commit_index := 0\<rparr>) 1 = 10 \<and> balance st2 1 = 5"
proof -
  obtain st1 st2 where s: "ae_commit_upto (ex_payer_replica\<lparr>commit_index := 0\<rparr>) (-1) = Inr st1"
     "ae_commit_upto st1 0 = Inr st2" using ex_pays_twice by blast
  have "balance st2 = run_log (log ex_payer_replica) [0..0] (balance ex_payer_replica)"
    using lower_commit_pays_again [OF s(1), of st2] s(2) by simp
  from fun_cong [OF this, of 1] have "balance st2 1 = 5"
    by (simp add: ex_payer_replica_def ex_cmd_def ex_books_def apply_command_def pay_def)
  then show ?thesis using s by (auto simp: ex_payer_replica_def ex_books_def um_val_def)
qed

text \<open>
  C32. A negative answer at a leader that believes nothing to be replicated takes its count
  below zero, and the next heart beat for that server then reads before the start of the log.
\<close>

theorem matched_below_zero:
  assumes "ae_rsp_fail w st rsp = Inr (w', st')"
    and "matched_log_size st ! nat (aer_serverId rsp smod 3) = 0"
  shows "matched_log_size st' ! nat (aer_serverId rsp smod 3) = -1 \<and>
    heart_beat_req srv st' (aer_serverId rsp smod 3) = Inl OutOfBounds"
proof -
  let ?i = "aer_serverId rsp smod 3"
  have i: "0 \<le> ?i" "?i < int (length (matched_log_size st))"
    and st': "st' = st\<lparr>matched_log_size := (matched_log_size st)[nat ?i := -1]\<rparr>"
    using assms by (auto simp: ae_rsp_fail_def res_iff set_matched_Inr)
  then have "vec_at (matched_log_size st') ?i = Inr (-1)" by (simp add: vec_at_Inr)
  then show ?thesis using i st'
    by (simp add: heart_beat_req_def prevlogindex_def prevlogterm_def sub32_def in32_def vec_at_def)
qed

theorem matched_below_zero_witness:
  "\<exists>w' st'. ae_rsp_fail empty_world (ex_leader\<lparr>matched_log_size := [3, 0, 3]\<rparr>)
      \<lparr>aer_term = 2, aer_success = False, aer_serverId = 1\<rparr> = Inr (w', st') \<and>
    heart_beat_req (ex_server 0) st' 1 = Inl OutOfBounds"
proof -
  let ?rsp = "\<lparr>aer_term = 2, aer_success = False, aer_serverId = 1\<rparr>"
  let ?st = "ex_leader\<lparr>matched_log_size := [3, 0, 3]\<rparr>"
  have one: "(1::int) smod 3 = 1" by (simp add: smod_nonneg)
  have "\<exists>w' st'. ae_rsp_fail empty_world ?st ?rsp = Inr (w', st')"
    by (simp add: ae_rsp_fail_def set_matched_def vec_at_def vec_set_def sub32_def in32_def one)
  then obtain w' st' where r: "ae_rsp_fail empty_world ?st ?rsp = Inr (w', st')" by blast
  from matched_below_zero [OF r, of "ex_server 0"] show ?thesis using r by (auto simp: one)
qed

end
