(* ===== verification/EventLoop.thy ===== *)
theory EventLoop
  imports Replication
begin

text \<open>
  What holds over whole runs of the event loop: terms and votes, the positions of log
  entries, the timer and the accept request that keep the loop alive, and servers that were
  told to stop.
\<close>

section \<open>Terms and votes\<close>

text \<open>The term does not go back, and inside a term a vote that was given is not changed.\<close>

definition keeps_vote :: "RaftState \<Rightarrow> RaftState \<Rightarrow> bool" where
  "keeps_vote st st' \<longleftrightarrow> current_term st < current_term st' \<or>
     current_term st = current_term st' \<and> (voted_for st \<noteq> -1 \<longrightarrow> voted_for st' = voted_for st)"

lemma keeps_vote_refl [simp]: "keeps_vote st st"
  by (simp add: keeps_vote_def)

lemma keeps_vote_trans: "keeps_vote a b \<Longrightarrow> keeps_vote b c \<Longrightarrow> keeps_vote a c"
  by (auto simp: keeps_vote_def)

lemma quiet_keeps_vote: "quiet st st' \<Longrightarrow> keeps_vote st st'"
  by (auto simp: quiet_def keeps_vote_def)

lemma rv_after_keeps_vote: "keeps_vote st (rv_after st req)"
  by (cases "rv_grants st req")
     (auto simp: keeps_vote_def rv_after_grant rv_after_no_grant rv_grants_iff)

lemma rv_executeRsp_keeps_vote:
  "rv_executeRsp e s w st rsp = Inr (w', st') \<Longrightarrow> keeps_vote st st'"
  by (erule rv_executeRsp_cases) (auto simp: keeps_vote_def)

lemma prepare_commit_keeps_vote [simp]: "keeps_vote st (prepare_commit st)"
  by (simp add: keeps_vote_def prepare_commit_def)

lemma process_msg_keeps_vote:
  assumes "process_msg e s m srv = Inr srv'"
  shows "keeps_vote (raft srv) (raft srv')"
proof (cases "is_vote_msg m")
  case False
  then show ?thesis
    using process_msg_calm [OF assms] by (auto simp: calm_def intro: quiet_keeps_vote)
next
  case True
  then consider (req) r where "m = MRequestVoteReq r" | (rsp) r where "m = MRequestVoteRsp r"
    by (cases m) auto
  then show ?thesis
  proof cases
    case req
    show ?thesis using process_vote_req [OF assms[unfolded req]] rv_after_keeps_vote by auto
  next
    case rsp
    show ?thesis using assms unfolding rsp
    proof (cases rule: process_vote_rsp)
      case (handled w1 st1)
      then show ?thesis using rv_executeRsp_keeps_vote by simp
    next
      case (leads w1 st1)
      then show ?thesis
        using rv_executeRsp_keeps_vote [OF leads(1)] broadcast_heart_beat_spec(1) [OF leads(3)]
        by (auto intro: keeps_vote_trans)
    qed simp
  qed
qed

lemma on_timeout_keeps_vote:
  assumes "on_timeout e srv = Inr srv'"
  shows "keeps_vote (raft srv) (raft srv')"
  using assms
proof (cases rule: on_timeout_cases)
  case (stands srv1)
  then show ?thesis using broadcast_vote_spec(1) [OF stands(4)]
    by (simp add: set_timer_raft keeps_vote_def stand_def)
next
  case (again srv1)
  then show ?thesis using broadcast_vote_spec(1) [OF again(3)]
    by (simp add: set_timer_raft keeps_vote_def stand_def)
next
  case (leads srv1)
  then show ?thesis using broadcast_heart_beat_spec(1) [OF leads(3)] by (simp add: set_timer_raft)
qed (simp_all add: set_timer_raft keeps_vote_def)

text \<open>
  A property of the state that messages and timers keep is kept by every completion: the
  other completions do not touch the state.
\<close>

lemma handle_cqe_raft:
  assumes "handle_cqe e sock c srv = Inr srv'" and "P (raft srv) (raft srv)"
    and "\<And>m. effective c \<Longrightarrow> event_type (data c) = EVENT_READ \<Longrightarrow>
      m = parse_buf_to_msg e (buf (data c)) (res c) \<Longrightarrow>
      process_msg e (fd (data c)) m srv = Inr srv' \<Longrightarrow> P (raft srv) (raft srv')"
    and "on_timeout e srv = Inr srv' \<Longrightarrow> P (raft srv) (raft srv')"
  shows "P (raft srv) (raft srv')"
proof (cases "effective c")
  case True
  note h = assms(1)[unfolded handle_cqe_effective [OF True]]
  show ?thesis
  proof (cases "event_type (data c)")
    case EVENT_ACCEPT
    then have "on_accept e sock (res c) srv = Inr srv'" using h by simp
    then show ?thesis using assms(2) io_raft(1) by metis
  next
    case EVENT_CONNECT
    then have "on_connect e (data c) srv = Inr srv'" using h by simp
    then show ?thesis using assms(2) io_raft(2) by metis
  next
    case EVENT_WRITE
    then have "on_write e (data c) srv = Inr srv'" using h by simp
    then show ?thesis using assms(2) io_raft(3) by metis
  next
    case EVENT_READ
    then show ?thesis using h assms(3) [OF True] by simp
  next
    case EVENT_TIMEOUT
    then show ?thesis using h assms(4) by simp
  qed
next
  case False
  then have "srv' = srv" using assms(1) by (simp add: handle_cqe_ineffective)
  then show ?thesis using assms(2) by simp
qed

interpretation votes: loop_invariant e sock "\<lambda>_. True" "\<lambda>srv. keeps_vote st1 (raft srv)" for e sock st1
proof
  fix srv c srv'
  assume I: "keeps_vote st1 (raft srv)" and h: "handle_cqe e sock c srv = Inr srv'"
  have "keeps_vote (raft srv) (raft srv')"
    by (rule handle_cqe_raft [OF h])
       (auto intro: process_msg_keeps_vote on_timeout_keeps_vote)
  with I show "keeps_vote st1 (raft srv')" by (rule keeps_vote_trans)
qed

text \<open>
  C10. Over any run of the event loop, whatever completions arrive, the term of a server never
  decreases, and while it stays the same a vote that was given is never changed.
\<close>

theorem vote_kept_over_run:
  assumes "run_loop e sock cs srv = Inr srv'"
  shows "current_term (raft srv) \<le> current_term (raft srv') \<and>
    (current_term (raft srv') = current_term (raft srv) \<and> voted_for (raft srv) \<noteq> -1 \<longrightarrow>
      voted_for (raft srv') = voted_for (raft srv))"
proof -
  have "keeps_vote (raft srv) (raft srv')"
    by (rule votes.run_keeps [OF assms]) simp_all
  then show ?thesis by (auto simp: keeps_vote_def)
qed

section \<open>Leaders are ready\<close>

text \<open>
  C12. In every state a server reaches from its construction, whatever completions arrive, a
  leader has one count per server of its cluster and a coming commit index inside its log.
\<close>

theorem leader_ready_over_run:
  assumes "AIOServer_main e c i routing pairs timeout disk cs = Inr srv'"
  shows "role (raft srv') = LEADER \<longrightarrow> length (matched_log_size (raft srv')) = 3 \<and>
    -1 \<le> coming_commit_index (raft srv') \<and> coming_commit_index (raft srv') < int (length (log (raft srv')))"
proof -
  from assms obtain srv sock where
    n: "AIOServer_new e c i routing pairs timeout disk = Inr srv" and
    r: "server_run e sock cs srv = Inr srv'"
    by (auto simp: AIOServer_main_def bindE_Inr_iff split_beta)
  from n obtain w where "raft srv = load_data_shard e w (RaftState_init c i)"
    by (auto simp: AIOServer_new_def mapE_Inr_iff)
  then have "leader_ready (raft srv)"
    using load_data_shard_frame(1) [of "RaftState_init c i" e w]
    by (simp add: leader_ready_def raft_frame_def RaftState_init_def)
  moreover obtain srv1 where "run_loop e sock cs srv1 = Inr srv'" "raft srv1 = raft srv"
    by (rule server_run_counts [OF r])
  ultimately have "leader_ready (raft srv')"
    using ready.run_keeps [of e sock cs srv1 srv'] by simp
  then show ?thesis by (simp add: leader_ready_def)
qed

section \<open>The loop stays alive\<close>

text \<open>
  C21. The event loop keeps its timer: over a run, one timer is submitted for every expired
  timer that is handled, and no other completion submits one. The accept request is renewed
  by every accepted connection, but by nothing else: an accept that completes with an error
  is not renewed.
\<close>

theorem timers_and_accepts:
  assumes "run_loop e sock cs srv = Inr srv'"
  shows "submitted is_timer (world srv') = submitted is_timer (world srv) +
      length (filter (\<lambda>c. event_type (data c) = EVENT_TIMEOUT \<and> (0 \<le> res c \<or> res c = - ETIME))
        (consumed e sock cs srv)) \<and>
    submitted is_accept (world srv') = submitted is_accept (world srv) +
      length (filter (\<lambda>c. event_type (data c) = EVENT_ACCEPT \<and> 0 \<le> res c) (consumed e sock cs srv))"
proof -
  have t: "sum_list (map rearms_timer xs) =
      length (filter (\<lambda>c. event_type (data c) = EVENT_TIMEOUT \<and> (0 \<le> res c \<or> res c = - ETIME)) xs)" for xs
    by (induction xs) (auto simp: rearms_timer_def effective_def)
  have a: "sum_list (map rearms_accept xs) =
      length (filter (\<lambda>c. event_type (data c) = EVENT_ACCEPT \<and> 0 \<le> res c) xs)" for xs
    by (induction xs) (auto simp: rearms_accept_def)
  show ?thesis using run_loop_counts [OF assms] unfolding t a .
qed

definition failed_accept :: CQE where
  "failed_accept = \<lparr>res = -24, data = \<lparr>fd = 3, event_type = EVENT_ACCEPT, buf = [], buf_size = 0,
     message_type = NONE\<rparr>\<rparr>"

lemma ex_run:
  "\<exists>srv'. run_loop env0 3 [Some failed_accept, None, Some tick] (ex_server 0) = Inr srv'"
  using ex_stood_simps(1)
  by (simp add: handle_cqe_ineffective effective_def failed_accept_def ex_server_simps)

text \<open>After a failed accept and an expired timer the timer runs again, and nothing accepts.\<close>

theorem timers_and_accepts_witness:
  "\<exists>srv'. run_loop env0 3 [Some failed_accept, None, Some tick] (ex_server 0) = Inr srv' \<and>
     submitted is_timer (world srv') = submitted is_timer (world (ex_server 0)) + 1 \<and>
     submitted is_accept (world srv') = submitted is_accept (world (ex_server 0))"
proof -
  obtain srv' where r: "run_loop env0 3 [Some failed_accept, None, Some tick] (ex_server 0) = Inr srv'"
    using ex_run by blast
  have f: "handle_cqe env0 3 failed_accept srv = Inr srv" for srv
    by (rule handle_cqe_ineffective) (simp add: effective_def failed_accept_def)
  have k: "keep_running (ex_server 0)" by (simp add: ex_server_simps)
  have c: "consumed env0 3 [Some failed_accept, None, Some tick] (ex_server 0) = [failed_accept, tick]"
    using ex_stood_simps(1) by (simp add: f k)
  show ?thesis using timers_and_accepts [OF r] r unfolding c
    by (auto simp: failed_accept_def tick_def)
qed

theorem vote_kept_over_run_witness:
  "\<exists>srv'. run_loop env0 3 [Some failed_accept, None, Some tick] (ex_server 0) = Inr srv' \<and>
     0 \<le> current_term (raft srv')"
proof -
  obtain srv' where r: "run_loop env0 3 [Some failed_accept, None, Some tick] (ex_server 0) = Inr srv'"
    using ex_run by blast
  show ?thesis using vote_kept_over_run [OF r] r by (auto simp: ex_server_simps RaftState_init_def)
qed

text \<open>A server that is told of one vote after its first timer expired.\<close>

definition ex_events :: "CQE option list" where
  "ex_events = [Some tick,
     Some (arrival 11 (MRequestVoteRsp \<lparr>rvr_term = 1, rvr_voteGranted = True\<rparr>))]"

lemma ex_main:
  "mapE (\<lambda>srv. (role (raft srv), current_term (raft srv)))
     (AIOServer_main env0 0 0 (''r'', 7000) ex_pairs 1000 Map.empty ex_events) = Inr (LEADER, 1)"
  by code_simp

theorem leader_ready_over_run_witness:
  "\<exists>srv'. AIOServer_main env0 0 0 (''r'', 7000) ex_pairs 1000 Map.empty ex_events = Inr srv' \<and>
     role (raft srv') = LEADER \<and> length (matched_log_size (raft srv')) = 3"
proof -
  obtain srv' where r: "AIOServer_main env0 0 0 (''r'', 7000) ex_pairs 1000 Map.empty ex_events = Inr srv'"
    and l: "role (raft srv') = LEADER"
    using ex_main unfolding mapE_Inr_iff by auto
  show ?thesis using leader_ready_over_run [OF r] r l by blast
qed

section \<open>Stopped servers\<close>

text \<open>Completions that do not resume the server.\<close>

definition no_resume :: "env \<Rightarrow> AIOServer \<Rightarrow> CQE \<Rightarrow> bool" where
  "no_resume e srv q \<longleftrightarrow>
     event_type (data q) = EVENT_READ \<longrightarrow>
       parse_buf_to_msg e (buf (data q)) (res q) \<noteq> Resume (srv_cluster_id srv) (srv_server_id srv)"

lemma io_same_server:
  "on_accept e sock s srv = Inr srv' \<Longrightarrow> same_server srv srv' \<and> pretend_fail srv' = pretend_fail srv"
  "on_connect e d srv = Inr srv' \<Longrightarrow> same_server srv srv' \<and> pretend_fail srv' = pretend_fail srv"
  "on_write e d srv = Inr srv' \<Longrightarrow> same_server srv srv' \<and> pretend_fail srv' = pretend_fail srv"
  by (auto simp: on_accept_def on_connect_def on_write_def mapE_Inr_iff bindE_Inr_iff split: if_splits)

definition frozen :: "AIOServer \<Rightarrow> AIOServer \<Rightarrow> bool" where
  "frozen srv srv' \<longleftrightarrow> pretend_fail srv' \<and> raft srv' = raft srv \<and>
     srv_cluster_id srv' = srv_cluster_id srv \<and> srv_server_id srv' = srv_server_id srv"

lemma stopped_process:
  assumes "pretend_fail srv" and "process_msg e s m srv = Inr srv'"
    and "m \<noteq> Resume (srv_cluster_id srv) (srv_server_id srv)"
  shows "frozen srv srv'"
  using assms by (cases m) (auto simp: frozen_def addressed_def split: if_splits)

lemma stopped_handle:
  assumes "pretend_fail srv" and "handle_cqe e sock q srv = Inr srv'" and "no_resume e srv q"
  shows "frozen srv srv'"
proof (cases "effective q")
  case True
  note h = assms(2)[unfolded handle_cqe_effective [OF True]]
  show ?thesis
  proof (cases "event_type (data q)")
    case EVENT_ACCEPT
    then have "on_accept e sock (res q) srv = Inr srv'" using h by simp
    then show ?thesis using io_same_server(1) io_raft(1) assms(1)
      by (metis frozen_def same_server_def)
  next
    case EVENT_CONNECT
    then have "on_connect e (data q) srv = Inr srv'" using h by simp
    then show ?thesis using io_same_server(2) io_raft(2) assms(1)
      by (metis frozen_def same_server_def)
  next
    case EVENT_WRITE
    then have "on_write e (data q) srv = Inr srv'" using h by simp
    then show ?thesis using io_same_server(3) io_raft(3) assms(1)
      by (metis frozen_def same_server_def)
  next
    case EVENT_READ
    then show ?thesis using h stopped_process [OF assms(1)] assms(3) by (simp add: no_resume_def)
  next
    case EVENT_TIMEOUT
    then have "set_timer_request e TERM_TIMEOUT_MS srv = Inr srv'"
      using h assms(1) by (simp add: on_timeout_def)
    then show ?thesis using assms(1) by (auto simp: set_timer_request_Inr frozen_def)
  qed
next
  case False
  then show ?thesis using assms by (simp add: handle_cqe_ineffective frozen_def)
qed

interpretation stopped: loop_invariant e sock "no_resume e srv1" "\<lambda>srv. pretend_fail srv1 \<longrightarrow> frozen srv1 srv"
  for e sock srv1
proof
  fix srv c srv'
  assume I: "pretend_fail srv1 \<longrightarrow> frozen srv1 srv" and "no_resume e srv1 c"
    and h: "handle_cqe e sock c srv = Inr srv'"
  then show "pretend_fail srv1 \<longrightarrow> frozen srv1 srv'"
    using stopped_handle [of srv e sock c srv'] by (auto simp: frozen_def no_resume_def)
qed

text \<open>
  C22. A server that was told to stop takes no part in the protocol until it is resumed: over a
  run in which no completion delivers a resume message for it, its state (term, vote, log,
  balances, locks) does not change at all, and it stays stopped.
\<close>

theorem stopped_server_frozen:
  assumes "run_loop e sock cs srv = Inr srv'" and "pretend_fail srv"
    and "\<And>q. Some q \<in> set cs \<Longrightarrow> event_type (data q) = EVENT_READ \<Longrightarrow>
      parse_buf_to_msg e (buf (data q)) (res q) \<noteq> Resume (srv_cluster_id srv) (srv_server_id srv)"
  shows "raft srv' = raft srv \<and> pretend_fail srv'"
proof -
  have "pretend_fail srv \<longrightarrow> frozen srv srv'"
    by (rule stopped.run_keeps [OF assms(1)]) (use assms(2,3) in \<open>auto simp: frozen_def no_resume_def\<close>)
  then show ?thesis using assms(2) by (simp add: frozen_def)
qed

definition ex_stopped_events :: "CQE option list" where
  "ex_stopped_events = [Some tick,
     Some (arrival 20 (MRequestVoteReq
       \<lparr>rv_candidateId = 1, rv_term = 5, rv_lastLogIndex = -1, rv_lastLogTerm = -1\<rparr>))]"

lemma ex_stopped_run:
  "\<exists>srv'. run_loop env0 3 ex_stopped_events (ex_server 0\<lparr>pretend_fail := True\<rparr>) = Inr srv'"
  by (simp add: ex_stopped_events_def ex_server_simps handle_cqe_effective on_timeout_def
      set_timer_request_def add_timeout_request_def submit_def)

theorem stopped_server_frozen_witness:
  "\<exists>srv'. run_loop env0 3 ex_stopped_events (ex_server 0\<lparr>pretend_fail := True\<rparr>) = Inr srv' \<and>
     current_term (raft srv') = 0"
proof -
  obtain srv' where r: "run_loop env0 3 ex_stopped_events (ex_server 0\<lparr>pretend_fail := True\<rparr>) = Inr srv'"
    using ex_stopped_run by blast
  have "raft srv' = raft (ex_server 0\<lparr>pretend_fail := True\<rparr>) \<and> pretend_fail srv'"
    by (rule stopped_server_frozen [OF r]) (auto simp: ex_stopped_events_def)
  then show ?thesis using r by (simp add: ex_server_simps RaftState_init_def)
qed

section \<open>Connections that close\<close>

text \<open>
  C40. A read that completes with zero bytes, which is how a closed connection shows, is parsed
  as a message without content and ends the process of a server that is not stopped.
\<close>

theorem closed_connection_is_fatal:
  assumes "pb_parse e [] = MESSAGE_TYPE_NOT_SET" and "event_type (data q) = EVENT_READ"
    and "res q = 0" and "\<not> pretend_fail srv" and "keep_running srv"
  shows "\<exists>msg. run_loop e sock (Some q # cs) srv = Inl (FatalError msg)"
  using assms by (simp add: handle_cqe_def parse_buf_to_msg_def)

theorem closed_connection_is_fatal_witness:
  "\<exists>msg. run_loop (env0\<lparr>pb_parse := (\<lambda>b. if b = [] then MESSAGE_TYPE_NOT_SET else decode b)\<rparr>) 3
     [Some \<lparr>res = 0, data = \<lparr>fd = 7, event_type = EVENT_READ, buf = replicate 1024 CHR 0x00,
        buf_size = 1024, message_type = NONE\<rparr>\<rparr>] (ex_server 0) = Inl (FatalError msg)"
  by (rule closed_connection_is_fatal) (simp_all add: ex_server_simps)

section \<open>Positions in the log\<close>

text \<open>
  Heart beats as leaders send them: the entries are numbered from the position after the
  previous index, which is not below the start.
\<close>

definition proper :: "env \<Rightarrow> CQE \<Rightarrow> bool" where
  "proper e q \<longleftrightarrow>
     (\<forall>req. event_type (data q) = EVENT_READ \<longrightarrow>
        parse_buf_to_msg e (buf (data q)) (res q) = MAppendEntriesReq req \<longrightarrow>
        ae_numbered req \<and> -1 \<le> ae_prevLogIndex req)"

lemma same_log_positions: "same_log lg lg' \<Longrightarrow> positions_ok lg' = positions_ok lg"
  by (auto simp: positions_ok_def same_log_length same_log_nth)

lemma ae_executeReq_positions:
  assumes "ae_executeReq e s w st req = Inr (w', st')" and "positions_ok (log st)"
    and "ae_numbered req" and "-1 \<le> ae_prevLogIndex req"
  shows "positions_ok (log st')"
  using assms(1)
proof (cases rule: ae_executeReq_cases)
  case (success st2)
  obtain b where b: "ae_prevLogIndex req + 1 = int b"
    using assms(4) by (intro that [of "nat (ae_prevLogIndex req + 1)"]) simp
  have "b \<le> length (log (ae_accept_term st req))"
    using success(2) b by (auto simp: ae_log_mismatch_def ae_accept_term_def)
  then have "positions_ok (log st2)"
    by (rule ae_replicate_positions [OF success(3) b])
       (use assms(2,3) in \<open>simp_all add: ae_accept_term_def\<close>)
  then show ?thesis using ae_commit_upto_log [OF success(4)] by simp
qed (use assms(2) in \<open>simp_all add: ae_accept_term_def\<close>)

lemma ae_executeRsp_same_log:
  assumes "ae_executeRsp e s w st rsp = Inr (w', st')"
  shows "same_log (log st) (log st')"
proof -
  from assms obtain w1 st1 where
    b: "(if role st = LEADER \<and> aer_term rsp = current_term st
         then (if aer_success rsp then ae_rsp_success e w st rsp else ae_rsp_fail w st rsp)
         else Inr (w, st)) = Inr (w1, st1)"
    and st': "st' = (if current_term st1 < aer_term rsp
                     then st1\<lparr>current_term := aer_term rsp, role := FOLLOWER\<rparr> else st1)"
    by (auto simp: ae_executeRsp_def bindE_Inr_iff Let_def)
  have "same_log (log st) (log st1)" if s: "ae_rsp_success e w st rsp = Inr (w1, st1)"
  proof -
    from s obtain g go w2 st2 m where
      c: "(if go then ae_commit_all e w (st\<lparr>log_granted_num := g\<rparr>) else Inr (w, st\<lparr>log_granted_num := g\<rparr>))
          = (Inr (w2, st2) :: (World \<times> RaftState) res)"
      and m: "set_matched (aer_serverId rsp) m st2 = Inr st1"
      by (auto simp: ae_rsp_success_def res_iff Let_def)
    have "same_log (log st) (log st2)"
      using c ae_commit_all_spec [of e w "st\<lparr>log_granted_num := g\<rparr>" w2 st2] by (auto split: if_splits)
    then show ?thesis using m by (simp add: set_matched_Inr)
  qed
  then have "same_log (log st) (log st1)"
    using b ae_rsp_fail_quiet(4) [of w st rsp w1 st1] by (auto split: if_splits)
  then show ?thesis using st' by simp
qed

lemma process_msg_positions:
  assumes "process_msg e s m srv = Inr srv'" and ok: "positions_ok (log (raft srv))"
    and num: "\<And>req. m = MAppendEntriesReq req \<Longrightarrow> ae_numbered req \<and> -1 \<le> ae_prevLogIndex req"
  shows "positions_ok (log (raft srv'))"
proof (cases "pretend_fail srv")
  case True
  then show ?thesis using assms by (cases m) (auto split: if_splits)
next
  case False
  show ?thesis
  proof (cases m)
    case (MIntraShardReq r)
    then show ?thesis using assms(1) False ok is_executeReq_state(5)
      by (fastforce simp: run_exec_Inr positions_ok_snoc is_entry_def split: if_splits)
  next
    case (MCrossShardReq r)
    then show ?thesis using assms(1) False ok
      by (auto simp: run_exec_Inr positions_ok_snoc dest!: cs_executeReq_log split: if_splits)
  next
    case (MAppendEntriesReq r)
    then show ?thesis using assms(1) False ok num ae_executeReq_positions
      by (fastforce simp: run_exec_Inr)
  next
    case (MAppendEntriesRsp r)
    then show ?thesis using assms(1) False ok ae_executeRsp_same_log same_log_positions
      by (fastforce simp: run_exec_Inr)
  next
    case (MRequestVoteReq r)
    show ?thesis using process_vote_req [OF assms(1)[unfolded MRequestVoteReq]] ok by auto
  next
    case (MRequestVoteRsp r)
    show ?thesis using assms(1) unfolding MRequestVoteRsp
    proof (cases rule: process_vote_rsp)
      case (handled w1 st1)
      then show ?thesis using rv_executeRsp_data(1) ok by simp
    next
      case (leads w1 st1)
      then show ?thesis using rv_executeRsp_data(1) [OF leads(1)] ok
          broadcast_heart_beat_spec(1) [OF leads(3)] by (simp add: prepare_commit_def)
    qed (use ok in simp)
  qed (use assms(1) False ok in \<open>auto simp: run_exec_Inr dest: pb_state pd_state split: if_splits\<close>)
qed

lemma on_timeout_log: "on_timeout e srv = Inr srv' \<Longrightarrow> log (raft srv') = log (raft srv)"
  by (erule on_timeout_cases)
     (auto simp: set_timer_raft stand_def prepare_commit_def
       dest!: broadcast_vote_spec(1) broadcast_heart_beat_spec(1))

interpretation positions: loop_invariant e sock "proper e" "\<lambda>srv. positions_ok (log (raft srv))" for e sock
proof
  fix srv c srv'
  assume I: "positions_ok (log (raft srv))" and ok: "proper e c" and h: "handle_cqe e sock c srv = Inr srv'"
  have "positions_ok (log (raft srv)) \<longrightarrow> positions_ok (log (raft srv'))"
    by (rule handle_cqe_raft [OF h])
       (use ok in \<open>auto simp: proper_def on_timeout_log intro: process_msg_positions\<close>)
  then show "positions_ok (log (raft srv'))" using I by blast
qed

text \<open>
  C11. The index of every log entry is its position, over any run whose heart beats are numbered
  the way leaders number them. The last log index that elections and heart beats compare is
  therefore the length of the log less one.
\<close>

theorem log_positions_over_run:
  assumes "run_loop e sock cs srv = Inr srv'"
    and "\<forall>i < length (log (raft srv)). le_index (log (raft srv) ! i) = int i"
    and "\<And>q req. Some q \<in> set cs \<Longrightarrow> event_type (data q) = EVENT_READ \<Longrightarrow>
      parse_buf_to_msg e (buf (data q)) (res q) = MAppendEntriesReq req \<Longrightarrow>
      ae_numbered req \<and> -1 \<le> ae_prevLogIndex req"
  shows "(\<forall>i < length (log (raft srv')). le_index (log (raft srv') ! i) = int i) \<and>
    lastlogindex (raft srv') = int (length (log (raft srv'))) - 1"
proof -
  have "positions_ok (log (raft srv'))"
    by (rule positions.run_keeps [OF assms(1)]) (use assms(2,3) in \<open>auto simp: positions_ok_def proper_def\<close>)
  then show ?thesis using lastlogindex_positions by (simp add: positions_ok_def)
qed

definition ex_fed :: "AIOServer" where
  "ex_fed = ex_server 1\<lparr>raft := ex_follower\<rparr>"

lemma ex_fed_run:
  "mapE (\<lambda>srv. length (log (raft srv)))
     (run_loop env0 3 [Some (arrival 20 (MAppendEntriesReq ex_heart_beat))] ex_fed) = Inr 3"
  by code_simp

theorem log_positions_over_run_witness:
  "\<exists>srv'. run_loop env0 3 [Some (arrival 20 (MAppendEntriesReq ex_heart_beat))] ex_fed = Inr srv' \<and>
     lastlogindex (raft srv') = 2"
proof -
  obtain srv' where r: "run_loop env0 3 [Some (arrival 20 (MAppendEntriesReq ex_heart_beat))] ex_fed = Inr srv'"
    and l: "length (log (raft srv')) = 3"
    using ex_fed_run unfolding mapE_Inr_iff by auto
  have n: "ae_numbered ex_heart_beat \<and> -1 \<le> ae_prevLogIndex ex_heart_beat"
    by (auto simp: ae_numbered_def ex_heart_beat_def log_to_entry_def ex_item_def less_Suc_eq)
  have "lastlogindex (raft srv') = int (length (log (raft srv'))) - 1"
    by (rule conjunct2 [OF log_positions_over_run [OF r]])
       (use n in \<open>auto simp: ex_fed_def ex_follower_def ex_item_def less_Suc_eq\<close>)
  then show ?thesis using r l by simp
qed

text \<open>
  Leaders number their heart beats that way: the entries of a heart beat built from a log
  in which every entry carries its position are numbered from the previous index on.
\<close>

theorem heart_beat_numbered:
  assumes "heart_beat_req srv st idx = Inr req"
    and "\<forall>i < length (log st). le_index (log st ! i) = int i"
  shows "ae_numbered req \<and> -1 \<le> ae_prevLogIndex req"
proof -
  obtain m where "m \<le> length (log st)" "ae_prevLogIndex req = int m - 1"
    "ae_entries req = map log_to_entry (drop m (log st))"
    using heart_beat_req_spec [OF assms(1)] by metis
  then show ?thesis using assms(2) by (auto simp: ae_numbered_def log_to_entry_def)
qed

theorem heart_beat_numbered_witness:
  "ae_numbered ex_heart_beat \<and> length (ae_entries ex_heart_beat) = 2"
  using heart_beat_numbered [OF ex_heart_beat_sent]
  by (auto simp: ex_heart_beat_def ex_leader_def ex_item_def less_Suc_eq)

end
