(* ===== verification/Transactions.thy ===== *)
theory Transactions
  imports Replication
begin

text \<open>
  Transactions across the handlers: what happens to an intra-shard request from its
  acceptance to its commit, what its locks exclude, and the two-phase commit seen from
  both participants.
\<close>

section \<open>Intra-shard transactions\<close>

text \<open>
  An intra-shard request is accepted exactly when neither item is locked, the sender
  has the amount and the transaction id is new. It then becomes the last log entry and locks
  its two items, and no answer is sent yet; otherwise it is answered with \<open>FAIL\<close> and the log
  and the locks stay as they are. Balances never change.
\<close>

theorem intra_request_outcome:
  assumes "is_executeReq e s w st req = Inr (w', st')"
  shows "(if \<not> locked st (is_senderId req) \<and> \<not> locked st (is_receiverId req) \<and>
          is_amount req \<le> balance st (is_senderId req) \<and> is_id req \<notin> le_id ` set (log st)
      then w' = w \<and> log st' = log st @
          [\<lparr>le_term = current_term st, le_index = int (length (log st)),
            le_command = fmt_format e intra_fmt [is_senderId req, is_receiverId req, is_amount req],
            le_id = is_id req, le_req_fd = s\<rparr>] \<and>
          {k. locked st' k} = insert (is_senderId req) (insert (is_receiverId req) {k. locked st k})
      else ring w' = ring w @ [write_sqe e s (is_rsp FAIL req) NO_RESPONSE] \<and>
          log st' = log st \<and> {k. locked st' k} = {k. locked st k}) \<and>
    balance st' = balance st"
proof -
  note state = is_executeReq_state [OF assms]
  have acc: "(\<not> locked st (is_senderId req) \<and> \<not> locked st (is_receiverId req) \<and>
      is_amount req \<le> balance st (is_senderId req) \<and> is_id req \<notin> le_id ` set (log st)) = is_accepts st req"
    by (auto simp: is_accepts_def is_busy_def)
  have b: "balance st' = balance st" using state(4) by (intro ext)
  show ?thesis
  proof (cases "is_accepts st req")
    case True
    have "w' = w" using assms by (simp add: is_executeReq_accept [OF True])
    moreover have "{k. locked st' k} = insert (is_senderId req) (insert (is_receiverId req) {k. locked st k})"
      using state(6) True by auto
    ultimately show ?thesis unfolding acc using True state(5) b by (simp add: is_entry_def)
  next
    case False
    have "ring w' = ring w @ [write_sqe e s (is_rsp FAIL req) NO_RESPONSE]"
      using assms by (simp add: is_executeReq_refuse [OF False] respond_Inr)
    moreover have "{k. locked st' k} = {k. locked st k}" using state(6) False by simp
    ultimately show ?thesis unfolding acc using False state(5) b by simp
  qed
qed

definition ex_transfer :: IntraShardReq where
  "ex_transfer = \<lparr>is_clusterId = 0, is_senderId = 1, is_receiverId = 2, is_amount = 5, is_id = 77\<rparr>"

definition ex_bank :: RaftState where
  "ex_bank = blank\<lparr>role := LEADER, current_term := 2, matched_log_size := [0, 0, 0],
     local_balance_tb := ex_books\<rparr>"

lemma ex_bank_simps [simp]:
  "log ex_bank = []" "local_lock ex_bank = Map.empty" "local_balance_tb ex_bank = ex_books"
  "current_term ex_bank = 2" "commit_index ex_bank = -1" "coming_commit_index ex_bank = -1"
  "cluster_id ex_bank = 0" "role ex_bank = LEADER"
  by (simp_all add: ex_bank_def blank_def RaftState_init_def)

lemma ex_accepts: "is_accepts ex_bank ex_transfer"
  by (simp add: is_accepts_def is_busy_def ex_transfer_def ex_books_def um_val_def)

lemma ex_transfer_runs: "\<exists>st'. is_executeReq env0 7 empty_world ex_bank ex_transfer = Inr (empty_world, st')"
  by (simp add: is_executeReq_accept [OF ex_accepts])

lemma no_locks: "Collect (um_val False Map.empty) = {}"
  by auto

theorem intra_request_outcome_witness:
  "\<exists>st'. is_executeReq env0 7 empty_world ex_bank ex_transfer = Inr (empty_world, st') \<and>
     length (log st') = 1 \<and> locked st' 1 \<and> locked st' 2 \<and> balance st' 1 = 10"
proof -
  obtain st' where r: "is_executeReq env0 7 empty_world ex_bank ex_transfer = Inr (empty_world, st')"
    using ex_transfer_runs by blast
  note o = intra_request_outcome [OF r]
  have "balance st' = balance ex_bank" using o by simp
  then have "balance st' 1 = balance ex_bank 1" by (rule fun_cong)
  moreover have "length (log st') = 1" "{k. locked st' k} = {1, 2}"
    using o no_locks by (simp_all add: ex_transfer_def ex_books_def)
  ultimately show ?thesis using r by (auto simp: ex_books_def)
qed

text \<open>
  C4. From request to commit: when the leader commits the entry an accepted request left in
  the log, the amount leaves the sender and reaches the receiver, both items are unlocked, the
  client that sent the request is answered with \<open>SUCCESS\<close> on its connection, and the entry
  keeps no client to answer again.
\<close>

theorem intra_request_commits:
  assumes acc: "is_accepts st req" and fmt: "fmt_documented e"
    and range: "in32 (is_senderId req)" "in32 (is_receiverId req)" "in32 (is_amount req)"
    and fd: "s \<noteq> -1"
    and req: "is_executeReq e s w st req = Inr (w1, st1)"
    and pos: "p = length (log st)" "log st2 ! p = log st1 ! p"
    and com: "ae_leader_commit e (int p) (w2, st2) = Inr (w3, st3)"
  shows "balance st3 = pay (is_senderId req) (is_receiverId req) (is_amount req) (balance st2) \<and>
    \<not> locked st3 (is_senderId req) \<and> \<not> locked st3 (is_receiverId req) \<and>
    ring w3 = ring w2 @ [write_sqe e s (is_rsp SUCCESS req) NO_RESPONSE] \<and>
    le_req_fd (log st3 ! p) = -1"
proof -
  have en: "log st2 ! p = is_entry e s st req"
    using is_executeReq_state(5) [OF req] acc pos by (simp add: nth_append)
  note scan = is_entry_scan [OF fmt range, where s = s and st = st]
  have pl: "p < length (log st2)" and spec: "leader_frame st2 st3"
    "balance st3 = apply_command (le_command (log st2 ! p)) (balance st2)"
    "\<forall>k. locked st3 k \<longleftrightarrow> locked st2 k \<and> k \<notin> command_items (le_command (log st2 ! p))"
    using ae_leader_commit_spec [OF com] by simp_all
  have at: "vec_at (log st2) (int p) = Inr (is_entry e s st req)"
    using pl en by (simp add: vec_at_def)
  have fds: "le_req_fd (is_entry e s st req) = s" "le_id (is_entry e s st req) = is_id req"
    by (simp_all add: is_entry_def)
  obtain st4 where t: "transfer (is_senderId req) (is_receiverId req) (is_amount req) st2 = Inr st4"
    and ans: "ae_answer e (int p) (is_entry e s st req)
        (MIntraShardRsp \<lparr>isr_result = SUCCESS, isr_id = is_id req\<rparr>) w2
        (set_lock (is_receiverId req) False (set_lock (is_senderId req) False st4)) = Inr (w3, st3)"
    using com scan by (auto simp: ae_leader_commit_def at fds bindE_Inr_iff)
  have l4: "log st4 = log st2" using transfer_frame [OF t] by simp
  from ae_answer_spec(6,7) [OF ans] have
    r: "ring w3 = ring w2 @ [write_sqe e s (is_rsp SUCCESS req) NO_RESPONSE]"
    and st3: "st3 = clear_req_fd (int p)
        (set_lock (is_receiverId req) False (set_lock (is_senderId req) False st4))"
    using fds fd by (simp_all add: is_rsp_def)
  have "le_req_fd (log st3 ! p) = -1"
    using st3 pl l4 by (simp add: clear_req_fd_def)
  moreover have "command_items (le_command (log st2 ! p)) = {is_senderId req, is_receiverId req}"
    using scan en by (simp add: command_items_def)
  ultimately show ?thesis
    using spec(2,3) r scan en by (simp add: apply_command_def)
qed

definition ex_logged :: RaftState where
  "ex_logged = snd (projr (is_executeReq env0 7 empty_world ex_bank ex_transfer))"

lemma ex_logged_run: "is_executeReq env0 7 empty_world ex_bank ex_transfer = Inr (empty_world, ex_logged)"
  by (simp add: ex_logged_def is_executeReq_accept [OF ex_accepts])

lemma ex_logged_simps:
  "log ex_logged = [is_entry env0 7 ex_bank ex_transfer]"
  "locked ex_logged 1" "locked ex_logged 2" "balance ex_logged 1 = 10" "balance ex_logged 2 = 10"
  using is_executeReq_state(4-6) [OF ex_logged_run] ex_accepts
  by (simp_all add: ex_transfer_def ex_books_def)

lemma ex_logged_commits: "\<exists>w3 st3. ae_leader_commit env0 0 (empty_world, ex_logged) = Inr (w3, st3)"
proof -
  have s: "sscanf3 (le_command (is_entry env0 7 ex_bank ex_transfer)) intra_scan = Inr (1, 2, 5)"
    "char0 (le_command (is_entry env0 7 ex_bank ex_transfer)) \<noteq> CHR ''[''"
    using is_entry_scan [of env0 ex_transfer 7 ex_bank] by (simp_all add: ex_transfer_def in32_def)
  have "transfer 1 2 5 ex_logged \<noteq> Inl err" for err
    by (auto simp: transfer_def debit_def credit_def sub32_def add32_def in32_def ex_logged_simps
        bindE_Inl_iff)
  then obtain st4 where "transfer 1 2 5 ex_logged = Inr st4" by (cases "transfer 1 2 5 ex_logged") auto
  then show ?thesis
    by (simp add: ae_leader_commit_def vec_at_def ex_logged_simps s ae_answer_def respond_answered)
qed

theorem intra_request_commits_witness:
  "\<exists>w3 st3. ae_leader_commit env0 0 (empty_world, ex_logged) = Inr (w3, st3) \<and> balance st3 1 = 5 \<and>
     balance st3 2 = 15 \<and> length (ring w3) = 1"
proof -
  obtain w3 st3 where c: "ae_leader_commit env0 0 (empty_world, ex_logged) = Inr (w3, st3)"
    using ex_logged_commits by blast
  have i: "in32 (is_senderId ex_transfer)" "in32 (is_receiverId ex_transfer)" "in32 (is_amount ex_transfer)"
    by (simp_all add: ex_transfer_def in32_def)
  have c': "ae_leader_commit env0 (int 0) (empty_world, ex_logged) = Inr (w3, st3)" using c by simp
  have l: "0 = length (log ex_bank)" "(7::int) \<noteq> -1" by simp_all
  note all = intra_request_commits [OF ex_accepts env0_documented(2) i l(2) ex_logged_run l(1) refl c']
  have f: "is_senderId ex_transfer = 1" "is_receiverId ex_transfer = 2" "is_amount ex_transfer = 5"
    by (simp_all add: ex_transfer_def)
  have "balance st3 k = pay 1 2 5 (balance ex_logged) k" for k
    by (rule fun_cong [OF conjunct1 [OF all, unfolded f]])
  then have "balance st3 1 = 5 \<and> balance st3 2 = 15" by (simp only:) (simp add: pay_def ex_logged_simps)
  moreover have "ring w3 = ring empty_world @ [write_sqe env0 7 (is_rsp SUCCESS ex_transfer) NO_RESPONSE]"
    using all by (elim conjE)
  then have "length (ring w3) = 1" by (simp only: length_append) (simp add: empty_world_def)
  ultimately show ?thesis using c by blast
qed

section \<open>Mutual exclusion\<close>

text \<open>
  C9. Once a request is accepted, its items are taken: until they are unlocked, every
  intra-shard request that names one of them is answered with \<open>FAIL\<close>, and every prepare whose
  side on this cluster is one of them is answered with \<open>NO\<close>; neither touches the log.
\<close>

theorem accepted_items_excluded:
  assumes req: "is_executeReq e s w st req = Inr (w1, st1)" and acc: "is_accepts st req"
    and later: "\<And>k. k \<in> {is_senderId req, is_receiverId req} \<Longrightarrow> locked st2 k = locked st1 k"
  shows "({is_senderId r, is_receiverId r} \<inter> {is_senderId req, is_receiverId req} \<noteq> {} \<longrightarrow>
      is_executeReq e s2 w2 st2 r = respond e s2 (is_rsp FAIL r) w2 (is_probe st2 r)) \<and>
    (cs_sender_here st2 c \<and> cs_senderId c \<in> {is_senderId req, is_receiverId req} \<or>
      cs_receiver_here st2 c \<and> cs_receiverId c \<in> {is_senderId req, is_receiverId req} \<longrightarrow>
      cs_prepare e s2 w2 st2 c = respond e s2 (cs_rsp NO c) w2 (cs_probe st2 c))"
proof -
  have l: "locked st2 k" if "k \<in> {is_senderId req, is_receiverId req}" for k
    using later [OF that] is_executeReq_state(6) [OF req] acc that by auto
  have A: "\<not> is_accepts st2 r"
    if "{is_senderId r, is_receiverId r} \<inter> {is_senderId req, is_receiverId req} \<noteq> {}"
  proof -
    have "locked st2 (is_senderId r) \<or> locked st2 (is_receiverId r)" using that l by blast
    then show ?thesis by (auto simp: is_accepts_def is_busy_def)
  qed
  have B: "\<not> cs_votes_yes st2 c"
    if "cs_sender_here st2 c \<and> cs_senderId c \<in> {is_senderId req, is_receiverId req} \<or>
      cs_receiver_here st2 c \<and> cs_receiverId c \<in> {is_senderId req, is_receiverId req}"
  proof -
    have "cs_sender_here st2 c \<and> locked st2 (cs_senderId c) \<or> cs_receiver_here st2 c \<and> locked st2 (cs_receiverId c)"
      using that l by blast
    then show ?thesis by (auto simp: cs_votes_yes_def cs_busy_def)
  qed
  show ?thesis
    by (intro conjI impI is_executeReq_refuse cs_prepare_no) (erule A, erule B)
qed

definition ex_cross :: CrossShardReq where
  "ex_cross = \<lparr>cs_phase = PREPARE, cs_senderClusterId = 0, cs_receiverClusterId = 1, cs_senderId = 1,
     cs_receiverId = 1002, cs_amount = 10, cs_id = 88\<rparr>"

theorem accepted_items_excluded_witness:
  "is_executeReq env0 8 empty_world ex_logged (ex_transfer\<lparr>is_id := 78\<rparr>) =
     respond env0 8 (is_rsp FAIL (ex_transfer\<lparr>is_id := 78\<rparr>)) empty_world
       (is_probe ex_logged (ex_transfer\<lparr>is_id := 78\<rparr>))"
proof -
  have "{is_senderId (ex_transfer\<lparr>is_id := 78\<rparr>), is_receiverId (ex_transfer\<lparr>is_id := 78\<rparr>)} \<inter>
      {is_senderId ex_transfer, is_receiverId ex_transfer} \<noteq> {}"
    by (simp add: ex_transfer_def)
  then show ?thesis
    using accepted_items_excluded [OF ex_logged_run ex_accepts, where ?st2.0 = ex_logged] by blast
qed

section \<open>No overdraft\<close>

text \<open>
  The entries of a log from position \<open>p\<close> on wait for their commit: their items are locked,
  no two of them share one, and the sender of each can pay.
\<close>

definition affordable :: "(int \<Rightarrow> int) \<Rightarrow> string \<Rightarrow> bool" where
  "affordable b cmd \<longleftrightarrow> char0 cmd = CHR ''['' \<or>
     (case sscanf3 cmd intra_scan of Inr (s, r, a) \<Rightarrow> 0 \<le> a \<and> a \<le> b s | Inl _ \<Rightarrow> True)"

definition pending_ok :: "int \<Rightarrow> RaftState \<Rightarrow> bool" where
  "pending_ok p st \<longleftrightarrow>
     (\<forall>k. 0 \<le> balance st k) \<and>
     (\<forall>i. p \<le> int i \<longrightarrow> i < length (log st) \<longrightarrow>
        (\<forall>k \<in> command_items (le_command (log st ! i)). locked st k) \<and>
        affordable (balance st) (le_command (log st ! i))) \<and>
     (\<forall>i j. p \<le> int i \<longrightarrow> i < j \<longrightarrow> j < length (log st) \<longrightarrow>
        command_items (le_command (log st ! i)) \<inter> command_items (le_command (log st ! j)) = {})"

lemma apply_command_other: "k \<notin> command_items cmd \<Longrightarrow> apply_command cmd b k = b k"
  by (auto simp: apply_command_def command_items_def pay_def Let_def split: sum.splits if_splits)

lemma apply_command_nonneg:
  "(\<And>k. 0 \<le> b k) \<Longrightarrow> affordable b cmd \<Longrightarrow> 0 \<le> apply_command cmd b k"
  by (auto simp: apply_command_def affordable_def pay_def Let_def split: sum.splits if_splits)

lemma affordable_cong:
  "(\<And>k. k \<in> command_items cmd \<Longrightarrow> b' k = b k) \<Longrightarrow> affordable b cmd \<Longrightarrow> affordable b' cmd"
  by (auto simp: affordable_def command_items_def split: sum.splits if_splits)

lemma commit_step_pending:
  assumes "ae_leader_commit e (int i) (w, st) = Inr (w', st')" and ok: "pending_ok (int i) st"
  shows "pending_ok (int i + 1) st'"
proof -
  let ?c = "\<lambda>j. le_command (log st ! j)"
  have spec: "same_log (log st) (log st')" "i < length (log st)"
    "balance st' = apply_command (?c i) (balance st)"
    "\<forall>k. locked st' k \<longleftrightarrow> locked st k \<and> k \<notin> command_items (?c i)"
    using ae_leader_commit_spec [OF assms(1)] by (simp_all add: leader_frame_def)
  have len: "length (log st') = length (log st)" by (rule same_log_length [OF spec(1)])
  have cmd: "le_command (log st' ! j) = ?c j" if "j < length (log st)" for j
    by (rule same_log_nth(1) [OF spec(1) that])
  have "0 \<le> balance st' k" for k
    unfolding spec(3) using ok spec(2) by (intro apply_command_nonneg) (auto simp: pending_ok_def)
  moreover have "(\<forall>k \<in> command_items (?c j). locked st' k) \<and> affordable (balance st') (?c j)"
    if "int i + 1 \<le> int j" "j < length (log st)" for j
  proof -
    have d: "command_items (?c i) \<inter> command_items (?c j) = {}"
      using ok that spec(2) by (auto simp: pending_ok_def)
    have o: "(\<forall>k \<in> command_items (?c j). locked st k) \<and> affordable (balance st) (?c j)"
    proof -
      have "int i \<le> int j" using that by simp
      then show ?thesis using ok that(2) unfolding pending_ok_def by blast
    qed
    have "affordable (balance st') (?c j)"
    proof (rule affordable_cong)
      show "affordable (balance st) (?c j)" using o ..
      fix k assume "k \<in> command_items (?c j)"
      then show "balance st' k = balance st k"
        unfolding spec(3) using d by (intro apply_command_other) blast
    qed
    then show ?thesis using o d spec(4) by blast
  qed
  moreover have "command_items (?c j) \<inter> command_items (?c l) = {}"
    if "int i + 1 \<le> int j" "j < l" "l < length (log st)" for j l
    using ok that by (simp add: pending_ok_def)
  ultimately show ?thesis by (simp add: pending_ok_def len cmd)
qed

lemma commit_loop_pending:
  assumes "forE (ae_leader_commit e) [p..c] (w, st) = Inr (w', st')" and "pending_ok p st" and "0 \<le> p"
    and "p \<le> c + 1"
  shows "pending_ok (c + 1) st'"
  using assms
proof (induction "nat (c + 1 - p)" arbitrary: p w st)
  case 0
  then have "p = c + 1" by simp
  then show ?case using 0 by simp
next
  case (Suc n)
  then have p: "p \<le> c" by simp
  then have "[p..c] = p # [p + 1..c]" by (rule upto_rec1)
  then obtain w1 st1 where s: "ae_leader_commit e p (w, st) = Inr (w1, st1)"
    "forE (ae_leader_commit e) [p + 1..c] (w1, st1) = Inr (w', st')"
    using Suc.prems(1) by (auto simp: bindE_Inr_iff)
  have "pending_ok (p + 1) st1"
    using commit_step_pending [of e "nat p" w st w1 st1] s(1) Suc.prems(2,3) by simp
  then show ?case using Suc.hyps(1) [OF _ s(2)] Suc.hyps(2) Suc.prems(3) p by simp
qed

lemma pending_ok_cong:
  "log st' = log st \<Longrightarrow> local_lock st' = local_lock st \<Longrightarrow> balance st' = balance st \<Longrightarrow>
   pending_ok p st' = pending_ok p st"
  by (simp add: pending_ok_def)

lemma commit_all_pending:
  assumes run: "ae_commit_all e w st = Inr (w', st')" and ok: "pending_ok (commit_index st + 1) st"
    and "-1 \<le> commit_index st" and "commit_index st \<le> coming_commit_index st"
  shows "pending_ok (commit_index st' + 1) st'"
proof -
  obtain w1 st1 where l: "forE (ae_leader_commit e) [commit_index st + 1..coming_commit_index st] (w, st)
      = Inr (w1, st1)"
    and rest: "(if commit_index st1 \<noteq> coming_commit_index st1
      then (let (w2, st2) = update_data_shard e w1 st1
            in Inr (w2, st2\<lparr>commit_index := coming_commit_index st2\<rparr>))
      else Inr (w1, st1)) = (Inr (w', st') :: (World \<times> RaftState) res)"
    using run by (auto simp: ae_commit_all_def bindE_Inr_iff)
  have p: "pending_ok (coming_commit_index st + 1) st1"
    by (rule commit_loop_pending [OF l ok]) (use assms(3,4) in simp_all)
  have ci: "commit_index st' = coming_commit_index st" using ae_commit_all_spec [OF run] by simp
  have "log st' = log st1 \<and> local_lock st' = local_lock st1 \<and> balance st' = balance st1"
  proof (cases "commit_index st1 = coming_commit_index st1")
    case False
    obtain w2 st2 where u: "update_data_shard e w1 st1 = (w2, st2)" by fastforce
    then have st': "st' = st2\<lparr>commit_index := coming_commit_index st2\<rparr>" using rest False by simp
    have "balance st2 = balance st1" using update_data_shard_frame(6) [OF u] by (intro ext)
    then show ?thesis using st' update_data_shard_frame(2,3) [OF u] by simp
  qed (use rest in simp)
  then show ?thesis unfolding ci using p pending_ok_cong by blast
qed

lemma request_pending:
  assumes run: "is_executeReq e s w st req = Inr (w', st')" and ok: "pending_ok p st"
    and fmt: "fmt_documented e"
    and range: "in32 (is_senderId req)" "in32 (is_receiverId req)" "in32 (is_amount req)"
    and pos: "0 \<le> is_amount req"
  shows "pending_ok p st'"
proof (cases "is_accepts st req")
  case False
  note st = is_executeReq_state [OF run]
  have "log st' = log st" using st(5) False by simp
  then show ?thesis using ok st(4,6) False by (simp add: pending_ok_def affordable_def)
next
  case True
  note st = is_executeReq_state [OF run]
  let ?en = "is_entry e s st req" and ?n = "length (log st)"
  note scan = is_entry_scan [OF fmt range, where s = s and st = st]
  have items: "command_items (le_command ?en) = {is_senderId req, is_receiverId req}"
    using scan by (simp add: command_items_def)
  have l: "log st' = log st @ [?en]" using st(5) True by simp
  have b: "balance st' = balance st" using st(4) by (intro ext)
  have lk: "locked st' k \<longleftrightarrow> locked st k \<or> k \<in> {is_senderId req, is_receiverId req}" for k
    using st(6) True by simp
  have free: "\<not> locked st (is_senderId req)" "\<not> locked st (is_receiverId req)"
    using True by (simp_all add: is_accepts_def is_busy_def)
  have "\<forall>i. p \<le> int i \<longrightarrow> i < length (log st') \<longrightarrow>
      (\<forall>k \<in> command_items (le_command (log st' ! i)). locked st' k) \<and>
      affordable (balance st') (le_command (log st' ! i))"
  proof (intro allI impI)
    fix i
    assume i: "p \<le> int i" "i < length (log st')"
    show "(\<forall>k \<in> command_items (le_command (log st' ! i)). locked st' k) \<and>
      affordable (balance st') (le_command (log st' ! i))"
    proof (cases "i < ?n")
      case True
      then show ?thesis using ok i by (simp add: pending_ok_def l b lk nth_append)
    next
      case False
      then have "log st' ! i = ?en" using i l by (simp add: nth_append)
      then show ?thesis
        using items lk scan pos is_accepts_funds [OF True] by (simp add: affordable_def b)
    qed
  qed
  moreover have "command_items (le_command (log st' ! i)) \<inter> command_items (le_command (log st' ! j)) = {}"
    if ij: "p \<le> int i" "i < j" "j < length (log st')" for i j
  proof (cases "j < ?n")
    case True
    then show ?thesis using ok ij by (simp add: pending_ok_def l nth_append)
  next
    case False
    then have j: "log st' ! j = ?en" "log st' ! i = log st ! i" "i < ?n"
      using ij l by (simp_all add: nth_append)
    then have "\<forall>k \<in> command_items (le_command (log st ! i)). locked st k"
      using ok ij by (simp add: pending_ok_def)
    then show ?thesis using j items free by auto
  qed
  ultimately show ?thesis using ok by (simp add: pending_ok_def b)
qed

text \<open>
  A leader's life without cross-shard transactions: requests with any amount, heart beats, which
  move the coming commit index to the end of the log, and commits. The fields of a request are
  \<open>int32\<close>.
\<close>

datatype bank_event =
    Request IntraShardReq
  | Heart_beat
  | Commit

inductive bank_step :: "env \<Rightarrow> bank_event \<Rightarrow> RaftState \<Rightarrow> RaftState \<Rightarrow> bool" for e where
  request: "is_executeReq e s w st req = Inr (w', st') \<Longrightarrow>
    in32 (is_senderId req) \<Longrightarrow> in32 (is_receiverId req) \<Longrightarrow> in32 (is_amount req) \<Longrightarrow>
    bank_step e (Request req) st st'"
| heart_beat: "bank_step e Heart_beat st (prepare_commit st)"
| commit: "ae_commit_all e w st = Inr (w', st') \<Longrightarrow> bank_step e Commit st st'"

inductive_cases bank_stepE: "bank_step e ev st st'"

inductive bank_run :: "env \<Rightarrow> bank_event list \<Rightarrow> RaftState \<Rightarrow> RaftState \<Rightarrow> bool" for e where
  stop: "bank_run e [] st st"
| step: "bank_step e ev st st1 \<Longrightarrow> bank_run e evs st1 st' \<Longrightarrow> bank_run e (ev # evs) st st'"

definition books_ok :: "RaftState \<Rightarrow> bool" where
  "books_ok st \<longleftrightarrow> pending_ok (commit_index st + 1) st \<and> -1 \<le> commit_index st \<and>
     commit_index st \<le> coming_commit_index st \<and> coming_commit_index st < int (length (log st))"

lemma books_ok_step:
  assumes "bank_step e ev st st'" and "fmt_documented e" and "books_ok st"
    and "\<And>req. ev = Request req \<Longrightarrow> 0 \<le> is_amount req"
  shows "books_ok st'"
  using assms(1)
proof cases
  case (request s w req w')
  note st = is_executeReq_state(2,3,5) [OF request(2)]
  have "pending_ok (commit_index st + 1) st'"
    using request_pending [OF request(2) _ assms(2) request(3-5) assms(4) [OF request(1)]] assms(3)
    by (simp add: books_ok_def)
  then show ?thesis using assms(3) st by (simp add: books_ok_def)
next
  case heart_beat
  then show ?thesis
    using assms(3) by (simp add: books_ok_def prepare_commit_def pending_ok_def)
next
  case (commit w w')
  note spec = ae_commit_all_spec [OF commit(2)]
  have "length (log st') = length (log st)" using spec same_log_length by blast
  moreover have "pending_ok (commit_index st' + 1) st'"
    using commit_all_pending [OF commit(2)] assms(3) by (simp add: books_ok_def)
  ultimately show ?thesis using spec assms(3) by (simp add: books_ok_def)
qed

lemma books_ok_run:
  "bank_run e evs st st' \<Longrightarrow> fmt_documented e \<Longrightarrow> books_ok st \<Longrightarrow>
     \<forall>req. Request req \<in> set evs \<longrightarrow> 0 \<le> is_amount req \<Longrightarrow> books_ok st'"
proof (induction rule: bank_run.induct)
  case (step ev st st1 evs st')
  have "books_ok st1" by (rule books_ok_step [OF step.hyps(1) step.prems(1,2)]) (use step.prems(3) in simp)
  then show ?case using step.IH step.prems(1,3) by simp
qed

text \<open>
  C5. No overdraft by amounts that are not negative: a leader that starts with an empty log, nothing
  committed and no negative balance, and that handles intra-shard requests, heart beats and commits in any
  order, never brings a balance below zero, provided that no request asks for a negative amount (and
  that the format library behaves as documented). The handler does not check the amount itself: a
  negative one overdraws the receiver (\<open>negative_amount_overdraws\<close>).
\<close>

theorem never_overdrawn:
  assumes "bank_run e evs st st'" and "fmt_documented e" and "\<And>k. 0 \<le> balance st k"
    and "\<forall>req. Request req \<in> set evs \<longrightarrow> 0 \<le> is_amount req"
    and "log st = []" and "commit_index st = -1" and "coming_commit_index st = -1"
  shows "0 \<le> balance st' k"
proof -
  have "books_ok st" using assms(3,5-7) by (simp add: books_ok_def pending_ok_def)
  then have "books_ok st'" by (rule books_ok_run [OF assms(1,2) _ assms(4)])
  then show ?thesis by (simp add: books_ok_def pending_ok_def)
qed

text \<open>A run from a request to its commit, for every amount that the sender has.\<close>

lemma ex_bank_run:
  assumes "- 100 \<le> a" "a \<le> 10"
  shows "\<exists>st'. bank_run env0 [Request (ex_transfer\<lparr>is_amount := a\<rparr>), Heart_beat, Commit] ex_bank st' \<and>
    balance st' 1 = 10 - a \<and> balance st' 2 = 10 + a"
proof -
  let ?req = "ex_transfer\<lparr>is_amount := a\<rparr>"
  have acc: "is_accepts ex_bank ?req"
    using assms by (simp add: is_accepts_def is_busy_def ex_transfer_def ex_books_def um_val_def)
  obtain st1 where r: "is_executeReq env0 7 empty_world ex_bank ?req = Inr (empty_world, st1)"
    by (simp add: is_executeReq_accept [OF acc])
  note s1 = is_executeReq_state [OF r]
  have in32: "in32 (is_senderId ?req)" "in32 (is_receiverId ?req)" "in32 (is_amount ?req)"
    using assms by (simp_all add: ex_transfer_def in32_def)
  note scan = is_entry_scan [OF env0_documented(2) in32, where s = 7 and st = ex_bank]
  have l1: "log st1 = [is_entry env0 7 ex_bank ?req]" using s1(5) acc by simp
  have b1: "balance st1 1 = 10" "balance st1 2 = 10" using s1(4) by (simp_all add: ex_books_def)
  let ?st2 = "prepare_commit st1"
  have "transfer 1 2 a ?st2 \<noteq> Inl err" for err
    using assms b1
    by (auto simp: transfer_def debit_def credit_def sub32_def add32_def in32_def bindE_Inl_iff prepare_commit_def)
  then obtain st4 where t: "transfer 1 2 a ?st2 = Inr st4" by (cases "transfer 1 2 a ?st2") auto
  have "\<exists>w3 st3. ae_leader_commit env0 0 (empty_world, ?st2) = Inr (w3, st3)"
    using scan t by (simp add: ae_leader_commit_def vec_at_def prepare_commit_def l1 ae_answer_def respond_answered ex_transfer_def)
  then obtain w3 st3 where c: "ae_leader_commit env0 0 (empty_world, ?st2) = Inr (w3, st3)" by blast
  have ci: "commit_index ?st2 = -1" "coming_commit_index ?st2 = 0"
    using s1(2) by (simp_all add: prepare_commit_def l1)
  have "\<exists>w' st'. ae_commit_all env0 empty_world ?st2 = Inr (w', st')"
    using c ci by (cases "update_data_shard env0 w3 st3") (simp add: ae_commit_all_def)
  then obtain w' st' where all: "ae_commit_all env0 empty_world ?st2 = Inr (w', st')" by blast
  have cmd: "apply_command (le_command (is_entry env0 7 ex_bank ?req)) = pay 1 2 a"
    using scan by (intro ext) (simp add: apply_command_def ex_transfer_def)
  have "balance st' = run_log (log ?st2) [0..0] (balance ?st2)"
    using ae_commit_all_spec [OF all] ci by simp
  from fun_cong [OF this] have "balance st' 1 = 10 - a" "balance st' 2 = 10 + a"
    using b1 by (simp_all add: prepare_commit_def l1 cmd pay_def)
  moreover have "bank_run env0 [Request ?req, Heart_beat, Commit] ex_bank st'"
    by (rule bank_run.step [OF bank_step.request [OF r in32]] bank_run.step [OF bank_step.heart_beat]
        bank_run.step [OF bank_step.commit [OF all]] bank_run.stop)+
  ultimately show ?thesis by blast
qed

theorem never_overdrawn_witness:
  "\<exists>st'. bank_run env0 [Request ex_transfer, Heart_beat, Commit] ex_bank st' \<and>
     balance st' 1 = 5 \<and> balance st' 2 = 15 \<and> 0 \<le> balance st' 1"
proof -
  have "ex_transfer\<lparr>is_amount := 5\<rparr> = ex_transfer" by (simp add: ex_transfer_def)
  then obtain st' where r: "bank_run env0 [Request ex_transfer, Heart_beat, Commit] ex_bank st'"
    "balance st' 1 = 5" "balance st' 2 = 15"
    using ex_bank_run [of 5] by auto
  have "0 \<le> balance st' 1"
    by (rule never_overdrawn [OF r(1)]) (simp_all add: ex_books_def ex_transfer_def um_val_def)
  then show ?thesis using r by blast
qed

text \<open>A negative amount passes the test of the balance and takes the receiver below zero.\<close>

lemma negative_amount_overdraws:
  "\<exists>st'. bank_run env0 [Request (ex_transfer\<lparr>is_amount := - 20\<rparr>), Heart_beat, Commit] ex_bank st' \<and>
     balance st' 1 = 30 \<and> balance st' 2 = - 10"
  using ex_bank_run [of "- 20"] by simp

section \<open>Two-phase commit\<close>

lemma has_list_ex: "list_ex P xs \<longleftrightarrow> (\<exists>x \<in> set xs. P x)"
  by (simp add: list_ex_iff)

text \<open>
  C14. A prepare votes yes exactly when the side of the transaction that is on this cluster
  is free, its sender can pay, and the log knows neither a prepare nor an abort of the
  transaction. A yes appends one entry of the current term, locks the own side and sends
  nothing yet; otherwise \<open>NO\<close> is answered and log and locks stay. No balance changes.
\<close>

theorem prepare_outcome:
  assumes "cs_prepare e s w st req = Inr (w', st')"
  shows "(if (cs_senderClusterId req = cluster_id st \<longrightarrow>
            \<not> locked st (cs_senderId req) \<and> cs_amount req \<le> balance st (cs_senderId req)) \<and>
          (cs_receiverClusterId req = cluster_id st \<longrightarrow> \<not> locked st (cs_receiverId req)) \<and>
          (\<forall>en \<in> set (log st). le_id en = cs_id req \<longrightarrow>
             take 9 (le_command en) \<noteq> ''[PREPARE]'' \<and> take 7 (le_command en) \<noteq> ''[ABORT]'')
      then w' = w \<and> log st' = log st @ [cs_entry e prepare_fmt (current_term st) s st req] \<and>
        (\<forall>k. locked st' k \<longleftrightarrow> locked st k \<or>
           cs_senderClusterId req = cluster_id st \<and> k = cs_senderId req \<or>
           cs_receiverClusterId req = cluster_id st \<and> k = cs_receiverId req)
      else ring w' = ring w @ [write_sqe e s (cs_rsp NO req) NO_RESPONSE] \<and>
        log st' = log st \<and> (\<forall>k. locked st' k = locked st k)) \<and>
    (\<forall>k. balance st' k = balance st k)"
proof -
  have yes: "((cs_senderClusterId req = cluster_id st \<longrightarrow>
            \<not> locked st (cs_senderId req) \<and> cs_amount req \<le> balance st (cs_senderId req)) \<and>
          (cs_receiverClusterId req = cluster_id st \<longrightarrow> \<not> locked st (cs_receiverId req)) \<and>
          (\<forall>en \<in> set (log st). le_id en = cs_id req \<longrightarrow>
             take 9 (le_command en) \<noteq> ''[PREPARE]'' \<and> take 7 (le_command en) \<noteq> ''[ABORT]''))
      = cs_votes_yes st req"
    by (auto simp: cs_votes_yes_def cs_busy_def has_list_ex cs_prepare_seen_def cs_sender_here_def
        cs_receiver_here_def)
  show ?thesis
  proof (cases "cs_votes_yes st req")
    case True
    have "st' = cs_lock_items req
        (push_log (cs_entry e prepare_fmt (current_term st) s st req) (cs_probe st req))" "w' = w"
      using assms by (simp_all add: cs_prepare_yes [OF True])
    then show ?thesis unfolding yes using True
      by (simp add: cs_lock_items_locked cs_sender_here_def cs_receiver_here_def)
  next
    case False
    have "st' = cs_probe st req" "ring w' = ring w @ [write_sqe e s (cs_rsp NO req) NO_RESPONSE]"
      using assms by (simp_all add: cs_prepare_no [OF False] respond_Inr)
    then show ?thesis unfolding yes using False by simp
  qed
qed

definition ex_prepared :: RaftState where
  "ex_prepared = snd (projr (cs_prepare env0 7 empty_world ex_bank ex_cross))"

lemma ex_votes_yes: "cs_votes_yes ex_bank ex_cross"
  by (simp add: cs_votes_yes_def cs_busy_def ex_cross_def ex_books_def cs_sender_here_def
      cs_receiver_here_def)

lemma ex_prepared_run: "cs_prepare env0 7 empty_world ex_bank ex_cross = Inr (empty_world, ex_prepared)"
  by (simp add: ex_prepared_def cs_prepare_yes [OF ex_votes_yes])

theorem prepare_outcome_witness:
  "cs_prepare env0 7 empty_world ex_bank ex_cross = Inr (empty_world, ex_prepared) \<and>
     locked ex_prepared 1 \<and> \<not> locked ex_prepared 2"
  using prepare_outcome [OF ex_prepared_run] ex_prepared_run
  by (auto simp: ex_cross_def ex_books_def)

text \<open>
  C6. Two-phase commit conserves money: when the cluster of the sender and the cluster of
  the receiver both handle the commit of a transaction that neither has committed before,
  the sum of the balances of both (of any finite sets of items with the sender on the one
  side and the receiver on the other) is what it was.
\<close>

theorem cross_commit_conserves:
  assumes A: "cs_commit e s w stA req = Inr (wA, stA')" and B: "cs_commit e s2 w2 stB req = Inr (wB, stB')"
    and new: "\<not> cs_committed stA req" "\<not> cs_committed stB req"
    and side: "cs_senderClusterId req = cluster_id stA" "cs_receiverClusterId req = cluster_id stB"
      "cluster_id stA \<noteq> cluster_id stB"
    and items: "finite SA" "cs_senderId req \<in> SA" "finite SB" "cs_receiverId req \<in> SB"
  shows "total SA stA' + total SB stB' = total SA stA + total SB stB \<and>
    balance stA' (cs_senderId req) = balance stA (cs_senderId req) - cs_amount req \<and>
    balance stB' (cs_receiverId req) = balance stB (cs_receiverId req) + cs_amount req"
proof -
  have a: "balance stA' k = balance stA k - (if k = cs_senderId req then cs_amount req else 0)" for k
    using cs_commit_first(1) [OF A new(1), of k] side by (simp add: cs_sender_here_def cs_receiver_here_def)
  have b: "balance stB' k = balance stB k + (if k = cs_receiverId req then cs_amount req else 0)" for k
    using cs_commit_first(1) [OF B new(2), of k] side by (simp add: cs_sender_here_def cs_receiver_here_def)
  have "total SA stA' = total SA stA - cs_amount req" "total SB stB' = total SB stB + cs_amount req"
    using items by (simp_all add: total_def a b sum_subtractf sum.distrib)
  then show ?thesis using a b by simp
qed

definition ex_bank2 :: RaftState where
  "ex_bank2 = ex_bank\<lparr>cluster_id := 1, server_id := 3, local_balance_tb := [1002 \<mapsto> 10]\<rparr>"

lemma ex_cross_commits:
  "\<exists>w' st'. cs_commit env0 7 empty_world ex_bank (ex_cross\<lparr>cs_phase := COMMIT\<rparr>) = Inr (w', st')"
  "\<exists>w' st'. cs_commit env0 7 empty_world ex_bank2 (ex_cross\<lparr>cs_phase := COMMIT\<rparr>) = Inr (w', st')"
  by (simp_all add: cs_commit_def ex_cross_def cs_apply_def cs_sender_here_def cs_receiver_here_def
      debit_def credit_def sub32_def add32_def in32_def push_log_def ex_bank_def ex_bank2_def ex_books_def
      blank_def RaftState_init_def update_data_shard_def read_lines_def empty_world_def
      respond_answered Let_def)

theorem cross_commit_conserves_witness:
  "\<exists>wA stA wB stB. cs_commit env0 7 empty_world ex_bank (ex_cross\<lparr>cs_phase := COMMIT\<rparr>) = Inr (wA, stA) \<and>
     cs_commit env0 7 empty_world ex_bank2 (ex_cross\<lparr>cs_phase := COMMIT\<rparr>) = Inr (wB, stB) \<and>
     balance stA 1 = 0 \<and> balance stB 1002 = 20 \<and> total {1, 2} stA + total {1002} stB = 30"
proof -
  obtain wA stA wB stB where
    A: "cs_commit env0 7 empty_world ex_bank (ex_cross\<lparr>cs_phase := COMMIT\<rparr>) = Inr (wA, stA)" and
    B: "cs_commit env0 7 empty_world ex_bank2 (ex_cross\<lparr>cs_phase := COMMIT\<rparr>) = Inr (wB, stB)"
    using ex_cross_commits by blast
  have tb: "log ex_bank2 = []" "cluster_id ex_bank2 = 1" "local_balance_tb ex_bank2 = [1002 \<mapsto> 10]"
    by (simp_all add: ex_bank2_def)
  have "total {1, 2} ex_bank + total {1002} ex_bank2 = 30"
    by (simp add: total_def tb ex_books_def)
  then show ?thesis
    using cross_commit_conserves [OF A B, of "{1, 2}" "{1002}"] A B
    by (simp add: cs_committed_def tb ex_cross_def ex_books_def)
qed






text \<open>
  C15. The leader answers a prepared transaction with \<open>YES\<close>, to the client that sent the
  prepare, when the raft log commits the prepare entry. The locks of both items are released
  at that moment, before the second phase, and no balance has changed yet.
\<close>

theorem prepare_answered_and_unlocked:
  assumes yes: "cs_votes_yes st req" and fmt: "fmt_documented e"
    and range: "in32 (cs_senderId req)" "in32 (cs_receiverId req)" "in32 (cs_amount req)"
    and fd: "s \<noteq> -1"
    and prep: "cs_prepare e s w st req = Inr (w1, st1)"
    and pos: "p = length (log st)" "log st2 ! p = log st1 ! p"
    and com: "ae_leader_commit e (int p) (w2, st2) = Inr (w3, st3)"
  shows "ring w3 = ring w2 @ [write_sqe e s (cs_rsp YES req) NO_RESPONSE] \<and>
    \<not> locked st3 (cs_senderId req) \<and> \<not> locked st3 (cs_receiverId req) \<and> balance st3 = balance st2"
proof -
  let ?en = "cs_entry e prepare_fmt (current_term st) s st req"
  have "log st1 = log st @ [?en]" using prep by (auto simp: cs_prepare_yes [OF yes])
  then have en: "log st2 ! p = ?en" using pos by simp
  have c: "le_command ?en = fill prepare_fmt [cs_senderId req, cs_receiverId req, cs_amount req]"
    using fmt by (simp add: cs_entry_def fmt_documented_def)
  have scan: "sscanf3 (le_command ?en) prepare_scan = Inr (cs_senderId req, cs_receiverId req, cs_amount req)"
    unfolding c by (rule prepare_codec.scan_print [OF range])
  have pre: "char0 (le_command ?en) = CHR ''[''" "take 9 (le_command ?en) = ''[PREPARE]''"
    by (simp only: c char0_formats) (rule cs_entry_prefix(1) [OF fmt])
  have spec: "p < length (log st2)" "balance st3 = apply_command (le_command ?en) (balance st2)"
    "\<forall>k. locked st3 k \<longleftrightarrow> locked st2 k \<and> k \<notin> command_items (le_command ?en)"
    using ae_leader_commit_spec [OF com] en by simp_all
  have at: "vec_at (log st2) (int p) = Inr ?en" using spec(1) en by (simp add: vec_at_def)
  have fds: "le_req_fd ?en = s" "le_id ?en = cs_id req" by (simp_all add: cs_entry_def)
  have "ae_answer e (int p) ?en (MCrossShardRsp \<lparr>csr_result = YES, csr_id = cs_id req\<rparr>) w2
      (set_lock (cs_receiverId req) False (set_lock (cs_senderId req) False st2)) = Inr (w3, st3)"
    using com scan pre by (simp add: ae_leader_commit_def at fds)
  from ae_answer_spec(7) [OF this] have
    "ring w3 = ring w2 @ [write_sqe e s (cs_rsp YES req) NO_RESPONSE]"
    using fds fd by (simp add: cs_rsp_def)
  moreover have "command_items (le_command ?en) = {cs_senderId req, cs_receiverId req}"
    using pre scan by (simp add: command_items_def)
  moreover have "balance st3 = balance st2" unfolding spec(2) using pre by (simp add: apply_command_def)
  ultimately show ?thesis using spec(3) by simp
qed

lemma ex_prepared_simps:
  "log ex_prepared = [cs_entry env0 prepare_fmt 2 7 ex_bank ex_cross]" "locked ex_prepared 1"
  by (simp_all add: ex_prepared_def cs_prepare_yes [OF ex_votes_yes] cs_lock_items_locked
      cs_sender_here_def) (simp add: ex_cross_def)

lemma ex_prepared_commits:
  "\<exists>w3 st3. ae_leader_commit env0 (int 0) (empty_world, ex_prepared) = Inr (w3, st3)"
proof -
  let ?en = "cs_entry env0 prepare_fmt 2 7 ex_bank ex_cross"
  have l: "log ex_prepared = [?en]" by (rule ex_prepared_simps(1))
  have c: "le_command ?en = fill prepare_fmt [1, 1002, 10]" by (simp add: cs_entry_def ex_cross_def)
  have "sscanf3 (le_command ?en) prepare_scan = Inr (1, 1002, 10)"
    unfolding c by (rule prepare_codec.scan_print) (simp_all add: in32_def)
  moreover have "char0 (le_command ?en) = CHR ''[''" "take 9 (le_command ?en) = ''[PREPARE]''"
    by (simp only: c char0_formats) (rule cs_entry_prefix(1) [OF env0_documented(2)])
  ultimately show ?thesis
    by (simp add: ae_leader_commit_def vec_at_def l ae_answer_def respond_answered)
qed

theorem prepare_answered_and_unlocked_witness:
  "\<exists>w3 st3. ae_leader_commit env0 (int 0) (empty_world, ex_prepared) = Inr (w3, st3) \<and>
     locked ex_prepared 1 \<and> \<not> locked st3 1 \<and> length (ring w3) = 1"
proof -
  obtain w3 st3 where c: "ae_leader_commit env0 (int 0) (empty_world, ex_prepared) = Inr (w3, st3)"
    using ex_prepared_commits by blast
  have i: "in32 (cs_senderId ex_cross)" "in32 (cs_receiverId ex_cross)" "in32 (cs_amount ex_cross)"
    by (simp_all add: ex_cross_def in32_def)
  have l: "0 = length (log ex_bank)" "(7::int) \<noteq> -1" by simp_all
  note all = prepare_answered_and_unlocked
    [OF ex_votes_yes env0_documented(2) i l(2) ex_prepared_run l(1) refl c]
  have "ring w3 = ring empty_world @ [write_sqe env0 7 (cs_rsp YES ex_cross) NO_RESPONSE]"
    using all by (elim conjE)
  then have "length (ring w3) = 1" by (simp only: length_append) (simp add: empty_world_def)
  moreover have "\<not> locked st3 (cs_senderId ex_cross)" using all by (elim conjE)
  moreover have "cs_senderId ex_cross = 1" by (simp add: ex_cross_def)
  ultimately show ?thesis using c ex_prepared_simps(2) by simp
qed

text \<open>
  One item of balance 10: 10 are prepared to leave the shard, and 5 are paid inside it
  between the raft commit of the prepare and the second phase.
\<close>

definition overdraft_run :: "RaftState res" where
  "overdraft_run =
     bindE (cs_executeReq env0 7 empty_world ex_bank ex_cross) (\<lambda>(w1, st1).
     bindE (ae_leader_commit env0 0 (w1, st1)) (\<lambda>(w2, st2).
     bindE (is_executeReq env0 8 w2 st2 ex_transfer) (\<lambda>(w3, st3).
     bindE (ae_leader_commit env0 1 (w3, st3)) (\<lambda>(w4, st4).
       mapE snd (cs_executeReq env0 9 w4 st4 (ex_cross\<lparr>cs_phase := COMMIT\<rparr>))))))"

text \<open>
  The lock that the first phase takes does not protect the money until the second phase:
  an item with balance 10, of which 10 were prepared and answered with \<open>YES\<close>, can still pay 5
  inside its shard, and the commit of the transaction then leaves it at -5.
\<close>

theorem prepared_item_overdrawn:
  "balance ex_bank 1 = 10 \<and> mapE (\<lambda>st. balance st 1) overdraft_run = Inr (-5)"
  by code_simp

end
