(* ===== verification/Json_Grammar.thy ===== *)
theory Json_Grammar
  imports Json_Utf8
begin

text \<open>
  The grammar of JSON texts as a reference, with the value each text stands for: literals,
  numbers, strings with their escapes, arrays, objects with repeated keys, and white space
  between the tokens. The lemmas say that the lexer reads every token of the grammar and leaves
  the rest of the input.
\<close>

section \<open>The grammar\<close>

definition blank_text :: "string \<Rightarrow> bool" where
  "blank_text w \<longleftrightarrow> (\<forall>c \<in> set w. is_ws (ord c))"

text \<open>The characters of a string: the bytes they stand for and how they are written.\<close>

definition hex_text :: "int \<Rightarrow> string \<Rightarrow> bool" where
  "hex_text n h \<longleftrightarrow>
     (\<exists>a b c d. map (\<lambda>x. hex_value (ord x)) h = [Some a, Some b, Some c, Some d] \<and>
        n = a * 4096 + b * 256 + c * 16 + d)"

abbreviation u_escape :: string where "u_escape \<equiv> [CHR 0x5C, CHR ''u'']"

inductive char_text :: "string \<Rightarrow> string \<Rightarrow> bool" where
  plain: "scalar cp \<Longrightarrow> 0x20 \<le> cp \<Longrightarrow> cp \<noteq> 0x22 \<Longrightarrow> cp \<noteq> 0x5C \<Longrightarrow>
    char_text (utf8_char cp) (utf8_char cp)"
| short: "escaped (ord c) = Some b \<Longrightarrow> char_text [char_of b] [CHR 0x5C, c]"
| unit: "hex_text n h \<Longrightarrow> \<not> (0xD800 \<le> n \<and> n \<le> 0xDFFF) \<Longrightarrow> char_text (utf8_char n) (u_escape @ h)"
| pair: "hex_text n h \<Longrightarrow> 0xD800 \<le> n \<Longrightarrow> n \<le> 0xDBFF \<Longrightarrow>
    hex_text n' h' \<Longrightarrow> 0xDC00 \<le> n' \<Longrightarrow> n' \<le> 0xDFFF \<Longrightarrow>
    char_text (utf8_char (0x10000 + (n - 0xD800) * 0x400 + (n' - 0xDC00))) (u_escape @ h @ u_escape @ h')"

inductive string_text :: "string \<Rightarrow> string \<Rightarrow> bool" where
  end_string: "string_text [] []"
| next_char: "char_text b t \<Longrightarrow> string_text s u \<Longrightarrow> string_text (b @ s) (t @ u)"

abbreviation quoted :: "string \<Rightarrow> string" where
  "quoted t \<equiv> CHR 0x22 # t @ [CHR 0x22]"

text \<open>Numbers.\<close>

definition digits :: "string \<Rightarrow> bool" where
  "digits s \<longleftrightarrow> s \<noteq> [] \<and> (\<forall>c \<in> set s. is_digit c)"

definition int_part :: "string \<Rightarrow> bool" where
  "int_part s \<longleftrightarrow> s = ''0'' \<or> digits s \<and> hd s \<noteq> CHR ''0''"

definition frac_part :: "string \<Rightarrow> bool" where
  "frac_part s \<longleftrightarrow> s = [] \<or> (\<exists>ds. s = CHR ''.'' # ds \<and> digits ds)"

definition exp_part :: "string \<Rightarrow> bool" where
  "exp_part s \<longleftrightarrow> s = [] \<or>
     (\<exists>e sg ds. s = e # sg @ ds \<and> e \<in> {CHR ''e'', CHR ''E''} \<and> sg \<in> {[], ''+'', ''-''} \<and> digits ds)"

definition minus_sign :: "bool \<Rightarrow> string" where
  "minus_sign neg = (if neg then ''-'' else [])"

text \<open>
  A number without fraction and exponent is an integer if it fits; every other one is the
  double precision number that \<open>strtod\<close> gives.
\<close>

definition number_json :: "bool \<Rightarrow> string \<Rightarrow> string \<Rightarrow> json" where
  "number_json neg ip rest =
     (if rest = [] \<and> \<not> neg \<and> inu64 (digits_val ip) then JUnsigned (digits_val ip)
      else if rest = [] \<and> neg \<and> in64 (- digits_val ip) then JInteger (- digits_val ip)
      else JFloat (strtod (minus_sign neg @ ip @ rest)))"

text \<open>The members of an object in the order of the text; a key that is repeated gets its last value.\<close>

definition object_of :: "(string \<times> json) list \<Rightarrow> (string \<times> json) list \<Rightarrow> (string \<times> json) list" where
  "object_of ms m = fold (\<lambda>(k, v). obj_set k v) ms m"

inductive value_text :: "json \<Rightarrow> string \<Rightarrow> bool"
  and elements_text :: "json list \<Rightarrow> string \<Rightarrow> bool"
  and members_text :: "(string \<times> json) list \<Rightarrow> string \<Rightarrow> bool"
where
  null: "value_text JNull ''null''"
| true: "value_text (JBoolean True) ''true''"
| false: "value_text (JBoolean False) ''false''"
| number: "int_part ip \<Longrightarrow> frac_part f \<Longrightarrow> exp_part x \<Longrightarrow> j = number_json neg ip (f @ x) \<Longrightarrow>
    (\<forall>d. j = JFloat d \<longrightarrow> isfinite d) \<Longrightarrow> value_text j (minus_sign neg @ ip @ f @ x)"
| string: "string_text s t \<Longrightarrow> value_text (JString s) (quoted t)"
| empty_array: "blank_text w \<Longrightarrow> value_text (JArray []) (CHR ''['' # w @ '']'')"
| array: "elements_text xs t \<Longrightarrow> value_text (JArray xs) (CHR ''['' # t @ '']'')"
| empty_object: "blank_text w \<Longrightarrow> value_text (JObject []) (CHR ''{'' # w @ ''}'')"
| object: "members_text ms t \<Longrightarrow> value_text (JObject (object_of ms [])) (CHR ''{'' # t @ ''}'')"
| one_element: "blank_text w \<Longrightarrow> value_text x t \<Longrightarrow> blank_text w' \<Longrightarrow> elements_text [x] (w @ t @ w')"
| more_elements: "blank_text w \<Longrightarrow> value_text x t \<Longrightarrow> blank_text w' \<Longrightarrow> elements_text xs u \<Longrightarrow>
    elements_text (x # xs) (w @ t @ w' @ CHR '','' # u)"
| one_member: "blank_text w \<Longrightarrow> string_text k kt \<Longrightarrow> blank_text w1 \<Longrightarrow> blank_text w2 \<Longrightarrow>
    value_text x t \<Longrightarrow> blank_text w' \<Longrightarrow>
    members_text [(k, x)] (w @ quoted kt @ w1 @ CHR '':'' # w2 @ t @ w')"
| more_members: "blank_text w \<Longrightarrow> string_text k kt \<Longrightarrow> blank_text w1 \<Longrightarrow> blank_text w2 \<Longrightarrow>
    value_text x t \<Longrightarrow> blank_text w' \<Longrightarrow> members_text ms u \<Longrightarrow>
    members_text ((k, x) # ms) (w @ quoted kt @ w1 @ CHR '':'' # w2 @ t @ w' @ CHR '','' # u)"

definition json_text :: "json \<Rightarrow> string \<Rightarrow> bool" where
  "json_text j s \<longleftrightarrow> (\<exists>w t w'. s = w @ t @ w' \<and> blank_text w \<and> value_text j t \<and> blank_text w')"

section \<open>What the lexer is going to read\<close>

definition at :: "lexer \<Rightarrow> string \<Rightarrow> bool" where
  "at lx r \<longleftrightarrow>
     (if next_unget lx
      then (case r of [] \<Rightarrow> current lx = EOF \<and> ia lx = [] | c # r' \<Rightarrow> current lx = ord c \<and> ia lx = r')
      else ia lx = r)"

text \<open>With the buffer of the token so far.\<close>

definition got :: "lexer \<Rightarrow> string \<Rightarrow> string \<Rightarrow> bool" where
  "got lx b r \<longleftrightarrow> at lx r \<and> token_buffer lx = b"

text \<open>The current character has been read.\<close>

definition has :: "lexer \<Rightarrow> int \<Rightarrow> string \<Rightarrow> bool" where
  "has lx c r \<longleftrightarrow> current lx = c \<and> \<not> next_unget lx \<and> ia lx = r"

lemma at_init: "at (lexer_init s) s"
  by (simp add: at_def lexer_init_def)

lemma ord_not_EOF [simp]: "ord c \<noteq> EOF"
  using ord_bounds [of c] by linarith

lemma get_at: "at lx (c # r) \<Longrightarrow> has (get lx) (ord c) r"
  by (auto simp: at_def has_def get_fields get_input_def get_character_def split: if_splits)

lemma get_at_end: "at lx [] \<Longrightarrow> has (get lx) EOF []"
  by (auto simp: at_def has_def get_fields get_input_def get_character_def split: if_splits)

lemma has_at: "has lx c r \<Longrightarrow> at lx r"
  by (simp add: has_def at_def)

lemma unget_fields:
  "current (unget lx) = current lx" "ia (unget lx) = ia lx" "next_unget (unget lx)"
  "token_buffer (unget lx) = token_buffer lx"
  by (simp_all add: unget_def Let_def)

lemma unget_at: "has lx (ord c) r \<Longrightarrow> at (unget lx) (c # r)" "has lx EOF [] \<Longrightarrow> at (unget lx) []"
  by (simp_all add: has_def at_def unget_fields)

lemma got_get: "got lx b (c # r) \<Longrightarrow> has (get lx) (ord c) r \<and> got (get lx) b r"
  using get_at [of lx c r] has_at [of "get lx" "ord c" r] by (simp add: got_def get_fields)

lemma got_get_end: "got lx b [] \<Longrightarrow> has (get lx) EOF [] \<and> got (get lx) b []"
  using get_at_end [of lx] has_at [of "get lx" EOF "[]"] by (simp add: got_def get_fields)

lemma got_add: "got lx b r \<Longrightarrow> got (add c lx) (b @ [char_of c]) r"
  by (simp add: got_def add_def at_def cong: list.case_cong)

lemma at_assert [simp]:
  "at (assert_that P lx) r = at lx r" "got (assert_that P lx) b r = got lx b r" "has (assert_that P lx) c r = has lx c r"
  by (simp_all add: at_def got_def has_def split: list.split)

lemma has_reset: "has lx c r \<Longrightarrow> has (reset lx) c r \<and> got (reset lx) [] r"
  by (simp add: has_def got_def at_def reset_def)

section \<open>Strings\<close>

lemma plus_ascii: "0 \<le> cp \<Longrightarrow> cp < 128 \<Longrightarrow> utf8_char cp = [char_of cp]"
  by (simp add: utf8_char_def utf8_codes_def)

lemma hex_codepoint:
  assumes "hex_text n h" and "got lx b (h @ r)"
  shows "\<exists>lx'. get_codepoint lx = (n, lx') \<and> got lx' b r" "0 \<le> n" "n \<le> 0xFFFF"
proof -
  obtain a1 a2 a3 a4 where h: "map (\<lambda>x. hex_value (ord x)) h = [Some a1, Some a2, Some a3, Some a4]"
    and n: "n = a1 * 4096 + a2 * 256 + a3 * 16 + a4" using assms(1) by (auto simp: hex_text_def)
  then obtain h1 h2 h3 h4 where hs: "h = [h1, h2, h3, h4]"
    and v: "hex_value (ord h1) = Some a1" "hex_value (ord h2) = Some a2"
      "hex_value (ord h3) = Some a3" "hex_value (ord h4) = Some a4"
    by (auto simp: map_eq_Cons_conv)
  show "0 \<le> n" "n \<le> 0xFFFF" using v [THEN hex_value_bounds] n by auto
  let ?l = "assert_that (current lx = ord CHR ''u'') lx"
  have 1: "has (get ?l) (ord h1) (h2 # h3 # h4 # r) \<and> got (get ?l) b (h2 # h3 # h4 # r)"
    using assms(2) by (intro got_get) (simp add: hs)
  then have 2: "has (get (get ?l)) (ord h2) (h3 # h4 # r) \<and> got (get (get ?l)) b (h3 # h4 # r)"
    by (intro got_get) simp
  then have 3: "has (get (get (get ?l))) (ord h3) (h4 # r) \<and> got (get (get (get ?l))) b (h4 # r)"
    by (intro got_get) simp
  then have 4: "has (get (get (get (get ?l)))) (ord h4) r \<and> got (get (get (get (get ?l)))) b r"
    by (intro got_get) simp
  show "\<exists>lx'. get_codepoint lx = (n, lx') \<and> got lx' b r"
    using 1 2 3 4 v n by (simp add: get_codepoint_def Let_def has_def push_bit_eq_mult)
qed

lemma add_codepoint_got: "got lx b r \<Longrightarrow> scalar cp \<Longrightarrow> got (add_codepoint cp lx) (b @ utf8_char cp) r"
  by (simp add: add_codepoint_buffer got_def at_def cong: list.case_cong)

lemma scan_unit:
  assumes "hex_text n h" and "\<not> (0xD800 \<le> n \<and> n \<le> 0xDFFF)" and "got lx b (h @ r)"
  shows "\<exists>lx'. scan_unicode lx = Inr lx' \<and> got lx' (b @ utf8_char n) r"
proof -
  obtain lx1 where 1: "get_codepoint lx = (n, lx1)" "got lx1 b r" and n: "0 \<le> n" "n \<le> 0xFFFF"
    using hex_codepoint [OF assms(1,3)] by blast
  have "scalar n" using n assms(2) by (simp add: scalar_def)
  then show ?thesis using 1 n assms(2) add_codepoint_got [OF 1(2)] by (auto simp: scan_unicode_def)
qed

lemma scan_pair:
  assumes "hex_text n h" "0xD800 \<le> n" "n \<le> 0xDBFF"
    and "hex_text n' h'" "0xDC00 \<le> n'" "n' \<le> 0xDFFF"
    and "got lx b (h @ u_escape @ h' @ r)"
  shows "\<exists>lx'. scan_unicode lx = Inr lx' \<and>
    got lx' (b @ utf8_char (0x10000 + (n - 0xD800) * 0x400 + (n' - 0xDC00))) r"
proof -
  let ?cp = "0x10000 + (n - 0xD800) * 0x400 + (n' - 0xDC00)"
  obtain lx1 where 1: "get_codepoint lx = (n, lx1)" "got lx1 b (u_escape @ h' @ r)"
    using hex_codepoint(1) [OF assms(1,7)] by blast
  have 2: "has (get lx1) (ord CHR 0x5C) (CHR ''u'' # h' @ r) \<and> got (get lx1) b (CHR ''u'' # h' @ r)"
    using 1(2) by (intro got_get) simp
  then have 3: "has (get (get lx1)) (ord CHR ''u'') (h' @ r) \<and> got (get (get lx1)) b (h' @ r)"
    by (intro got_get) simp
  then obtain lx4 where 4: "get_codepoint (get (get lx1)) = (n', lx4)" "got lx4 b r"
    using hex_codepoint(1) [OF assms(4), of "get (get lx1)" b r] by blast
  have "push_bit 10 n + n' - 0x35FDC00 = ?cp" by (simp add: push_bit_eq_mult)
  moreover have "scalar ?cp" using assms(2,3,5,6) by (auto simp: scalar_def)
  ultimately show ?thesis
    using 1(1) 2 3 4 assms(2,3,5,6) add_codepoint_got [OF 4(2), of ?cp]
    by (simp add: scan_unicode_def Let_def has_def)
qed

text \<open>The bytes of a scalar value above 127: the lead byte has ranges, and the others are in them.\<close>

lemma div_steps: "(x :: int) div 4096 = x div 64 div 64" "(x :: int) div 262144 = x div 4096 div 64"
  by (simp_all add: zdiv_zmult2_eq [symmetric])

lemma encoded_ranges:
  assumes "scalar cp" "0x80 \<le> cp"
  obtains b bs rs where "utf8_codes cp = b # bs" "0x80 \<le> b" "utf8_ranges b = Some rs" "in_ranges rs bs"
proof -
  consider "cp < 0x800" | "0x800 \<le> cp" "cp < 0x10000" | "0x10000 \<le> cp" by linarith
  then show ?thesis
  proof cases
    case 1
    then show ?thesis using assms
      by (intro that [of "0xC0 + cp div 64" "[0x80 + cp mod 64]" "[(0x80, 0xBF)]"])
         (auto simp: utf8_codes_def utf8_ranges_def in_ranges_cases)
  next
    case 2
    define q m where "q = cp div 4096" and "m = cp div 64 mod 64"
    have q: "0 \<le> q" "q \<le> 15" using 2 by (auto simp: q_def)
    have m: "0 \<le> m" "m < 64" by (simp_all add: m_def)
    have d: "cp div 64 = q * 64 + m" using div_steps(1) by (simp add: q_def m_def)
    have low: "q = 0 \<Longrightarrow> 32 \<le> m" using 2 d by auto
    have "cp = cp div 4096 * 4096 + cp mod 4096" "cp mod 4096 < 4096" by simp_all
    then have "q = 13 \<Longrightarrow> cp < 0xE000" by (simp add: q_def)
    then have sur: "q = 13 \<Longrightarrow> m < 32" using assms 2 d by (auto simp: scalar_def)
    have "q = 0 \<or> q = 13 \<or> 1 \<le> q \<and> q \<le> 12 \<or> q = 14 \<or> q = 15" using q by arith
    then have "\<exists>rs. utf8_ranges (0xE0 + q) = Some rs \<and> in_ranges rs [0x80 + m, 0x80 + cp mod 64]"
      using m low sur by (elim disjE) (auto simp: utf8_ranges_def in_ranges_cases)
    then obtain rs where "utf8_ranges (0xE0 + q) = Some rs" "in_ranges rs [0x80 + m, 0x80 + cp mod 64]"
      by blast
    then show ?thesis using 2 q
      by (intro that [of "0xE0 + q" "[0x80 + m, 0x80 + cp mod 64]" rs])
         (auto simp: utf8_codes_def q_def m_def)
  next
    case 3
    define q m where "q = cp div 262144" and "m = cp div 4096 mod 64"
    have q: "0 \<le> q" "q \<le> 4" using 3 assms by (auto simp: q_def scalar_def)
    have m: "0 \<le> m" "m < 64" by (simp_all add: m_def)
    have d: "cp div 4096 = q * 64 + m" using div_steps(2) by (simp add: q_def m_def)
    have low: "q = 0 \<Longrightarrow> 16 \<le> m" using 3 d by auto
    have high: "q = 4 \<Longrightarrow> m < 16" using assms d by (auto simp: scalar_def)
    have "q = 0 \<or> q = 4 \<or> 1 \<le> q \<and> q \<le> 3" using q by arith
    then have "\<exists>rs. utf8_ranges (0xF0 + q) = Some rs \<and>
        in_ranges rs [0x80 + m, 0x80 + cp div 64 mod 64, 0x80 + cp mod 64]"
      using m low high by (elim disjE) (auto simp: utf8_ranges_def in_ranges_cases)
    then obtain rs where "utf8_ranges (0xF0 + q) = Some rs"
      "in_ranges rs [0x80 + m, 0x80 + cp div 64 mod 64, 0x80 + cp mod 64]" by blast
    then show ?thesis using 3 q
      by (intro that [of "0xF0 + q" "[0x80 + m, 0x80 + cp div 64 mod 64, 0x80 + cp mod 64]" rs])
         (auto simp: utf8_codes_def q_def m_def)
  qed
qed

lemma code_bounds: "in_ranges rs bs \<Longrightarrow> utf8_ranges c = Some rs \<Longrightarrow> \<forall>b \<in> set bs. 0 \<le> b \<and> b < 256"
  by (auto simp: utf8_ranges_def in_ranges_cases split: if_splits)

lemma next_bytes_text:
  "in_ranges rs bs \<Longrightarrow> \<forall>b \<in> set bs. 0 \<le> b \<and> b < 256 \<Longrightarrow> got lx t (map char_of bs @ r) \<Longrightarrow>
     \<exists>lx'. next_bytes rs lx = Inr lx' \<and> got lx' (t @ map char_of bs) r"
proof (induction rs arbitrary: bs lx t)
  case Nil
  then show ?case by (simp add: in_ranges_cases)
next
  case (Cons p rs)
  obtain lo hi where p: "p = (lo, hi)" by fastforce
  obtain b bs' where bs: "bs = b # bs'" "lo \<le> b" "b \<le> hi" "in_ranges rs bs'"
    using Cons.prems(1) by (auto simp: p in_ranges_cases)
  have o: "ord (char_of b :: char) = b" using Cons.prems(2) bs by simp
  have g: "has (get lx) b (map char_of bs' @ r) \<and> got (get lx) t (map char_of bs' @ r)"
    using got_get [of lx t "char_of b" "map char_of bs' @ r"] Cons.prems(3) o by (simp add: bs)
  then have "got (add b (get lx)) (t @ [char_of b]) (map char_of bs' @ r)"
    using got_add by blast
  then show ?case using Cons.IH [of bs' "add b (get lx)" "t @ [char_of b]"] Cons.prems(2) bs g
    by (auto simp: p has_def)
qed

lemma plain_text:
  assumes "scalar cp" "0x20 \<le> cp" "cp \<noteq> 0x22" "cp \<noteq> 0x5C" and "got lx t (utf8_char cp @ r)"
  shows "\<exists>lx'. scan_string_step (get lx) = Some (Inr lx') \<and> got lx' (t @ utf8_char cp) r"
proof (cases "cp < 0x80")
  case True
  then have "utf8_char cp = [char_of cp]" using assms by (simp add: plus_ascii)
  then have g: "has (get lx) cp r \<and> got (get lx) t r"
    using got_get [of lx t "char_of cp" r] assms True by simp
  then show ?thesis using got_add [of "get lx" t r cp] assms True \<open>utf8_char cp = _\<close>
    by (auto simp: scan_string_step_def scan_plain_def has_def)
next
  case False
  then obtain b bs rs where c: "utf8_codes cp = b # bs" "0x80 \<le> b" "utf8_ranges b = Some rs" "in_ranges rs bs"
    using encoded_ranges [of cp] assms by auto
  have b: "b < 256" using c(3) by (auto simp: utf8_ranges_def split: if_splits)
  have g: "has (get lx) b (map char_of bs @ r) \<and> got (get lx) t (map char_of bs @ r)"
    using got_get [of lx t "char_of b" "map char_of bs @ r"] assms(5) c b
    by (simp add: utf8_char_def)
  let ?l = "assert_that (2 * length rs \<in> {2, 4, 6}) (get lx)"
  have "got (add b ?l) (t @ [char_of b]) (map char_of bs @ r)" using g got_add [of ?l] by simp
  then obtain lx' where "next_bytes rs (add b ?l) = Inr lx'" "got lx' (t @ [char_of b] @ map char_of bs) r"
    using next_bytes_text [OF c(4) code_bounds [OF c(4,3)]] by fastforce
  moreover have "\<not> b \<le> 127" using c(2) by simp
  ultimately show ?thesis using g c
    by (simp add: scan_string_step_def scan_plain_def has_def utf8_char_def next_byte_in_range_def)
qed

lemma char_text_step:
  assumes "char_text c t" and "got lx b (t @ r)"
  shows "\<exists>lx'. scan_string_step (get lx) = Some (Inr lx') \<and> got lx' (b @ c) r"
proof -
  have slash: "has (get lx) (ord CHR 0x5C) r' \<and> got (get lx) b r'" if "got lx b (CHR 0x5C # r')" for r'
    using that by (rule got_get)
  have esc: "scan_string_step (get lx) = Some (scan_escape (get lx))" if "has (get lx) (ord CHR 0x5C) r'" for r'
    using that by (simp add: scan_string_step_def has_def)
  have u: "scan_escape (get lx) = scan_unicode (get (get lx)) \<and> got (get (get lx)) b r'"
    if "got lx b (u_escape @ r')" for r'
    using slash [of "CHR ''u'' # r'"] that got_get [of "get lx" b "CHR ''u''" r']
    by (auto simp: scan_escape_def has_def escaped_def)
  show ?thesis using assms(1)
  proof cases
    case (plain cp)
    then show ?thesis using plain_text assms(2) by blast
  next
    case (short x v)
    then have 1: "has (get lx) (ord CHR 0x5C) (x # r) \<and> got (get lx) b (x # r)"
      using assms(2) by (intro got_get) simp
    then have "has (get (get lx)) (ord x) r \<and> got (get (get lx)) b r" by (intro got_get) simp
    then show ?thesis using short 1 esc [of "x # r"] got_add [of "get (get lx)" b r v]
      by (simp add: scan_escape_def has_def)
  next
    case (unit n h)
    then have "got lx b (u_escape @ h @ r)" using assms(2) by simp
    then show ?thesis using unit u scan_unit [OF unit(3,4)] esc slash [of "CHR ''u'' # h @ r"] by fastforce
  next
    case (pair n h n' h')
    then have "got lx b (u_escape @ h @ u_escape @ h' @ r)" using assms(2) by simp
    then show ?thesis using pair u scan_pair [OF pair(3-8)] esc slash [of "CHR ''u'' # h @ u_escape @ h' @ r"]
      by fastforce
  qed
qed

lemma string_loop_text:
  "string_text s t \<Longrightarrow> got lx b (t @ CHR 0x22 # r) \<Longrightarrow>
     \<exists>lx'. scan_string_loop lx = (Value_string, lx') \<and> got lx' (b @ s) r"
proof (induction s t arbitrary: lx b rule: string_text.induct)
  case end_string
  then have "has (get lx) (ord CHR 0x22) r \<and> got (get lx) b r" by (intro got_get) simp
  then show ?case by (subst scan_string_loop.simps) (simp add: scan_string_step_def has_def)
next
  case (next_char c t s u)
  obtain lx1 where 1: "scan_string_step (get lx) = Some (Inr lx1)" "got lx1 (b @ c) (u @ CHR 0x22 # r)"
    using char_text_step [OF next_char.hyps(1), of lx b] next_char.prems by auto
  then show ?case using next_char.IH [OF 1(2)]
    by (subst scan_string_loop.simps) simp
qed

lemma scan_string_text:
  assumes "string_text s t" and "has lx c (t @ CHR 0x22 # r)"
  shows "\<exists>lx'. scan_string lx = (Value_string, lx') \<and> got lx' s r"
  using string_loop_text [OF assms(1), of "assert_that (current lx = ord CHR 0x22) (reset lx)" "[]" r]
    has_reset [OF assms(2)]
  by (simp add: scan_string_def Let_def)

section \<open>Numbers\<close>

lemma ord_nat: "ord c = int (of_char c)"
  by (simp only: of_nat_of_char)

lemma digit_ord: "is_digit c \<longleftrightarrow> digit_code (ord c)"
  unfolding is_digit_def digit_code_def ord_nat by simp

text \<open>What can follow a number: white space or a character that closes or separates.\<close>

definition stops :: "string \<Rightarrow> bool" where
  "stops r \<longleftrightarrow> (\<forall>c r'. r = c # r' \<longrightarrow> is_ws (ord c) \<or> c \<in> {CHR '','', CHR '']'', CHR ''}''})"

text \<open>The value a token carries.\<close>

fun token_json :: "token_type \<Rightarrow> lexer \<Rightarrow> json" where
  "token_json Literal_true lx = JBoolean True"
| "token_json Literal_false lx = JBoolean False"
| "token_json Value_string lx = JString (token_buffer lx)"
| "token_json Value_unsigned lx = JUnsigned (value_unsigned lx)"
| "token_json Value_integer lx = JInteger (value_integer lx)"
| "token_json Value_float lx = JFloat (value_float lx)"
| "token_json t lx = JNull"

definition value_tokens :: "token_type set" where
  "value_tokens = {Literal_true, Literal_false, Literal_null, Value_string, Value_unsigned,
     Value_integer, Value_float}"

definition num_json :: "token_type \<Rightarrow> string \<Rightarrow> json" where
  "num_json ty b =
     (if ty = Value_unsigned \<and> \<not> snd (strtoull b) then JUnsigned (fst (strtoull b))
      else if ty = Value_integer \<and> \<not> snd (strtoll b) then JInteger (fst (strtoll b))
      else JFloat (strtod b))"

definition scans :: "token_type \<times> lexer \<Rightarrow> json \<Rightarrow> string \<Rightarrow> bool" where
  "scans q j r \<longleftrightarrow> fst q \<in> value_tokens \<and> token_json (fst q) (snd q) = j \<and> at (snd q) r"

lemma stops_code: "stops (c # r) \<Longrightarrow> \<not> digit_code (ord c) \<and> ord c \<noteq> 46 \<and> \<not> exp_code (ord c)"
  by (auto simp: stops_def is_ws_def digit_code_def exp_code_def)

lemma at_after: "has lx (ord c) r \<Longrightarrow> at (unget lx) (c # r)" "has lx EOF [] \<Longrightarrow> at (unget lx) []"
  by (rule unget_at, assumption)+

text \<open>The character after a number is read and given back.\<close>

definition peeks :: "lexer \<Rightarrow> string \<Rightarrow> bool" where
  "peeks lx r \<longleftrightarrow> (case r of [] \<Rightarrow> has lx EOF [] | c # r' \<Rightarrow> has lx (ord c) r')"

lemma got_peeks: "got lx b r \<Longrightarrow> peeks (get lx) r \<and> token_buffer (get lx) = b"
  using got_get [of lx b] got_get_end [of lx b]
  by (cases r) (auto simp: peeks_def got_def)

lemma scan_number_done_text:
  assumes "peeks lx r" "token_buffer lx = b"
  shows "scans (scan_number_done ty lx) (num_json ty b) r"
proof -
  have "at (unget lx) r" using assms(1) unget_at by (cases r) (auto simp: peeks_def)
  moreover have "at (l\<lparr> value_unsigned := u \<rparr>) r = at l r" "at (l\<lparr> value_integer := i \<rparr>) r = at l r"
    "at (l\<lparr> value_float := f \<rparr>) r = at l r" for l u i f
    by (simp_all add: at_def cong: list.case_cong)
  ultimately show ?thesis using assms(2)
    by (simp add: scan_number_done_def num_json_def scans_def value_tokens_def unget_fields Let_def
        split: prod.split)
qed

lemma peeks_stops:
  assumes "peeks lx r" "stops r"
  shows "\<not> digit_code (current lx)" "current lx \<noteq> 46" "\<not> exp_code (current lx)"
  using assms stops_code by (cases r; auto simp: peeks_def has_def exp_code_def)+

text \<open>The three loops over digits.\<close>

lemma digits_step:
  assumes "is_digit c" "got lx b (c # r)"
  shows "digit_code (current (get lx))" "got (add (current (get lx)) (get lx)) (b @ [c]) r"
  using got_get [OF assms(2)] got_add [of "get lx" b r "ord c"] assms(1)
  by (auto simp: has_def digit_ord)

lemma any2_digits:
  "\<forall>c \<in> set ds. is_digit c \<Longrightarrow> got lx b (ds @ r) \<Longrightarrow>
     \<exists>lx'. scan_number_any2 ty lx = scan_number_any2 ty lx' \<and> got lx' (b @ ds) r"
proof (induction ds arbitrary: lx b)
  case (Cons d ds)
  then show ?case using digits_step [of d lx b "ds @ r"] Cons.IH [of "add (current (get lx)) (get lx)" "b @ [d]"]
    by (subst scan_number_any2.simps) (auto simp: Let_def)
qed auto

lemma decimal2_digits:
  "\<forall>c \<in> set ds. is_digit c \<Longrightarrow> got lx b (ds @ r) \<Longrightarrow>
     \<exists>lx'. scan_number_decimal2 ty lx = scan_number_decimal2 ty lx' \<and> got lx' (b @ ds) r"
proof (induction ds arbitrary: lx b)
  case (Cons d ds)
  then show ?case using digits_step [of d lx b "ds @ r"] Cons.IH [of "add (current (get lx)) (get lx)" "b @ [d]"]
    by (subst scan_number_decimal2.simps) (auto simp: Let_def)
qed auto

lemma any1_digits:
  "\<forall>c \<in> set ds. is_digit c \<Longrightarrow> got lx b (ds @ r) \<Longrightarrow>
     \<exists>lx'. scan_number_any1 ty lx = scan_number_any1 ty lx' \<and> got lx' (b @ ds) r"
proof (induction ds arbitrary: lx b)
  case (Cons d ds)
  then show ?case using digits_step [of d lx b "ds @ r"] Cons.IH [of "add (current (get lx)) (get lx)" "b @ [d]"]
    by (subst scan_number_any1.simps) (auto simp: Let_def)
qed auto

lemma any2_text:
  assumes "\<forall>c \<in> set ds. is_digit c" "stops r" "got lx b (ds @ r)"
  shows "scans (scan_number_any2 ty lx) (num_json ty (b @ ds)) r"
proof -
  obtain lx' where 1: "scan_number_any2 ty lx = scan_number_any2 ty lx'" "got lx' (b @ ds) r"
    using any2_digits [OF assms(1,3)] by blast
  note p = got_peeks [OF 1(2)]
  show ?thesis using 1(1) p peeks_stops [OF _ assms(2)] scan_number_done_text [of "get lx'" r "b @ ds" ty]
    by (subst (asm) scan_number_any2.simps [of ty lx']) (auto simp: Let_def)
qed

lemma digits_Cons: "digits ds \<longleftrightarrow> (\<exists>d ds'. ds = d # ds' \<and> is_digit d \<and> (\<forall>c \<in> set ds'. is_digit c))"
  by (cases ds) (auto simp: digits_def)

lemma exponent_text:
  assumes "sg \<in> {[], ''+'', ''-''}" "digits ds" "stops r" "got lx b (sg @ ds @ r)"
  shows "scans (scan_number_exponent lx) (num_json Value_float (b @ sg @ ds)) r"
proof -
  obtain d ds' where ds: "ds = d # ds'" "is_digit d" "\<forall>c \<in> set ds'. is_digit c"
    using assms(2) by (auto simp: digits_Cons)
  show ?thesis
  proof (cases sg)
    case Nil
    then have g: "got lx b (d # ds' @ r)" using assms(4) by (simp add: ds)
    note st = digits_step [OF ds(2) g]
    moreover have "current (get lx) = ord d" using got_get [OF g] by (simp add: has_def)
    moreover have "d \<noteq> CHR ''+''" "d \<noteq> CHR ''-''" using digit_not_sign [OF ds(2)] by auto
    ultimately show ?thesis using any2_text [OF ds(3) assms(3) st(2)] Nil
      by (auto simp: scan_number_exponent_def Let_def ds digit_code_def)
  next
    case (Cons s t)
    then have t: "t = []" "s = CHR ''+'' \<or> s = CHR ''-''" using assms(1) by auto
    then have g: "got lx b (s # d # ds' @ r)" using assms(4) Cons by (simp add: ds)
    have c: "current (get lx) = ord s" and g2: "got (add (ord s) (get lx)) (b @ [s]) (d # ds' @ r)"
      using got_get [OF g] got_add [of "get lx" b "d # ds' @ r" "ord s"] by (auto simp: has_def)
    note st = digits_step [OF ds(2) g2]
    show ?thesis using any2_text [OF ds(3) assms(3) st(2)] st(1) Cons t c
      by (auto simp: scan_number_exponent_def scan_number_sign_def Let_def ds)
  qed
qed

text \<open>After the digits of the fraction, and after those of the integer part.\<close>

lemma exp_head:
  assumes "exp_part x" "x \<noteq> []" "stops r" "got lx b (x @ r)"
  shows "exp_code (current (get lx))"
    "scans (scan_number_exponent (add (current (get lx)) (get lx))) (num_json Value_float (b @ x)) r"
proof -
  obtain e sg ds where x: "x = e # sg @ ds" "e \<in> {CHR ''e'', CHR ''E''}" "sg \<in> {[], ''+'', ''-''}" "digits ds"
    using assms(1,2) by (auto simp: exp_part_def)
  have g: "has (get lx) (ord e) (sg @ ds @ r) \<and> got (get lx) b (sg @ ds @ r)"
    using assms(4) by (intro got_get) (simp add: x)
  then show "exp_code (current (get lx))" using x(2) by (auto simp: has_def exp_code_def)
  have "got (add (ord e) (get lx)) (b @ [e]) (sg @ ds @ r)" using g got_add [of "get lx" b _ "ord e"] by simp
  then show "scans (scan_number_exponent (add (current (get lx)) (get lx))) (num_json Value_float (b @ x)) r"
    using exponent_text [OF x(3,4) assms(3), of "add (ord e) (get lx)" "b @ [e]"] g
    by (simp add: x(1) has_def)
qed

lemma exp_code_facts: "exp_code c \<Longrightarrow> \<not> digit_code c \<and> c \<noteq> 46"
  by (auto simp: exp_code_def digit_code_def)

lemma decimal2_text:
  assumes "\<forall>c \<in> set ds. is_digit c" "exp_part x" "stops r" "got lx b (ds @ x @ r)"
  shows "scans (scan_number_decimal2 Value_float lx) (num_json Value_float (b @ ds @ x)) r"
proof -
  obtain lx' where 1: "scan_number_decimal2 Value_float lx = scan_number_decimal2 Value_float lx'" "got lx' (b @ ds) (x @ r)"
    using decimal2_digits [OF assms(1,4)] by blast
  show ?thesis
  proof (cases "x = []")
    case True
    then show ?thesis using 1 got_peeks [OF 1(2)] peeks_stops [OF _ assms(3)]
        scan_number_done_text [of "get lx'" r "b @ ds" Value_float]
      by (subst (asm) scan_number_decimal2.simps [of _ lx']) (auto simp: Let_def)
  next
    case False
    note e = exp_head [OF assms(2) False assms(3) 1(2)]
    then show ?thesis using 1(1) exp_code_facts [OF e(1)]
      by (subst (asm) scan_number_decimal2.simps [of _ lx']) (auto simp: Let_def)
  qed
qed

lemma frac_head:
  assumes "frac_part f" "f \<noteq> []" "exp_part x" "stops r" "got lx b (f @ x @ r)"
  shows "current (get lx) = 46"
    "scans (scan_number_decimal1 (add 46 (get lx))) (num_json Value_float (b @ f @ x)) r"
proof -
  obtain d ds where f: "f = CHR ''.'' # d # ds" "is_digit d" "\<forall>c \<in> set ds. is_digit c"
    using assms(1,2) by (auto simp: frac_part_def digits_Cons)
  have g: "has (get lx) (ord CHR ''.'') (d # ds @ x @ r) \<and> got (get lx) b (d # ds @ x @ r)"
    using assms(5) by (intro got_get) (simp add: f)
  then show "current (get lx) = 46" by (simp add: has_def)
  have g2: "got (add 46 (get lx)) (b @ ''.'') (d # ds @ x @ r)"
    using g got_add [of "get lx" b _ 46] by (simp add: char_of_def)
  show "scans (scan_number_decimal1 (add 46 (get lx))) (num_json Value_float (b @ f @ x)) r"
    using digits_step [OF f(2) g2] decimal2_text [OF f(3) assms(3,4), of _ "b @ ''.'' @ [d]"]
    by (simp add: scan_number_decimal1_def Let_def f)
qed

text \<open>The type of a number that has nothing after its integer part.\<close>

definition final_type :: "token_type \<Rightarrow> string \<Rightarrow> token_type" where
  "final_type ty rest = (if rest = [] then ty else Value_float)"

lemma after_int_part:
  assumes "frac_part f" "exp_part x" "stops r" "got lx b (f @ x @ r)"
    and "\<And>l. S l = (if current (get l) = 46 then scan_number_decimal1 (add (current (get l)) (get l))
                 else if exp_code (current (get l)) then scan_number_exponent (add (current (get l)) (get l))
                 else scan_number_done ty (get l)) \<or> digit_code (current (get l))"
  shows "digit_code (current (get lx)) \<or> scans (S lx) (num_json (final_type ty (f @ x)) (b @ f @ x)) r"
proof (cases "f = []")
  case False
  then show ?thesis using frac_head [OF assms(1) False assms(2-4)] assms(5) [of lx]
    by (auto simp: final_type_def)
next
  case f: True
  show ?thesis
  proof (cases "x = []")
    case False
    have g: "got lx b (x @ r)" using assms(4) f by simp
    note e = exp_head [OF assms(2) False assms(3) g]
    then show ?thesis using assms(5) [of lx] exp_code_facts [OF e(1)] f False by (auto simp: final_type_def)
  next
    case True
    have g: "got lx b r" using assms(4) f True by simp
    show ?thesis using assms(5) [of lx] got_peeks [OF g] peeks_stops [OF _ assms(3)] f True
        scan_number_done_text [of "get lx" r b ty] by (auto simp: final_type_def)
  qed
qed

lemma any1_text:
  assumes "\<forall>c \<in> set ds. is_digit c" "frac_part f" "exp_part x" "stops r" "got lx b (ds @ f @ x @ r)"
  shows "scans (scan_number_any1 ty lx) (num_json (final_type ty (f @ x)) (b @ ds @ f @ x)) r"
proof -
  obtain lx' where 1: "scan_number_any1 ty lx = scan_number_any1 ty lx'" "got lx' (b @ ds) (f @ x @ r)"
    using any1_digits [OF assms(1,5)] by blast
  have "\<not> digit_code (current (get lx'))"
    using frac_head(1) [OF assms(2) _ assms(3,4) 1(2)] exp_head(1) [OF assms(3) _ assms(4), of lx' "b @ ds"]
      peeks_stops(1) [OF _ assms(4), of "get lx'"] got_peeks [of lx' "b @ ds" r] 1(2) exp_code_facts
    by (cases "f = []"; cases "x = []") auto
  then show ?thesis
    using after_int_part [OF assms(2-4) 1(2), of "scan_number_any1 ty" ty] 1(1)
    by (subst (asm) (2) scan_number_any1.simps) (auto simp: Let_def scan_number_any1.simps)
qed

lemma zero_text:
  assumes "frac_part f" "exp_part x" "stops r" "got lx b (f @ x @ r)"
  shows "scans (scan_number_zero ty lx) (num_json (final_type ty (f @ x)) (b @ f @ x)) r"
proof -
  have "\<not> digit_code (current (get lx))"
    using frac_head(1) [OF assms(1) _ assms(2-4)] exp_head(1) [OF assms(2) _ assms(3), of lx b]
      peeks_stops(1) [OF _ assms(3), of "get lx"] got_peeks [of lx b r] assms(4) exp_code_facts
    by (cases "f = []"; cases "x = []") auto
  then show ?thesis
    using after_int_part [OF assms, of "scan_number_zero ty" ty]
    by (auto simp: Let_def scan_number_zero_def)
qed

lemma int_part_cases:
  assumes "int_part ip"
  obtains "ip = ''0''" | d ds where "ip = d # ds" "nonzero_code (ord d)" "\<forall>c \<in> set ds. is_digit c"
proof (cases "ip = ''0''")
  case False
  then obtain d ds where d: "ip = d # ds" "is_digit d" "\<forall>c \<in> set ds. is_digit c" "d \<noteq> CHR ''0''"
    using assms by (auto simp: int_part_def digits_Cons)
  then have "ord d \<noteq> ord CHR ''0''" by (simp only: of_char_eq_iff not_False_eq_True)
  then have "nonzero_code (ord d)" using d(2) by (simp add: digit_ord digit_code_def nonzero_code_def)
  then show ?thesis using that(2) d by blast
qed (rule that(1))

definition int_type :: "bool \<Rightarrow> token_type" where
  "int_type neg = (if neg then Value_integer else Value_unsigned)"

lemma nonzero_digit: "nonzero_code c \<Longrightarrow> c \<noteq> 48 \<and> c \<noteq> 45 \<and> digit_code c"
  by (auto simp: nonzero_code_def digit_code_def)

lemma scan_number_text:
  assumes "int_part ip" "frac_part f" "exp_part x" "stops r"
    and "t = minus_sign neg @ ip @ f @ x" "t @ r = c # u" "has lx (ord c) u"
  shows "scans (scan_number lx) (num_json (final_type (int_type neg) (f @ x)) t) r"
proof -
  have start: "current (reset lx) = ord c" "got (add (ord c) (reset lx)) [c] u"
    using has_reset [OF assms(7)] got_add [of "reset lx" "[]" u "ord c"] by (auto simp: has_def)
  show ?thesis using assms(1)
  proof (cases rule: int_part_cases)
    case 1
    show ?thesis
    proof (cases neg)
      case True
      then have u: "c = CHR ''-''" "u = CHR ''0'' # f @ x @ r" using assms(5,6) 1 by (auto simp: minus_sign_def)
      let ?l = "add (ord c) (reset lx)"
      have g: "has (get ?l) (ord CHR ''0'') (f @ x @ r) \<and> got (get ?l) [c] (f @ x @ r)"
        using start(2) by (intro got_get) (simp add: u)
      then have "got (add 48 (get ?l)) ''-0'' (f @ x @ r)"
        using got_add [of "get ?l" "[c]" _ 48] by (simp add: u char_of_def)
      then show ?thesis using zero_text [OF assms(2-4), of _ "''-0''" Value_integer] start(1) g assms(5) 1 True
        by (simp add: scan_number_def scan_number_minus_def Let_def u has_def int_type_def minus_sign_def)
    next
      case False
      then have u: "c = CHR ''0''" "u = f @ x @ r" using assms(5,6) 1 by (auto simp: minus_sign_def)
      then show ?thesis using zero_text [OF assms(2-4), of _ "''0''" Value_unsigned] start assms(5) 1 False
        by (simp add: scan_number_def Let_def int_type_def minus_sign_def)
    qed
  next
    case (2 d ds)
    show ?thesis
    proof (cases neg)
      case True
      then have u: "c = CHR ''-''" "u = d # ds @ f @ x @ r" using assms(5,6) 2 by (auto simp: minus_sign_def)
      let ?l = "add (ord c) (reset lx)"
      have g: "has (get ?l) (ord d) (ds @ f @ x @ r) \<and> got (get ?l) [c] (ds @ f @ x @ r)"
        using start(2) by (intro got_get) (simp add: u)
      then have "got (add (ord d) (get ?l)) [c, d] (ds @ f @ x @ r)"
        using got_add [of "get ?l" "[c]" _ "ord d"] by simp
      then show ?thesis using any1_text [OF 2(3) assms(2-4), of _ "[c, d]" Value_integer] start(1) g assms(5) 2 True
          nonzero_digit [OF 2(2)]
        by (simp add: scan_number_def scan_number_minus_def Let_def u has_def int_type_def minus_sign_def)
    next
      case False
      then have u: "c = d" "u = ds @ f @ x @ r" using assms(5,6) 2 by (auto simp: minus_sign_def)
      then show ?thesis using any1_text [OF 2(3) assms(2-4), of _ "[d]" Value_unsigned] start assms(5) 2 False
          nonzero_digit [OF 2(2)]
        by (simp add: scan_number_def Let_def int_type_def minus_sign_def)
    qed
  qed
qed

text \<open>The conversions of the C library on the texts of integers.\<close>

lemma scan_digits_all: "digits ds \<Longrightarrow> scan_digits ds = Some (digits_val ds, [])"
proof -
  assume d: "digits ds"
  then have "takeWhile is_digit ds = ds \<and> dropWhile is_digit ds = []"
    using takeWhile_digits [of ds "[]"] by (simp add: digits_def)
  then show ?thesis using d by (cases ds) (simp_all only: scan_digits_def digits_def list.case simp_thms)
qed

lemma scan_d_digits:
  assumes "digits ds"
  shows "scan_d ds = Some (digits_val ds, [])" "scan_d (CHR ''-'' # ds) = Some (- digits_val ds, [])"
proof -
  obtain d ds' where d: "ds = d # ds'" "is_digit d" using assms by (auto simp: digits_Cons)
  show "scan_d ds = Some (digits_val ds, [])"
    using scan_digits_all [OF assms] d digit_not_space digit_not_sign by (simp add: scan_d_def)
  show "scan_d (CHR ''-'' # ds) = Some (- digits_val ds, [])"
    using scan_digits_all [OF assms] by (simp add: scan_d_def is_space_def Let_def)
qed

lemma digits_val_nonneg: "\<forall>c \<in> set ds. is_digit c \<Longrightarrow> 0 \<le> digits_val ds"
  by (induction ds rule: rev_induct) (auto simp: digits_val_def is_digit_def digit_val_def)

lemma int_part_digits: "int_part ip \<Longrightarrow> digits ip"
  by (auto simp: int_part_def digits_def is_digit_def)

lemma num_json_number:
  assumes "int_part ip"
  shows "num_json (final_type (int_type neg) rest) (minus_sign neg @ ip @ rest) = number_json neg ip rest"
proof (cases "rest = []")
  case True
  have d: "digits ip" "0 \<le> digits_val ip"
    using int_part_digits [OF assms] digits_val_nonneg by (auto simp: digits_def)
  have "digits_val ip mod 18446744073709551616 = digits_val ip" if "inu64 (digits_val ip)"
    using that by (simp add: inu64_def)
  then show ?thesis using True scan_d_digits [OF d(1)] d(2)
    by (auto simp: num_json_def final_type_def int_type_def minus_sign_def number_json_def strtoull_def strtoll_def)
qed (auto simp: num_json_def final_type_def number_json_def)

section \<open>White space, literals and tokens\<close>

lemma ws_ord: "is_ws (ord c) \<Longrightarrow> ord c \<noteq> 0xEF"
  by (auto simp: is_ws_def)

lemma skip_whitespace_text:
  "blank_text w \<Longrightarrow> at lx (w @ c # r) \<Longrightarrow> \<not> is_ws (ord c) \<Longrightarrow> has (skip_whitespace lx) (ord c) r"
proof (induction w arbitrary: lx)
  case Nil
  then show ?case using get_at [of lx c r] by (subst skip_whitespace.simps) (simp add: has_def Let_def)
next
  case (Cons x w)
  then have "has (get lx) (ord x) (w @ c # r)" by (intro get_at) simp
  then show ?case using Cons has_at by (subst skip_whitespace.simps) (simp add: has_def blank_text_def Let_def at_def)
qed

lemma skip_whitespace_end: "blank_text w \<Longrightarrow> at lx w \<Longrightarrow> has (skip_whitespace lx) EOF []"
proof (induction w arbitrary: lx)
  case Nil
  then show ?case using get_at_end [of lx]
    by (subst skip_whitespace.simps) (simp add: has_def Let_def is_ws_def)
next
  case (Cons x w)
  then have "has (get lx) (ord x) w" by (intro get_at) simp
  then show ?case using Cons has_at by (subst skip_whitespace.simps) (simp add: has_def blank_text_def Let_def at_def)
qed

text \<open>No token begins with the first byte of the byte order mark, so that nothing is skipped.\<close>

lemma skip_bom_text:
  assumes "at lx r" and "\<forall>c r'. r = c # r' \<longrightarrow> ord c \<noteq> 0xEF"
  shows "fst (skip_bom lx)" "at (snd (skip_bom lx)) r"
proof -
  have "fst (skip_bom lx) \<and> at (snd (skip_bom lx)) r"
  proof (cases r)
    case Nil
    then have g: "has (get lx) EOF []" using assms(1) get_at_end by simp
    then show ?thesis using unget_at(2) [OF g] Nil by (simp add: skip_bom_def Let_def has_def)
  next
    case (Cons c r')
    then have g: "has (get lx) (ord c) r'" using assms(1) get_at by simp
    then show ?thesis using unget_at(1) [OF g] assms(2) Cons by (simp add: skip_bom_def Let_def has_def)
  qed
  then show "fst (skip_bom lx)" "at (snd (skip_bom lx)) r" by simp_all
qed

lemma scan_text:
  assumes "blank_text w" "at lx (w @ c # r)" "\<not> is_ws (ord c)" "ord c \<noteq> 0xEF"
  shows "\<exists>lx'. scan lx = scan_token lx' \<and> has lx' (ord c) r"
proof -
  have "\<forall>d r'. w @ c # r = d # r' \<longrightarrow> ord d \<noteq> 0xEF"
    using assms(1,4) ws_ord by (cases w) (auto simp: blank_text_def)
  note b = skip_bom_text [OF assms(2) this]
  then show ?thesis using skip_whitespace_text [OF assms(1) _ assms(3)] assms(2)
    by (cases "chars_read_total (position lx) = 0") (auto simp: scan_def split: prod.split)
qed

lemma scan_end_text:
  assumes "blank_text w" "at lx w"
  shows "fst (scan lx) = End_of_input"
proof -
  have "\<forall>d r'. w = d # r' \<longrightarrow> ord d \<noteq> 0xEF"
    using assms(1) ws_ord by (auto simp: blank_text_def)
  note b = skip_bom_text [OF assms(2) this]
  have "fst (scan_token l) = End_of_input" if "has l EOF []" for l
    using that by (simp add: scan_token_def has_def digit_code_def)
  then show ?thesis using skip_whitespace_end [OF assms(1)] b assms(2)
    by (cases "chars_read_total (position lx) = 0") (auto simp: scan_def split: prod.split)
qed

lemma scan_literal_text:
  "at lx (cs @ r) \<Longrightarrow> \<exists>lx'. scan_literal_loop cs t lx = (t, lx') \<and> at lx' r"
proof (induction cs arbitrary: lx)
  case (Cons c cs)
  then have "has (get lx) (ord c) (cs @ r)" by (intro get_at) simp
  then show ?case using Cons.IH [of "get lx"] has_at by (auto simp: has_def Let_def at_def)
qed simp

text \<open>The punctuation.\<close>

definition mark_token :: "char \<Rightarrow> token_type" where
  "mark_token c =
     (if c = CHR ''['' then Begin_array else if c = CHR '']'' then End_array
      else if c = CHR ''{'' then Begin_object else if c = CHR ''}'' then End_object
      else if c = CHR '':'' then Name_separator else Value_separator)"

definition mark :: "char \<Rightarrow> bool" where
  "mark c \<longleftrightarrow> c \<in> {CHR ''['', CHR '']'', CHR ''{'', CHR ''}'', CHR '':'', CHR '',''}"

lemma scan_mark:
  assumes "blank_text w" "at lx (w @ c # r)" "mark c"
  shows "\<exists>lx'. scan lx = (mark_token c, lx') \<and> at lx' r"
proof -
  have "\<not> is_ws (ord c)" "ord c \<noteq> 0xEF" using assms(3) by (auto simp: mark_def is_ws_def)
  then obtain lx' where "scan lx = scan_token lx'" "has lx' (ord c) r"
    using scan_text [OF assms(1,2)] by blast
  moreover from this have "scan_token lx' = (mark_token c, lx')"
    using assms(3) unfolding mark_def has_def
    by (elim insertE emptyE) (simp_all add: scan_token_def mark_token_def)
  ultimately show ?thesis using has_at by auto
qed

text \<open>A key or any other string.\<close>

lemma scan_quoted:
  assumes "blank_text w" "at lx (w @ quoted t @ r)" "string_text s t"
  shows "\<exists>lx'. scan lx = (Value_string, lx') \<and> at lx' r \<and> token_buffer lx' = s"
proof -
  obtain lx' where 1: "scan lx = scan_token lx'" "has lx' 0x22 (t @ CHR 0x22 # r)"
    using scan_text [OF assms(1), of lx "CHR 0x22" "t @ CHR 0x22 # r"] assms(2)
    by (auto simp: is_ws_def)
  then show ?thesis using scan_string_text [OF assms(3) 1(2)]
    by (auto simp: scan_token_def has_def got_def digit_code_def)
qed

lemma scan_literal_word:
  assumes "blank_text w" "at lx (w @ cs @ r)"
    and "(cs, t) \<in> {(''true'', Literal_true), (''false'', Literal_false), (''null'', Literal_null)}"
  shows "\<exists>lx'. scan lx = (t, lx') \<and> at lx' r"
proof -
  have lit: "\<exists>lx'. scan lx = (t, lx') \<and> at lx' r"
    if c: "ord c \<noteq> 0xEF" "\<not> is_ws (ord c)" "at lx (w @ c # cs' @ r)"
      and t: "\<And>l. current l = ord c \<Longrightarrow> scan_token l = scan_literal_loop cs' t l" for c cs'
  proof -
    obtain lx' where 1: "scan lx = scan_token lx'" "has lx' (ord c) (cs' @ r)"
      using scan_text [OF assms(1) c(3,2,1)] by blast
    then show ?thesis using scan_literal_text [OF has_at [OF 1(2)], of t] t [of lx'] by (simp add: has_def)
  qed
  from assms(3) consider "cs = ''true''" "t = Literal_true" | "cs = ''false''" "t = Literal_false"
    | "cs = ''null''" "t = Literal_null" by auto
  then show ?thesis
  proof cases
    case 1
    then show ?thesis using assms(2)
      by (intro lit [of "CHR ''t''" "''rue''"]) (simp_all add: is_ws_def scan_token_def scan_literal_def)
  next
    case 2
    then show ?thesis using assms(2)
      by (intro lit [of "CHR ''f''" "''alse''"]) (simp_all add: is_ws_def scan_token_def scan_literal_def)
  next
    case 3
    then show ?thesis using assms(2)
      by (intro lit [of "CHR ''n''" "''ull''"]) (simp_all add: is_ws_def scan_token_def scan_literal_def)
  qed
qed

lemma scan_numeral:
  assumes "int_part ip" "frac_part f" "exp_part x" "stops r" "blank_text w"
    and "at lx (w @ minus_sign neg @ ip @ f @ x @ r)"
  shows "scans (scan lx) (number_json neg ip (f @ x)) r"
proof -
  obtain c u where c: "(minus_sign neg @ ip @ f @ x) @ r = c # u" "ord c = 45 \<or> digit_code (ord c)"
    using int_part_digits [OF assms(1)] by (cases neg) (auto simp: minus_sign_def digits_Cons digit_ord)
  have n: "ord c \<noteq> 0xEF" "\<not> is_ws (ord c)" using c(2) by (auto simp: digit_code_def is_ws_def)
  obtain lx' where 1: "scan lx = scan_token lx'" "has lx' (ord c) u"
    using scan_text [OF assms(5) _ n(2,1), of lx u] assms(6) c(1) by auto
  have "scan_token lx' = scan_number lx'"
    using c(2) 1(2) by (auto simp: scan_token_def has_def digit_code_def)
  then show ?thesis using scan_number_text [OF assms(1-4) refl c(1) 1(2)] num_json_number [OF assms(1)] 1(1)
    by simp
qed

end
