(* ===== verification/Json_Compact.thy ===== *)
theory Json_Compact
  imports Json_Grammar
begin

text \<open>
  Texts of the grammar that are easy to name: the decimal digits of an integer, a string that needs no
  escape, and the compact text of a value made of them. They give the concrete texts of the
  witnesses, and the numbers that \<open>dump\<close> writes.
\<close>

lemma blank_Nil [simp]: "blank_text []"
  by (simp add: blank_text_def)

lemmas text_intros = value_text_elements_text_members_text.intros

section \<open>Numbers and plain strings\<close>

lemma dec_nat_int_part: "int_part (dec_nat n)"
proof -
  have "dec_nat n = ''0'' \<or> hd (dec_nat n) \<noteq> CHR ''0''"
  proof (induction n rule: dec_nat.induct)
    case (1 n)
    show ?case
    proof (cases "n < 10")
      case True
      then have "n \<in> set [0..<10]" by simp
      then show ?thesis by (subst (1 2) dec_nat.simps) (auto simp: digit_char_def upt_rec)
    next
      case False
      then have "dec_nat (n div 10) \<noteq> ''0''" using digits_val_dec_nat [of "n div 10"] by (auto simp: digits_val_def digit_val_def)
      then show ?thesis using 1 False by (subst (2) dec_nat.simps) simp
    qed
  qed
  then show ?thesis by (auto simp: int_part_def digits_def dec_nat_digits)
qed

lemma unsigned_text: "inu64 n \<Longrightarrow> value_text (JUnsigned n) (dec_int n)"
  using value_text_elements_text_members_text.number [OF dec_nat_int_part [of "nat n"], of "[]" "[]" "JUnsigned n" False]
  by (auto simp: frac_part_def exp_part_def number_json_def minus_sign_def dec_int_def digits_val_dec_nat inu64_def)

lemma integer_text: "in64 n \<Longrightarrow> n < 0 \<Longrightarrow> value_text (JInteger n) (dec_int n)"
  using value_text_elements_text_members_text.number [OF dec_nat_int_part [of "nat (- n)"], of "[]" "[]" "JInteger n" True]
  by (auto simp: frac_part_def exp_part_def number_json_def minus_sign_def dec_int_def digits_val_dec_nat in64_def)

definition plain_char :: "char \<Rightarrow> bool" where
  "plain_char c \<longleftrightarrow> 0x20 \<le> ord c \<and> ord c < 0x80 \<and> ord c \<noteq> 0x22 \<and> ord c \<noteq> 0x5C"

lemma plain_string_text: "list_all plain_char s \<Longrightarrow> string_text s s"
proof (induction s)
  case (Cons c s)
  have "char_text (utf8_char (ord c)) (utf8_char (ord c))"
    using Cons.prems by (intro char_text.plain) (auto simp: plain_char_def scalar_def)
  then have "char_text [c] [c]" using Cons.prems by (simp add: plus_ascii plain_char_def)
  then show ?case using string_text.next_char [of "[c]" "[c]" s s] Cons by simp
qed (simp add: string_text.end_string)

section \<open>Compact texts\<close>

lemma object_of_sorted: "sorted_keys (m @ ms) \<Longrightarrow> object_of ms m = m @ ms"
proof (induction ms arbitrary: m)
  case (Cons kv ms)
  obtain k v where kv: "kv = (k, v)" by fastforce
  have "\<forall>x \<in> fst ` set m. x < k" using Cons.prems by (auto simp: kv sorted_wrt_append)
  then have "obj_set k v m = m @ [(k, v)]" by (rule obj_set_append)
  then show ?case using Cons.IH [of "m @ [(k, v)]"] Cons.prems by (simp add: kv object_of_def)
qed (simp add: object_of_def)

text \<open>The text without white space and escapes, for values that need none.\<close>

fun commas :: "string list \<Rightarrow> string" where
  "commas [] = []"
| "commas [t] = t"
| "commas (t # ts) = t @ CHR '','' # commas ts"

fun compact :: "json \<Rightarrow> string" where
  "compact JNull = ''null''"
| "compact (JBoolean b) = (if b then ''true'' else ''false'')"
| "compact (JUnsigned n) = dec_int n"
| "compact (JInteger n) = dec_int n"
| "compact (JString s) = quoted s"
| "compact (JArray xs) = CHR ''['' # commas (map compact xs) @ '']''"
| "compact (JObject ms) = CHR ''{'' # commas (map (\<lambda>(k, v). quoted k @ CHR '':'' # compact v) ms) @ ''}''"
| "compact v = []"

fun plain_json :: "json \<Rightarrow> bool" where
  "plain_json JNull = True"
| "plain_json (JBoolean b) = True"
| "plain_json (JUnsigned n) = inu64 n"
| "plain_json (JInteger n) = (in64 n \<and> n < 0)"
| "plain_json (JString s) = list_all plain_char s"
| "plain_json (JArray xs) = list_all plain_json xs"
| "plain_json (JObject ms) = (sorted_keys ms \<and> list_all (\<lambda>(k, v). list_all plain_char k \<and> plain_json v) ms)"
| "plain_json v = False"

lemma elements_compact:
  "xs \<noteq> [] \<Longrightarrow> \<forall>x \<in> set xs. value_text x (f x) \<Longrightarrow> elements_text xs (commas (map f xs))"
proof (induction xs rule: list_nonempty_induct)
  case (single x)
  then show ?case using text_intros(10) [of "[]" x "f x" "[]"] by simp
next
  case (cons x xs)
  then show ?case using text_intros(11) [of "[]" x "f x" "[]" xs "commas (map f xs)"]
    by (cases xs) auto
qed

lemma members_compact:
  "ms \<noteq> [] \<Longrightarrow> \<forall>(k, v) \<in> set ms. string_text k k \<and> value_text v (f v) \<Longrightarrow>
     members_text ms (commas (map (\<lambda>(k, v). quoted k @ CHR '':'' # f v) ms))"
proof (induction ms rule: list_nonempty_induct)
  case (single kv)
  then show ?case using text_intros(12) [of "[]" "fst kv" "fst kv" "[]" "[]" "snd kv" "f (snd kv)" "[]"]
    by (cases kv) simp
next
  case (cons kv ms)
  then show ?case using text_intros(13) [of "[]" "fst kv" "fst kv" "[]" "[]" "snd kv" "f (snd kv)" "[]" ms]
    by (cases kv; cases ms) auto
qed

lemma compact_text: "plain_json j \<Longrightarrow> value_text j (compact j)"
proof (induction j)
  case (JArray xs)
  show ?case
  proof (cases "xs = []")
    case False
    then show ?thesis using JArray text_intros(7) [OF elements_compact [of xs compact]] by (simp add: list_all_iff)
  qed (use text_intros(6) [of "[]"] in simp)
next
  case (JObject ms)
  show ?case
  proof (cases "ms = []")
    case False
    have "\<forall>(k, v) \<in> set ms. string_text k k \<and> value_text v (compact v)"
      using JObject by (fastforce simp: list_all_iff intro: plain_string_text)
    then show ?thesis using text_intros(9) [OF members_compact [OF False, of compact]] object_of_sorted [of "[]" ms] JObject.prems
      by simp
  qed (use text_intros(8) [of "[]"] in simp)
qed (auto intro: text_intros plain_string_text unsigned_text integer_text)

end
