(* ===== verification/Json_Complete.thy ===== *)
theory Json_Complete
  imports Json_Compact Json_Accept
begin

text \<open>
  The parser reads the whole grammar: every text of \<open>Json_Grammar\<close> is parsed to the value it
  stands for. While the builder of values works on a part, everything around the part is a
  function of its value (\<open>place\<close>); a text moves the parser past it and puts its value there.
\<close>

section \<open>Where the builder puts the next value\<close>

definition place :: "ref_path \<Rightarrow> (json \<Rightarrow> json) \<Rightarrow> bool" where
  "place q R \<longleftrightarrow> (\<forall>u v. valid_ref q (R u) \<and> deref q (R u) = u \<and> assign q v (R u) = R v)"

definition slot :: "dom_state \<Rightarrow> (json \<Rightarrow> json) \<Rightarrow> bool" where
  "slot d R \<longleftrightarrow> (\<exists>q. place q R \<and> (\<forall>v. handle_value v d = Inr (q, d\<lparr> root := R v \<rparr>)))"

lemma placeD:
  assumes "place q R"
  shows "valid_ref q (R u)" "deref q (R u) = u" "assign q v (R u) = R v"
  using assms by (auto simp: place_def)

lemma slot_init: "slot dom_init (\<lambda>v. v)"
  by (auto simp: slot_def place_def handle_value_def dom_init_def intro: exI [of _ "[]"])

lemma slot_value: "slot d R \<Longrightarrow> dom_value v d = Inr (True, d\<lparr> root := R v \<rparr>)"
  by (auto simp: slot_def dom_value_def)

lemma slot_start:
  assumes "slot d R"
  shows "\<exists>q. place q R \<and>
    dom_start t d = Inr (True, d\<lparr> root := R (json_of_type t), ref_stack := q # ref_stack d \<rparr>)"
  using assms by (auto simp: slot_def dom_start_def)

lemma slot_element:
  assumes q: "place q R" and d: "ref_stack d = q # rs" "root d = R (JArray ys)"
  shows "slot d (\<lambda>x. R (JArray (ys @ [x])))"
proof -
  let ?q = "q @ [Index (length ys)]"
  have "place ?q (\<lambda>x. R (JArray (ys @ [x])))"
    unfolding place_def using placeD [OF q] by (simp add: valid_append deref_append assign_append)
  moreover have "\<forall>v. handle_value v d = Inr (?q, d\<lparr> root := R (JArray (ys @ [v])) \<rparr>)"
    using placeD [OF q] d by (simp add: handle_value_def)
  ultimately show ?thesis unfolding slot_def by blast
qed

lemma obj_set_present: "map_of m k = Some x \<Longrightarrow> map_of (obj_set k v m) k = Some v"
  by simp

lemma slot_key:
  assumes q: "place q R" and d: "ref_stack d = q # rs" "root d = R (JObject m)"
  shows "\<exists>m'. dom_key k d = Inr (True, d\<lparr> root := R (JObject m'), object_element := Some (q @ [Key k]) \<rparr>) \<and>
    slot (d\<lparr> root := R (JObject m'), object_element := Some (q @ [Key k]) \<rparr>) (\<lambda>x. R (JObject (obj_set k x m)))"
proof -
  let ?m = "case map_of m k of None \<Rightarrow> obj_set k JNull m | Some _ \<Rightarrow> m"
  let ?q = "q @ [Key k]"
  let ?d = "d\<lparr> root := R (JObject ?m), object_element := Some ?q \<rparr>"
  have "place ?q (\<lambda>x. R (JObject (obj_set k x m)))"
    unfolding place_def using placeD [OF q] by (simp add: valid_append deref_append assign_append)
  moreover have "handle_value v ?d = Inr (?q, ?d\<lparr> root := R (JObject (obj_set k v m)) \<rparr>)" for v
    using placeD [OF q] d by (simp add: handle_value_def assign_append split: option.split)
  ultimately have "slot ?d (\<lambda>x. R (JObject (obj_set k x m)))" unfolding slot_def by blast
  then show ?thesis using placeD [OF q] d by (intro exI [of _ ?m]) (simp add: dom_key_def)
qed

section \<open>Turns of the loop\<close>

lemma get_token_scan:
  "scan (m_lexer p) = (t, lx) \<Longrightarrow> last_token (get_token p) = t \<and> m_lexer (get_token p) = lx"
  by (simp add: get_token_def)

text \<open>What the parser is going to read, while no assertion of the lexer has failed.\<close>

definition reads :: "parser \<Rightarrow> string \<Rightarrow> bool" where
  "reads p r \<longleftrightarrow> at (m_lexer p) r \<and> asserts_hold (m_lexer p)"

lemma readsD: "reads p r \<Longrightarrow> at (m_lexer p) r" "reads p r \<Longrightarrow> asserts_hold (m_lexer p)"
  by (simp_all add: reads_def)

lemma reads_get_token:
  "at (m_lexer (get_token p)) r \<Longrightarrow> asserts_hold (m_lexer p) \<Longrightarrow> reads (get_token p) r"
  by (simp add: reads_def)

lemma loop_value:
  "parse_value sax st s p = Inr (None, s1, p1) \<Longrightarrow> sax_loop sax False st s p = sax_loop sax True st s1 p1"
  by (subst (1 2) sax_loop.simps) (simp add: sax_step_def)

lemma loop_continue:
  "parse_value sax st s p = Inr (Some (Continue sk st'), s1, p1) \<Longrightarrow>
     sax_loop sax False st s p = sax_loop sax sk st' s1 p1"
  by (subst (1) sax_loop.simps) (simp add: sax_step_def)

lemma loop_evaluate:
  "evaluate_state sax st s p = Inr (Some (Continue sk st'), s1, p1) \<Longrightarrow>
     sax_loop sax True st s p = sax_loop sax sk st' s1 p1"
  by (subst (1) sax_loop.simps) (simp add: sax_step_def)

lemma parse_primitive:
  assumes "last_token p \<in> value_tokens" and "token_json (last_token p) (m_lexer p) = j"
    and "\<forall>x. j = JFloat x \<longrightarrow> isfinite x"
  shows "parse_value (dom_sax a) st d p = event (dom_value j d) p (value_done p)"
  using assms unfolding value_tokens_def
  by (elim insertE emptyE) (simp_all add: parse_value_def dom_sax_def Let_def)

text \<open>
  What a text does: the parser, before its first token, moves past the text, and \<open>R j\<close> becomes
  the root.
\<close>

definition moves :: "bool \<Rightarrow> bool list \<Rightarrow> dom_state \<Rightarrow> parser \<Rightarrow> json \<Rightarrow> string \<Rightarrow> bool" where
  "moves a st d p j r \<longleftrightarrow>
     (\<exists>p' e. sax_loop (dom_sax a) False st d (get_token p) =
        sax_loop (dom_sax a) True st (d\<lparr> root := j, object_element := e \<rparr>) p' \<and> reads p' r) \<and>
     last_token (get_token p) \<notin> {End_array, End_object}"

lemma moves_primitive:
  assumes "slot d R" and "scans (scan (m_lexer p)) j r" and h: "asserts_hold (m_lexer p)" and "\<forall>x. j = JFloat x \<longrightarrow> isfinite x"
  shows "moves a st d p (R j) r"
proof -
  have t: "last_token (get_token p) \<in> value_tokens" "at (m_lexer (get_token p)) r"
      "token_json (last_token (get_token p)) (m_lexer (get_token p)) = j"
    using assms(2) get_token_scan [of p] by (cases "scan (m_lexer p)"; simp add: scans_def)+
  have "parse_value (dom_sax a) st d (get_token p) = Inr (None, d\<lparr> root := R j \<rparr>, get_token p)"
    using parse_primitive [OF t(1,3) assms(4)] slot_value [OF assms(1)] h by (simp add: event_def)
  from loop_value [OF this] show ?thesis using t(1) reads_get_token [OF t(2) h]
    unfolding moves_def by (auto simp: value_tokens_def intro!: exI [of _ "get_token p"] exI [of _ "object_element d"])
qed

lemma scans_literal:
  assumes "blank_text w" "at lx (w @ cs @ r)"
    and "(cs, j) \<in> {(''true'', JBoolean True), (''false'', JBoolean False), (''null'', JNull)}"
  shows "scans (scan lx) j r"
proof -
  obtain t where t: "(cs, t) \<in> {(''true'', Literal_true), (''false'', Literal_false), (''null'', Literal_null)}"
      "t \<in> value_tokens" "\<And>l. token_json t l = j"
    using assms(3) by (auto simp: value_tokens_def)
  obtain lx' where "scan lx = (t, lx')" "at lx' r" using scan_literal_word [OF assms(1,2) t(1)] by blast
  then show ?thesis using t(2,3) by (simp add: scans_def)
qed

lemma next_mark:
  assumes "blank_text w" "reads p (w @ c # r)" "mark c"
  shows "last_token (get_token p) = mark_token c" "reads (get_token p) r"
  using scan_mark [OF assms(1) readsD(1) [OF assms(2)] assms(3)] get_token_scan [of p]
    readsD(2) [OF assms(2)] by (auto intro: reads_get_token)

lemma marks [simp]:
  "mark CHR ''[''" "mark CHR '']''" "mark CHR ''{''" "mark CHR ''}''" "mark CHR '':''" "mark CHR '',''"
  "mark_token CHR ''['' = Begin_array" "mark_token CHR '']'' = End_array"
  "mark_token CHR ''{'' = Begin_object" "mark_token CHR ''}'' = End_object"
  "mark_token CHR '':'' = Name_separator" "mark_token CHR '','' = Value_separator"
  by (simp_all add: mark_def mark_token_def)

lemma stops_mark: "blank_text w \<Longrightarrow> c \<in> {CHR '','', CHR '']'', CHR ''}''} \<Longrightarrow> stops (w @ c # r)"
  by (cases w) (auto simp: stops_def blank_text_def)

lemma ref_stack_first:
  "d\<lparr> object_element := e, ref_stack := rs \<rparr> = d\<lparr> ref_stack := rs, object_element := e \<rparr>" for d :: dom_state
  by simp

text \<open>Containers: the elements of an array and the members of an object, up to the closing mark.\<close>

definition moves_elements :: "bool \<Rightarrow> bool list \<Rightarrow> dom_state \<Rightarrow> parser \<Rightarrow> json \<Rightarrow> string \<Rightarrow> bool" where
  "moves_elements a st d p j r \<longleftrightarrow>
     (\<exists>p' e. sax_loop (dom_sax a) False (True # st) d (get_token p) =
        sax_loop (dom_sax a) True st
          (d\<lparr> root := j, ref_stack := tl (ref_stack d), object_element := e \<rparr>) p' \<and> reads p' r) \<and>
     last_token (get_token p) \<noteq> End_array"

definition moves_members :: "bool \<Rightarrow> bool list \<Rightarrow> dom_state \<Rightarrow> parser \<Rightarrow> json \<Rightarrow> string \<Rightarrow> bool" where
  "moves_members a st d p j r \<longleftrightarrow>
     (\<exists>d1 p1 p' e. parse_key (dom_sax a) (False # st) d (get_token p) =
          Inr (Some (Continue False (False # st)), d1, p1) \<and>
        sax_loop (dom_sax a) False (False # st) d1 p1 =
          sax_loop (dom_sax a) True st
            (d\<lparr> root := j, ref_stack := tl (ref_stack d), object_element := e \<rparr>) p' \<and> reads p' r) \<and>
     last_token (get_token p) = Value_string"

lemma sax_fields [simp]:
  "sax_start_array (dom_sax a) = dom_start V_array" "sax_end_array (dom_sax a) = dom_end"
  "sax_start_object (dom_sax a) = dom_start V_object" "sax_end_object (dom_sax a) = dom_end"
  "sax_key (dom_sax a) = dom_key"
  by (simp_all add: dom_sax_def)

lemma dom_end_Cons: "ref_stack d = q # rs \<Longrightarrow> dom_end d = Inr (True, d\<lparr> ref_stack := rs \<rparr>)"
  by (simp add: dom_end_def)

lemma empty_container:
  assumes "slot d R" "blank_text w" "blank_text w'"
    and "reads p (w @ c # w' @ c' # r)"
    and "c = CHR ''['' \<and> c' = CHR '']'' \<and> j = JArray [] \<or> c = CHR ''{'' \<and> c' = CHR ''}'' \<and> j = JObject []"
  shows "moves a st d p (R j) r"
proof -
  let ?p = "get_token p" let ?p1 = "get_token ?p"
  have m: "mark c" "mark c'" using assms(5) by auto
  have 1: "last_token ?p = mark_token c" "reads ?p (w' @ c' # r)"
    using next_mark [OF assms(2,4) m(1)] by simp_all
  have 2: "last_token ?p1 = mark_token c'" "reads ?p1 r"
    using next_mark [OF assms(3) 1(2) m(2)] by simp_all
  obtain q where q: "dom_start (m_type j) d = Inr (True, d\<lparr> root := R (json_of_type (m_type j)), ref_stack := q # ref_stack d \<rparr>)"
    using slot_start [OF assms(1)] by blast
  have j: "json_of_type (m_type j) = j" using assms(5) by auto
  have "parse_value (dom_sax a) st d ?p = Inr (None, d\<lparr> root := R j \<rparr>, ?p1)"
    using 1(1) 2(1) q assms(5) readsD(2) [OF assms(4)] by (auto simp: parse_value_def event_def dom_end_def Let_def)
  from loop_value [OF this] show ?thesis using 1(1) 2(2) assms(5)
    unfolding moves_def by (auto intro!: exI [of _ ?p1] exI [of _ "object_element d"])
qed

lemma moves_array:
  assumes "slot d R" "blank_text w" "reads p (w @ CHR ''['' # u)"
    and elements: "\<And>q d p. place q R \<Longrightarrow> ref_stack d = q # rs \<Longrightarrow> root d = R (JArray []) \<Longrightarrow> reads p u \<Longrightarrow>
      moves_elements a st d p (R j) r"
    and rs: "rs = ref_stack d"
  shows "moves a st d p (R j) r"
proof -
  let ?p = "get_token p" let ?p1 = "get_token ?p"
  have 1: "last_token ?p = Begin_array" "reads ?p u" using next_mark [OF assms(2,3)] by simp_all
  obtain q where q: "place q R" "dom_start V_array d = Inr (True, d\<lparr> root := R (JArray []), ref_stack := q # ref_stack d \<rparr>)"
    using slot_start [OF assms(1), of V_array] by auto
  let ?d = "d\<lparr> root := R (JArray []), ref_stack := q # ref_stack d \<rparr>"
  have e: "moves_elements a st ?d ?p (R j) r"
    by (rule elements [OF q(1)]) (simp_all add: rs 1(2))
  then have "last_token ?p1 \<noteq> End_array" by (simp add: moves_elements_def)
  then have "parse_value (dom_sax a) st d ?p = Inr (Some (Continue False (True # st)), ?d, ?p1)"
    using 1(1) q(2) readsD(2) [OF assms(3)] by (simp add: parse_value_def event_def Let_def)
  from loop_continue [OF this] show ?thesis using e 1(1) by (simp add: moves_def moves_elements_def)
qed

lemma moves_object:
  assumes "slot d R" "blank_text w" "reads p (w @ CHR ''{'' # u)"
    and members: "\<And>q d p. place q R \<Longrightarrow> ref_stack d = q # rs \<Longrightarrow> root d = R (JObject []) \<Longrightarrow> reads p u \<Longrightarrow>
      moves_members a st d p (R j) r"
    and rs: "rs = ref_stack d"
  shows "moves a st d p (R j) r"
proof -
  let ?p = "get_token p" let ?p1 = "get_token ?p"
  have 1: "last_token ?p = Begin_object" "reads ?p u" using next_mark [OF assms(2,3)] by simp_all
  obtain q where q: "place q R" "dom_start V_object d = Inr (True, d\<lparr> root := R (JObject []), ref_stack := q # ref_stack d \<rparr>)"
    using slot_start [OF assms(1), of V_object] by auto
  let ?d = "d\<lparr> root := R (JObject []), ref_stack := q # ref_stack d \<rparr>"
  have e: "moves_members a st ?d ?p (R j) r"
    by (rule members [OF q(1)]) (simp_all add: rs 1(2))
  then obtain d1 p1 where k: "parse_key (dom_sax a) (False # st) ?d ?p1 = Inr (Some (Continue False (False # st)), d1, p1)"
    and rest: "\<exists>p' e. sax_loop (dom_sax a) False (False # st) d1 p1 =
          sax_loop (dom_sax a) True st (?d\<lparr> root := R j, ref_stack := ref_stack d, object_element := e \<rparr>) p' \<and> reads p' r"
    unfolding moves_members_def by auto
  have "parse_value (dom_sax a) st d ?p = Inr (Some (Continue False (False # st)), d1, p1)"
    using 1(1) q(2) e k readsD(2) [OF assms(3)] by (simp add: parse_value_def event_def Let_def moves_members_def)
  from loop_continue [OF this] show ?thesis using rest 1(1) by (simp add: moves_def)
qed

text \<open>The last element, and an element with others after it.\<close>

lemma moves_last_element:
  assumes q: "place q R" "ref_stack d = q # rs" "root d = R (JArray ys)" and w': "blank_text w'"
    and x: "\<And>R'. slot d R' \<Longrightarrow> moves a (True # st) d p (R' x) (w' @ CHR '']'' # r)"
  shows "moves_elements a st d p (R (JArray (ys @ [x]))) r"
proof -
  obtain p' e where 1: "sax_loop (dom_sax a) False (True # st) d (get_token p) =
      sax_loop (dom_sax a) True (True # st) (d\<lparr> root := R (JArray (ys @ [x])), object_element := e \<rparr>) p'"
      "reads p' (w' @ CHR '']'' # r)" "last_token (get_token p) \<noteq> End_array"
    using x [OF slot_element [OF q]] by (auto simp: moves_def)
  let ?d = "d\<lparr> root := R (JArray (ys @ [x])), object_element := e \<rparr>"
  have 2: "last_token (get_token p') = End_array" "reads (get_token p') r"
    using next_mark [OF w' 1(2)] by simp_all
  have "evaluate_state (dom_sax a) (True # st) ?d p' =
      Inr (Some (Continue True st), ?d\<lparr> ref_stack := rs \<rparr>, get_token p')"
    using 2(1) q(2) readsD(2) [OF 1(2)] by (simp add: evaluate_state_def event_def dom_end_def Let_def)
  from loop_evaluate [OF this] show ?thesis
    using 1(1,3) 2(2) q(2) unfolding moves_elements_def
    by (intro conjI exI [of _ "get_token p'"] exI [of _ e]) (simp_all add: ref_stack_first)
qed

lemma moves_next_element:
  assumes q: "place q R" "ref_stack d = q # rs" "root d = R (JArray ys)" and w': "blank_text w'"
    and x: "\<And>R'. slot d R' \<Longrightarrow> moves a (True # st) d p (R' x) (w' @ CHR '','' # u)"
    and xs: "\<And>d p. ref_stack d = q # rs \<Longrightarrow> root d = R (JArray (ys @ [x])) \<Longrightarrow> reads p u \<Longrightarrow>
      moves_elements a st d p j r"
  shows "moves_elements a st d p j r"
proof -
  obtain p' e where 1: "sax_loop (dom_sax a) False (True # st) d (get_token p) =
      sax_loop (dom_sax a) True (True # st) (d\<lparr> root := R (JArray (ys @ [x])), object_element := e \<rparr>) p'"
      "reads p' (w' @ CHR '','' # u)" "last_token (get_token p) \<noteq> End_array"
    using x [OF slot_element [OF q]] by (auto simp: moves_def)
  let ?d = "d\<lparr> root := R (JArray (ys @ [x])), object_element := e \<rparr>"
  have 2: "last_token (get_token p') = Value_separator" "reads (get_token p') u"
    using next_mark [OF w' 1(2)] by simp_all
  have m: "moves_elements a st ?d (get_token p') j r" by (rule xs) (simp_all add: q(2) 2(2))
  have "evaluate_state (dom_sax a) (True # st) ?d p' =
      Inr (Some (Continue False (True # st)), ?d, get_token (get_token p'))"
    using 2(1) by (simp add: evaluate_state_def Let_def)
  from loop_evaluate [OF this] show ?thesis using 1(1,3) m by (simp add: moves_elements_def)
qed

text \<open>A key with its separator, and what comes before the value.\<close>

lemma parse_key_text:
  assumes q: "place q R" "ref_stack d = q # rs" "root d = R (JObject m)"
    and w: "blank_text w" "blank_text w1" and k: "string_text k kt"
    and "reads p (w @ quoted kt @ w1 @ CHR '':'' # u)"
  shows "\<exists>d1 p1. parse_key (dom_sax a) st d (get_token p) = Inr (Some (Continue False st), d1, get_token p1) \<and>
    reads p1 u \<and> slot d1 (\<lambda>x. R (JObject (obj_set k x m))) \<and> last_token (get_token p) = Value_string \<and>
    (\<exists>m' e. d1 = d\<lparr> root := R (JObject m'), object_element := e \<rparr>)"
proof -
  let ?p = "get_token p"
  have 1: "last_token ?p = Value_string" "reads ?p (w1 @ CHR '':'' # u)" "token_buffer (m_lexer ?p) = k"
    using scan_quoted [OF w(1) _ k, of "m_lexer p" "w1 @ CHR '':'' # u"] readsD [OF assms(7)] get_token_scan [of p]
    by (auto intro: reads_get_token)
  have 2: "last_token (get_token ?p) = Name_separator" "reads (get_token ?p) u"
    using next_mark [OF w(2) 1(2)] by simp_all
  obtain m' where key: "dom_key k d = Inr (True, d\<lparr> root := R (JObject m'), object_element := Some (q @ [Key k]) \<rparr>)"
    and s: "slot (d\<lparr> root := R (JObject m'), object_element := Some (q @ [Key k]) \<rparr>) (\<lambda>x. R (JObject (obj_set k x m)))"
    using slot_key [OF q] by blast
  let ?d = "d\<lparr> root := R (JObject m'), object_element := Some (q @ [Key k]) \<rparr>"
  have "parse_key (dom_sax a) st d ?p = Inr (Some (Continue False st), ?d, get_token (get_token ?p))"
    using 1(1,3) 2(1) key readsD(2) [OF assms(7)] by (simp add: parse_key_def event_def Let_def)
  then show ?thesis using 1(1) 2(2) s by blast
qed

lemma moves_last_member:
  assumes q: "place q R" "ref_stack d = q # rs" "root d = R (JObject m)"
    and w: "blank_text w" "blank_text w1" "blank_text w2" "blank_text w'" and k: "string_text k kt"
    and p: "reads p (w @ quoted kt @ w1 @ CHR '':'' # w2 @ t @ w' @ CHR ''}'' # r)"
    and x: "\<And>d p R'. slot d R' \<Longrightarrow> reads p (w2 @ t @ w' @ CHR ''}'' # r) \<Longrightarrow>
      moves a (False # st) d p (R' x) (w' @ CHR ''}'' # r)"
  shows "moves_members a st d p (R (JObject (obj_set k x m))) r"
proof -
  obtain d1 p1 m' e0 where key: "parse_key (dom_sax a) (False # st) d (get_token p) =
        Inr (Some (Continue False (False # st)), d1, get_token p1)"
      "last_token (get_token p) = Value_string" "d1 = d\<lparr> root := R (JObject m'), object_element := e0 \<rparr>"
    and v: "moves a (False # st) d1 p1 (R (JObject (obj_set k x m))) (w' @ CHR ''}'' # r)"
    using parse_key_text [OF q w(1,2) k p] x by blast
  let ?j = "R (JObject (obj_set k x m))"
  obtain p' e where 1: "sax_loop (dom_sax a) False (False # st) d1 (get_token p1) =
      sax_loop (dom_sax a) True (False # st) (d1\<lparr> root := ?j, object_element := e \<rparr>) p'"
      "reads p' (w' @ CHR ''}'' # r)"
    using v by (auto simp: moves_def)
  have 2: "last_token (get_token p') = End_object" "reads (get_token p') r"
    using next_mark [OF w(4) 1(2)] by simp_all
  have "evaluate_state (dom_sax a) (False # st) (d1\<lparr> root := ?j, object_element := e \<rparr>) p' =
      Inr (Some (Continue True st), d1\<lparr> root := ?j, object_element := e, ref_stack := rs \<rparr>, get_token p')"
    using 2(1) q(2) readsD(2) [OF 1(2)] by (simp add: evaluate_state_def event_def dom_end_def Let_def key(3))
  from loop_evaluate [OF this] show ?thesis
    using 1(1) 2(2) q(2) key unfolding moves_members_def
    by (intro conjI exI [of _ d1] exI [of _ "get_token p1"] exI [of _ "get_token p'"] exI [of _ e]) (simp_all add: ref_stack_first)
qed

lemma moves_next_member:
  assumes q: "place q R" "ref_stack d = q # rs" "root d = R (JObject m)"
    and w: "blank_text w" "blank_text w1" "blank_text w2" "blank_text w'" and k: "string_text k kt"
    and p: "reads p (w @ quoted kt @ w1 @ CHR '':'' # w2 @ t @ w' @ CHR '','' # u)"
    and x: "\<And>d p R'. slot d R' \<Longrightarrow> reads p (w2 @ t @ w' @ CHR '','' # u) \<Longrightarrow>
      moves a (False # st) d p (R' x) (w' @ CHR '','' # u)"
    and ms: "\<And>d p. ref_stack d = q # rs \<Longrightarrow> root d = R (JObject (obj_set k x m)) \<Longrightarrow> reads p u \<Longrightarrow>
      moves_members a st d p j r"
  shows "moves_members a st d p j r"
proof -
  obtain d1 p1 m' e0 where key: "parse_key (dom_sax a) (False # st) d (get_token p) =
        Inr (Some (Continue False (False # st)), d1, get_token p1)"
      "last_token (get_token p) = Value_string" "d1 = d\<lparr> root := R (JObject m'), object_element := e0 \<rparr>"
    and v: "moves a (False # st) d1 p1 (R (JObject (obj_set k x m))) (w' @ CHR '','' # u)"
    using parse_key_text [OF q w(1,2) k p] x by blast
  let ?j = "R (JObject (obj_set k x m))"
  obtain p' e where 1: "sax_loop (dom_sax a) False (False # st) d1 (get_token p1) =
      sax_loop (dom_sax a) True (False # st) (d1\<lparr> root := ?j, object_element := e \<rparr>) p'"
      "reads p' (w' @ CHR '','' # u)"
    using v by (auto simp: moves_def)
  let ?d = "d1\<lparr> root := ?j, object_element := e \<rparr>"
  have 2: "last_token (get_token p') = Value_separator" "reads (get_token p') u"
    using next_mark [OF w(4) 1(2)] by simp_all
  have "moves_members a st ?d (get_token p') j r"
    by (rule ms) (simp_all add: q(2) 2(2) key(3))
  then obtain d2 p2 p'' e' where 3: "parse_key (dom_sax a) (False # st) ?d (get_token (get_token p')) =
        Inr (Some (Continue False (False # st)), d2, p2)"
      "sax_loop (dom_sax a) False (False # st) d2 p2 =
        sax_loop (dom_sax a) True st (?d\<lparr> root := j, ref_stack := rs, object_element := e' \<rparr>) p''"
      "reads p'' r"
    unfolding moves_members_def using q(2) key(3) by auto
  have "evaluate_state (dom_sax a) (False # st) ?d p' = Inr (Some (Continue False (False # st)), d2, p2)"
    using 2(1) 3(1) by (simp add: evaluate_state_def Let_def)
  from loop_evaluate [OF this] show ?thesis
    using 1(1) 3(2,3) q(2) key unfolding moves_members_def
    by (intro conjI exI [of _ d1] exI [of _ "get_token p1"] exI [of _ p''] exI [of _ e']) simp_all
qed

section \<open>Every text of the grammar\<close>

lemma text_moves:
  shows "value_text j t \<Longrightarrow> slot d R \<Longrightarrow> blank_text w \<Longrightarrow> stops r \<Longrightarrow> reads p (w @ t @ r) \<Longrightarrow>
      moves a st d p (R j) r"
    and "elements_text xs t \<Longrightarrow> place q R \<Longrightarrow> ref_stack d = q # rs \<Longrightarrow> root d = R (JArray ys) \<Longrightarrow>
      reads p (t @ CHR '']'' # r') \<Longrightarrow> moves_elements a st' d p (R (JArray (ys @ xs))) r'"
    and "members_text ms t \<Longrightarrow> place q R \<Longrightarrow> ref_stack d = q # rs \<Longrightarrow> root d = R (JObject m) \<Longrightarrow>
      reads p (t @ CHR ''}'' # r') \<Longrightarrow> moves_members a st' d p (R (JObject (object_of ms m))) r'"
proof (induction arbitrary: d R w r p st and d R ys p r' st' q rs and d R m p r' st' q rs
    rule: value_text_elements_text_members_text.inducts)
  case (number ip f x j neg)
  have "scans (scan (m_lexer p)) j r"
    using scan_numeral [OF number(1-3,8,7), of "m_lexer p" neg] number(4) readsD(1) [OF number(9)] by simp
  then show ?case by (rule moves_primitive [OF number(6) _ readsD(2) [OF number(9)] number(5)])
next
  case (string s t)
  then have "scans (scan (m_lexer p)) (JString s) r"
    using scan_quoted [OF string(3), of "m_lexer p" t r s] by (auto simp: scans_def value_tokens_def reads_def)
  then show ?case using string by (intro moves_primitive [OF string(2)]) (simp_all add: reads_def)
next
  case (empty_array w)
  then show ?case by (intro empty_container [where c = "CHR ''[''" and c' = "CHR '']''"]) simp_all
next
  case (empty_object w)
  then show ?case by (intro empty_container [where c = "CHR ''{''" and c' = "CHR ''}''"]) simp_all
next
  case (array xs t)
  show ?case
    by (rule moves_array [OF array(3,4) _ _ refl, where u = "t @ CHR '']'' # r"])
       (use array in \<open>auto intro: array.IH [where ys = "[]", simplified]\<close>)
next
  case (object ms t)
  show ?case
    by (rule moves_object [OF object(3,4) _ _ refl, where u = "t @ CHR ''}'' # r"])
       (use object in \<open>auto intro: object.IH\<close>)
next
  case (one_element w x t w')
  show ?case
    by (rule moves_last_element [OF one_element(5-7) one_element(3)])
       (use one_element in \<open>auto intro!: one_element.IH [where w = w] stops_mark\<close>)
next
  case (more_elements w x t w' xs u)
  show ?case
    by (rule moves_next_element [OF more_elements(7-9) more_elements(3), where x = x and u = "u @ CHR '']'' # r'"])
       (use more_elements in \<open>auto intro!: more_elements.IH(1) [where w = w] stops_mark
          intro: more_elements.IH(2) [where ys = "ys @ [x]", simplified]\<close>)
next
  case (one_member w k kt w1 w2 x t w')
  show ?case
    by (simp add: object_of_def)
       (rule moves_last_member [OF one_member(8-10) one_member(1,3,4,6,2)],
        use one_member in \<open>auto intro!: one_member.IH [where w = w2] stops_mark\<close>)
next
  case (more_members w k kt w1 w2 x t w' ms u)
  have "object_of ((k, x) # ms) m = object_of ms (obj_set k x m)" by (simp add: object_of_def)
  then show ?case
    by (simp only:)
       (rule moves_next_member [OF more_members(10-12) more_members(1,3,4,6,2), where x = x and u = "u @ CHR ''}'' # r'"],
        use more_members in \<open>auto intro!: more_members.IH(1) [where w = w2] stops_mark intro: more_members.IH(2)\<close>)
next
  case null
  then show ?case by (intro moves_primitive [OF null(1)] scans_literal [where w = w]) (simp_all add: reads_def)
next
  case true
  then show ?case by (intro moves_primitive [OF true(1)] scans_literal [where w = w]) (simp_all add: reads_def)
next
  case false
  then show ?case by (intro moves_primitive [OF false(1)] scans_literal [where w = w]) (simp_all add: reads_def)
qed

section \<open>Parsing a text of the grammar\<close>

lemma stops_blank: "blank_text w \<Longrightarrow> stops w"
  by (cases w) (auto simp: stops_def blank_text_def)

lemma json_text_parse:
  assumes "json_text j s"
  shows "json_parse a s = Inr j"
proof -
  obtain w t w' where s: "s = w @ t @ w'" "blank_text w" "value_text j t" "blank_text w'"
    using assms by (auto simp: json_text_def)
  let ?p = "\<lparr> last_token = Uninitialized, m_lexer = lexer_init s \<rparr>"
  have "moves a [] dom_init ?p j w'"
    using text_moves(1) [OF s(3) slot_init s(2) stops_blank [OF s(4)], of ?p a "[]"] at_init [of s]
    by (simp add: s(1) reads_def lexer_init_def)
  then obtain p' e where "sax_loop (dom_sax a) False [] dom_init (parser_init s) =
      sax_loop (dom_sax a) True [] (dom_init\<lparr> root := j, object_element := e \<rparr>) p'" "reads p' w'"
    by (auto simp: moves_def parser_init_def)
  moreover have "sax_loop (dom_sax a) True [] d p' = Inr (True, d, p')" for d
    by (subst sax_loop.simps) (simp add: sax_step_def evaluate_state_def)
  moreover have "last_token (get_token p') = End_of_input" if "reads p' w'"
    using scan_end_text [OF s(4) readsD(1) [OF that]] by (cases "scan (m_lexer p')") (simp add: get_token_def)
  ultimately show ?thesis
    by (simp add: json_parse_def parser_parse_def sax_parse_internal_def Let_def dom_init_def readsD(2))
qed

text \<open>
  C33. Every JSON text is parsed to the value it stands for: for each text of the grammar (white
  space anywhere between the tokens; numbers with fraction and exponent; strings with all escapes and
  surrogate pairs; nested arrays and objects, where the last value of a repeated key counts) \<open>accept\<close> says yes and
  \<open>parse\<close>, with and without exceptions, returns the value of the text.
\<close>

theorem grammar_is_parsed:
  assumes "json_text j s"
  shows "json_accept s = Inr True \<and> json_parse a s = Inr j"
proof -
  have "json_parse a s = Inr j" for a using assms by (rule json_text_parse)
  then show ?thesis using parse_outcomes [of s] by (auto split: if_splits)
qed

text \<open>A value with members of every kind, and its text.\<close>

definition ex_value :: json where
  "ex_value = JObject [(''id'', JUnsigned 7), (''l'', JArray [JBoolean True, JNull, JInteger (- 12), JObject []])]"

lemma ex_value_text: "json_text ex_value ''{\"id\":7,\"l\":[true,null,-12,{}]}''"
proof -
  have "compact ex_value = ''{\"id\":7,\"l\":[true,null,-12,{}]}''" by code_simp
  moreover have "plain_json ex_value" by code_simp
  ultimately have "value_text ex_value ''{\"id\":7,\"l\":[true,null,-12,{}]}''" using compact_text by metis
  then show ?thesis unfolding json_text_def by (metis append_Nil append_Nil2 blank_Nil)
qed

theorem grammar_is_parsed_witness:
  "json_accept ''{\"id\":7,\"l\":[true,null,-12,{}]}'' = Inr True \<and>
   json_parse True ''{\"id\":7,\"l\":[true,null,-12,{}]}'' = Inr ex_value"
  by (rule grammar_is_parsed [OF ex_value_text])

end
