(* ===== verification/Startup.thy ===== *)
theory Startup
  imports AIOServer Json_Complete
begin

text \<open>
  \<open>server/main.cpp\<close>: the configuration file is parsed and turned into the tables of addresses,
  two arguments may replace the ports, one process is forked for every server, and \<open>cmd\<close> waits
  for the command \<open>exit\<close>, which it sends to every server. The lemmas say that every started
  server finds itself and its peers in its table, and that \<open>exit\<close> stops the servers.
\<close>

section \<open>How the program ends early\<close>

text \<open>
  \<open>return 1\<close>, an exception that nobody catches (of the JSON library, or one of \<open>std::stoi\<close>), or
  an access that is not defined.
\<close>

datatype main_fail =
    Return_1
  | Uncaught json_fail
  | Invalid_argument
  | Stoi_out_of_range
  | Bad_access

type_synonym 'a mres = "main_fail + 'a"

fun uncaught :: "'a jres \<Rightarrow> 'a mres" where
  "uncaught (Inl err) = Inl (Uncaught err)"
| "uncaught (Inr x) = Inr x"

lemma uncaught_Inr [res_iff]: "uncaught r = Inr x \<longleftrightarrow> r = Inr x"
  by (cases r) auto

lemma uncaught_Inl: "uncaught r = Inl f \<longleftrightarrow> (\<exists>err. r = Inl err \<and> f = Uncaught err)"
  by (cases r) auto

section \<open>The configuration\<close>

record config =
  cfg_routing :: "string \<times> int"
  cfg_pairs :: "(string \<times> int) list list"
  cfg_timeout :: int

text \<open>
  The string is as long as the file and is filled with null characters before the file is read
  into it.
\<close>

definition file_text :: "env \<Rightarrow> string \<Rightarrow> string" where
  "file_text e content =
     (let n = nat (read_ret e (int (length content)))
      in take n content @ replicate (length content - n) (CHR 0x00))"

text \<open>
  A chain of operators \<open>[]\<close> on a value: the value afterwards, with what was inserted on the way,
  and the element the last one refers to.
\<close>

fun subscript :: "ref_path \<Rightarrow> json \<Rightarrow> (json \<times> json) jres" where
  "subscript [] j = Inr (j, j)"
| "subscript (Key k # p) j =
     bindE (index_key j k) (\<lambda>(j1, v). mapE (\<lambda>(v1, x). (assign [Key k] v1 j1, x)) (subscript p v))"
| "subscript (Index i # p) j =
     bindE (index_at j i) (\<lambda>(j1, v). mapE (\<lambda>(v1, x). (assign [Index i] v1 j1, x)) (subscript p v))"

text \<open>A pair made of the members \<open>IP\<close> and \<open>PORT\<close>.\<close>

definition config_pair :: "env \<Rightarrow> ref_path \<Rightarrow> json \<Rightarrow> (json \<times> string \<times> int) jres" where
  "config_pair e path j =
     bindE (subscript (path @ [Key ''IP'']) j) (\<lambda>(j1, ip).
     bindE (subscript (path @ [Key ''PORT'']) j1) (\<lambda>(j2, port).
     bindE (from_json_string ip) (\<lambda>s.
     mapE (\<lambda>p. (j2, s, p)) (from_json_int (double_to_int e) port))))"

text \<open>The loop over \<open>j\<close> for the servers of the cluster \<open>i\<close>, whose row is \<open>row\<close>.\<close>

fun config_row :: "env \<Rightarrow> nat \<Rightarrow> nat list \<Rightarrow> (string \<times> int) list \<Rightarrow> json \<Rightarrow>
    (json \<times> (string \<times> int) list) mres" where
  "config_row e i [] row j = Inr (j, row)"
| "config_row e i (k # ks) row j =
     bindE (uncaught (config_pair e [Key ''SERVERS'', Index i, Index k] j)) (\<lambda>(j1, p).
     if k < length row then config_row e i ks (row[k := p]) j1 else Inl Bad_access)"

text \<open>
  The loop over the clusters. Its condition asks for the size again in every turn; the size is
  that of the first time, see \<open>config_rows_size\<close>, and the loop is written over the indexes below it.
\<close>

fun config_rows :: "env \<Rightarrow> nat list \<Rightarrow> json \<Rightarrow> (json \<times> (string \<times> int) list list) mres" where
  "config_rows e [] j = Inr (j, [])"
| "config_rows e (i # is) j =
     bindE (uncaught (subscript [Key ''SERVERS'', Index i] j)) (\<lambda>(j1, v).
     bindE (config_row e i [0..<nat SERVER_NUM_PER_CLUSTER] (replicate (json_size v) ([], 0)) j1) (\<lambda>(j2, row).
     mapE (\<lambda>(j3, rows). (j3, row # rows)) (config_rows e is j2)))"

definition read_config :: "env \<Rightarrow> json \<Rightarrow> config mres" where
  "read_config e j =
     bindE (uncaught (config_pair e [Key ''ROUTING_SERVICE''] j)) (\<lambda>(j1, routing).
     bindE (uncaught (subscript [Key ''SERVERS''] j1)) (\<lambda>(j2, servers).
     bindE (config_rows e [0..<json_size servers] j2) (\<lambda>(j3, rows).
     bindE (uncaught (subscript [Key ''MESSAGE_TIMEOUT_MS''] j3)) (\<lambda>(j4, t).
     mapE (\<lambda>ms. \<lparr> cfg_routing = routing, cfg_pairs = rows, cfg_timeout = ms \<rparr>)
       (uncaught (from_json_int (double_to_int e) t))))))"

section \<open>The arguments\<close>

definition stoi :: "string \<Rightarrow> int mres" where
  "stoi s =
     (case scan_d s of
        None \<Rightarrow> Inl Invalid_argument
      | Some (v, _) \<Rightarrow> (if in32 v then Inr v else Inl Stoi_out_of_range))"

text \<open>
  \<open>server_base_port + i * SERVER_NUM_PER_CLUSTER + j\<close> is computed with unsigned 64-bit numbers
  and stored in an \<open>int\<close>.
\<close>

definition new_port :: "int \<Rightarrow> nat \<Rightarrow> nat \<Rightarrow> int" where
  "new_port base i j =
     wrap32 ((base + int i * SERVER_NUM_PER_CLUSTER + int j) mod 18446744073709551616)"

fun set_ports :: "int \<Rightarrow> nat \<Rightarrow> nat list \<Rightarrow> (string \<times> int) list \<Rightarrow> (string \<times> int) list mres" where
  "set_ports base i [] row = Inr row"
| "set_ports base i (j # js) row =
     (if j < length row then set_ports base i js (row[j := (fst (row ! j), new_port base i j)])
      else Inl Bad_access)"

fun set_all_ports :: "int \<Rightarrow> nat \<Rightarrow> (string \<times> int) list list \<Rightarrow> (string \<times> int) list list mres" where
  "set_all_ports base i [] = Inr []"
| "set_all_ports base i (row # rows) =
     bindE (set_ports base i [0..<nat SERVER_NUM_PER_CLUSTER] row) (\<lambda>row'.
     mapE (Cons row') (set_all_ports base (i + 1) rows))"

text \<open>The arguments after the name of the program.\<close>

definition apply_args :: "string list \<Rightarrow> config \<Rightarrow> config mres" where
  "apply_args args cfg =
     (case args of
        a1 # a2 # _ \<Rightarrow>
          bindE (stoi a1) (\<lambda>routing_port.
          bindE (stoi a2) (\<lambda>base.
          mapE (\<lambda>rows. cfg\<lparr> cfg_routing := (fst (cfg_routing cfg), routing_port), cfg_pairs := rows \<rparr>)
            (set_all_ports base 0 (cfg_pairs cfg))))
      | _ \<Rightarrow> Inr cfg)"

section \<open>Starting the servers\<close>

record child =
  ch_cluster :: int
  ch_server :: int
  ch_pid :: int

text \<open>The clusters and indexes in the order of the two loops.\<close>

definition slots :: "nat \<Rightarrow> (int \<times> int) list" where
  "slots n = concat (map (\<lambda>c. map (\<lambda>index. (int c, index)) [0..SERVER_NUM_PER_CLUSTER - 1]) [0..<n])"

text \<open>
  The parent: \<open>fork_ret k\<close> is what the \<open>k\<close>-th \<open>fork\<close> returns to it, the process that was
  started or a negative number.
\<close>

fun fork_servers :: "(nat \<Rightarrow> int) \<Rightarrow> (int \<times> int) list \<Rightarrow> child list \<Rightarrow> child list mres" where
  "fork_servers fork_ret [] started = Inr started"
| "fork_servers fork_ret ((c, index) # rest) started =
     (let pid = fork_ret (length started)
      in if 0 < pid
         then fork_servers fork_ret rest
                (started @ [\<lparr> ch_cluster = c, ch_server = c * SERVER_NUM_PER_CLUSTER + index,
                              ch_pid = pid \<rparr>])
         else Inl Return_1)"

text \<open>What a child does with its copy of the tables.\<close>

definition run_child :: "env \<Rightarrow> config \<Rightarrow> child \<Rightarrow> (string \<Rightarrow> string option) \<Rightarrow> CQE option list \<Rightarrow> AIOServer res" where
  "run_child e cfg ch disk cs =
     AIOServer_main e (ch_cluster ch) (ch_server ch) (cfg_routing cfg) (cfg_pairs cfg)
       (cfg_timeout cfg) disk cs"

section \<open>The command loop\<close>

text \<open>
  \<open>while (getchar() != '\n')\<close>: what follows the next newline; without one the loop does not end,
  since \<open>getchar\<close> returns \<open>EOF\<close> again and again.
\<close>

fun skip_line :: "string \<Rightarrow> string option" where
  "skip_line [] = None"
| "skip_line (c # cs) = (if c = CHR 0x0A then Some cs else skip_line cs)"

lemma skip_line_shorter: "skip_line s = Some r \<Longrightarrow> length r < length s"
  by (induction s) (auto split: if_splits)

text \<open>\<open>scanf("%19s")\<close>: no more than 19 characters of the next word, or \<open>EOF\<close> before a word.\<close>

definition scan_word :: "string \<Rightarrow> (string \<times> string) option" where
  "scan_word s =
     (let t = dropWhile is_space s; n = min 19 (length (takeWhile (\<lambda>c. \<not> is_space c) t))
      in if t = [] then None else Some (take n t, drop n t))"

lemma scan_word_shorter: "scan_word s = Some (w, r) \<Longrightarrow> length r \<le> length s"
  using length_dropWhile_le [of is_space s]
  by (auto simp: scan_word_def Let_def split: if_splits)

text \<open>\<open>strcmp\<close> compares up to the first null character.\<close>

definition strcmp_eq :: "string \<Rightarrow> string \<Rightarrow> bool" where
  "strcmp_eq a b \<longleftrightarrow> takeWhile (\<lambda>c. c \<noteq> CHR 0x00) a = takeWhile (\<lambda>c. c \<noteq> CHR 0x00) b"

text \<open>
  The loop reads the terminal until the command \<open>exit\<close>: the rest of the input, or \<open>None\<close> if it
  never ends.
\<close>

function cmd_input :: "string \<Rightarrow> string option" where
  "cmd_input s =
     (case scan_word s of
        None \<Rightarrow> (case skip_line [] of None \<Rightarrow> None | Some r \<Rightarrow> cmd_input r)
      | Some (w, r) \<Rightarrow>
          (if strcmp_eq w ''exit'' then Some r
           else case skip_line r of None \<Rightarrow> None | Some r' \<Rightarrow> cmd_input r'))"
  by auto
termination
  by (relation "measure length") (auto dest!: skip_line_shorter scan_word_shorter)

declare cmd_input.simps [simp del]

text \<open>
  The exit messages that are sent: where to, and the bytes. \<open>htons\<close> keeps 16 bits of the port.
  The results of \<open>socket\<close> and \<open>connect\<close> are given for the \<open>k\<close>-th server. The address is the text that
  is handed to \<open>inet_pton\<close>; the code does not look at its result, and for a text that is no address
  connects to whatever its variable holds, so \<open>to_ip\<close> means an address only where the conversion succeeds.
\<close>

record exit_net =
  exit_socket :: "nat \<Rightarrow> int"
  exit_connect :: "nat \<Rightarrow> int"

record sent =
  to_ip :: string
  to_port :: int
  payload :: string

fun send_exits :: "env \<Rightarrow> exit_net \<Rightarrow> (string \<times> int) list list \<Rightarrow> nat \<Rightarrow> (int \<times> int) list \<Rightarrow> sent list mres" where
  "send_exits e net pairs k [] = Inr []"
| "send_exits e net pairs k ((c, index) # rest) =
     (if exit_socket net k < 0 then send_exits e net pairs (k + 1) rest
      else case bindE (vec_at pairs c) (\<lambda>row. vec_at row index) of
             Inl err \<Rightarrow> Inl Bad_access
           | Inr (ip, port) \<Rightarrow>
               (if exit_connect net k < 0 then send_exits e net pairs (k + 1) rest
                else mapE (Cons \<lparr> to_ip = ip, to_port = port mod 65536,
                             payload = pb_serialize e (Exit c (c * SERVER_NUM_PER_CLUSTER + index)) \<rparr>)
                       (send_exits e net pairs (k + 1) rest)))"

definition cmd :: "env \<Rightarrow> exit_net \<Rightarrow> (string \<times> int) list list \<Rightarrow> string \<Rightarrow> sent list mres option" where
  "cmd e net pairs input =
     map_option (\<lambda>_. send_exits e net pairs 0 (slots (length pairs))) (cmd_input input)"

section \<open>The program\<close>

text \<open>Up to the servers that run: \<open>main\<close> before it calls \<open>cmd\<close>.\<close>

definition start_up :: "env \<Rightarrow> string option \<Rightarrow> string list \<Rightarrow> (nat \<Rightarrow> int) \<Rightarrow> (config \<times> child list) mres" where
  "start_up e config_file args fork_ret =
     (case config_file of
        None \<Rightarrow> Inl Return_1
      | Some content \<Rightarrow>
          bindE (uncaught (json_parse True (file_text e content))) (\<lambda>j.
          bindE (read_config e j) (\<lambda>cfg0.
          bindE (apply_args args cfg0) (\<lambda>cfg.
          mapE (Pair cfg) (fork_servers fork_ret (slots (length (cfg_pairs cfg))) [])))))"

text \<open>
  The whole of \<open>main\<close>: \<open>None\<close> if it never returns; otherwise its early end, or the servers it
  started and waits for, and what it sent to them.
\<close>

definition main ::
  "env \<Rightarrow> string option \<Rightarrow> string list \<Rightarrow> (nat \<Rightarrow> int) \<Rightarrow> exit_net \<Rightarrow> string \<Rightarrow>
   (child list \<times> sent list) mres option" where
  "main e config_file args fork_ret net input =
     (case start_up e config_file args fork_ret of
        Inl f \<Rightarrow> Some (Inl f)
      | Inr (cfg, children) \<Rightarrow>
          map_option (mapE (Pair children)) (cmd e net (cfg_pairs cfg) input))"

section \<open>Reading the configuration\<close>

lemma subscript_throws: "subscript p j = Inl err \<Longrightarrow> \<exists>ex. err = Throw ex"
  by (induction p j rule: subscript.induct)
     (auto simp: bindE_Inl_iff dest: index_key_throws index_at_throws)

lemma config_pair_throws: "config_pair e p j = Inl err \<Longrightarrow> \<exists>ex. err = Throw ex"
  by (auto simp: config_pair_def bindE_Inl_iff
      dest: subscript_throws from_json_string_throws from_json_int_throws)

text \<open>
  What is filled in is \<open>null\<close>: an element that is not \<open>null\<close> was there, and the value is as it was.
\<close>

lemma nth_nulls [simp]: "i \<le> n \<Longrightarrow> (JNull # replicate n JNull) ! i = JNull"
  by (cases i) auto

lemma subscript_null: "subscript p JNull = Inr (j', x) \<Longrightarrow> x = JNull"
proof (induction p arbitrary: j' x)
  case (Cons s p)
  then show ?case by (cases s) (auto simp: index_key_def index_at_def res_iff Let_def)
qed simp

lemma subscript_found:
  "subscript p j = Inr (j', x) \<Longrightarrow> wf_json j \<Longrightarrow> x \<noteq> JNull \<Longrightarrow> j' = j \<and> valid_ref p j \<and> deref p j = x"
proof (induction p arbitrary: j j' x)
  case (Cons s p)
  have rest: "v1 = v \<and> valid_ref p v \<and> deref p v = x" if "subscript p v = Inr (v1, x)" "wf_json v" for v v1
    using Cons.IH Cons.prems(3) that by blast
  have null: "x = JNull" if "subscript p JNull = Inr (v1, x)" for v1
    using that by (rule subscript_null)
  show ?case
  proof (cases s)
    case (Key k)
    obtain m v v1 where "j = JObject m" "map_of m k = Some v" "subscript p v = Inr (v1, x)"
        "j' = assign [Key k] v1 j"
      using Cons.prems(1,3) null
      by (cases j) (auto simp: Key index_key_def res_iff split: option.splits)
    then show ?thesis using Cons.prems(2) rest [of v v1] wf_lookup [of m k v] assign_deref [of j "[Key k]"]
      by (simp add: Key)
  next
    case (Index i)
    obtain a v1 where "j = JArray a" "i < length a" "subscript p (a ! i) = Inr (v1, x)"
        "j' = assign [Index i] v1 j"
      using Cons.prems(1,3) null
      by (cases j) (auto simp: Index index_at_def res_iff nth_append Let_def split: if_splits)
    then show ?thesis using Cons.prems(2) rest [of "a ! i" v1] assign_deref [of j "[Index i]"]
      by (simp add: Index)
  qed
qed simp

text \<open>A pair that is read was in the value, as a string and a number.\<close>

definition has_pair :: "env \<Rightarrow> json \<Rightarrow> ref_path \<Rightarrow> string \<times> int \<Rightarrow> bool" where
  "has_pair e j path p \<longleftrightarrow>
     valid_ref (path @ [Key ''IP'']) j \<and> deref (path @ [Key ''IP'']) j = JString (fst p) \<and>
     valid_ref (path @ [Key ''PORT'']) j \<and>
     from_json_int (double_to_int e) (deref (path @ [Key ''PORT'']) j) = Inr (snd p)"

lemma config_pair_found:
  assumes "config_pair e path j = Inr (j', p)" and "wf_json j"
  shows "j' = j \<and> has_pair e j path p"
proof -
  obtain j1 ip port where 1: "subscript (path @ [Key ''IP'']) j = Inr (j1, ip)"
    and 2: "subscript (path @ [Key ''PORT'']) j1 = Inr (j', port)"
    and 3: "from_json_string ip = Inr (fst p)" "from_json_int (double_to_int e) port = Inr (snd p)"
    using assms(1) by (auto simp: config_pair_def res_iff)
  have "ip \<noteq> JNull" "port \<noteq> JNull" "ip = JString (fst p)"
    using 3 by (cases ip; auto simp: from_json_string_def from_json_int_def)+
  then show ?thesis using subscript_found [OF 1 assms(2)] subscript_found [OF 2] 3 assms(2)
    by (auto simp: has_pair_def)
qed

lemma valid_ref_append: "valid_ref (p @ q) j \<longleftrightarrow> valid_ref p j \<and> valid_ref q (deref p j)"
  by (induction p j rule: valid_ref.induct) (auto split: option.splits)

lemma index_key_wf:
  assumes "index_key j k = Inr (j1, v)" "wf_json j" "utf8 k"
  shows "\<exists>m. j1 = JObject m \<and> wf_json j1 \<and> map_of m k = Some v"
proof (cases "j = JNull")
  case True
  then show ?thesis using assms by (auto simp: index_key_def)
next
  case False
  then obtain m where m: "wf_json (JObject m)" "j1 = JObject m \<and> map_of m k = Some v \<or>
      j1 = JObject (obj_set k JNull m) \<and> v = JNull"
    using assms(1,2) by (cases j) (auto simp: index_key_def split: option.splits)
  then show ?thesis using wf_obj_set [OF assms(3) _ m(1), of JNull]
    by (auto simp del: wf_json.simps(2))
qed

lemma index_at_wf:
  "index_at j i = Inr (j1, v) \<Longrightarrow> wf_json j \<Longrightarrow>
     \<exists>a. j1 = JArray a \<and> wf_json j1 \<and> i < length a \<and> v = a ! i"
  by (cases j) (auto simp: index_at_def Let_def)

lemma subscript_refers:
  "subscript p j = Inr (j', x) \<Longrightarrow> wf_json j \<Longrightarrow> \<forall>k. Key k \<in> set p \<longrightarrow> utf8 k \<Longrightarrow>
     wf_json j' \<and> valid_ref p j' \<and> deref p j' = x"
proof (induction p arbitrary: j j' x)
  case (Cons s p)
  show ?case
  proof (cases s)
    case (Key k)
    obtain j1 v v1 where 1: "index_key j k = Inr (j1, v)" "subscript p v = Inr (v1, x)"
        "j' = assign [Key k] v1 j1"
      using Cons.prems(1) by (auto simp: Key res_iff)
    then obtain m where "wf_json (JObject m)" "j1 = JObject m" "map_of m k = Some v"
      using index_key_wf [OF 1(1) Cons.prems(2)] Cons.prems(3) Key by auto
    moreover from this have "wf_json v" using wf_lookup by blast
    ultimately show ?thesis using Cons.IH [OF 1(2)] Cons.prems(3) wf_assign [of v1 "JObject m" "[Key k]"] 1(3)
      by (simp add: Key)
  next
    case (Index i)
    obtain j1 v v1 where 1: "index_at j i = Inr (j1, v)" "subscript p v = Inr (v1, x)"
        "j' = assign [Index i] v1 j1"
      using Cons.prems(1) by (auto simp: Index res_iff)
    then obtain a where "j1 = JArray a" "wf_json j1" "i < length a" "v = a ! i"
      using index_at_wf [OF 1(1) Cons.prems(2)] by auto
    then show ?thesis using Cons.IH [OF 1(2)] Cons.prems(3) wf_assign [of v1 "JArray a" "[Index i]"] 1(3)
      by (simp add: Index)
  qed
qed simp

declare subscript.simps [simp del]

lemma config_keys [simp]:
  "utf8 ''SERVERS''" "utf8 ''IP''" "utf8 ''PORT''" "utf8 ''ROUTING_SERVICE''" "utf8 ''MESSAGE_TIMEOUT_MS''"
  by (rule utf8_ascii, simp)+

abbreviation server_ref :: "nat \<Rightarrow> nat \<Rightarrow> ref_path" where
  "server_ref i k \<equiv> [Key ''SERVERS'', Index i, Index k]"

lemma has_pair_server:
  assumes "has_pair e j (server_ref i k) p"
  shows "valid_ref [Key ''SERVERS'', Index i] j" "k < json_size (deref [Key ''SERVERS'', Index i] j)"
proof -
  have v: "valid_ref [Index k, Key ''IP''] (deref [Key ''SERVERS'', Index i] j)"
    and "valid_ref [Key ''SERVERS'', Index i] j"
    using assms valid_ref_append [of "[Key ''SERVERS'', Index i]" "[Index k, Key ''IP'']" j]
    by (auto simp: has_pair_def)
  then show "valid_ref [Key ''SERVERS'', Index i] j" by simp
  show "k < json_size (deref [Key ''SERVERS'', Index i] j)"
    using v by (cases "deref [Key ''SERVERS'', Index i] j") auto
qed

lemma config_row_found:
  "config_row e i ks row j = Inr (j', row') \<Longrightarrow> wf_json j \<Longrightarrow> distinct ks \<Longrightarrow>
     j' = j \<and> length row' = length row \<and> (\<forall>k. k \<notin> set ks \<longrightarrow> row' ! k = row ! k) \<and>
     (\<forall>k \<in> set ks. k < length row \<and> has_pair e j (server_ref i k) (row' ! k))"
proof (induction ks arbitrary: row j)
  case (Cons k ks)
  obtain j1 p where 1: "config_pair e (server_ref i k) j = Inr (j1, p)" and k: "k < length row"
    and 2: "config_row e i ks (row[k := p]) j1 = Inr (j', row')"
    using Cons.prems(1) by (auto simp: res_iff split: if_splits)
  have "j1 = j" "has_pair e j (server_ref i k) p" using config_pair_found [OF 1 Cons.prems(2)] by auto
  then show ?case using Cons.IH [OF 2] Cons.prems(2,3) k by auto
qed simp

lemma config_row_defined:
  "config_row e i ks row j = Inl f \<Longrightarrow> wf_json j \<Longrightarrow>
     length row = json_size (deref [Key ''SERVERS'', Index i] j) \<Longrightarrow> \<exists>ex. f = Uncaught (Throw ex)"
proof (induction ks arbitrary: row j)
  case (Cons k ks)
  show ?case
  proof (cases "config_pair e (server_ref i k) j")
    case (Inl err)
    then show ?thesis using Cons.prems(1) config_pair_throws by auto
  next
    case (Inr q)
    then obtain p where q: "config_pair e (server_ref i k) j = Inr (j, p)" "has_pair e j (server_ref i k) p"
      using config_pair_found [of e "server_ref i k" j "fst q" "snd q"] Cons.prems(2) by (cases q) auto
    then show ?thesis using Cons has_pair_server(2) [OF q(2)] by auto
  qed
qed simp

lemma three: "[0..<3] = [0, 1, 2 :: nat]"
  by (simp add: upt_rec numeral_3_eq_3)

declare config_row.simps [simp del]

lemma config_rows_found:
  "config_rows e is j = Inr (j', rows) \<Longrightarrow> wf_json j \<Longrightarrow>
     j' = j \<and> length rows = length is \<and>
     (\<forall>n < length is. 3 \<le> length (rows ! n) \<and>
        (\<forall>k < 3. has_pair e j (server_ref (is ! n) k) (rows ! n ! k)))"
proof (induction "is" arbitrary: rows j)
  case (Cons i "is")
  obtain j1 v j2 row rows' where 1: "subscript [Key ''SERVERS'', Index i] j = Inr (j1, v)"
    and 2: "config_row e i [0, 1, 2] (replicate (json_size v) ([], 0)) j1 = Inr (j2, row)"
    and 3: "config_rows e is j2 = Inr (j', rows')" "rows = row # rows'"
    using Cons.prems(1) by (auto simp: res_iff three)
  have r: "wf_json j1" "deref [Key ''SERVERS'', Index i] j1 = v"
    using subscript_refers [OF 1] Cons.prems(2) by simp_all
  note row = config_row_found [OF 2 r(1)]
  then have len: "2 < json_size v" by simp
  then have "j1 = j" using subscript_found [OF 1 Cons.prems(2)] by (cases "v = JNull") auto
  moreover have "j2 = j1" using row by simp
  moreover have "\<forall>k < 3. has_pair e j1 (server_ref i k) (row ! k)"
    using row by (simp add: less_Suc_eq numeral_3_eq_3 numeral_2_eq_2)
  ultimately show ?case using Cons.IH [OF 3(1)] Cons.prems(2) 3(2) row len
    by (auto simp: nth_Cons split: nat.splits)
qed simp

lemma config_rows_defined:
  "config_rows e is j = Inl f \<Longrightarrow> wf_json j \<Longrightarrow> \<exists>ex. f = Uncaught (Throw ex)"
proof (induction "is" arbitrary: j)
  case (Cons i "is")
  show ?case
  proof (cases "subscript [Key ''SERVERS'', Index i] j")
    case (Inl err)
    then show ?thesis using Cons.prems(1) subscript_throws by auto
  next
    case (Inr q)
    then obtain j1 v where 1: "subscript [Key ''SERVERS'', Index i] j = Inr (j1, v)" by (cases q) auto
    have r: "wf_json j1" "deref [Key ''SERVERS'', Index i] j1 = v"
      using subscript_refers [OF 1] Cons.prems(2) by simp_all
    let ?row = "config_row e i [0, 1, 2] (replicate (json_size v) ([], 0)) j1"
    show ?thesis
    proof (cases ?row)
      case (Inl g)
      then show ?thesis using Cons.prems(1) 1 config_row_defined [OF Inl r(1)] r(2) by (simp add: three)
    next
      case (Inr s)
      then have "fst s = j1" using config_row_found [of e i "[0, 1, 2]" _ j1 "fst s" "snd s"] r(1) by simp
      then show ?thesis using Cons.prems 1 Inr Cons.IH [OF _ r(1)]
        by (cases s) (auto simp: three)
    qed
  qed
qed simp

text \<open>The size that the condition of the loop asks for is the same after every turn.\<close>

lemma config_rows_size:
  assumes "config_rows e is j = Inr (j', rows)" "wf_json j"
  shows "subscript [Key ''SERVERS''] j' = subscript [Key ''SERVERS''] j"
  using config_rows_found [OF assms] by simp

text \<open>The configuration that is read is the one of the file.\<close>

definition config_of :: "env \<Rightarrow> json \<Rightarrow> config \<Rightarrow> bool" where
  "config_of e j cfg \<longleftrightarrow>
     has_pair e j [Key ''ROUTING_SERVICE''] (cfg_routing cfg) \<and>
     from_json_int (double_to_int e) (deref [Key ''MESSAGE_TIMEOUT_MS''] j) = Inr (cfg_timeout cfg) \<and>
     (\<forall>c < length (cfg_pairs cfg). 3 \<le> length (cfg_pairs cfg ! c) \<and>
        (\<forall>k < 3. has_pair e j (server_ref c k) (cfg_pairs cfg ! c ! k)))"

lemma has_pair_servers_kept:
  assumes "subscript [Key ''SERVERS''] j = Inr (j', v)" and "wf_json j" and "k < json_size v"
  shows "j' = j"
  using subscript_found [OF assms(1,2)] assms(3) by (cases "v = JNull") auto

lemma read_config_found:
  assumes "read_config e j = Inr cfg" and wf: "wf_json j"
  shows "config_of e j cfg"
proof -
  obtain j1 routing j2 servers j3 rows j4 t where 1: "config_pair e [Key ''ROUTING_SERVICE''] j = Inr (j1, routing)"
    and 2: "subscript [Key ''SERVERS''] j1 = Inr (j2, servers)"
    and 3: "config_rows e [0..<json_size servers] j2 = Inr (j3, rows)"
    and 4: "subscript [Key ''MESSAGE_TIMEOUT_MS''] j3 = Inr (j4, t)"
    and 5: "from_json_int (double_to_int e) t = Inr (cfg_timeout cfg)"
      "cfg_routing cfg = routing" "cfg_pairs cfg = rows"
    using assms(1) by (auto simp: read_config_def res_iff)
  have j1: "j1 = j" "has_pair e j [Key ''ROUTING_SERVICE''] routing"
    using config_pair_found [OF 1 wf] by auto
  have wf2: "wf_json j2" using subscript_refers [OF 2] wf j1 by simp
  note rows = config_rows_found [OF 3 wf2]
  have t: "t \<noteq> JNull" using 5(1) by (auto simp: from_json_int_def)
  have timeout: "deref [Key ''MESSAGE_TIMEOUT_MS''] j2 = t"
    using subscript_found [OF 4 _ t] rows wf2 by auto
  have "deref [Key ''MESSAGE_TIMEOUT_MS''] j = t"
    using 2 timeout j1 t by (cases j) (auto simp: subscript.simps index_key_def res_iff split: option.splits if_splits)
  moreover have "j2 = j" if "c < length rows" for c
    using has_pair_servers_kept [OF 2, of c] wf j1(1) rows that by simp
  ultimately show ?thesis using rows j1(2) 5 by (auto simp: config_of_def)
qed

lemma read_config_defined:
  assumes "read_config e j = Inl f" and wf: "wf_json j"
  shows "\<exists>ex. f = Uncaught (Throw ex)"
proof -
  have pair: "wf_json j1" if "config_pair e [Key ''ROUTING_SERVICE''] j = Inr (j1, r)" for j1 r
    using config_pair_found [OF that wf] wf by simp
  have srv: "wf_json j2" if "subscript [Key ''SERVERS''] j1 = Inr (j2, r)" "wf_json j1" for j1 j2 r
    using subscript_refers [OF that] by simp
  show ?thesis using assms(1)
    by (auto simp: read_config_def bindE_Inl_iff uncaught_Inl uncaught_Inr
        dest: config_pair_throws subscript_throws from_json_int_throws
        dest!: config_rows_defined pair srv)
qed

section \<open>The arguments replace the ports\<close>

lemma set_ports_same_length: "set_ports base i js row = Inr row' \<Longrightarrow> length row' = length row"
  by (induction js arbitrary: row) (auto split: if_splits)

lemma set_ports_defined:
  "\<forall>j \<in> set js. j < length row \<Longrightarrow> \<exists>row'. set_ports base i js row = Inr row'"
  by (induction js arbitrary: row) auto

lemma set_all_ports_defined:
  "\<forall>row \<in> set rows. 3 \<le> length row \<Longrightarrow>
     \<exists>rows'. set_all_ports base i rows = Inr rows' \<and> map length rows' = map length rows"
proof (induction rows arbitrary: i)
  case (Cons row rows)
  have "row \<noteq> []" using Cons.prems by auto
  then obtain row' where "set_ports base i [0, 1, 2] row = Inr row'"
    using set_ports_defined [of "[0, 1, 2]" row base i] Cons.prems by (auto simp del: set_ports.simps)
  moreover from this have "length row' = length row" by (rule set_ports_same_length)
  ultimately show ?case using Cons.IH [of "i + 1"] Cons.prems by (auto simp: three simp del: set_ports.simps)
qed simp

definition rows_ok :: "config \<Rightarrow> bool" where
  "rows_ok cfg \<longleftrightarrow> (\<forall>row \<in> set (cfg_pairs cfg). 3 \<le> length row)"

lemma rows_ok_lengths:
  "map length rows = map length rows' \<Longrightarrow>
     (\<forall>row \<in> set rows. n \<le> length row) \<longleftrightarrow> (\<forall>row \<in> set rows'. n \<le> length row)"
  by (metis (no_types, lifting) imageE imageI list.set_map)

lemma apply_args_rows:
  assumes "rows_ok cfg0"
  shows "apply_args args cfg0 = Inr cfg \<Longrightarrow> rows_ok cfg"
    and "apply_args args cfg0 = Inl f \<Longrightarrow> f \<in> {Invalid_argument, Stoi_out_of_range}"
proof -
  have d: "\<exists>rows'. set_all_ports base 0 (cfg_pairs cfg0) = Inr rows' \<and> (\<forall>row \<in> set rows'. 3 \<le> length row)" for base
    using set_all_ports_defined [of "cfg_pairs cfg0" base 0] assms rows_ok_lengths [of _ "cfg_pairs cfg0" 3]
    by (auto simp: rows_ok_def)
  show "rows_ok cfg" if run: "apply_args args cfg0 = Inr cfg"
  proof (cases "length args < 2")
    case True
    then show ?thesis using run assms by (auto simp: apply_args_def split: list.splits)
  next
    case False
    then obtain a1 a2 as where "args = a1 # a2 # as"
      by (metis One_nat_def Suc_1 Suc_less_eq length_Cons list.size(3) neq_Nil_conv zero_less_Suc)
    then obtain base rows' where "set_all_ports base 0 (cfg_pairs cfg0) = Inr rows'" "cfg_pairs cfg = rows'"
      using run by (auto simp: apply_args_def res_iff)
    then show ?thesis using d [of base] by (auto simp: rows_ok_def)
  qed
  show "f \<in> {Invalid_argument, Stoi_out_of_range}" if run: "apply_args args cfg0 = Inl f"
  proof -
    obtain a1 a2 as where "args = a1 # a2 # as"
      using run by (auto simp: apply_args_def split: list.splits)
    moreover have "g \<in> {Invalid_argument, Stoi_out_of_range}" if "stoi a = Inl g" for a g
      using that by (auto simp: stoi_def split: option.splits if_splits)
    moreover have "set_all_ports base 0 (cfg_pairs cfg0) \<noteq> Inl g" for base g using d [of base] by auto
    ultimately show ?thesis using run by (auto simp: apply_args_def bindE_Inl_iff)
  qed
qed

section \<open>The servers that are started\<close>

lemma fork_servers_started:
  "fork_servers f xs started = Inr children \<Longrightarrow>
     map (\<lambda>ch. (ch_cluster ch, ch_server ch)) children =
     map (\<lambda>ch. (ch_cluster ch, ch_server ch)) started @ map (\<lambda>(c, i). (c, c * SERVER_NUM_PER_CLUSTER + i)) xs"
  by (induction f xs started rule: fork_servers.induct) (auto simp: Let_def split: if_splits)

lemma fork_servers_fails: "fork_servers f xs started = Inl err \<Longrightarrow> err = Return_1"
  by (induction f xs started rule: fork_servers.induct) (auto simp: Let_def split: if_splits)

lemma slots_bounds: "(c, i) \<in> set (slots n) \<longleftrightarrow> 0 \<le> c \<and> c < int n \<and> 0 \<le> i \<and> i < SERVER_NUM_PER_CLUSTER"
  by (auto simp: slots_def image_iff intro!: bexI [of _ "nat c"])

lemma start_up_rows:
  assumes "start_up e f args fork_ret = Inr (cfg, children)"
  shows "rows_ok cfg"
    and "map (\<lambda>ch. (ch_cluster ch, ch_server ch)) children =
      map (\<lambda>(c, i). (c, c * SERVER_NUM_PER_CLUSTER + i)) (slots (length (cfg_pairs cfg)))"
proof -
  obtain content j cfg0 where 1: "json_parse True (file_text e content) = Inr j" "read_config e j = Inr cfg0"
      "apply_args args cfg0 = Inr cfg" "fork_servers fork_ret (slots (length (cfg_pairs cfg))) [] = Inr children"
    using assms by (auto simp: start_up_def res_iff split: option.splits)
  have "rows_ok cfg0" using read_config_found [OF 1(2) json_parse_wf [OF 1(1)]]
    by (auto simp: config_of_def rows_ok_def in_set_conv_nth)
  then show "rows_ok cfg" using apply_args_rows(1) 1(3) by blast
  show "map (\<lambda>ch. (ch_cluster ch, ch_server ch)) children =
      map (\<lambda>(c, i). (c, c * SERVER_NUM_PER_CLUSTER + i)) (slots (length (cfg_pairs cfg)))"
    using fork_servers_started [OF 1(4)] by simp
qed

lemma start_up_fails:
  assumes "start_up e f args fork_ret = Inl err"
  shows "err \<in> {Return_1, Invalid_argument, Stoi_out_of_range} \<or> (\<exists>ex. err = Uncaught (Throw ex))"
proof (cases f)
  case (Some content)
  show ?thesis
  proof (cases "json_parse True (file_text e content)")
    case (Inl e1)
    then show ?thesis using assms Some json_parse_throws [of "file_text e content"]
      by (auto simp: start_up_def)
  next
    case (Inr j)
    note wf = json_parse_wf [OF Inr]
    show ?thesis
    proof (cases "read_config e j")
      case (Inl e2)
      then show ?thesis using assms Some Inr read_config_defined [OF Inl wf] by (auto simp: start_up_def)
    next
      case cfg0: (Inr cfg0)
      have rows: "rows_ok cfg0" using read_config_found [OF cfg0 wf]
        by (auto simp: config_of_def rows_ok_def in_set_conv_nth)
      show ?thesis using assms Some Inr cfg0 apply_args_rows(2) [OF rows, of args]
        by (auto simp: start_up_def bindE_Inl_iff dest: fork_servers_fails)
    qed
  qed
qed (use assms in \<open>simp add: start_up_def\<close>)

section \<open>The exit messages\<close>

lemma vec_at_slot:
  assumes "\<forall>row \<in> set pairs. 3 \<le> length row" "(c, i) \<in> set (slots (length pairs))"
  shows "bindE (vec_at pairs c) (\<lambda>row. vec_at row i) = Inr (pairs ! nat c ! nat i)"
proof -
  have c: "0 \<le> c" "c < int (length pairs)" "0 \<le> i" "i < 3" using assms(2) by (simp_all add: slots_bounds)
  then have "3 \<le> length (pairs ! nat c)" using assms(1) by simp
  then show ?thesis using c by (simp add: vec_at_def)
qed

lemma send_exits_defined:
  assumes "\<forall>row \<in> set pairs. 3 \<le> length row"
  shows "set xs \<subseteq> set (slots (length pairs)) \<Longrightarrow> \<exists>out. send_exits e net pairs k xs = Inr out"
proof (induction xs arbitrary: k)
  case (Cons x xs)
  obtain c i where x: "x = (c, i)" by fastforce
  obtain ip port where "bindE (vec_at pairs c) (\<lambda>row. vec_at row i) = Inr (ip, port)"
    using vec_at_slot [OF assms, of c i] Cons.prems by (cases "pairs ! nat c ! nat i") (auto simp: x)
  then show ?case using Cons.IH [of "k + 1"] Cons.prems by (auto simp: x)
qed simp

lemma slot_addresses:
  fixes srv :: AIOServer
  assumes "\<forall>row \<in> set (server_ip_port_pairs srv). 3 \<le> length row"
    and "(c, i) \<in> set (slots (length (server_ip_port_pairs srv)))"
    and "srv_cluster_id srv = c" "srv_server_id srv = c * SERVER_NUM_PER_CLUSTER + i"
  shows "self_idx srv = i"
    and "0 \<le> idx \<Longrightarrow> idx < SERVER_NUM_PER_CLUSTER \<Longrightarrow>
      peer_addr srv idx = Inr (server_ip_port_pairs srv ! nat c ! nat idx)"
proof -
  have b: "0 \<le> c" "c < int (length (server_ip_port_pairs srv))" "0 \<le> i" "i < 3"
    using assms(2) by (simp_all add: slots_bounds)
  then show "self_idx srv = i" using assms(4) by (simp add: self_idx_def smod_nonneg)
  show "peer_addr srv idx = Inr (server_ip_port_pairs srv ! nat c ! nat idx)"
    if "0 \<le> idx" "idx < SERVER_NUM_PER_CLUSTER"
  proof -
    have "(c, idx) \<in> set (slots (length (server_ip_port_pairs srv)))"
      using b that by (simp add: slots_bounds)
    then show ?thesis using vec_at_slot [OF assms(1)] assms(3) by (simp add: peer_addr_def)
  qed
qed

lemma slots_Suc: "slots (Suc n) = slots n @ [(int n, 0), (int n, 1), (int n, 2)]"
  by (simp add: slots_def upto.simps)

lemma slots_numbered:
  "map (\<lambda>(c, i). (c, c * SERVER_NUM_PER_CLUSTER + i)) (slots n) = map (\<lambda>k. (int (k div 3), int k)) [0..<3 * n]"
proof (induction n)
  case (Suc n)
  have "[0..<3 * Suc n] = [0..<3 * n] @ [3 * n, Suc (3 * n), Suc (Suc (3 * n))]"
    by (simp add: numeral_3_eq_3)
  moreover have "Suc (3 * n) div 3 = n" "Suc (Suc (3 * n)) div 3 = n" by presburger+
  ultimately show ?case using Suc by (simp add: slots_Suc)
qed (simp add: slots_def)

lemma child_slot:
  assumes "map (\<lambda>ch. (ch_cluster ch, ch_server ch)) children = map (\<lambda>(c, i). (c, c * SERVER_NUM_PER_CLUSTER + i)) xs"
    and "ch \<in> set children"
  shows "\<exists>i. (ch_cluster ch, i) \<in> set xs \<and> ch_server ch = ch_cluster ch * 3 + i"
proof -
  have "(ch_cluster ch, ch_server ch) \<in> set (map (\<lambda>(c, i). (c, c * SERVER_NUM_PER_CLUSTER + i)) xs)"
    using assms(2) unfolding assms(1) [symmetric] by force
  then show ?thesis by auto
qed

text \<open>The message to a server, at the address in its own table.\<close>

definition exit_to :: "env \<Rightarrow> (string \<times> int) list list \<Rightarrow> int \<times> int \<Rightarrow> sent" where
  "exit_to e pairs = (\<lambda>(c, i).
     \<lparr> to_ip = fst (pairs ! nat c ! nat i), to_port = snd (pairs ! nat c ! nat i) mod 65536,
       payload = pb_serialize e (Exit c (c * SERVER_NUM_PER_CLUSTER + i)) \<rparr>)"

lemma send_exits_all:
  assumes rows: "\<forall>row \<in> set pairs. 3 \<le> length row"
    and "\<And>k. 0 \<le> exit_socket net k" "\<And>k. 0 \<le> exit_connect net k"
  shows "set xs \<subseteq> set (slots (length pairs)) \<Longrightarrow> send_exits e net pairs k xs = Inr (map (exit_to e pairs) xs)"
proof (induction xs arbitrary: k)
  case (Cons x xs)
  obtain c i where x: "x = (c, i)" by fastforce
  have "bindE (vec_at pairs c) (\<lambda>row. vec_at row i) = Inr (pairs ! nat c ! nat i)"
    using vec_at_slot [OF rows, of c i] Cons.prems by (auto simp: x)
  moreover have "\<not> exit_socket net k < 0" "\<not> exit_connect net k < 0" using assms(2,3) [of k] by auto
  ultimately show ?case using Cons.IH [of "k + 1"] Cons.prems
    by (cases "pairs ! nat c ! nat i") (auto simp: x exit_to_def)
qed simp

section \<open>The command\<close>

text \<open>The loop ends only at a word that begins with \<open>exit\<close>.\<close>

lemma skip_line_suffix: "skip_line s = Some r \<Longrightarrow> \<exists>p. s = p @ r"
  by (induction s) (auto split: if_splits intro: exI [of _ "_ # _"])

lemma scan_word_parts: "scan_word s = Some (w, r) \<Longrightarrow> \<exists>p. s = p @ w @ r"
  by (auto simp: scan_word_def Let_def split: if_splits)
     (metis append_take_drop_id takeWhile_dropWhile_id append_assoc)

lemma cmd_input_needs_exit: "cmd_input s = Some r \<Longrightarrow> \<exists>p q. s = p @ ''exit'' @ q"
proof (induction s rule: cmd_input.induct)
  case (1 s)
  obtain w r' where w: "scan_word s = Some (w, r')"
    using 1(3) by (subst (asm) cmd_input.simps) (auto split: option.splits)
  obtain p where p: "s = p @ w @ r'" using scan_word_parts [OF w] by blast
  show ?case
  proof (cases "strcmp_eq w ''exit''")
    case True
    then have "takeWhile (\<lambda>c. c \<noteq> CHR 0x00) w = ''exit''" by (simp add: strcmp_eq_def)
    then have "w = ''exit'' @ dropWhile (\<lambda>c. c \<noteq> CHR 0x00) w" by (metis takeWhile_dropWhile_id)
    then show ?thesis using p by (metis append_assoc)
  next
    case False
    then obtain r'' where r: "skip_line r' = Some r''" "cmd_input r'' = Some r"
      using 1(3) w by (subst (asm) cmd_input.simps) (auto split: option.splits)
    obtain p' q where "r'' = p' @ ''exit'' @ q" using 1(2) [OF w refl False r] by blast
    moreover obtain p'' where "r' = p'' @ r''" using skip_line_suffix [OF r(1)] by blast
    ultimately show ?thesis using p by (metis append_assoc)
  qed
qed

section \<open>A configuration of one cluster\<close>

definition ex_config :: json where
  "ex_config = JObject
     [(''MESSAGE_TIMEOUT_MS'', JUnsigned 9),
      (''ROUTING_SERVICE'', JObject [(''IP'', JString ''r''), (''PORT'', JUnsigned 70)]),
      (''SERVERS'', JArray [JArray
         [JObject [(''IP'', JString ''a''), (''PORT'', JUnsigned 71)],
          JObject [(''IP'', JString ''b''), (''PORT'', JUnsigned 72)],
          JObject [(''IP'', JString ''c''), (''PORT'', JUnsigned 73)]]])]"

definition ex_file :: string where
  "ex_file = ''{\"MESSAGE_TIMEOUT_MS\":9,\"ROUTING_SERVICE\":{\"IP\":\"r\",\"PORT\":70},\"SERVERS\":'' @
     ''[[{\"IP\":\"a\",\"PORT\":71},{\"IP\":\"b\",\"PORT\":72},{\"IP\":\"c\",\"PORT\":73}]]}''"

definition ex_started :: config where
  "ex_started = \<lparr> cfg_routing = (''r'', 70), cfg_pairs = [[(''a'', 71), (''b'', 72), (''c'', 73)]],
     cfg_timeout = 9 \<rparr>"

definition ex_children :: "child list" where
  "ex_children = map (\<lambda>i. \<lparr> ch_cluster = 0, ch_server = i, ch_pid = i + 50 \<rparr>) [0, 1, 2]"

definition ex_net :: exit_net where
  "ex_net = \<lparr> exit_socket = \<lambda>k. 3, exit_connect = \<lambda>k. 0 \<rparr>"

lemma ex_parse: "json_parse True ex_file = Inr ex_config"
proof -
  have "compact ex_config = ex_file" by code_simp
  moreover have "plain_json ex_config" by code_simp
  ultimately have "value_text ex_config ex_file" using compact_text by metis
  then have "json_text ex_config ex_file"
    unfolding json_text_def by (metis append_Nil append_Nil2 blank_Nil)
  then show ?thesis by (rule json_text_parse)
qed

lemma ex_read: "read_config env0 ex_config = Inr ex_started"
  by code_simp

lemma ex_start_up: "start_up env0 (Some ex_file) [] (\<lambda>k. int k + 50) = Inr (ex_started, ex_children)"
proof -
  have "file_text env0 ex_file = ex_file" by (simp add: file_text_def env0_def)
  moreover have "fork_servers (\<lambda>k. int k + 50) (slots (length (cfg_pairs ex_started))) [] = Inr ex_children"
    by code_simp
  ultimately show ?thesis by (simp add: start_up_def ex_parse ex_read apply_args_def)
qed

section \<open>Properties of the program\<close>

text \<open>
  C38. Start-up is defined for every configuration file and every argument: if it ends early then
  with exit status 1, with an exception of \<open>std::stoi\<close> or with an exception of the JSON library,
  never with an access outside a table, also when a cluster of the file has fewer than three
  servers.  If it succeeds, exactly the servers \<open>0\<close>, \<open>1\<close>, ... run, three per cluster of the file, server
  \<open>k\<close> in cluster \<open>k div 3\<close>; each of them is at its own place \<open>k mod 3\<close> of its row, and finds there and
  for its two peers the addresses of the table it was given.
\<close>

theorem started_servers_tables:
  "case start_up e config_file args fork_ret of
     Inl f \<Rightarrow> f \<in> {Return_1, Invalid_argument, Stoi_out_of_range} \<union> range (\<lambda>ex. Uncaught (Throw ex))
   | Inr (cfg, children) \<Rightarrow>
       map (\<lambda>ch. (ch_cluster ch, ch_server ch)) children =
         map (\<lambda>k. (int (k div 3), int k)) [0..<3 * length (cfg_pairs cfg)] \<and>
       (\<forall>ch \<in> set children. \<forall>srv idx.
          srv_cluster_id srv = ch_cluster ch \<and> srv_server_id srv = ch_server ch \<and>
          server_ip_port_pairs srv = cfg_pairs cfg \<and> 0 \<le> idx \<and> idx < SERVER_NUM_PER_CLUSTER \<longrightarrow>
            self_idx srv = ch_server ch mod 3 \<and>
            peer_addr srv idx = Inr (cfg_pairs cfg ! nat (ch_cluster ch) ! nat idx))"
proof (cases "start_up e config_file args fork_ret")
  case (Inl f)
  then show ?thesis using start_up_fails [OF Inl] by auto
next
  case (Inr p)
  obtain cfg children where p: "p = (cfg, children)" by fastforce
  note rows = start_up_rows [OF Inr [unfolded p]]
  have "self_idx srv = ch_server ch mod 3 \<and> peer_addr srv idx = Inr (cfg_pairs cfg ! nat (ch_cluster ch) ! nat idx)"
    if ch: "ch \<in> set children" and srv: "srv_cluster_id srv = ch_cluster ch" "srv_server_id srv = ch_server ch"
      "server_ip_port_pairs srv = cfg_pairs cfg" and idx: "0 \<le> idx" "idx < 3" for ch srv idx
  proof -
    obtain i where i: "(ch_cluster ch, i) \<in> set (slots (length (cfg_pairs cfg)))" "ch_server ch = ch_cluster ch * 3 + i"
      using child_slot [OF rows(2) ch] by blast
    then have "ch_server ch mod 3 = i" by (simp add: slots_bounds)
    then show ?thesis using slot_addresses [of srv "ch_cluster ch" i] rows(1) srv idx i by (simp add: rows_ok_def)
  qed
  then show ?thesis using rows(2) unfolding slots_numbered by (simp only: Inr p sum.case prod.case) blast
qed

theorem started_servers_tables_witness:
  "map ch_server ex_children = [0, 1, 2] \<and>
   peer_addr (ex_server 0\<lparr>srv_cluster_id := 0, srv_server_id := 2,
      server_ip_port_pairs := cfg_pairs ex_started\<rparr>) 1 = Inr (''b'', 72)"
proof -
  have "\<lparr> ch_cluster = 0, ch_server = 2, ch_pid = 52 \<rparr> \<in> set ex_children" by (simp add: ex_children_def)
  then show ?thesis
    using started_servers_tables [of env0 "Some ex_file" "[]" "\<lambda>k. int k + 50"]
    by (auto simp: ex_start_up ex_children_def ex_started_def)
qed

lemma exit_reaches_server:
  assumes pairs: "\<forall>row \<in> set (cfg_pairs cfg). 3 \<le> length row" and slot: "(c, i) \<in> set (slots (length (cfg_pairs cfg)))"
    and pb: "pb_documented e" and srv: "srv_cluster_id srv = c" "srv_server_id srv = c * 3 + i"
    "server_ip_port_pairs srv = cfg_pairs cfg"
  shows "\<exists>port. peer_addr srv (self_idx srv) = Inr (to_ip (exit_to e (cfg_pairs cfg) (c, i)), port) \<and>
      to_port (exit_to e (cfg_pairs cfg) (c, i)) = port mod 65536"
    and "process_msg e s (pb_parse e (payload (exit_to e (cfg_pairs cfg) (c, i)))) srv = Inr (srv\<lparr>keep_running := False\<rparr>)"
proof -
  show "\<exists>port. peer_addr srv (self_idx srv) = Inr (to_ip (exit_to e (cfg_pairs cfg) (c, i)), port) \<and>
      to_port (exit_to e (cfg_pairs cfg) (c, i)) = port mod 65536"
    using slot_addresses(1) [of srv c i] slot_addresses(2) [of srv c i i] srv pairs slot
    by (cases "cfg_pairs cfg ! nat c ! nat i") (auto simp: exit_to_def slots_bounds)
  show "process_msg e s (pb_parse e (payload (exit_to e (cfg_pairs cfg) (c, i)))) srv = Inr (srv\<lparr>keep_running := False\<rparr>)"
    using srv pb by (simp add: exit_to_def pb_documented_def addressed_def)
qed

text \<open>
  C39. The command \<open>exit\<close> stops every server: once it is read and every connection is accepted,
  each server that was started is sent exactly one message, in the order of the servers, to the
  address at which it listens; the bytes parse as the message that clears its \<open>keep_running_\<close>,
  whatever state it is in.  Without the word \<open>exit\<close> in the input \<open>main\<close> does not return, not
  even at the end of the input.
\<close>

theorem exit_stops_servers:
  assumes "start_up e config_file args fork_ret = Inr (cfg, children)"
    and "pb_documented e" and "\<And>k. 0 \<le> exit_socket net k" and "\<And>k. 0 \<le> exit_connect net k"
  shows "(case main e config_file args fork_ret net input of
      None \<Rightarrow> cmd_input input = None
    | Some r \<Rightarrow> \<exists>sent. r = Inr (children, sent) \<and> list_all2 (\<lambda>ch m.
        \<forall>srv s. srv_cluster_id srv = ch_cluster ch \<and> srv_server_id srv = ch_server ch \<and>
          server_ip_port_pairs srv = cfg_pairs cfg \<longrightarrow>
          (\<exists>port. peer_addr srv (self_idx srv) = Inr (to_ip m, port) \<and> to_port m = port mod 65536) \<and>
          process_msg e s (pb_parse e (payload m)) srv = Inr (srv\<lparr>keep_running := False\<rparr>)) children sent) \<and>
    ((\<nexists>p q. input = p @ ''exit'' @ q) \<longrightarrow> main e config_file args fork_ret net input = None)"
proof (intro conjI impI)
  note rows = start_up_rows [OF assms(1)]
  let ?slots = "slots (length (cfg_pairs cfg))"
  have sent: "send_exits e net (cfg_pairs cfg) 0 ?slots = Inr (map (exit_to e (cfg_pairs cfg)) ?slots)"
    using send_exits_all [of "cfg_pairs cfg" net ?slots] rows(1) assms(3,4) by (simp add: rows_ok_def)
  let ?ok = "\<lambda>ch m. \<forall>srv s. srv_cluster_id srv = ch_cluster ch \<and> srv_server_id srv = ch_server ch \<and>
          server_ip_port_pairs srv = cfg_pairs cfg \<longrightarrow>
          (\<exists>port. peer_addr srv (self_idx srv) = Inr (to_ip m, port) \<and> to_port m = port mod 65536) \<and>
          process_msg e s (pb_parse e (payload m)) srv = Inr (srv\<lparr>keep_running := False\<rparr>)"
  have pairs: "\<forall>row \<in> set (cfg_pairs cfg). 3 \<le> length row" using rows(1) by (simp add: rows_ok_def)
  have ok: "?ok ch (exit_to e (cfg_pairs cfg) (c, i))"
    if "(c, i) \<in> set ?slots" "ch_cluster ch = c" "ch_server ch = c * 3 + i" for ch c i
    using exit_reaches_server [OF pairs that(1) assms(2)] that(2,3) by simp
  have "list_all2 ?ok children (map (exit_to e (cfg_pairs cfg)) ?slots)"
  proof (rule list_all2_all_nthI)
    show len: "length children = length (map (exit_to e (cfg_pairs cfg)) ?slots)"
      using arg_cong [OF rows(2), of length] by simp
    fix n assume n: "n < length children"
    obtain c i where s: "?slots ! n = (c, i)" by fastforce
    have "(ch_cluster (children ! n), ch_server (children ! n)) = (c, c * 3 + i)"
      using arg_cong [OF rows(2), of "\<lambda>l. l ! n"] n len s by simp
    moreover have "(c, i) \<in> set ?slots" using nth_mem [of n ?slots] n len s by simp
    ultimately show "?ok (children ! n) (map (exit_to e (cfg_pairs cfg)) ?slots ! n)"
      using ok [of c i "children ! n"] n len s by simp
  qed
  then show "case main e config_file args fork_ret net input of
      None \<Rightarrow> cmd_input input = None
    | Some r \<Rightarrow> \<exists>sent. r = Inr (children, sent) \<and> list_all2 ?ok children sent"
    by (cases "cmd_input input") (simp_all add: main_def cmd_def assms(1) sent)
next
  assume "\<nexists>p q. input = p @ ''exit'' @ q"
  then show "main e config_file args fork_ret net input = None"
    using cmd_input_needs_exit [of input] by (cases "cmd_input input") (auto simp: main_def cmd_def assms(1))
qed

theorem exit_stops_servers_witness:
  "\<exists>sent. main env0 (Some ex_file) [] (\<lambda>k. int k + 50) ex_net ''stop\<newline> exit'' = Some (Inr (ex_children, sent)) \<and>
     length sent = 3 \<and> main env0 (Some ex_file) [] (\<lambda>k. int k + 50) ex_net ''stop'' = None"
proof -
  have go: "cmd_input ''stop\<newline> exit'' = Some []" by code_simp
  have none: "\<nexists>p q. ''stop'' = p @ ''exit'' @ q"
  proof
    assume "\<exists>p q. ''stop'' = p @ ''exit'' @ q"
    then obtain p q where eq: "''stop'' = p @ ''exit'' @ q" by blast
    have "length ''stop'' = length p + (length ''exit'' + length q)" by (simp only: eq length_append)
    then have "p = [] \<and> q = []" by simp
    then show False using eq by simp
  qed
  have net: "0 \<le> exit_socket ex_net k" "0 \<le> exit_connect ex_net k" for k by (simp_all add: ex_net_def)
  note both = exit_stops_servers [OF ex_start_up env0_documented(1) net]
  obtain r where "main env0 (Some ex_file) [] (\<lambda>k. int k + 50) ex_net ''stop\<newline> exit'' = Some r"
    using go by (simp add: main_def cmd_def ex_start_up)
  then show ?thesis using both [of "''stop\<newline> exit''"] both [of "''stop''"] none
    by (auto simp: ex_children_def dest: list_all2_lengthD)
qed

end
