(* ===== verification/Json_Callback.thy ===== *)
theory Json_Callback
  imports Json_Accept
begin

text \<open>
  Parsing with a callback that decides which parts of the value to keep
  (\<open>json_sax_dom_callback_parser\<close>). The callback sees the depth, the kind of event and a
  reference to the value, which it may change. A callback that keeps everything and changes
  nothing yields what parsing without one does.
\<close>

section \<open>The handler\<close>

datatype parse_event_t =
    Object_start | Object_end | Array_start | Array_end | Key_event | Value_event

type_synonym parser_callback = "int \<Rightarrow> parse_event_t \<Rightarrow> json \<Rightarrow> bool \<times> json"

text \<open>A pointer of the code that may be null is a \<open>ref_path option\<close>; \<open>back()\<close> is the first element.\<close>

record cb_state =
  cb_root :: json
  cb_ref_stack :: "ref_path option list"
  keep_stack :: "bool list"
  key_keep_stack :: "bool list"
  cb_element :: "ref_path option"
  cb_errored :: bool
  cb_discarded :: json

definition cb_init :: cb_state where
  "cb_init = \<lparr> cb_root = JNull, cb_ref_stack = [], keep_stack = [True], key_keep_stack = [],
     cb_element = None, cb_errored = False, cb_discarded = JDiscarded \<rparr>"

definition depth :: "cb_state \<Rightarrow> int" where
  "depth d = int (length (cb_ref_stack d))"

text \<open>Storing a value that is to be kept, in the innermost container.\<close>

definition cb_store :: "json \<Rightarrow> cb_state \<Rightarrow> (ref_path option \<times> cb_state) jres" where
  "cb_store v d =
     (case cb_ref_stack d of
        [] \<Rightarrow> Inr (Some [], d\<lparr> cb_root := v \<rparr>)
      | None # _ \<Rightarrow> Inr (None, d)
      | Some r # _ \<Rightarrow>
          (case deref r (cb_root d) of
             JArray a \<Rightarrow>
               Inr (Some (r @ [Index (length a)]),
                    d\<lparr> cb_root := assign r (JArray (a @ [v])) (cb_root d) \<rparr>)
           | JObject m \<Rightarrow>
               (case key_keep_stack d of
                  [] \<Rightarrow> Inl Assertion
                | store_element # ks \<Rightarrow>
                    (let d1 = d\<lparr> key_keep_stack := ks \<rparr> in
                     if \<not> store_element then Inr (None, d1)
                     else case cb_element d1 of
                            None \<Rightarrow> Inl Assertion
                          | Some q \<Rightarrow> Inr (Some q, d1\<lparr> cb_root := assign q v (cb_root d1) \<rparr>)))
           | _ \<Rightarrow> Inl Assertion))"

definition cb_handle_value ::
  "parser_callback \<Rightarrow> json \<Rightarrow> bool \<Rightarrow> cb_state \<Rightarrow> (ref_path option \<times> cb_state) jres" where
  "cb_handle_value cb v skip_callback d =
     (case keep_stack d of
        [] \<Rightarrow> Inl Assertion
      | False # _ \<Rightarrow> Inr (None, d)
      | True # _ \<Rightarrow>
          (let (keep, value) = (if skip_callback then (True, v) else cb (depth d) Value_event v) in
           if \<not> keep then Inr (None, d) else cb_store value d))"

definition cb_value :: "parser_callback \<Rightarrow> json \<Rightarrow> cb_state \<Rightarrow> cb_state sax_result" where
  "cb_value cb v d = mapE (\<lambda>(_, d'). (True, d')) (cb_handle_value cb v False d)"

definition cb_start ::
  "parser_callback \<Rightarrow> parse_event_t \<Rightarrow> value_t \<Rightarrow> cb_state \<Rightarrow> cb_state sax_result" where
  "cb_start cb ev t d =
     (let (keep, disc) = cb (depth d) ev (cb_discarded d);
          d1 = d\<lparr> cb_discarded := disc, keep_stack := keep # keep_stack d \<rparr>
      in mapE (\<lambda>(r, d2). (True, d2\<lparr> cb_ref_stack := r # cb_ref_stack d2 \<rparr>))
           (cb_handle_value cb (json_of_type t) True d1))"

definition cb_key :: "parser_callback \<Rightarrow> string \<Rightarrow> cb_state \<Rightarrow> cb_state sax_result" where
  "cb_key cb k d =
     (let (keep, _) = cb (depth d) Key_event (JString k);
          d1 = d\<lparr> key_keep_stack := keep # key_keep_stack d \<rparr>
      in if \<not> keep then Inr (True, d1)
         else case cb_ref_stack d1 of
                [] \<Rightarrow> Inl Undefined
              | None # _ \<Rightarrow> Inr (True, d1)
              | Some r # _ \<Rightarrow>
                  (case deref r (cb_root d1) of
                     JObject m \<Rightarrow>
                       Inr (True, d1\<lparr> cb_root := assign r (JObject (obj_set k (cb_discarded d1) m)) (cb_root d1),
                                      cb_element := Some (r @ [Key k]) \<rparr>)
                   | _ \<Rightarrow> Inl Undefined))"

text \<open>Leaving a container: the callback sees it, and it is overwritten when it is not kept.\<close>

definition cb_leave ::
  "parser_callback \<Rightarrow> parse_event_t \<Rightarrow> cb_state \<Rightarrow> (bool \<times> cb_state) jres" where
  "cb_leave cb ev d =
     (case cb_ref_stack d of
        [] \<Rightarrow> Inl Undefined
      | r # rs \<Rightarrow>
          (let (keep, d1) =
             (case r of
                None \<Rightarrow> (True, d)
              | Some q \<Rightarrow>
                  (let (keep, v) = cb (depth d - 1) ev (deref q (cb_root d))
                   in (keep, d\<lparr> cb_root :=
                        assign q (if keep then v else cb_discarded d) (cb_root d) \<rparr>)))
           in case keep_stack d1 of
                [] \<Rightarrow> Inl Assertion
              | _ # ks \<Rightarrow> Inr (keep, d1\<lparr> cb_ref_stack := rs, keep_stack := ks \<rparr>)))"

text \<open>The first value of an object that was discarded is removed.\<close>

fun erase_discarded :: "(string \<times> json) list \<Rightarrow> (string \<times> json) list" where
  "erase_discarded [] = []"
| "erase_discarded ((k, v) # m) = (if v = JDiscarded then m else (k, v) # erase_discarded m)"

definition cb_end_object :: "parser_callback \<Rightarrow> cb_state \<Rightarrow> cb_state sax_result" where
  "cb_end_object cb d =
     mapE (\<lambda>(_, d1).
       (True, case cb_ref_stack d1 of
                Some r # _ \<Rightarrow>
                  (case deref r (cb_root d1) of
                     JObject m \<Rightarrow> d1\<lparr> cb_root := assign r (JObject (erase_discarded m)) (cb_root d1) \<rparr>
                   | _ \<Rightarrow> d1)
              | _ \<Rightarrow> d1))
       (cb_leave cb Object_end d)"

definition cb_end_array :: "parser_callback \<Rightarrow> cb_state \<Rightarrow> cb_state sax_result" where
  "cb_end_array cb d =
     bindE (cb_leave cb Array_end d) (\<lambda>(keep, d1).
       if keep then Inr (True, d1)
       else case cb_ref_stack d1 of
              [] \<Rightarrow> Inr (True, d1)
            | None # _ \<Rightarrow> Inl Undefined
            | Some r # _ \<Rightarrow>
                (case deref r (cb_root d1) of
                   JArray a \<Rightarrow> Inr (True, d1\<lparr> cb_root := assign r (JArray (butlast a)) (cb_root d1) \<rparr>)
                 | _ \<Rightarrow> Inr (True, d1)))"

definition cb_parse_error ::
  "bool \<Rightarrow> nat \<Rightarrow> string \<Rightarrow> json_exception \<Rightarrow> cb_state \<Rightarrow> cb_state sax_result" where
  "cb_parse_error allow_exceptions pos tok ex d =
     (if allow_exceptions then Inl (rethrow ex) else Inr (False, d\<lparr> cb_errored := True \<rparr>))"

definition cb_sax :: "parser_callback \<Rightarrow> bool \<Rightarrow> cb_state sax" where
  "cb_sax cb allow_exceptions =
     \<lparr> sax_null = cb_value cb JNull,
       sax_boolean = (\<lambda>b. cb_value cb (JBoolean b)),
       sax_number_integer = (\<lambda>i. cb_value cb (JInteger i)),
       sax_number_unsigned = (\<lambda>i. cb_value cb (JUnsigned i)),
       sax_number_float = (\<lambda>x s. cb_value cb (JFloat x)),
       sax_string = (\<lambda>s. cb_value cb (JString s)),
       sax_start_object = cb_start cb Object_start V_object,
       sax_key = cb_key cb,
       sax_end_object = cb_end_object cb,
       sax_start_array = cb_start cb Array_start V_array,
       sax_end_array = cb_end_array cb,
       sax_parse_error = cb_parse_error allow_exceptions \<rparr>"

text \<open>\<open>parser::parse\<close> with a callback: a value that was discarded at the top becomes \<open>null\<close>.\<close>

definition parser_parse_callback ::
  "parser_callback \<Rightarrow> bool \<Rightarrow> bool \<Rightarrow> parser \<Rightarrow> json jres" where
  "parser_parse_callback cb allow_exceptions strict p =
     (let sax = cb_sax cb allow_exceptions in
      bindE (sax_parse_internal sax cb_init p) (\<lambda>(_, d1, p1).
      bindE (if strict
             then (let p2 = get_token p1 in
                   if last_token p2 \<noteq> End_of_input then expect_end sax d1 p2 else checked p2 (Inr (True, d1)))
             else checked p1 (Inr (True, d1))) (\<lambda>(_, d2).
      Inr (if cb_errored d2 then JDiscarded
           else if cb_root d2 = JDiscarded then JNull else cb_root d2))))"

definition json_parse_callback :: "parser_callback \<Rightarrow> bool \<Rightarrow> string \<Rightarrow> json jres" where
  "json_parse_callback cb allow_exceptions input =
     parser_parse_callback cb allow_exceptions True (parser_init input)"

section \<open>A callback that keeps everything\<close>

definition keep_all :: parser_callback where
  "keep_all n ev j = (True, j)"

lemma erase_discarded_wf: "\<forall>p \<in> set m. wf_json (snd p) \<Longrightarrow> erase_discarded m = m"
  by (induction m rule: erase_discarded.induct) auto

text \<open>
  The two handlers in step. Between a key and its value the handler with the callback holds a
  discarded value at the key, where the other one holds what was there before.
\<close>

definition awaits_value :: "bool list \<Rightarrow> bool \<Rightarrow> bool" where
  "awaits_value st ready \<longleftrightarrow> ready \<and> (case st of False # _ \<Rightarrow> True | _ \<Rightarrow> False)"

definition cb_rel :: "bool list \<Rightarrow> bool \<Rightarrow> cb_state \<Rightarrow> dom_state \<Rightarrow> bool" where
  "cb_rel st ready c d \<longleftrightarrow> dom_rel st ready d \<and>
     cb_ref_stack c = map Some (ref_stack d) \<and> keep_stack c = replicate (Suc (length st)) True \<and>
     \<not> cb_errored c \<and> cb_discarded c = JDiscarded \<and>
     (if awaits_value st ready
      then cb_element c = object_element d \<and> key_keep_stack c = [True] \<and>
        cb_root c = assign (the (object_element d)) JDiscarded (root d)
      else key_keep_stack c = [] \<and> cb_root c = root d)"

lemma cb_handle_value_rel:
  assumes "cb_rel st True c d" and v: "wf_json v" and keep: "\<And>n. cb n Value_event v = (True, v)"
    and c': "c' = c\<lparr> keep_stack := True # ks \<rparr>"
  shows "\<exists>r d' c''. handle_value v d = Inr (r, d') \<and> cb_handle_value cb v skip c' = Inr (Some r, c'') \<and>
    dom_rel st False d' \<and> ref_stack d' = ref_stack d \<and>
    c'' = c'\<lparr> cb_root := root d', key_keep_stack := [] \<rparr>"
proof -
  have d: "dom_rel st True d" using assms(1) by (simp add: cb_rel_def)
  obtain r d' where h: "handle_value v d = Inr (r, d')" "dom_rel st False d'" "ref_stack d' = ref_stack d"
    using handle_value_ok [OF d v] by blast
  have store: "cb_handle_value cb v skip c' = cb_store v c'"
    by (simp add: cb_handle_value_def c' keep)
  have "cb_store v c' = Inr (Some r, c'\<lparr> cb_root := root d', key_keep_stack := [] \<rparr>)"
  proof (cases st)
    case Nil
    then show ?thesis using assms(1) h(1)
      by (auto simp: cb_rel_def dom_rel_def dom_shape_def awaits_value_def cb_store_def handle_value_def c')
  next
    case (Cons k st')
    then obtain q rs where rs: "ref_stack d = q # rs" and q: "valid_ref q (root d)" "container k (deref q (root d))"
      using d by (cases "ref_stack d") (auto simp: dom_rel_def dom_shape_def)
    show ?thesis
    proof (cases k)
      case True
      then show ?thesis using assms(1) h(1) Cons rs q
        by (auto simp: cb_rel_def awaits_value_def cb_store_def handle_value_def c' container_def)
    next
      case False
      then obtain x where el: "object_element d = Some (q @ [Key x])" "valid_ref (q @ [Key x]) (root d)"
        using d Cons rs by (auto simp: dom_rel_def dom_shape_def)
      obtain m where m: "deref q (root d) = JObject m" using q(2) False by (auto simp: container_def)
      have "deref q (cb_root c) = assign [Key x] JDiscarded (JObject m)"
        using assms(1) Cons False el q m by (simp add: cb_rel_def awaits_value_def assign_append)
      then show ?thesis using assms(1) h(1) Cons False rs el m
        by (auto simp: cb_rel_def awaits_value_def cb_store_def handle_value_def c')
    qed
  qed
  then show ?thesis using h store by auto
qed

lemma cb_value_rel:
  assumes "cb_rel st True c d" and "wf_json v"
  shows "\<exists>c' d'. cb_value keep_all v c = Inr (True, c') \<and> dom_value v d = Inr (True, d') \<and>
    cb_rel st False c' d'"
proof -
  have "c = c\<lparr> keep_stack := True # replicate (length st) True \<rparr>"
    using assms(1) by (simp add: cb_rel_def)
  from cb_handle_value_rel [where cb = keep_all and skip = False, OF assms _ this] show ?thesis
    using assms(1) by (auto simp: cb_value_def dom_value_def keep_all_def cb_rel_def awaits_value_def)
qed

lemma cb_start_rel:
  assumes "cb_rel st True c d" and "t = (if k then V_array else V_object)"
  shows "\<exists>c' d'. cb_start keep_all ev t c = Inr (True, c') \<and> dom_start t d = Inr (True, d') \<and>
    cb_rel (k # st) False c' d'"
proof -
  let ?c = "c\<lparr> cb_discarded := JDiscarded, keep_stack := True # keep_stack c \<rparr>"
  have c: "?c = c\<lparr> keep_stack := True # keep_stack c \<rparr>"
    using assms(1) by (cases c) (simp add: cb_rel_def)
  have "wf_json (json_of_type t)" using assms(2) by (cases k) auto
  from cb_handle_value_rel [where cb = keep_all and skip = True and c' = ?c and ks = "keep_stack c",
      OF assms(1) this _ c]
  obtain r d' where h: "handle_value (json_of_type t) d = Inr (r, d')"
    "cb_handle_value keep_all (json_of_type t) True ?c =
       Inr (Some r, ?c\<lparr> cb_root := root d', key_keep_stack := [] \<rparr>)"
    "ref_stack d' = ref_stack d" by (auto simp: keep_all_def)
  obtain d2 where d2: "dom_start t d = Inr (True, d2)" "dom_rel (k # st) False d2"
    using dom_start_ok [of st d t k] assms by (auto simp: cb_rel_def)
  then have "d2 = d'\<lparr> ref_stack := r # ref_stack d' \<rparr>" using h(1) by (simp add: dom_start_def)
  then show ?thesis using d2 h assms(1)
    by (auto simp: cb_start_def keep_all_def cb_rel_def awaits_value_def)
qed

lemma cb_key_rel:
  assumes "cb_rel (False # st) False c d" and "utf8 k"
  shows "\<exists>c' d'. cb_key keep_all k c = Inr (True, c') \<and> dom_key k d = Inr (True, d') \<and>
    cb_rel (False # st) True c' d'"
proof -
  have d: "dom_rel (False # st) False d" using assms(1) by (simp add: cb_rel_def)
  obtain d' where d': "dom_key k d = Inr (True, d')" "dom_rel (False # st) True d'"
    using dom_key_ok [OF d assms(2)] by blast
  obtain r rs where rs: "ref_stack d = r # rs" and r: "valid_ref r (root d)" "container False (deref r (root d))"
    using d by (cases "ref_stack d") (auto simp: dom_rel_def dom_shape_def)
  obtain m where m: "deref r (root d) = JObject m" using r(2) by (auto simp: container_def)
  have "(case map_of m k of None \<Rightarrow> obj_set k JNull m | Some _ \<Rightarrow> m) = obj_set k x m \<or> True" for x by simp
  then show ?thesis using assms(1) d' rs r m
    by (auto simp: cb_key_def dom_key_def keep_all_def cb_rel_def awaits_value_def assign_append
        split: option.splits)
qed

lemma cb_leave_rel:
  assumes "cb_rel (k # st) False c d"
  shows "\<exists>c' d'. cb_leave keep_all ev c = Inr (True, c') \<and> dom_end d = Inr (True, d') \<and>
    cb_rel st False c' d'"
proof -
  have d: "dom_rel (k # st) False d" using assms by (simp add: cb_rel_def)
  obtain d' where d': "dom_end d = Inr (True, d')" "dom_rel st False d'" using dom_end_ok [OF d] by blast
  obtain r rs where rs: "ref_stack d = r # rs" and r: "valid_ref r (root d)" and w: "wf_json (root d)"
    using d by (cases "ref_stack d") (auto simp: dom_rel_def dom_shape_def)
  then show ?thesis using assms d' assign_deref [OF w r]
    by (auto simp: cb_leave_def dom_end_def keep_all_def cb_rel_def awaits_value_def)
qed

lemma cb_end_object_rel:
  assumes "cb_rel (False # st) False c d"
  shows "\<exists>c' d'. cb_end_object keep_all c = Inr (True, c') \<and> dom_end d = Inr (True, d') \<and>
    cb_rel st False c' d'"
proof -
  obtain c' d' where c': "cb_leave keep_all Object_end c = Inr (True, c')" "dom_end d = Inr (True, d')"
    "cb_rel st False c' d'" using cb_leave_rel [OF assms] by blast
  have root: "cb_root c' = root d'" and w: "wf_json (root d')"
    using c'(3) by (simp_all add: cb_rel_def awaits_value_def dom_rel_def dom_shape_def)
  have "assign r (JObject (erase_discarded m)) (root d') = root d'"
    if "cb_ref_stack c' = Some r # rs" "deref r (root d') = JObject m" for r rs m
  proof -
    have "open_refs st (ref_stack d') (root d')" "ref_stack d' = r # tl (ref_stack d')"
      using that(1) c'(3) by (auto simp: cb_rel_def dom_rel_def dom_shape_def)
    then have r: "valid_ref r (root d')"
      by (metis open_refs.simps(1,3) list.distinct(1) open_refs.elims(2) list.inject)
    have "wf_json (JObject m)" using wf_deref [OF w r] that(2) by simp
    then show ?thesis using assign_deref [OF w r] that(2) erase_discarded_wf [of m] by auto
  qed
  then have "(case cb_ref_stack c' of
                Some r # _ \<Rightarrow>
                  (case deref r (cb_root c') of
                     JObject m \<Rightarrow> c'\<lparr> cb_root := assign r (JObject (erase_discarded m)) (cb_root c') \<rparr>
                   | _ \<Rightarrow> c')
              | _ \<Rightarrow> c') = c'"
    using root by (auto split: list.splits option.splits json.splits)
  then show ?thesis using c' by (auto simp: cb_end_object_def)
qed

lemma cb_end_array_rel:
  assumes "cb_rel (True # st) False c d"
  shows "\<exists>c' d'. cb_end_array keep_all c = Inr (True, c') \<and> dom_end d = Inr (True, d') \<and>
    cb_rel st False c' d'"
  using cb_leave_rel [OF assms, of Array_end] by (auto simp: cb_end_array_def)

lemma cb_next_rel: "cb_rel (True # st) False c d \<Longrightarrow> cb_rel (True # st) True c d"
  by (simp add: cb_rel_def awaits_value_def dom_next_ok)

definition same_error :: "cb_state sax_result \<Rightarrow> dom_state sax_result \<Rightarrow> bool" where
  "same_error r1 r2 \<longleftrightarrow> (\<exists>ex. r1 = Inl (Throw ex) \<and> r2 = Inl (Throw ex)) \<or>
     (\<exists>c d. r1 = Inr (False, c) \<and> r2 = Inr (False, d) \<and> cb_errored c \<and> errored d)"

lemmas cb_rel_intros = cb_value_rel cb_key_rel cb_end_object_rel cb_end_array_rel
  cb_start_rel [where k = False and t = V_object, simplified]
  cb_start_rel [where k = True and t = V_array, simplified]

interpretation keeps: sax_simulation "cb_sax keep_all allow" "dom_sax allow"
  "\<lambda>st f c d. cb_rel st f c d" same_error for allow
  by unfold_locales
     (use cb_rel_intros in \<open>auto simp: both_go_def dom_sax_def cb_sax_def cb_parse_error_def
       dom_parse_error_def same_error_def reported_throws cb_next_rel\<close>)

lemma expect_end_callback:
  assumes "asserts_hold (m_lexer p)"
  shows "expect_end (cb_sax cb True) c p = Inl (Throw (parse_error_create 101 (position (m_lexer p))
     (exception_message p End_of_input ''value'')))"
  "expect_end (cb_sax cb False) c p = Inr (False, c\<lparr> cb_errored := True \<rparr>)"
  using assms by (simp_all add: expect_end_def cb_sax_def cb_parse_error_def rethrow_def)

text \<open>
  C37. For every text, parsing with a callback that keeps every part and changes none has the same
  result as parsing without a callback: the same value, the same exception, and without exceptions
  the same discarded value.
\<close>

theorem callback_keeps_all: "json_parse_callback keep_all allow s = json_parse allow s"
proof -
  let ?p = "parser_init s"
  have "cb_rel [] True cb_init dom_init"
    by (simp add: cb_rel_def cb_init_def dom_init_def dom_rel_def dom_shape_def awaits_value_def)
  then have l: "(\<exists>c d p'. sax_loop (cb_sax keep_all allow) False [] cb_init ?p = Inr (True, c, p') \<and>
       sax_loop (dom_sax allow) False [] dom_init ?p = Inr (True, d, p') \<and> cb_rel [] False c d \<and>
       asserts_hold (m_lexer p')) \<or>
    (\<exists>e1 e2 p'. same_error e1 e2 \<and> asserts_hold (m_lexer p') \<and>
       sax_loop (cb_sax keep_all allow) False [] cb_init ?p = mapE (\<lambda>(r, s). (r, s, p')) e1 \<and>
       sax_loop (dom_sax allow) False [] dom_init ?p = mapE (\<lambda>(r, s). (r, s, p')) e2)"
    using keeps.sax_loop_related [where states = "[]" and skip = False and s = cb_init and t = dom_init
        and p = ?p] by auto
  note defs = json_parse_callback_def json_parse_def parser_parse_callback_def parser_parse_def
    sax_parse_internal_def Let_def
  from l show ?thesis
  proof (elim disjE exE conjE)
    fix c d p'
    assume runs: "sax_loop (cb_sax keep_all allow) False [] cb_init ?p = Inr (True, c, p')"
      "sax_loop (dom_sax allow) False [] dom_init ?p = Inr (True, d, p')" and r: "cb_rel [] False c d"
      and h: "asserts_hold (m_lexer p')"
    then have "\<not> cb_errored c" "\<not> errored d" "cb_root c = root d" "root d \<noteq> JDiscarded"
      by (auto simp: cb_rel_def dom_rel_def dom_shape_def awaits_value_def)
    then show ?thesis
      by (simp add: defs runs, cases allow) (simp_all add: expect_end_callback expect_end_throws h)
  next
    fix e1 e2 p'
    assume e: "same_error e1 e2" and h: "asserts_hold (m_lexer p')"
      and runs: "sax_loop (cb_sax keep_all allow) False [] cb_init ?p = mapE (\<lambda>(r, s). (r, s, p')) e1"
      "sax_loop (dom_sax allow) False [] dom_init ?p = mapE (\<lambda>(r, s). (r, s, p')) e2"
    from e show ?thesis unfolding same_error_def
      by (simp add: defs runs, cases allow) (auto simp: expect_end_callback expect_end_throws h)
  qed
qed

text \<open>A callback that keeps no number: the member stays in the object as a discarded value.\<close>

definition drop_values :: parser_callback where
  "drop_values n ev j = (ev \<noteq> Value_event, j)"

lemma discarded_member_stays:
  "json_parse_callback drop_values True (CHR ''{'' # CHR 0x22 # CHR 0x22 # '':1}'') =
     Inr (JObject [([], JDiscarded)])"
  by code_simp

end
