(* ===== verification/Json_Float.thy ===== *)
theory Json_Float
  imports Json_Value
begin

text \<open>
  The text of a \<open>double\<close>: \<open>to_chars\<close> of the JSON library, which generates the digits of a
  short decimal number close to the value with the Grisu2 algorithm, and formats them. The
  arithmetic is that of 64-bit unsigned integers, written with their modulus; an \<open>assert\<close> that
  does not hold is the failure \<open>Assertion\<close>. The loop that generates the fraction digits has
  fuel, and the last lemmas show that it is enough for every number.
\<close>

section \<open>Numbers with an exponent\<close>

definition u64 :: "int \<Rightarrow> int" where "u64 x = x mod 18446744073709551616"

record diyfp =
  fp_f :: int
  fp_e :: int

definition diyfp_sub :: "diyfp \<Rightarrow> diyfp \<Rightarrow> diyfp jres" where
  "diyfp_sub x y =
     (if fp_e x = fp_e y \<and> fp_f y \<le> fp_f x
      then Inr \<lparr> fp_f = fp_f x - fp_f y, fp_e = fp_e x \<rparr> else Inl Assertion)"

text \<open>The upper half of the product of two 64-bit numbers, rounded, from products of 32-bit halves.\<close>

definition diyfp_mul :: "diyfp \<Rightarrow> diyfp \<Rightarrow> diyfp" where
  "diyfp_mul x y =
     (let u_lo = fp_f x mod 4294967296; u_hi = fp_f x div 4294967296;
          v_lo = fp_f y mod 4294967296; v_hi = fp_f y div 4294967296;
          p0 = u64 (u_lo * v_lo); p1 = u64 (u_lo * v_hi);
          p2 = u64 (u_hi * v_lo); p3 = u64 (u_hi * v_hi);
          p0_hi = p0 div 4294967296;
          p1_lo = p1 mod 4294967296; p1_hi = p1 div 4294967296;
          p2_lo = p2 mod 4294967296; p2_hi = p2 div 4294967296;
          Q = u64 (p0_hi + p1_lo + p2_lo + 2147483648)
      in \<lparr> fp_f = u64 (p3 + p2_hi + p1_hi + Q div 4294967296), fp_e = fp_e x + fp_e y + 64 \<rparr>)"

text \<open>The loop shifts until the highest bit is set; a significand of 0 is excluded by an assertion.\<close>

function normalize_loop :: "int \<Rightarrow> int \<Rightarrow> diyfp" where
  "normalize_loop f e =
     (if f \<le> 0 \<or> 9223372036854775808 \<le> f then \<lparr> fp_f = f, fp_e = e \<rparr>
      else normalize_loop (2 * f) (e - 1))"
  by auto
termination by (relation "measure (\<lambda>(f, e). nat (9223372036854775808 - f))") auto

declare normalize_loop.simps [simp del]

definition diyfp_normalize :: "diyfp \<Rightarrow> diyfp jres" where
  "diyfp_normalize x =
     (if fp_f x = 0 then Inl Assertion else Inr (normalize_loop (fp_f x) (fp_e x)))"

definition diyfp_normalize_to :: "diyfp \<Rightarrow> int \<Rightarrow> diyfp jres" where
  "diyfp_normalize_to x target_exponent =
     (let delta = fp_e x - target_exponent;
          f = u64 (fp_f x * 2 ^ nat delta)
      in if 0 \<le> delta \<and> f div 2 ^ nat delta = fp_f x
         then Inr \<lparr> fp_f = f, fp_e = target_exponent \<rparr> else Inl Assertion)"

text \<open>The number and the middles between it and its neighbours, for a positive double.\<close>

definition compute_boundaries :: "double \<Rightarrow> (diyfp \<times> diyfp \<times> diyfp) jres" where
  "compute_boundaries d =
     (let bits = uint d;
          E = bits div 4503599627370496; F = bits mod 4503599627370496;
          v = (if E = 0 then \<lparr> fp_f = F, fp_e = - 1074 \<rparr>
               else \<lparr> fp_f = F + 4503599627370496, fp_e = E - 1075 \<rparr>);
          m_plus = \<lparr> fp_f = 2 * fp_f v + 1, fp_e = fp_e v - 1 \<rparr>;
          m_minus = (if F = 0 \<and> 1 < E then \<lparr> fp_f = 4 * fp_f v - 1, fp_e = fp_e v - 2 \<rparr>
                     else \<lparr> fp_f = 2 * fp_f v - 1, fp_e = fp_e v - 1 \<rparr>)
      in bindE (diyfp_normalize m_plus) (\<lambda>w_plus.
         bindE (diyfp_normalize_to m_minus (fp_e w_plus)) (\<lambda>w_minus.
         bindE (diyfp_normalize v) (\<lambda>w. Inr (w, w_minus, w_plus)))))"

section \<open>Powers of ten\<close>

type_synonym cached_power = "int \<times> int \<times> int"

definition cached_powers :: "cached_power list" where
  "cached_powers =
     [
      (0xAB70FE17C79AC6CA, - 1060, - 300), (0xFF77B1FCBEBCDC4F, - 1034, - 292), (0xBE5691EF416BD60C, - 1007, - 284),
      (0x8DD01FAD907FFC3C, - 980, - 276), (0xD3515C2831559A83, - 954, - 268), (0x9D71AC8FADA6C9B5, - 927, - 260),
      (0xEA9C227723EE8BCB, - 901, - 252), (0xAECC49914078536D, - 874, - 244), (0x823C12795DB6CE57, - 847, - 236),
      (0xC21094364DFB5637, - 821, - 228), (0x9096EA6F3848984F, - 794, - 220), (0xD77485CB25823AC7, - 768, - 212),
      (0xA086CFCD97BF97F4, - 741, - 204), (0xEF340A98172AACE5, - 715, - 196), (0xB23867FB2A35B28E, - 688, - 188),
      (0x84C8D4DFD2C63F3B, - 661, - 180), (0xC5DD44271AD3CDBA, - 635, - 172), (0x936B9FCEBB25C996, - 608, - 164),
      (0xDBAC6C247D62A584, - 582, - 156), (0xA3AB66580D5FDAF6, - 555, - 148), (0xF3E2F893DEC3F126, - 529, - 140),
      (0xB5B5ADA8AAFF80B8, - 502, - 132), (0x87625F056C7C4A8B, - 475, - 124), (0xC9BCFF6034C13053, - 449, - 116),
      (0x964E858C91BA2655, - 422, - 108), (0xDFF9772470297EBD, - 396, - 100), (0xA6DFBD9FB8E5B88F, - 369, - 92),
      (0xF8A95FCF88747D94, - 343, - 84), (0xB94470938FA89BCF, - 316, - 76), (0x8A08F0F8BF0F156B, - 289, - 68),
      (0xCDB02555653131B6, - 263, - 60), (0x993FE2C6D07B7FAC, - 236, - 52), (0xE45C10C42A2B3B06, - 210, - 44),
      (0xAA242499697392D3, - 183, - 36), (0xFD87B5F28300CA0E, - 157, - 28), (0xBCE5086492111AEB, - 130, - 20),
      (0x8CBCCC096F5088CC, - 103, - 12), (0xD1B71758E219652C, - 77, - 4), (0x9C40000000000000, - 50, 4),
      (0xE8D4A51000000000, - 24, 12), (0xAD78EBC5AC620000, 3, 20), (0x813F3978F8940984, 30, 28),
      (0xC097CE7BC90715B3, 56, 36), (0x8F7E32CE7BEA5C70, 83, 44), (0xD5D238A4ABE98068, 109, 52),
      (0x9F4F2726179A2245, 136, 60), (0xED63A231D4C4FB27, 162, 68), (0xB0DE65388CC8ADA8, 189, 76),
      (0x83C7088E1AAB65DB, 216, 84), (0xC45D1DF942711D9A, 242, 92), (0x924D692CA61BE758, 269, 100),
      (0xDA01EE641A708DEA, 295, 108), (0xA26DA3999AEF774A, 322, 116), (0xF209787BB47D6B85, 348, 124),
      (0xB454E4A179DD1877, 375, 132), (0x865B86925B9BC5C2, 402, 140), (0xC83553C5C8965D3D, 428, 148),
      (0x952AB45CFA97A0B3, 455, 156), (0xDE469FBD99A05FE3, 481, 164), (0xA59BC234DB398C25, 508, 172),
      (0xF6C69A72A3989F5C, 534, 180), (0xB7DCBF5354E9BECE, 561, 188), (0x88FCF317F22241E2, 588, 196),
      (0xCC20CE9BD35C78A5, 614, 204), (0x98165AF37B2153DF, 641, 212), (0xE2A0B5DC971F303A, 667, 220),
      (0xA8D9D1535CE3B396, 694, 228), (0xFB9B7CD9A4A7443C, 720, 236), (0xBB764C4CA7A44410, 747, 244),
      (0x8BAB8EEFB6409C1A, 774, 252), (0xD01FEF10A657842C, 800, 260), (0x9B10A4E5E9913129, 827, 268),
      (0xE7109BFBA19C0C9D, 853, 276), (0xAC2820D9623BF429, 880, 284), (0x80444B5E7AA7CF85, 907, 292),
      (0xBF21E44003ACDD2D, 933, 300), (0x8E679C2F5E44FF8F, 960, 308), (0xD433179D9C8CB841, 986, 316),
      (0x9E19DB92B4E31BA9, 1013, 324)
     ]"

definition get_cached_power :: "int \<Rightarrow> cached_power jres" where
  "get_cached_power e =
     (let f = - 60 - e - 1;
          k = (f * 78913) sdiv 262144 + (if 0 < f then 1 else 0);
          index = (300 + k + 7) sdiv 8
      in if - 1500 \<le> e \<and> e \<le> 1500 \<and> 0 \<le> index \<and> index < int (length cached_powers)
         then (let (cf, ce, ck) = cached_powers ! nat index
               in if - 60 \<le> ce + e + 64 \<and> ce + e + 64 \<le> - 32 then Inr (cf, ce, ck) else Inl Assertion)
         else Inl Assertion)"

definition find_largest_pow10 :: "int \<Rightarrow> nat \<times> int" where
  "find_largest_pow10 n =
     (if 1000000000 \<le> n then (10, 1000000000)
      else if 100000000 \<le> n then (9, 100000000)
      else if 10000000 \<le> n then (8, 10000000)
      else if 1000000 \<le> n then (7, 1000000)
      else if 100000 \<le> n then (6, 100000)
      else if 10000 \<le> n then (5, 10000)
      else if 1000 \<le> n then (4, 1000)
      else if 100 \<le> n then (3, 100)
      else if 10 \<le> n then (2, 10)
      else (1, 1))"

section \<open>Digits\<close>

text \<open>The last digit is lowered while that brings the number closer to the value.\<close>

function grisu2_round_loop :: "string \<Rightarrow> int \<Rightarrow> int \<Rightarrow> int \<Rightarrow> int \<Rightarrow> string jres" where
  "grisu2_round_loop buf dist delta rest ten_k =
     (if 0 < ten_k \<and> rest < dist \<and> ten_k \<le> delta - rest \<and>
         (u64 (rest + ten_k) < dist \<or> u64 (rest + ten_k - dist) < dist - rest)
      then if last buf = CHR ''0'' then Inl Assertion
           else grisu2_round_loop (butlast buf @ [char_of (of_char (last buf) - 1 :: int)])
                  dist delta (rest + ten_k) ten_k
      else Inr buf)"
  by auto
termination
  by (relation "measure (\<lambda>(buf, dist, delta, rest, ten_k). nat (delta - rest))") auto

declare grisu2_round_loop.simps [simp del]

definition grisu2_round :: "string \<Rightarrow> int \<Rightarrow> int \<Rightarrow> int \<Rightarrow> int \<Rightarrow> string jres" where
  "grisu2_round buf dist delta rest ten_k =
     (if buf \<noteq> [] \<and> dist \<le> delta \<and> rest \<le> delta \<and> 0 < ten_k
      then grisu2_round_loop buf dist delta rest ten_k else Inl Assertion)"

text \<open>
  The digits of the integral part: \<open>Inl\<close> of the finished digits and exponent, or \<open>Inr\<close> of
  the digits when all of them were generated. \<open>s\<close> is \<open>-one.e\<close>.
\<close>

fun integral_digits ::
  "nat \<Rightarrow> string \<Rightarrow> int \<Rightarrow> int \<Rightarrow> int \<Rightarrow> nat \<Rightarrow> int \<Rightarrow> int \<Rightarrow> int \<Rightarrow> ((string \<times> int) + string) jres" where
  "integral_digits 0 buf p1 p2 pow10 s dist delta dexp = Inr (Inr buf)"
| "integral_digits (Suc n) buf p1 p2 pow10 s dist delta dexp =
     (let d = p1 div pow10; r = p1 mod pow10;
          buf1 = buf @ [char_of (48 + d)];
          rest = u64 (u64 (r * 2 ^ s) + p2)
      in if 9 < d then Inl Assertion
         else if rest \<le> delta
         then mapE (\<lambda>b. Inl (b, dexp + int n))
                (grisu2_round buf1 dist delta rest (u64 (pow10 * 2 ^ s)))
         else integral_digits n buf1 r p2 (pow10 div 10) s dist delta dexp)"

text \<open>The digits of the fraction; \<open>m\<close> counts them. Without fuel the result is \<open>Undefined\<close>.\<close>

fun fraction_digits ::
  "nat \<Rightarrow> string \<Rightarrow> int \<Rightarrow> nat \<Rightarrow> int \<Rightarrow> int \<Rightarrow> int \<Rightarrow> (string \<times> int) jres" where
  "fraction_digits 0 buf p2 s dist delta m = Inl Undefined"
| "fraction_digits (Suc fuel) buf p2 s dist delta m =
     (if 1844674407370955161 < p2 then Inl Assertion
      else let p = p2 * 10; d = p div 2 ^ s; r = p mod 2 ^ s;
               buf1 = buf @ [char_of (48 + d)];
               delta1 = u64 (delta * 10); dist1 = u64 (dist * 10)
           in if 9 < d then Inl Assertion
              else if r \<le> delta1
              then mapE (\<lambda>b. (b, m + 1)) (grisu2_round buf1 dist1 delta1 r (2 ^ s))
              else fraction_digits fuel buf1 r s dist1 delta1 (m + 1))"

definition grisu2_digit_gen :: "int \<Rightarrow> diyfp \<Rightarrow> diyfp \<Rightarrow> diyfp \<Rightarrow> (string \<times> int) jres" where
  "grisu2_digit_gen dexp M_minus w M_plus =
     (if \<not> (- 60 \<le> fp_e M_plus \<and> fp_e M_plus \<le> - 32) then Inl Assertion
      else bindE (diyfp_sub M_plus M_minus) (\<lambda>del.
           bindE (diyfp_sub M_plus w) (\<lambda>dst.
             let s = nat (- fp_e M_plus);
                 p1 = (fp_f M_plus div 2 ^ s) mod 4294967296; p2 = fp_f M_plus mod 2 ^ s;
                 (k, pow10) = find_largest_pow10 p1
             in if p1 \<le> 0 then Inl Assertion
                else bindE (integral_digits k [] p1 p2 pow10 s (fp_f dst) (fp_f del) dexp) (\<lambda>r.
                     case r of
                       Inl finished \<Rightarrow> Inr finished
                     | Inr buf \<Rightarrow>
                         (if p2 \<le> fp_f del then Inl Assertion
                          else mapE (\<lambda>(b, m). (b, dexp - m))
                                 (fraction_digits 61 buf p2 s (fp_f dst) (fp_f del) 0))))))"

definition grisu2 :: "double \<Rightarrow> (string \<times> int) jres" where
  "grisu2 d =
     bindE (compute_boundaries d) (\<lambda>(v, m_minus, m_plus).
     if fp_e m_plus \<noteq> fp_e m_minus \<or> fp_e m_plus \<noteq> fp_e v then Inl Assertion
     else bindE (get_cached_power (fp_e m_plus)) (\<lambda>(cf, ce, ck).
       let c_minus_k = \<lparr> fp_f = cf, fp_e = ce \<rparr>;
           w = diyfp_mul v c_minus_k;
           w_minus = diyfp_mul m_minus c_minus_k;
           w_plus = diyfp_mul m_plus c_minus_k;
           M_minus = \<lparr> fp_f = u64 (fp_f w_minus + 1), fp_e = fp_e w_minus \<rparr>;
           M_plus = \<lparr> fp_f = u64 (fp_f w_plus - 1), fp_e = fp_e w_plus \<rparr>
       in grisu2_digit_gen (- ck) M_minus w M_plus))"

section \<open>Formatting\<close>

definition digit_code_char :: "int \<Rightarrow> char" where "digit_code_char k = char_of (48 + k)"

definition append_exponent :: "int \<Rightarrow> string jres" where
  "append_exponent e =
     (if \<not> (- 1000 < e \<and> e < 1000) then Inl Assertion
      else let sign = (if e < 0 then CHR ''-'' else CHR ''+''); k = \<bar>e\<bar>
           in Inr (sign #
                (if k < 10 then [CHR ''0'', digit_code_char k]
                 else if k < 100 then [digit_code_char (k div 10), digit_code_char (k mod 10)]
                 else [digit_code_char (k div 100), digit_code_char (k mod 100 div 10),
                       digit_code_char (k mod 100 mod 10)])))"

definition format_buffer :: "string \<Rightarrow> int \<Rightarrow> int \<Rightarrow> int \<Rightarrow> string jres" where
  "format_buffer buf decimal_exponent min_exp max_exp =
     (let k = int (length buf); n = k + decimal_exponent in
      if k \<le> n \<and> n \<le> max_exp then Inr (buf @ replicate (nat (n - k)) CHR ''0'' @ ''.0'')
      else if 0 < n \<and> n \<le> max_exp then Inr (take (nat n) buf @ ''.'' @ drop (nat n) buf)
      else if min_exp < n \<and> n \<le> 0 then Inr (''0.'' @ replicate (nat (- n)) CHR ''0'' @ buf)
      else mapE (\<lambda>ex. (if k = 1 then buf else take 1 buf @ ''.'' @ drop 1 buf) @ ''e'' @ ex)
             (append_exponent (n - 1)))"

text \<open>\<open>to_chars\<close> on a finite number; the sign is a bit of the double.\<close>

definition to_chars :: "double \<Rightarrow> string jres" where
  "to_chars d =
     (if \<not> isfinite d then Inl Assertion
      else let sign = (if double_neg d then ''-'' else []); v = take_bit 63 d
           in if v = 0 then Inr (sign @ ''0.0'')
              else bindE (grisu2 v) (\<lambda>(buf, dexp).
                if 17 < length buf then Inl Assertion
                else mapE (\<lambda>t. sign @ t) (format_buffer buf dexp (- 4) 15)))"

section \<open>The fuel is enough\<close>

text \<open>
  Each turn of the fraction loop multiplies the remainder by ten modulo a power of two, so
  after as many turns as the power has the remainder is 0 and the loop ends.
\<close>

lemma grisu2_round_loop_defined [simp]: "grisu2_round_loop buf dist delta rest ten_k \<noteq> Inl Undefined"
proof (induction buf dist delta rest ten_k rule: grisu2_round_loop.induct)
  case (1 buf dist delta rest ten_k)
  then show ?case by (subst grisu2_round_loop.simps) auto
qed

lemma grisu2_round_defined [simp]: "grisu2_round buf dist delta rest ten_k \<noteq> Inl Undefined"
  by (simp add: grisu2_round_def)

lemma fraction_digits_defined:
  assumes "2 ^ (s - j) * q = p2" and "j \<le> s" and "0 \<le> p2" and "p2 < 2 ^ s" and "0 \<le> q" and "j < fuel"
  shows "fraction_digits fuel buf p2 s dist delta m \<noteq> Inl Undefined"
  using assms
proof (induction fuel arbitrary: buf p2 q dist delta m j)
  case (Suc fuel)
  let ?r = "(p2 * 10) mod 2 ^ s"
  show ?case
  proof (cases j)
    case 0
    then have "p2 = 0" using Suc.prems by (cases "q = 0") auto
    then show ?thesis by (auto simp: Let_def u64_def)
  next
    case i: (Suc i)
    have "2 ^ (s - i) dvd p2 * 10"
    proof -
      have "(2::int) ^ (s - i) = 2 * 2 ^ (s - j)" using i \<open>j \<le> s\<close>
        by (simp add: Suc_diff_Suc [symmetric])
      then show ?thesis using Suc.prems(1) by (auto simp: dvd_def)
    qed
    moreover have "(2::int) ^ (s - i) dvd 2 ^ s" by (simp add: le_imp_power_dvd)
    ultimately have "2 ^ (s - i) dvd ?r" by (simp add: dvd_mod)
    then obtain q' where q': "?r = 2 ^ (s - i) * q'" by (auto simp: dvd_def)
    have r: "0 \<le> ?r" "?r < 2 ^ s" by simp_all
    then have "0 \<le> q'" using q' by (metis zero_le_mult_iff zero_less_numeral zero_less_power not_le)
    then have "fraction_digits fuel b ?r s dist' delta' m' \<noteq> Inl Undefined" for b dist' delta' m'
      using Suc.prems q' r i by (intro Suc.IH [of i q']) auto
    then show ?thesis by (auto simp: Let_def)
  qed
qed simp

lemma integral_digits_defined: "integral_digits n buf p1 p2 pow10 s dist delta dexp \<noteq> Inl Undefined"
  by (induction n arbitrary: buf p1 pow10) (auto simp: Let_def)

lemma grisu2_digit_gen_defined: "grisu2_digit_gen dexp M_minus w M_plus \<noteq> Inl Undefined"
proof -
  have "fraction_digits 61 buf (f mod 2 ^ s) s dist delta 0 \<noteq> Inl Undefined" if "s \<le> 60" for buf f s dist delta
    using that by (intro fraction_digits_defined [where j = s and q = "f mod 2 ^ s"]) auto
  then show ?thesis
    by (auto simp: grisu2_digit_gen_def diyfp_sub_def Let_def bindE_Inl_iff integral_digits_defined
        split: prod.splits sum.splits if_splits)
qed

end
