(* ===== verification/Json_Dump.thy ===== *)
theory Json_Dump
  imports Json_Float Json_Lexer
begin

unbundle bit_operations_syntax

text \<open>
  The serializer of the JSON library: \<open>dump\<close> with its escaping of strings, driven by a
  UTF-8 decoder that is a table, the decimal text of integers, and the layout of containers
  with and without indentation. The writes into the buffer of 512 bytes, and the reads of the
  indentation string, are checked.
\<close>

section \<open>Decoding UTF-8\<close>

definition utf8d :: "int list" where
  "utf8d =
     [
      0, 0, 0, 0, 0, 0, 0, 0, 0, 0, 0, 0, 0, 0, 0, 0,
      0, 0, 0, 0, 0, 0, 0, 0, 0, 0, 0, 0, 0, 0, 0, 0,
      0, 0, 0, 0, 0, 0, 0, 0, 0, 0, 0, 0, 0, 0, 0, 0,
      0, 0, 0, 0, 0, 0, 0, 0, 0, 0, 0, 0, 0, 0, 0, 0,
      0, 0, 0, 0, 0, 0, 0, 0, 0, 0, 0, 0, 0, 0, 0, 0,
      0, 0, 0, 0, 0, 0, 0, 0, 0, 0, 0, 0, 0, 0, 0, 0,
      0, 0, 0, 0, 0, 0, 0, 0, 0, 0, 0, 0, 0, 0, 0, 0,
      0, 0, 0, 0, 0, 0, 0, 0, 0, 0, 0, 0, 0, 0, 0, 0,
      1, 1, 1, 1, 1, 1, 1, 1, 1, 1, 1, 1, 1, 1, 1, 1,
      9, 9, 9, 9, 9, 9, 9, 9, 9, 9, 9, 9, 9, 9, 9, 9,
      7, 7, 7, 7, 7, 7, 7, 7, 7, 7, 7, 7, 7, 7, 7, 7,
      7, 7, 7, 7, 7, 7, 7, 7, 7, 7, 7, 7, 7, 7, 7, 7,
      8, 8, 2, 2, 2, 2, 2, 2, 2, 2, 2, 2, 2, 2, 2, 2,
      2, 2, 2, 2, 2, 2, 2, 2, 2, 2, 2, 2, 2, 2, 2, 2,
      10, 3, 3, 3, 3, 3, 3, 3, 3, 3, 3, 3, 3, 4, 3, 3,
      11, 6, 6, 6, 5, 8, 8, 8, 8, 8, 8, 8, 8, 8, 8, 8,
      0, 1, 2, 3, 5, 8, 7, 1, 1, 1, 4, 6, 1, 1, 1, 1,
      1, 1, 1, 1, 1, 1, 1, 1, 1, 1, 1, 1, 1, 1, 1, 1,
      1, 0, 1, 1, 1, 1, 1, 0, 1, 0, 1, 1, 1, 1, 1, 1,
      1, 2, 1, 1, 1, 1, 1, 2, 1, 2, 1, 1, 1, 1, 1, 1,
      1, 1, 1, 1, 1, 1, 1, 2, 1, 1, 1, 1, 1, 1, 1, 1,
      1, 2, 1, 1, 1, 1, 1, 1, 1, 2, 1, 1, 1, 1, 1, 1,
      1, 1, 1, 1, 1, 1, 1, 3, 1, 3, 1, 1, 1, 1, 1, 1,
      1, 3, 1, 1, 1, 1, 1, 3, 1, 3, 1, 1, 1, 1, 1, 1,
      1, 3, 1, 1, 1, 1, 1, 1, 1, 1, 1, 1, 1, 1, 1, 1
     ]"

text \<open>The next state and code point; \<open>0\<close> is \<open>UTF8_ACCEPT\<close>, \<open>1\<close> is \<open>UTF8_REJECT\<close>.\<close>

definition decode_utf8 :: "int \<Rightarrow> int \<Rightarrow> int \<Rightarrow> int \<times> int" where
  "decode_utf8 state codep byte =
     (let type = utf8d ! nat byte;
          codep' = (if state \<noteq> 0
                    then (byte AND 0x3F) OR take_bit 32 (push_bit 6 codep)
                    else drop_bit (nat type) 0xFF AND byte)
      in (utf8d ! nat (256 + state * 16 + type), codep'))"

section \<open>Escaping strings\<close>

datatype error_handler_t = Eh_strict | Eh_replace | Eh_ignore

text \<open>
  The local variables of the loop and the output: \<open>string_buffer\<close> holds the bytes that are in
  use, so that \<open>bytes\<close> is its length. The code point is not read before it is set.
\<close>

record escaper =
  esc_state :: int
  codepoint :: int
  string_buffer :: string
  bytes_after_last_accept :: nat
  undumped_chars :: nat
  esc_out :: string

text \<open>A write of \<open>cs\<close> and of \<open>extra\<close> terminating characters into the buffer.\<close>

definition put :: "nat \<Rightarrow> string \<Rightarrow> escaper \<Rightarrow> escaper jres" where
  "put extra cs e =
     (if length (string_buffer e) + length cs + extra \<le> 512
      then Inr (e\<lparr> string_buffer := string_buffer e @ cs \<rparr>) else Inl Undefined)"

definition hex_lower :: "int \<Rightarrow> char" where
  "hex_lower n = (if n < 10 then char_of (48 + n) else char_of (87 + n))"

text \<open>\<open>%04x\<close> of a 16-bit number, after a backslash and a \<open>u\<close>.\<close>

definition hex4 :: "int \<Rightarrow> string" where
  "hex4 n = [CHR 0x5C, CHR ''u'', hex_lower (n div 4096 mod 16), hex_lower (n div 256 mod 16),
     hex_lower (n div 16 mod 16), hex_lower (n mod 16)]"

definition escape_codepoint :: "bool \<Rightarrow> int \<Rightarrow> char \<Rightarrow> escaper \<Rightarrow> escaper jres" where
  "escape_codepoint ensure_ascii cp c e =
     (if cp = 0x08 then put 0 [CHR 0x5C, CHR ''b''] e
      else if cp = 0x09 then put 0 [CHR 0x5C, CHR ''t''] e
      else if cp = 0x0A then put 0 [CHR 0x5C, CHR ''n''] e
      else if cp = 0x0C then put 0 [CHR 0x5C, CHR ''f''] e
      else if cp = 0x0D then put 0 [CHR 0x5C, CHR ''r''] e
      else if cp = 0x22 then put 0 [CHR 0x5C, CHR 0x22] e
      else if cp = 0x5C then put 0 [CHR 0x5C, CHR 0x5C] e
      else if cp \<le> 0x1F \<or> ensure_ascii \<and> 0x7F \<le> cp then
        (if cp \<le> 0xFFFF then put 1 (hex4 cp) e
         else put 1 (hex4 (take_bit 16 (0xD7C0 + drop_bit 10 cp)) @
                     hex4 (take_bit 16 (0xDC00 + (cp AND 0x3FF)))) e)
      else put 0 [c] e)"

text \<open>The buffer is written out when fewer than 13 bytes are left.\<close>

definition flush :: "escaper \<Rightarrow> escaper" where
  "flush e =
     (if 512 - length (string_buffer e) < 13
      then e\<lparr> esc_out := esc_out e @ string_buffer e, string_buffer := [] \<rparr> else e)"

definition mark_accept :: "escaper \<Rightarrow> escaper" where
  "mark_accept e =
     e\<lparr> bytes_after_last_accept := length (string_buffer e), undumped_chars := 0 \<rparr>"

definition accept_byte :: "bool \<Rightarrow> char \<Rightarrow> escaper \<Rightarrow> escaper jres" where
  "accept_byte ensure_ascii c e =
     mapE (\<lambda>e1. mark_accept (flush e1)) (escape_codepoint ensure_ascii (codepoint e) c e)"

definition replacement :: "bool \<Rightarrow> string" where
  "replacement ensure_ascii =
     (if ensure_ascii then [CHR 0x5C, CHR ''u'', CHR ''f'', CHR ''f'', CHR ''f'', CHR ''d'']
      else [CHR 0xEF, CHR 0xBF, CHR 0xBD])"

text \<open>An ill-formed byte: back to the last accepted byte, and with \<open>replace\<close> a replacement.\<close>

definition reject_byte :: "error_handler_t \<Rightarrow> bool \<Rightarrow> escaper \<Rightarrow> escaper jres" where
  "reject_byte handler ensure_ascii e =
     (let e1 = e\<lparr> string_buffer := take (bytes_after_last_accept e) (string_buffer e) \<rparr>
      in mapE (\<lambda>e2. e2\<lparr> undumped_chars := 0, esc_state := 0 \<rparr>)
           (if handler = Eh_replace
            then mapE (\<lambda>e2. mark_accept (flush e2)) (put 0 (replacement ensure_ascii) e1)
            else Inr e1))"

definition incomplete_byte :: "bool \<Rightarrow> char \<Rightarrow> escaper \<Rightarrow> escaper jres" where
  "incomplete_byte ensure_ascii c e =
     mapE (\<lambda>e1. e1\<lparr> undumped_chars := undumped_chars e1 + 1 \<rparr>)
       (if ensure_ascii then Inr e else put 0 [c] e)"

definition hex2 :: "int \<Rightarrow> string" where
  "hex2 n = [hex_digit (n div 16), hex_digit (n mod 16)]"

definition decoded :: "char \<Rightarrow> escaper \<Rightarrow> escaper" where
  "decoded c e =
     (let (st, cp) = decode_utf8 (esc_state e) (codepoint e) (ord c)
      in e\<lparr> esc_state := st, codepoint := cp \<rparr>)"

lemma reject_undumped: "reject_byte handler ea e = Inr e' \<Longrightarrow> undumped_chars e' = 0"
  by (auto simp: reject_byte_def Let_def res_iff)

text \<open>
  The loop over the bytes \<open>s[i], s[i+1], ...\<close>. A byte that was rejected inside a sequence is
  read again as the start of the next one.
\<close>

function escape_loop ::
  "error_handler_t \<Rightarrow> bool \<Rightarrow> nat \<Rightarrow> string \<Rightarrow> escaper \<Rightarrow> escaper jres" where
  "escape_loop handler ea i [] e = Inr e"
| "escape_loop handler ea i (c # cs) e =
     (let e1 = decoded c e in
      if esc_state e1 = 0 then
        (case accept_byte ea c e1 of
           Inl err \<Rightarrow> Inl err | Inr e2 \<Rightarrow> escape_loop handler ea (i + 1) cs e2)
      else if esc_state e1 = 1 then
        (if handler = Eh_strict
         then Inl (Throw (type_error_create 316
                (''invalid UTF-8 byte at index '' @ dec_int (int i) @ '': 0x'' @ hex2 (ord c))))
         else case reject_byte handler ea e1 of
                Inl err \<Rightarrow> Inl err
              | Inr e2 \<Rightarrow>
                  (if 0 < undumped_chars e1 then escape_loop handler ea i (c # cs) e2
                   else escape_loop handler ea (i + 1) cs e2))
      else
        (case incomplete_byte ea c e1 of
           Inl err \<Rightarrow> Inl err | Inr e2 \<Rightarrow> escape_loop handler ea (i + 1) cs e2))"
  by pat_completeness auto
termination
proof (relation "measure (\<lambda>(h, ea, i, s, e). 2 * length s + (if undumped_chars e = 0 then 0 else 1))", goal_cases)
  case (3 handler ea i c cs e e1 e2)
  then have "undumped_chars e2 = 0" using reject_undumped by blast
  moreover have "undumped_chars e1 = undumped_chars e"
    using 3(1) by (simp add: decoded_def split: prod.splits)
  ultimately show ?case using 3 by simp
qed auto

definition escaper_init :: escaper where
  "escaper_init = \<lparr> esc_state = 0, codepoint = 0, string_buffer = [], bytes_after_last_accept = 0,
     undumped_chars = 0, esc_out = [] \<rparr>"

definition escape_finish :: "error_handler_t \<Rightarrow> bool \<Rightarrow> string \<Rightarrow> escaper \<Rightarrow> string jres" where
  "escape_finish handler ensure_ascii s e =
     (if esc_state e = 0 then Inr (esc_out e @ string_buffer e)
      else case handler of
             Eh_strict \<Rightarrow> Inl (Throw (type_error_create 316
               (''incomplete UTF-8 string; last byte: 0x'' @ hex2 (ord (last s)))))
           | Eh_ignore \<Rightarrow> Inr (esc_out e @ take (bytes_after_last_accept e) (string_buffer e))
           | Eh_replace \<Rightarrow> Inr (esc_out e @ take (bytes_after_last_accept e) (string_buffer e) @
                               replacement ensure_ascii))"

text \<open>What \<open>dump_escaped\<close> writes to the output.\<close>

definition dump_escaped :: "error_handler_t \<Rightarrow> bool \<Rightarrow> string \<Rightarrow> string jres" where
  "dump_escaped handler ensure_ascii s =
     bindE (escape_loop handler ensure_ascii 0 s escaper_init) (escape_finish handler ensure_ascii s)"

section \<open>Integers\<close>

function count_digits :: "int \<Rightarrow> nat" where
  "count_digits x =
     (if x < 10 then 1 else if x < 100 then 2 else if x < 1000 then 3 else if x < 10000 then 4
      else 4 + count_digits (x div 10000))"
  by auto
termination by (relation "measure nat") auto

declare count_digits.simps [simp del]

definition digits_to_99 :: "int \<Rightarrow> string" where
  "digits_to_99 k = [char_of (48 + k div 10), char_of (48 + k mod 10)]"

text \<open>
  The digits are written from the end of the number towards the front of the buffer: \<open>p\<close> is the
  place before which the next one goes. A place outside the buffer is an access that is not defined.
\<close>

definition write_back :: "string \<Rightarrow> nat \<Rightarrow> string \<Rightarrow> (string \<times> nat) jres" where
  "write_back buf p cs =
     (if length cs \<le> p \<and> p \<le> length buf
      then Inr (take (p - length cs) buf @ cs @ drop p buf, p - length cs) else Inl Undefined)"

function write_pairs :: "string \<Rightarrow> nat \<Rightarrow> int \<Rightarrow> (string \<times> nat \<times> int) jres" where
  "write_pairs buf p x =
     (if 100 \<le> x
      then case write_back buf p (digits_to_99 (x mod 100)) of
             Inl err \<Rightarrow> Inl err
           | Inr (buf1, p1) \<Rightarrow> write_pairs buf1 p1 (x div 100)
      else Inr (buf, p, x))"
  by auto
termination by (relation "measure (\<lambda>(buf, p, x). nat x)") auto

declare write_pairs.simps [simp del]

definition remove_sign :: "int \<Rightarrow> int" where
  "remove_sign x = - (x + 1) + 1"

definition dump_integer :: "int \<Rightarrow> string jres" where
  "dump_integer x =
     (if x = 0 then Inr ''0''
      else let number_buffer = replicate 64 (CHR 0x00);
               is_negative = x < 0;
               abs_value = (if is_negative then remove_sign x else x);
               buf0 = (if is_negative then number_buffer[0 := CHR ''-''] else number_buffer);
               n_chars = (if is_negative then 1 else 0) + count_digits abs_value
           in if \<not> n_chars < length number_buffer - 1 then Inl Assertion
              else bindE (write_pairs buf0 n_chars abs_value) (\<lambda>(buf1, p, y).
                   mapE (\<lambda>(buf2, _). take n_chars buf2)
                     (write_back buf1 p (if 10 \<le> y then digits_to_99 y else [char_of (48 + y)]))))"

section \<open>Values\<close>

record dump_options =
  pretty_print :: bool
  ensure_ascii :: bool
  indent_step :: nat
  on_error :: error_handler_t

record serializer =
  out :: string
  indent_string :: string

definition emit :: "string \<Rightarrow> serializer \<Rightarrow> serializer" where
  "emit cs s = s\<lparr> out := out s @ cs \<rparr>"

definition emit_escaped :: "dump_options \<Rightarrow> string \<Rightarrow> serializer \<Rightarrow> serializer jres" where
  "emit_escaped opt cs s = mapE (\<lambda>t. emit t s) (dump_escaped (on_error opt) (ensure_ascii opt) cs)"

text \<open>
  \<open>write_characters(indent_string.c_str(), n)\<close>: the terminating null character can still be
  read, more is not defined.
\<close>

definition emit_indent :: "nat \<Rightarrow> serializer \<Rightarrow> serializer jres" where
  "emit_indent n s =
     (if n \<le> length (indent_string s) + 1
      then Inr (emit (take n (indent_string s @ [CHR 0x00])) s) else Inl Undefined)"

definition grow_indent :: "nat \<Rightarrow> serializer \<Rightarrow> serializer" where
  "grow_indent n s =
     (if length (indent_string s) < n
      then s\<lparr> indent_string := indent_string s @ replicate (length (indent_string s)) (CHR '' '') \<rparr>
      else s)"

definition emit_key :: "dump_options \<Rightarrow> string \<Rightarrow> serializer \<Rightarrow> serializer jres" where
  "emit_key opt k s =
     mapE (emit (if pretty_print opt then [CHR 0x22, CHR '':'', CHR '' ''] else [CHR 0x22, CHR '':'']))
       (emit_escaped opt k (emit [CHR 0x22] s))"

definition dump_float :: "double \<Rightarrow> string jres" where
  "dump_float x = (if \<not> isfinite x then Inr ''null'' else to_chars x)"

text \<open>Before an element: its indentation. After it: the separator, or what closes the container.\<close>

definition before_element :: "dump_options \<Rightarrow> nat \<Rightarrow> serializer \<Rightarrow> serializer jres" where
  "before_element opt new_indent s = (if pretty_print opt then emit_indent new_indent s else Inr s)"

definition separator :: "dump_options \<Rightarrow> string" where
  "separator opt = (if pretty_print opt then [CHR '','', CHR 0x0A] else [CHR '',''])"

definition close_container :: "dump_options \<Rightarrow> nat \<Rightarrow> char \<Rightarrow> serializer \<Rightarrow> serializer jres" where
  "close_container opt current_indent c s =
     (if pretty_print opt
      then mapE (emit [c]) (emit_indent current_indent (emit [CHR 0x0A] s))
      else Inr (emit [c] s))"

definition open_container :: "dump_options \<Rightarrow> char \<Rightarrow> nat \<Rightarrow> serializer \<Rightarrow> serializer" where
  "open_container opt c new_indent s =
     (if pretty_print opt then grow_indent new_indent (emit [c, CHR 0x0A] s) else emit [c] s)"

definition next_indent :: "dump_options \<Rightarrow> nat \<Rightarrow> nat" where
  "next_indent opt current_indent =
     (if pretty_print opt then nat ((int current_indent + int (indent_step opt)) mod 4294967296) else current_indent)"

fun dump_value :: "dump_options \<Rightarrow> nat \<Rightarrow> json \<Rightarrow> serializer \<Rightarrow> serializer jres"
  and dump_members :: "dump_options \<Rightarrow> nat \<Rightarrow> (string \<times> json) list \<Rightarrow> serializer \<Rightarrow> serializer jres"
  and dump_elements :: "dump_options \<Rightarrow> nat \<Rightarrow> json list \<Rightarrow> serializer \<Rightarrow> serializer jres"
where
  "dump_value opt ind (JObject m) s =
     (if m = [] then Inr (emit ''{}'' s)
      else bindE (dump_members opt (next_indent opt ind) m (open_container opt CHR ''{'' (next_indent opt ind) s))
             (close_container opt ind CHR ''}''))"
| "dump_value opt ind (JArray a) s =
     (if a = [] then Inr (emit ''[]'' s)
      else bindE (dump_elements opt (next_indent opt ind) a (open_container opt CHR ''['' (next_indent opt ind) s))
             (close_container opt ind CHR '']''))"
| "dump_value opt ind (JString t) s =
     mapE (emit [CHR 0x22]) (emit_escaped opt t (emit [CHR 0x22] s))"
| "dump_value opt ind (JBoolean b) s = Inr (emit (if b then ''true'' else ''false'') s)"
| "dump_value opt ind (JInteger i) s = mapE (\<lambda>t. emit t s) (dump_integer i)"
| "dump_value opt ind (JUnsigned i) s = mapE (\<lambda>t. emit t s) (dump_integer i)"
| "dump_value opt ind (JFloat d) s = mapE (\<lambda>t. emit t s) (dump_float d)"
| "dump_value opt ind JDiscarded s = Inr (emit ''<discarded>'' s)"
| "dump_value opt ind JNull s = Inr (emit ''null'' s)"
| "dump_members opt ind [] s = Inr s"
| "dump_members opt ind ((k, v) # m) s =
     bindE (before_element opt ind s) (\<lambda>s1.
     bindE (emit_key opt k s1) (\<lambda>s2.
     bindE (dump_value opt ind v s2) (\<lambda>s3.
     if m = [] then Inr s3 else dump_members opt ind m (emit (separator opt) s3))))"
| "dump_elements opt ind [] s = Inr s"
| "dump_elements opt ind (v # a) s =
     bindE (before_element opt ind s) (\<lambda>s1.
     bindE (dump_value opt ind v s1) (\<lambda>s2.
     if a = [] then Inr s2 else dump_elements opt ind a (emit (separator opt) s2)))"

text \<open>\<open>basic_json::dump\<close>: a negative indentation selects the compact layout.\<close>

definition json_dump :: "json \<Rightarrow> int \<Rightarrow> char \<Rightarrow> bool \<Rightarrow> error_handler_t \<Rightarrow> string jres" where
  "json_dump j indent indent_char ea handler =
     mapE out
       (dump_value
          \<lparr> pretty_print = 0 \<le> indent, ensure_ascii = ea, indent_step = nat indent, on_error = handler \<rparr>
          0 j \<lparr> out = [], indent_string = replicate 512 indent_char \<rparr>)"

end
