(* ===== verification/Json_Escape.thy ===== *)
theory Json_Escape
  imports Json_Grammar Json_Dump
begin

text \<open>
  The escaping of strings in \<open>dump\<close>: the decoder table takes the encoding of every scalar value to
  that value, the loop writes one escape or one character of the grammar for it, and
  the buffer of 512 bytes never overflows.
\<close>

unbundle bit_operations_syntax

section \<open>The decoder table\<close>

lemma lead_table:
  "\<forall>b \<in> set [0..0x7F]. utf8d ! nat b = 0"
  "\<forall>b \<in> set [0xC2..0xDF]. utf8d ! nat b = 2"
  "\<forall>b \<in> set [0xE1..0xEC] \<union> {0xEE, 0xEF}. utf8d ! nat b = 3"
  "utf8d ! nat 0xE0 = 10" "utf8d ! nat 0xED = 4" "utf8d ! nat 0xF0 = 11" "utf8d ! nat 0xF4 = 5"
  "\<forall>b \<in> set [0xF1..0xF3]. utf8d ! nat b = 6"
  by code_simp+

lemma next_table:
  "\<forall>b \<in> set [0x80..0x8F]. utf8d ! nat b = 1"
  "\<forall>b \<in> set [0x90..0x9F]. utf8d ! nat b = 9"
  "\<forall>b \<in> set [0xA0..0xBF]. utf8d ! nat b = 7"
  by code_simp+

lemmas lead_type = lead_table(1-3,8) [unfolded set_upto, THEN bspec]

text \<open>The states: after \<open>0\<close> a first byte, after every other one a continuation byte.\<close>

lemma state_table:
  "map (\<lambda>t. utf8d ! nat (256 + t)) [0, 2, 3, 4, 5, 6, 10, 11] = [0, 2, 3, 5, 8, 7, 4, 6]"
  "map (\<lambda>t. utf8d ! nat (256 + 2 * 16 + t)) [1, 9, 7] = [0, 0, 0]"
  "map (\<lambda>t. utf8d ! nat (256 + 3 * 16 + t)) [1, 9, 7] = [2, 2, 2]"
  "map (\<lambda>t. utf8d ! nat (256 + 4 * 16 + t)) [1, 9, 7] = [1, 1, 2]"
  "map (\<lambda>t. utf8d ! nat (256 + 5 * 16 + t)) [1, 9, 7] = [2, 2, 1]"
  "map (\<lambda>t. utf8d ! nat (256 + 6 * 16 + t)) [1, 9, 7] = [1, 3, 3]"
  "map (\<lambda>t. utf8d ! nat (256 + 7 * 16 + t)) [1, 9, 7] = [3, 3, 3]"
  "map (\<lambda>t. utf8d ! nat (256 + 8 * 16 + t)) [1, 9, 7] = [3, 1, 1]"
  by code_simp+

lemma first_bits:
  "\<forall>b \<in> set [0..0x7F]. drop_bit 0 0xFF AND b = b"
  "\<forall>b \<in> set [0xC2..0xDF]. drop_bit 2 0xFF AND b = b - (0xC0 :: int)"
  "\<forall>b \<in> set [0xE1..0xEC] \<union> {0xEE, 0xEF}. drop_bit 3 0xFF AND b = b - (0xE0 :: int)"
  "\<forall>b \<in> set [0xF1..0xF3]. drop_bit 6 0xFF AND b = b - (0xF0 :: int)"
  by code_simp+

lemmas lead_bits = first_bits [unfolded set_upto, THEN bspec]

text \<open>
  A sequence of bytes that the decoder takes from one accepting state to the next, without
  accepting or rejecting in between.
\<close>

fun decodes :: "int \<Rightarrow> int \<Rightarrow> int list \<Rightarrow> int \<Rightarrow> bool" where
  "decodes st c [] cp = False"
| "decodes st c (b # bs) cp =
     (let (st1, c1) = decode_utf8 st c b
      in if bs = [] then st1 = 0 \<and> c1 = cp else st1 \<noteq> 0 \<and> st1 \<noteq> 1 \<and> decodes st1 c1 bs cp)"

lemma decode_first:
  "0 \<le> b \<Longrightarrow> b < 0x80 \<Longrightarrow> decode_utf8 0 c b = (0, b)"
  "0xC2 \<le> b \<Longrightarrow> b < 0xE0 \<Longrightarrow> decode_utf8 0 c b = (2, b - 0xC0)"
  "0xE1 \<le> b \<Longrightarrow> b < 0xF0 \<Longrightarrow> b \<noteq> 0xED \<Longrightarrow> decode_utf8 0 c b = (3, b - 0xE0)"
  "0xF1 \<le> b \<Longrightarrow> b < 0xF4 \<Longrightarrow> decode_utf8 0 c b = (7, b - 0xF0)"
  "decode_utf8 0 c 0xE0 = (4, 0)" "decode_utf8 0 c 0xED = (5, 0xD)"
  "decode_utf8 0 c 0xF0 = (6, 0)" "decode_utf8 0 c 0xF4 = (8, 4)"
proof -
  note st = state_table(1) [simplified]
  show "0 \<le> b \<Longrightarrow> b < 0x80 \<Longrightarrow> decode_utf8 0 c b = (0, b)"
    using lead_type(1) [of b] lead_bits(1) [of b] st by (simp add: decode_utf8_def Let_def)
  show "0xC2 \<le> b \<Longrightarrow> b < 0xE0 \<Longrightarrow> decode_utf8 0 c b = (2, b - 0xC0)"
    using lead_type(2) [of b] lead_bits(2) [of b] st by (simp add: decode_utf8_def Let_def)
  show "decode_utf8 0 c b = (3, b - 0xE0)" if "0xE1 \<le> b" "b < 0xF0" "b \<noteq> 0xED"
  proof -
    have "b \<in> {0xE1..0xEC} \<union> {0xEE, 0xEF}" using that by auto
    then show ?thesis using lead_type(3) [of b] lead_bits(3) [of b] st by (simp add: decode_utf8_def Let_def)
  qed
  show "0xF1 \<le> b \<Longrightarrow> b < 0xF4 \<Longrightarrow> decode_utf8 0 c b = (7, b - 0xF0)"
    using lead_type(4) [of b] lead_bits(4) [of b] st by (simp add: decode_utf8_def Let_def)
  show "decode_utf8 0 c 0xE0 = (4, 0)" "decode_utf8 0 c 0xED = (5, 0xD)"
    "decode_utf8 0 c 0xF0 = (6, 0)" "decode_utf8 0 c 0xF4 = (8, 4)"
    using lead_table(4-7) st by (simp_all add: decode_utf8_def Let_def)
qed

lemma continued_codepoint:
  fixes r c :: int
  assumes "0 \<le> r" "r < 64" "0 \<le> c" "c < 0x4000000"
  shows "((0x80 + r) AND 0x3F) OR take_bit 32 (push_bit 6 c) = 64 * c + r"
proof -
  have "(0x80 + r) AND 0x3F = r" using assms mod_mult_self1 [of r 2 64] by (simp add: and_63 add.commute)
  moreover have "take_bit 32 (push_bit 6 c) = push_bit 6 c"
    using assms by (simp add: push_bit_eq_mult take_bit_int_eq_self)
  moreover have "r OR push_bit 6 c = concat_bit 6 r c"
    using assms by (simp add: concat_bit_def take_bit_int_eq_self)
  ultimately show ?thesis using assms
    by (simp add: concat_bit_eq take_bit_int_eq_self push_bit_eq_mult)
qed

lemma decode_next:
  assumes "0 \<le> r" "r < 64" "0 \<le> c" "c < 0x4000000"
  shows "decode_utf8 2 c (0x80 + r) = (0, 64 * c + r)"
    "decode_utf8 3 c (0x80 + r) = (2, 64 * c + r)"
    "0x20 \<le> r \<Longrightarrow> decode_utf8 4 c (0x80 + r) = (2, 64 * c + r)"
    "r < 0x20 \<Longrightarrow> decode_utf8 5 c (0x80 + r) = (2, 64 * c + r)"
    "0x10 \<le> r \<Longrightarrow> decode_utf8 6 c (0x80 + r) = (3, 64 * c + r)"
    "decode_utf8 7 c (0x80 + r) = (3, 64 * c + r)"
    "r < 0x10 \<Longrightarrow> decode_utf8 8 c (0x80 + r) = (3, 64 * c + r)"
proof -
  have t: "utf8d ! nat (0x80 + r) = (if r < 0x10 then 1 else if r < 0x20 then 9 else 7)"
    using assms(1,2) next_table [unfolded set_upto, THEN bspec, of "0x80 + r"] by simp
  note st = state_table(2-) [simplified]
  note d = decode_utf8_def Let_def t continued_codepoint [OF assms]
  show "decode_utf8 2 c (0x80 + r) = (0, 64 * c + r)" "decode_utf8 3 c (0x80 + r) = (2, 64 * c + r)"
    "decode_utf8 7 c (0x80 + r) = (3, 64 * c + r)"
    "0x20 \<le> r \<Longrightarrow> decode_utf8 4 c (0x80 + r) = (2, 64 * c + r)"
    "r < 0x20 \<Longrightarrow> decode_utf8 5 c (0x80 + r) = (2, 64 * c + r)"
    "0x10 \<le> r \<Longrightarrow> decode_utf8 6 c (0x80 + r) = (3, 64 * c + r)"
    "r < 0x10 \<Longrightarrow> decode_utf8 8 c (0x80 + r) = (3, 64 * c + r)"
    using st by (simp_all add: d)
qed

lemma scalar_decodes:
  assumes "scalar cp"
  shows "decodes 0 c (utf8_codes cp) cp"
proof -
  define r0 r1 r2 where "r0 = cp mod 64" and "r1 = cp div 64 mod 64" and "r2 = cp div 4096 mod 64"
  have r: "0 \<le> r0" "r0 < 64" "0 \<le> r1" "r1 < 64" "0 \<le> r2" "r2 < 64" by (simp_all add: r0_def r1_def r2_def)
  have cp: "0 \<le> cp" "cp \<le> 0x10FFFF" "\<not> (0xD800 \<le> cp \<and> cp \<le> 0xDFFF)" using assms by (auto simp: scalar_def)
  have c1: "64 * (cp div 64) + r0 = cp" by (simp add: r0_def)
  have c2: "64 * (64 * (cp div 4096) + r1) + r0 = cp" using div_steps(1) [of cp] by (simp add: r0_def r1_def)
  have c3: "64 * (64 * (64 * (cp div 262144) + r2) + r1) + r0 = cp"
    using div_steps [of cp] by (simp add: r0_def r1_def r2_def)
  consider "cp < 0x80" | "0x80 \<le> cp" "cp < 0x800" | "0x800 \<le> cp" "cp < 0x10000" | "0x10000 \<le> cp" by linarith
  then show ?thesis
  proof cases
    case 1
    then show ?thesis using cp by (simp add: utf8_codes_def decode_first)
  next
    case 2
    define a where "a = cp div 64"
    have "2 \<le> a" "a < 32" using 2 by (simp_all add: a_def)
    then show ?thesis using 2 r c1 decode_first(2) [of "0xC0 + a" c]
      by (simp add: utf8_codes_def r0_def [symmetric] a_def [symmetric] decode_next)
  next
    case 3
    define a where "a = cp div 4096"
    have a: "0 \<le> a" "a < 16" "cp = 4096 * a + 64 * r1 + r0" using 3 c2 by (simp_all add: a_def)
    have codes: "utf8_codes cp = [0xE0 + a, 0x80 + r1, 0x80 + r0]"
      using 3 by (simp add: utf8_codes_def r0_def r1_def a_def)
    consider "a = 0" "0x20 \<le> r1" | "a = 0xD" "r1 < 0x20" | "1 \<le> a" "a \<noteq> 0xD"
      using 3 a cp(3) r by linarith
    then show ?thesis
    proof cases
      case 1
      then show ?thesis using a r c2 unfolding codes a_def [symmetric]
        by (simp add: decode_first decode_next)
    next
      case 2
      then show ?thesis using a r c2 unfolding codes a_def [symmetric]
        by (simp add: decode_first decode_next)
    next
      case 3
      then show ?thesis using a r c2 decode_first(3) [of "0xE0 + a" c] unfolding codes a_def [symmetric]
        by (simp add: decode_next)
    qed
  next
    case 4
    define a where "a = cp div 262144"
    have a: "0 \<le> a" "a \<le> 4" "cp = 262144 * a + 4096 * r2 + 64 * r1 + r0" using 4 cp c3 by (simp_all add: a_def)
    have codes: "utf8_codes cp = [0xF0 + a, 0x80 + r2, 0x80 + r1, 0x80 + r0]"
      using 4 by (simp add: utf8_codes_def r0_def r1_def r2_def a_def)
    consider "a = 0" "0x10 \<le> r2" | "a = 4" "r2 < 0x10" | "1 \<le> a" "a \<le> 3"
      using 4 a cp(2) r by linarith
    then show ?thesis
    proof cases
      case 1
      then show ?thesis using a r c3 unfolding codes a_def [symmetric]
        by (simp add: decode_first decode_next)
    next
      case 2
      then show ?thesis using a r c3 unfolding codes a_def [symmetric]
        by (simp add: decode_first decode_next)
    next
      case 3
      then show ?thesis using a r c3 decode_first(4) [of "0xF0 + a" c] unfolding codes a_def [symmetric]
        by (simp add: decode_next)
    qed
  qed
qed

section \<open>Escaped characters\<close>

lemma hex_lower_value: "0 \<le> d \<Longrightarrow> d < 16 \<Longrightarrow> hex_value (ord (hex_lower d)) = Some d"
proof -
  have "\<forall>d \<in> set [0..15]. hex_value (ord (hex_lower d)) = Some d" by code_simp
  then show "0 \<le> d \<Longrightarrow> d < 16 \<Longrightarrow> hex_value (ord (hex_lower d)) = Some d"
    unfolding set_upto by simp
qed

lemma hex4_text: "0 \<le> n \<Longrightarrow> n < 0x10000 \<Longrightarrow> \<exists>h. hex4 n = u_escape @ h \<and> hex_text n h"
proof -
  assume n: "0 \<le> n" "n < 0x10000"
  let ?h = "[hex_lower (n div 4096 mod 16), hex_lower (n div 256 mod 16), hex_lower (n div 16 mod 16), hex_lower (n mod 16)]"
  have d: "n div 256 = n div 16 div 16" "n div 4096 = n div 256 div 16" by (simp_all add: zdiv_zmult2_eq [symmetric])
  have "n div 4096 mod 16 = n div 4096" using n by simp
  then have eq: "n = (n div 4096 mod 16) * 4096 + (n div 256 mod 16) * 256 + (n div 16 mod 16) * 16 + n mod 16"
    using mult_div_mod_eq [of 16 n] mult_div_mod_eq [of 16 "n div 16"] mult_div_mod_eq [of 16 "n div 256"] d by linarith
  have dig: "map (\<lambda>x. hex_value (ord x)) ?h =
      [Some (n div 4096 mod 16), Some (n div 256 mod 16), Some (n div 16 mod 16), Some (n mod 16)]"
    by (simp add: hex_lower_value)
  have "hex_text n ?h" unfolding hex_text_def
    by (rule exI, rule exI, rule exI, rule exI, rule conjI [OF dig eq])
  then show ?thesis by (simp add: hex4_def)
qed

definition escaped_char :: "bool \<Rightarrow> int \<Rightarrow> string" where
  "escaped_char ea cp =
     (case List.find (\<lambda>c. escaped (ord c) = Some cp) ''bfnrt'' of
        Some c \<Rightarrow> [CHR 0x5C, c]
      | None \<Rightarrow>
          (if cp = 0x22 \<or> cp = 0x5C then [CHR 0x5C, char_of cp]
           else if cp \<le> 0x1F \<or> ea \<and> 0x7F \<le> cp then
             (if cp < 0x10000 then hex4 cp else hex4 (0xD7C0 + cp div 1024) @ hex4 (0xDC00 + cp mod 1024))
           else utf8_char cp))"

lemma escaped_char_text:
  assumes "scalar cp"
  shows "char_text (utf8_char cp) (escaped_char ea cp)"
proof (cases "List.find (\<lambda>c. escaped (ord c) = Some cp) ''bfnrt''")
  case (Some c)
  then have e: "escaped (ord c) = Some cp" unfolding find_Some_iff by blast
  then have "0 \<le> cp" "cp < 128" by (auto simp: escaped_def split: if_splits)
  then show ?thesis using char_text.short [OF e] Some by (simp add: escaped_char_def plus_ascii)
next
  case None
  have cp: "0 \<le> cp" "cp \<le> 0x10FFFF" "\<not> (0xD800 \<le> cp \<and> cp \<le> 0xDFFF)" using assms by (auto simp: scalar_def)
  consider "cp = 0x22 \<or> cp = 0x5C" | "cp \<noteq> 0x22" "cp \<noteq> 0x5C" "cp \<le> 0x1F \<or> ea \<and> 0x7F \<le> cp"
    | "cp \<noteq> 0x22" "cp \<noteq> 0x5C" "\<not> (cp \<le> 0x1F \<or> ea \<and> 0x7F \<le> cp)" by blast
  then show ?thesis
  proof cases
    case 1
    have "escaped (ord (char_of cp)) = Some cp" using 1 by (auto simp: escaped_def)
    then show ?thesis using char_text.short [of "char_of cp" cp] 1 None
      by (auto simp: escaped_char_def plus_ascii)
  next
    case 2
    show ?thesis
    proof (cases "cp < 0x10000")
      case True
      obtain h where "hex4 cp = u_escape @ h" "hex_text cp h" using hex4_text [OF cp(1) True] by blast
      then show ?thesis using char_text.unit [of cp h] cp(3) 2 None True by (simp add: escaped_char_def)
    next
      case False
      let ?hi = "0xD7C0 + cp div 1024" and ?lo = "0xDC00 + cp mod 1024"
      have b: "0xD800 \<le> ?hi" "?hi \<le> 0xDBFF" "0xDC00 \<le> ?lo" "?lo \<le> 0xDFFF" using False cp(2) by auto
      obtain h h' where "hex4 ?hi = u_escape @ h" "hex_text ?hi h" "hex4 ?lo = u_escape @ h'" "hex_text ?lo h'"
        using hex4_text [of ?hi] hex4_text [of ?lo] b by auto
      moreover have "0x10000 + (?hi - 0xD800) * 0x400 + (?lo - 0xDC00) = cp" using mult_div_mod_eq [of 1024 cp] by simp
      ultimately show ?thesis using char_text.pair [of ?hi h ?lo h'] b 2 None False by (simp add: escaped_char_def)
    qed
  next
    case 3
    then have "escaped_char ea cp = utf8_char cp" unfolding escaped_char_def None by auto
    then show ?thesis using char_text.plain [OF assms] 3 by auto
  qed
qed

section \<open>The loop over the bytes\<close>

lemma loop_decodes:
  "decodes (esc_state e) (codepoint e) (map ord s) cp \<Longrightarrow> length (string_buffer e) + length s \<le> 512 \<Longrightarrow>
   \<exists>e1. esc_state e1 = 0 \<and> codepoint e1 = cp \<and> esc_out e1 = esc_out e \<and>
     string_buffer e1 = string_buffer e @ (if ea then [] else butlast s) \<and>
     escape_loop h ea i (s @ cs) e =
       (case accept_byte ea (last s) e1 of Inl err \<Rightarrow> Inl err | Inr e2 \<Rightarrow> escape_loop h ea (i + length s) cs e2)"
proof (induction s arbitrary: e i)
  case (Cons b s)
  let ?d = "decoded b e"
  obtain st1 c1 where d: "decode_utf8 (esc_state e) (codepoint e) (ord b) = (st1, c1)" by fastforce
  then have dec: "?d = e\<lparr> esc_state := st1, codepoint := c1 \<rparr>" by (simp add: decoded_def)
  show ?case
  proof (cases "s = []")
    case True
    then have "st1 = 0" "c1 = cp" using Cons.prems(1) d by simp_all
    then show ?thesis using True dec by (intro exI [of _ ?d]) (simp split: sum.split)
  next
    case False
    then have st: "st1 \<noteq> 0" "st1 \<noteq> 1" "decodes st1 c1 (map ord s) cp" using Cons.prems(1) d by simp_all
    define e2 where "e2 = (if ea then ?d else ?d\<lparr> string_buffer := string_buffer e @ [b] \<rparr>)\<lparr> undumped_chars := undumped_chars e + 1 \<rparr>"
    have "incomplete_byte ea b ?d = Inr e2"
      using Cons.prems(2) by (simp add: incomplete_byte_def put_def dec e2_def)
    then have run: "escape_loop h ea i ((b # s) @ cs) e = escape_loop h ea (i + 1) (s @ cs) e2"
      using st(1,2) dec by (simp add: Let_def)
    have e2: "decodes (esc_state e2) (codepoint e2) (map ord s) cp"
      "length (string_buffer e2) + length s \<le> 512" "esc_out e2 = esc_out e"
      "string_buffer e2 = string_buffer e @ (if ea then [] else [b])"
      using st(3) Cons.prems(2) by (simp_all add: e2_def dec)
    obtain e1 where e1: "esc_state e1 = 0" "codepoint e1 = cp" "esc_out e1 = esc_out e2"
        "string_buffer e1 = string_buffer e2 @ (if ea then [] else butlast s)"
        "escape_loop h ea (i + 1) (s @ cs) e2 = (case accept_byte ea (last s) e1 of
           Inl err \<Rightarrow> Inl err | Inr e3 \<Rightarrow> escape_loop h ea (i + 1 + length s) cs e3)"
      using Cons.IH [OF e2(1,2), of "i + 1"] by blast
    have idx: "i + 1 + length s = i + length (b # s)" by simp
    show ?thesis unfolding run e1(5) idx
      by (rule exI [of _ e1]) (use e1(1-4) e2(3,4) False in simp)
  qed
qed simp

text \<open>Between two characters: what was written so far, and at least 13 bytes that are free.\<close>

definition ready :: "escaper \<Rightarrow> string \<Rightarrow> bool" where
  "ready e w \<longleftrightarrow> esc_state e = 0 \<and> length (string_buffer e) \<le> 499 \<and> esc_out e @ string_buffer e = w"

lemma ready_flush:
  "put extra cs e = Inr e1 \<Longrightarrow> esc_state e = 0 \<Longrightarrow> ready (mark_accept (flush e1)) (esc_out e @ string_buffer e @ cs)"
  by (auto simp: put_def ready_def mark_accept_def flush_def split: if_splits)

lemma and_1023: "x AND (0x3FF :: int) = x mod 1024"
proof -
  have "(0x3FF :: int) = mask 10" by (simp add: mask_eq_exp_minus_1)
  then show ?thesis by (simp only: take_bit_eq_mask [symmetric] take_bit_eq_mod) simp
qed

lemma find_escape: "List.find (\<lambda>c. escaped (ord c) = Some cp) ''bfnrt'' =
    (if cp = 8 then Some (CHR ''b'') else if cp = 12 then Some (CHR ''f'') else if cp = 10 then Some (CHR ''n'')
     else if cp = 13 then Some (CHR ''r'') else if cp = 9 then Some (CHR ''t'') else None)"
  by (simp add: escaped_def eq_commute)

lemma escaped_char_cases: "escaped_char ea cp =
    (if cp = 8 then [CHR 0x5C, CHR ''b''] else if cp = 12 then [CHR 0x5C, CHR ''f'']
     else if cp = 10 then [CHR 0x5C, CHR ''n''] else if cp = 13 then [CHR 0x5C, CHR ''r'']
     else if cp = 9 then [CHR 0x5C, CHR ''t''] else if cp = 0x22 \<or> cp = 0x5C then [CHR 0x5C, char_of cp]
     else if cp \<le> 0x1F \<or> ea \<and> 0x7F \<le> cp then
       (if cp < 0x10000 then hex4 cp else hex4 (0xD7C0 + cp div 1024) @ hex4 (0xDC00 + cp mod 1024))
     else utf8_char cp)"
  unfolding escaped_char_def find_escape by simp

lemma length_hex4 [simp]: "length (hex4 n) = 6"
  by (simp add: hex4_def)

lemma quote_chars: "char_of (34 :: int) = CHR 0x22" "char_of (92 :: int) = CHR 0x5C"
  by code_simp+

lemma escapes_short:
  "cp \<in> {8, 9, 10, 12, 13, 0x22, 0x5C} \<Longrightarrow>
     escape_codepoint ea cp c e = put 0 (escaped_char ea cp) e \<and> length (escaped_char ea cp) = 2"
  by (elim insertE emptyE; simp add: escape_codepoint_def escaped_char_cases quote_chars)

text \<open>The bytes of a character that are written when its last byte is accepted.\<close>

lemma accept_writes:
  assumes "scalar cp" and "codepoint e = cp" and "length (string_buffer e) \<le> 499 + (if ea then 0 else length (utf8_char cp) - 1)"
  shows "\<exists>extra cs e1. escape_codepoint ea cp (last (utf8_char cp)) e = Inr e1 \<and> put extra cs e = Inr e1 \<and>
    (if ea then [] else butlast (utf8_char cp)) @ cs = escaped_char ea cp"
proof -
  have cp: "0 \<le> cp" "cp \<le> 0x10FFFF" using assms(1) by (auto simp: scalar_def)
  have len: "length (utf8_char cp) \<le> 4" "utf8_char cp \<noteq> []" by (simp_all add: utf8_char_def utf8_codes_def)
  have single: "utf8_char cp = [char_of cp]" if "cp < 0x80" using that cp by (simp add: plus_ascii)
  have one: ?thesis if "escape_codepoint ea cp (last (utf8_char cp)) e = put extra cs e"
    "length cs + extra \<le> 13 - (if ea then 0 else length (utf8_char cp) - 1)"
    "(if ea then [] else butlast (utf8_char cp)) @ cs = escaped_char ea cp" for extra cs
  proof -
    have "\<exists>e1. put extra cs e = Inr e1" using that(2) assms(3) len(1) by (auto simp: put_def split: if_splits)
    then show ?thesis using that by metis
  qed
  show ?thesis
  proof (cases "cp < 0x80 \<and> \<not> (0x7F = cp \<and> ea)")
    case True
    then have s: "utf8_char cp = [char_of cp]" using single by simp
    consider "cp \<in> {8, 9, 10, 12, 13, 0x22, 0x5C}" | "cp \<notin> {8, 9, 10, 12, 13, 0x22, 0x5C}" "cp \<le> 0x1F" 
      | "cp \<notin> {8, 9, 10, 12, 13, 0x22, 0x5C}" "0x1F < cp" by force
    then show ?thesis
    proof cases
      case 1
      show ?thesis using escapes_short [OF 1, of ea "char_of cp" e]
        by (intro one [of 0 "escaped_char ea cp"]) (simp_all add: s)
    next
      case 2
      then show ?thesis
        by (intro one [of 1 "hex4 cp"]) (auto simp: s escape_codepoint_def escaped_char_cases)
    next
      case 3
      then show ?thesis using True
        by (intro one [of 0 "[char_of cp]"]) (auto simp: s escape_codepoint_def escaped_char_cases)
    qed
  next
    case False
    then have big: "0x7F \<le> cp" "\<not> ea \<Longrightarrow> 0x80 \<le> cp" by auto
    show ?thesis
    proof (cases ea)
      case ea: False
      have "butlast (utf8_char cp) @ [last (utf8_char cp)] = utf8_char cp" using len(2) by simp
      then show ?thesis using big len(1) ea
        by (intro one [of 0 "[last (utf8_char cp)]"]) (auto simp: escape_codepoint_def escaped_char_cases)
    next
      case ea: True
      show ?thesis
      proof (cases "cp < 0x10000")
        case True
        then show ?thesis using big ea
          by (intro one [of 1 "hex4 cp"]) (auto simp: escape_codepoint_def escaped_char_cases)
      next
        case False
        have "take_bit 16 (0xD7C0 + drop_bit 10 cp) = 0xD7C0 + cp div 1024"
          using cp by (simp add: drop_bit_eq_div take_bit_int_eq_self)
        moreover have "take_bit 16 (0xDC00 + (cp AND 0x3FF)) = 0xDC00 + cp mod 1024"
          by (simp add: and_1023 take_bit_int_eq_self)
        ultimately show ?thesis using big ea False
          by (intro one [of 1 "hex4 (0xD7C0 + cp div 1024) @ hex4 (0xDC00 + cp mod 1024)"])
             (simp_all add: escape_codepoint_def escaped_char_cases)
      qed
    qed
  qed
qed

lemma char_loop:
  assumes "scalar cp" and "ready e w"
  shows "\<exists>e2. ready e2 (w @ escaped_char ea cp) \<and>
    escape_loop h ea i (utf8_char cp @ cs) e = escape_loop h ea (i + length (utf8_char cp)) cs e2"
proof -
  have "\<forall>b \<in> set (utf8_codes cp). 0 \<le> b \<and> b < 256" using assms(1) by (auto simp: utf8_codes_def scalar_def)
  then have codes: "map ord (utf8_char cp) = utf8_codes cp" by (simp add: utf8_char_def map_idI)
  have len: "length (utf8_char cp) \<le> 4" by (simp add: utf8_char_def utf8_codes_def)
  have e: "esc_state e = 0" "length (string_buffer e) \<le> 499" "esc_out e @ string_buffer e = w"
    using assms(2) by (simp_all add: ready_def)
  have "decodes (esc_state e) (codepoint e) (map ord (utf8_char cp)) cp"
    "length (string_buffer e) + length (utf8_char cp) \<le> 512"
    using scalar_decodes [OF assms(1)] e len by (simp_all add: codes)
  from loop_decodes [OF this, of ea h i cs]
  obtain e1 where e1: "esc_state e1 = 0" "codepoint e1 = cp" "esc_out e1 = esc_out e"
      "string_buffer e1 = string_buffer e @ (if ea then [] else butlast (utf8_char cp))"
      "escape_loop h ea i (utf8_char cp @ cs) e = (case accept_byte ea (last (utf8_char cp)) e1 of
         Inl err \<Rightarrow> Inl err | Inr e2 \<Rightarrow> escape_loop h ea (i + length (utf8_char cp)) cs e2)"
    by blast
  have "length (string_buffer e1) \<le> 499 + (if ea then 0 else length (utf8_char cp) - 1)" using e(2) by (simp add: e1(4))
  from accept_writes [OF assms(1) e1(2) this]
  obtain extra t e3 where e3: "escape_codepoint ea cp (last (utf8_char cp)) e1 = Inr e3" "put extra t e1 = Inr e3"
      "(if ea then [] else butlast (utf8_char cp)) @ t = escaped_char ea cp"
    by blast
  have "accept_byte ea (last (utf8_char cp)) e1 = Inr (mark_accept (flush e3))"
    using e3(1) by (simp add: accept_byte_def e1(2))
  moreover have "ready (mark_accept (flush e3)) (w @ escaped_char ea cp)"
    using ready_flush [OF e3(2) e1(1)] by (simp add: e1(3,4) e(3) [symmetric] e3(3) [symmetric])
  ultimately show ?thesis using e1(5) by auto
qed

lemma string_loop:
  "\<forall>cp \<in> set cps. scalar cp \<Longrightarrow> ready e w \<Longrightarrow>
   \<exists>e2. ready e2 (w @ concat (map (escaped_char ea) cps)) \<and>
     escape_loop h ea i (concat (map utf8_char cps)) e = Inr e2"
proof (induction cps arbitrary: e w i)
  case (Cons cp cps)
  obtain e1 where "ready e1 (w @ escaped_char ea cp)"
      "escape_loop h ea i (utf8_char cp @ concat (map utf8_char cps)) e =
         escape_loop h ea (i + length (utf8_char cp)) (concat (map utf8_char cps)) e1"
    using char_loop [of cp e w ea h i "concat (map utf8_char cps)"] Cons.prems by auto
  then show ?case using Cons.IH [of e1 "w @ escaped_char ea cp" "i + length (utf8_char cp)"] Cons.prems(1) by auto
qed auto

text \<open>A valid string is written as a string of the grammar, within the buffer, whatever the handler.\<close>

lemma dump_escaped_text:
  assumes "utf8 s"
  shows "\<exists>t. dump_escaped h ea s = Inr t \<and> string_text s t"
proof -
  obtain cps where cps: "\<forall>cp \<in> set cps. scalar cp" "s = concat (map utf8_char cps)"
    using assms by (auto simp: utf8_def)
  have "string_text (concat (map utf8_char cps)) (concat (map (escaped_char ea) cps))"
    using cps(1) by (induction cps) (auto intro: string_text.intros escaped_char_text)
  moreover have "ready escaper_init []" by (simp add: ready_def escaper_init_def)
  then obtain e2 where "ready e2 (concat (map (escaped_char ea) cps))" "escape_loop h ea 0 s escaper_init = Inr e2"
    using string_loop [OF cps(1), of escaper_init "[]" ea h 0] by (auto simp: cps(2))
  then have "dump_escaped h ea s = Inr (concat (map (escaped_char ea) cps))"
    by (simp add: dump_escaped_def escape_finish_def ready_def)
  ultimately show ?thesis using cps(2) by blast
qed

end
