(* ===== verification/Json_Roundtrip.thy ===== *)
theory Json_Roundtrip
  imports Json_Complete Json_Escape
begin

text \<open>
  What \<open>dump\<close> writes, \<open>parse\<close> reads back: \<open>dump_integer\<close> writes the decimal digits, strings are
  escaped as the grammar says, and every layout, compact or indented, is a text of the grammar.
\<close>

section \<open>Integers\<close>

lemma dec_nat_pair: "100 \<le> n \<Longrightarrow> dec_nat n = dec_nat (n div 100) @ [digit_char (n div 10 mod 10), digit_char (n mod 10)]"
  by (subst dec_nat.simps, subst dec_nat.simps) (simp add: div_mult2_eq [symmetric])

lemma dec_nat_small: "n < 10 \<Longrightarrow> dec_nat n = [digit_char n]"
  by (subst dec_nat.simps) simp

lemma dec_nat_two: "10 \<le> n \<Longrightarrow> n < 100 \<Longrightarrow> dec_nat n = [digit_char (n div 10), digit_char (n mod 10)]"
  by (subst dec_nat.simps, subst dec_nat.simps) simp

lemma digit_char_int: "0 \<le> x \<Longrightarrow> char_of (48 + x) = digit_char (nat x)"
proof -
  assume "0 \<le> x"
  then have "ord (char_of (48 + x) :: char) = ord (digit_char (nat x))"
    by (simp add: digit_char_def ord_nat [of "char_of (48 + nat x)"] zmod_int)
  then show ?thesis by (rule of_char_eqI)
qed

lemma digits_pair:
  assumes "0 \<le> x"
  shows "digits_to_99 (x mod 100) = [digit_char (nat x div 10 mod 10), digit_char (nat x mod 10)]"
proof -
  have "x mod 100 = 10 * (x div 10 mod 10) + x mod 10" using zmod_zmult2_eq [of 10 x 10] by simp
  then have "x mod 100 div 10 = x div 10 mod 10" "x mod 100 mod 10 = x mod 10" by simp_all
  then have 1: "digits_to_99 (x mod 100) = [char_of (48 + x div 10 mod 10), char_of (48 + x mod 10)]"
    by (simp only: digits_to_99_def)
  have "nat (x div 10 mod 10) = nat x div 10 mod 10" "nat (x mod 10) = nat x mod 10"
    using assms by (simp_all add: nat_mod_distrib nat_div_distrib)
  then show ?thesis using digit_char_int [of "x div 10 mod 10"] digit_char_int [of "x mod 10"]
    unfolding 1 by simp
qed

lemma count_digits_dec: "0 \<le> x \<Longrightarrow> count_digits x = length (dec_nat (nat x))"
proof (induction x rule: count_digits.induct)
  case (1 x)
  have l: "10 \<le> n \<Longrightarrow> length (dec_nat n) = Suc (length (dec_nat (n div 10)))" for n
    by (subst dec_nat.simps) simp
  have d: "nat x div 10 div 10 div 10 div 10 = nat (x div 10000)"
    using 1(2) by (simp add: div_mult2_eq [symmetric] nat_div_distrib)
  show ?case
  proof (cases "x < 10000")
    case True
    then show ?thesis using 1(2) l [of "nat x"] l [of "nat x div 10"] l [of "nat x div 10 div 10"]
      by (subst count_digits.simps) (auto simp: dec_nat_small)
  next
    case False
    then have "10 \<le> nat x" "10 \<le> nat x div 10" "10 \<le> nat x div 10 div 10" "10 \<le> nat x div 10 div 10 div 10"
      by (simp_all add: div_mult2_eq [symmetric])
    then have "length (dec_nat (nat x)) = 4 + length (dec_nat (nat (x div 10000)))"
      using l [of "nat x"] l [of "nat x div 10"] l [of "nat x div 10 div 10"]
        l [of "nat x div 10 div 10 div 10"] d by simp
    moreover have "count_digits (x div 10000) = length (dec_nat (nat (x div 10000)))"
      using 1 False by simp
    ultimately show ?thesis using False by (subst count_digits.simps) simp
  qed
qed

lemma write_back_in:
  "length cs \<le> p \<Longrightarrow> p \<le> length buf \<Longrightarrow>
     write_back buf p cs = Inr (take (p - length cs) buf @ cs @ drop p buf, p - length cs)"
  by (simp add: write_back_def)

lemma write_pairs_dec:
  "0 \<le> x \<Longrightarrow> length (dec_nat (nat x)) \<le> p \<Longrightarrow> p \<le> length buf \<Longrightarrow>
     \<exists>y ds. 0 \<le> y \<and> y < 100 \<and> dec_nat (nat x) = dec_nat (nat y) @ ds \<and>
       write_pairs buf p x = Inr (take (p - length ds) buf @ ds @ drop p buf, p - length ds, y)"
proof (induction buf p x rule: write_pairs.induct)
  case (1 buf p x)
  show ?case
  proof (cases "100 \<le> x")
    case False
    then show ?thesis using 1(2-4)
      by (intro exI [of _ x] exI [of _ "[]"]) (subst write_pairs.simps, simp)
  next
    case True
    let ?cs = "digits_to_99 (x mod 100)"
    have cs: "?cs = [digit_char (nat x div 10 mod 10), digit_char (nat x mod 10)]"
      using digits_pair 1(2) by simp
    have dec: "dec_nat (nat x) = dec_nat (nat (x div 100)) @ ?cs"
      using dec_nat_pair [of "nat x"] True by (simp add: cs nat_div_distrib)
    have p: "2 \<le> p" "length (dec_nat (nat (x div 100))) \<le> p - 2" using 1(3) dec cs by auto
    let ?buf = "take (p - 2) buf @ ?cs @ drop p buf"
    have w: "write_back buf p ?cs = Inr (?buf, p - 2)" using write_back_in [of ?cs p buf] p(1) 1(4) cs by (simp add: numeral_2_eq_2)
    have pre: "0 \<le> x div 100" "p - 2 \<le> length ?buf" using 1(2,4) p(1) by simp_all
    obtain y ds where y: "0 \<le> y" "y < 100" "dec_nat (nat (x div 100)) = dec_nat (nat y) @ ds"
      "write_pairs ?buf (p - 2) (x div 100) = Inr (take (p - 2 - length ds) ?buf @ ds @ drop (p - 2) ?buf, p - 2 - length ds, y)"
      using 1(1) [OF True w refl pre(1) p(2) pre(2)] by blast
    have "take (p - 2 - length ds) ?buf @ ds @ drop (p - 2) ?buf = take (p - length (ds @ ?cs)) buf @ (ds @ ?cs) @ drop p buf"
      using p(1) 1(4) cs by (simp add: min_def)
    moreover have "p - 2 - length ds = p - length (ds @ ?cs)" using cs by simp
    ultimately have "write_pairs buf p x = Inr (take (p - length (ds @ ?cs)) buf @ (ds @ ?cs) @ drop p buf, p - length (ds @ ?cs), y)"
      using True w y(4) by (subst write_pairs.simps) (simp only: if_True sum.case prod.case)
    then show ?thesis using y(1-3) dec by (intro exI [of _ y] exI [of _ "ds @ ?cs"]) simp
  qed
qed

lemma digit_char_0: "digit_char 0 = CHR ''0''"
  by code_simp

lemma length_dec_nat: "n < 10 ^ Suc k \<Longrightarrow> length (dec_nat n) \<le> Suc k"
proof (induction k arbitrary: n)
  case 0
  then show ?case by (simp add: dec_nat_small)
next
  case (Suc k)
  show ?case
  proof (cases "n < 10")
    case False
    have "n div 10 < 10 ^ Suc k" using Suc.prems by (simp add: div_less_iff_less_mult)
    then show ?thesis using Suc.IH [of "n div 10"] False by (subst dec_nat.simps) simp
  qed (simp add: dec_nat_small)
qed

lemma dump_integer_dec:
  assumes "in64 x \<or> inu64 x"
  shows "dump_integer x = Inr (dec_int x)"
proof (cases "x = 0")
  case True
  then show ?thesis by (simp add: dump_integer_def dec_int_def dec_nat_small digit_char_0)
next
  case False
  define v where "v = \<bar>x\<bar>"
  define sg where "sg = (if x < 0 then 1 else 0 :: nat)"
  define buf0 where "buf0 = (if x < 0 then (replicate 64 (CHR 0x00))[0 := CHR ''-''] else replicate 64 (CHR 0x00))"
  let ?ds = "dec_nat (nat v)" and ?cs = "\<lambda>y. if 10 \<le> y then digits_to_99 y else [char_of (48 + y)]"
  have v: "0 < v" "nat v < 10 ^ Suc 19" using False assms by (auto simp: v_def in64_def inu64_def)
  have len: "length ?ds \<le> 20" using length_dec_nat [OF v(2)] by simp
  define p where "p = sg + length ?ds"
  have np: "(if x < 0 then 1 else 0) + count_digits v = p" using v by (simp add: count_digits_dec p_def sg_def)
  have ab: "(if x < 0 then remove_sign x else x) = v" by (simp add: remove_sign_def v_def)
  have b: "length buf0 = 64" "p \<le> 64" "length ?ds \<le> p" "p < 63"
    using len by (auto simp: buf0_def p_def sg_def)
  obtain y ds where y: "0 \<le> y" "y < 100" "?ds = dec_nat (nat y) @ ds"
    "write_pairs buf0 p v = Inr (take (p - length ds) buf0 @ ds @ drop p buf0, p - length ds, y)"
    using write_pairs_dec [of v p buf0] v(1) b by auto
  have cs: "?cs y = dec_nat (nat y)"
    using y(1,2) digits_pair [of y] digit_char_int [of y] by (simp add: dec_nat_two dec_nat_small)
  let ?buf = "take (p - length ds) buf0 @ ds @ drop p buf0"
  have q: "p - length ds - length (dec_nat (nat y)) = sg" "length (dec_nat (nat y)) \<le> p - length ds"
    "p - length ds \<le> 64" "length ds \<le> p"
    using y(3) b by (simp_all add: p_def)
  have "sg \<le> p - length ds" using q(1) by linarith
  then have "write_back ?buf (p - length ds) (?cs y) = Inr (take sg buf0 @ dec_nat (nat y) @ ds @ drop p buf0, sg)"
    unfolding cs using write_back_in [of "dec_nat (nat y)" "p - length ds" ?buf] q b(1) by (simp add: min_def)
  then have "dump_integer x = Inr (take p (take sg buf0 @ dec_nat (nat y) @ ds @ drop p buf0))"
    unfolding dump_integer_def Let_def ab np buf0_def [symmetric]
    using False y(4) b(4) by simp
  also have "take p (take sg buf0 @ dec_nat (nat y) @ ds @ drop p buf0) = take sg buf0 @ ?ds"
    using y(3) b(1) by (simp add: p_def sg_def)
  also have "take sg buf0 = (if x < 0 then ''-'' else [])" by (cases "replicate 64 (CHR 0x00)") (simp_all add: sg_def buf0_def)
  finally show ?thesis using v by (simp add: dec_int_def v_def)
qed

section \<open>Layouts\<close>

text \<open>The value that a text stands for: the parser makes an unsigned number of every number without sign.\<close>

fun parsed :: "json \<Rightarrow> json" where
  "parsed (JInteger i) = (if i < 0 then JInteger i else JUnsigned i)"
| "parsed (JArray a) = JArray (map parsed a)"
| "parsed (JObject m) = JObject (map (\<lambda>(k, v). (k, parsed v)) m)"
| "parsed v = v"

fun no_floats :: "json \<Rightarrow> bool" where
  "no_floats (JFloat d) = False"
| "no_floats (JArray a) = (\<forall>x \<in> set a. no_floats x)"
| "no_floats (JObject m) = (\<forall>p \<in> set m. no_floats (snd p))"
| "no_floats v = True"

text \<open>From \<open>s\<close> to \<open>s'\<close> the text \<open>t\<close> is written, and the indentation string, which is blank, does not shrink.\<close>

definition wrote :: "serializer \<Rightarrow> string \<Rightarrow> serializer \<Rightarrow> bool" where
  "wrote s t s' \<longleftrightarrow> out s' = out s @ t \<and> blank_text (indent_string s') \<and>
     length (indent_string s) \<le> length (indent_string s')"

lemma wrote_trans: "wrote s t s1 \<Longrightarrow> wrote s1 t' s2 \<Longrightarrow> wrote s (t @ t') s2"
  by (auto simp: wrote_def)

lemma wrote_emit: "blank_text (indent_string s) \<Longrightarrow> wrote s t (emit t s)"
  by (simp add: wrote_def emit_def)

text \<open>
  The room for indentation: the current one is inside the string, and the next one is after the string
  was doubled. That is so for every depth if it is so at the first.
\<close>

definition room :: "dump_options \<Rightarrow> nat \<Rightarrow> serializer \<Rightarrow> bool" where
  "room opt ind s \<longleftrightarrow> blank_text (indent_string s) \<and> ind \<le> length (indent_string s) \<and>
     ind + indent_step opt \<le> 2 * length (indent_string s) \<and> indent_step opt \<le> 1024"

lemma room_wrote: "room opt ind s \<Longrightarrow> wrote s t s' \<Longrightarrow> room opt ind s'"
  by (auto simp: room_def wrote_def)

lemma emit_indent_room: "n \<le> length (indent_string s) \<Longrightarrow> blank_text (indent_string s) \<Longrightarrow>
    \<exists>t. emit_indent n s = Inr (emit t s) \<and> blank_text t"
  by (auto simp: emit_indent_def blank_text_def dest: in_set_takeD)

lemma before_element_text:
  assumes "room opt ind s"
  shows "\<exists>t s1. before_element opt ind s = Inr s1 \<and> wrote s t s1 \<and> blank_text t"
proof (cases "pretty_print opt")
  case True
  obtain t where "emit_indent ind s = Inr (emit t s)" "blank_text t"
    using emit_indent_room [of ind s] assms by (auto simp: room_def)
  then show ?thesis using True wrote_emit [of s t] assms by (auto simp: before_element_def room_def)
next
  case False
  then show ?thesis using assms by (auto simp: before_element_def room_def wrote_def intro: exI [of _ "[]"])
qed

lemma close_container_text:
  assumes "room opt ind s"
  shows "\<exists>w s1. close_container opt ind c s = Inr s1 \<and> wrote s (w @ [c]) s1 \<and> blank_text w"
proof (cases "pretty_print opt")
  case True
  obtain t where t: "emit_indent ind (emit [CHR 0x0A] s) = Inr (emit t (emit [CHR 0x0A] s))" "blank_text t"
    using emit_indent_room [of ind "emit [CHR 0x0A] s"] assms by (auto simp: room_def emit_def)
  have "wrote s ((CHR 0x0A # t) @ [c]) (emit [c] (emit t (emit [CHR 0x0A] s)))"
    using assms by (simp add: wrote_def emit_def room_def)
  moreover have "blank_text (CHR 0x0A # t)" using t(2) by (simp add: blank_text_def is_ws_def)
  ultimately show ?thesis using True t(1) by (auto simp: close_container_def intro!: exI [of _ "CHR 0x0A # t"])
next
  case False
  then show ?thesis using assms by (auto simp: close_container_def wrote_def emit_def room_def intro!: exI [of _ "[]"])
qed

lemma open_container_text:
  assumes "room opt ind s"
  shows "\<exists>w. wrote s (c # w) (open_container opt c (next_indent opt ind) s) \<and> blank_text w \<and>
    room opt (next_indent opt ind) (open_container opt c (next_indent opt ind) s)"
proof (cases "pretty_print opt")
  case True
  have n: "next_indent opt ind \<le> ind + indent_step opt"
    using True zmod_le_nonneg_dividend [of "int ind + int (indent_step opt)" 4294967296]
    by (simp add: next_indent_def nat_le_iff)
  let ?L = "length (indent_string s)"
  have r: "ind \<le> ?L" "ind + indent_step opt \<le> 2 * ?L" "indent_step opt \<le> 1024"
    using assms by (simp_all add: room_def)
  have fits: "next_indent opt ind + indent_step opt \<le> 2 * ?L" if "next_indent opt ind \<le> ?L"
  proof (cases "ind + indent_step opt < 4294967296")
    case True
    then have "next_indent opt ind = ind + indent_step opt"
      using \<open>pretty_print opt\<close> by (simp add: next_indent_def)
    then show ?thesis using that by linarith
  qed (use that r in linarith)
  have "blank_text [CHR 0x0A]" "\<forall>k. blank_text (replicate k (CHR '' ''))" by (auto simp: blank_text_def is_ws_def)
  then show ?thesis using True n r fits assms
    by (intro exI [of _ "[CHR 0x0A]"])
       (auto simp: open_container_def wrote_def room_def emit_def grow_indent_def blank_text_def)
next
  case False
  then show ?thesis using assms
    by (intro exI [of _ "[]"]) (simp add: open_container_def wrote_def room_def emit_def next_indent_def)
qed

lemma separator_text: "\<exists>w. separator opt = CHR '','' # w \<and> blank_text w"
  by (auto simp: separator_def blank_text_def is_ws_def)

lemma blank_append [simp]: "blank_text (v @ w) \<longleftrightarrow> blank_text v \<and> blank_text w"
  by (auto simp: blank_text_def)

lemma emit_escaped_text:
  assumes "utf8 t" and "blank_text (indent_string s)"
  shows "\<exists>u s1. emit_escaped opt t s = Inr s1 \<and> wrote s u s1 \<and> string_text t u"
proof -
  obtain u where "dump_escaped (on_error opt) (ensure_ascii opt) t = Inr u" "string_text t u"
    using dump_escaped_text [OF assms(1)] by blast
  then show ?thesis using wrote_emit [OF assms(2), of u] by (auto simp: emit_escaped_def)
qed

lemma emit_key_text:
  assumes "utf8 k" and "blank_text (indent_string s)"
  shows "\<exists>u w s1. emit_key opt k s = Inr s1 \<and> wrote s (quoted u @ CHR '':'' # w) s1 \<and> string_text k u \<and> blank_text w"
proof -
  obtain u s1 where s1: "emit_escaped opt k (emit [CHR 0x22] s) = Inr s1" "wrote (emit [CHR 0x22] s) u s1" "string_text k u"
    using emit_escaped_text [OF assms(1), of "emit [CHR 0x22] s" opt] assms(2) by (auto simp: emit_def)
  let ?w = "if pretty_print opt then [CHR '' ''] else []"
  have "wrote s (quoted u @ CHR '':'' # ?w) (emit (if pretty_print opt then [CHR 0x22, CHR '':'', CHR '' ''] else [CHR 0x22, CHR '':'']) s1)"
    using s1(2) assms(2) by (auto simp: wrote_def emit_def)
  moreover have "blank_text ?w" by (simp add: blank_text_def is_ws_def)
  ultimately show ?thesis using s1 unfolding emit_key_def by (metis mapE.simps(2))
qed

section \<open>Every layout is a text of the grammar\<close>

lemma numbers_text:
  "in64 i \<Longrightarrow> i < 0 \<Longrightarrow> value_text (JInteger i) (dec_int i)"
  "in64 i \<Longrightarrow> \<not> i < 0 \<Longrightarrow> value_text (JUnsigned i) (dec_int i)"
  "inu64 i \<Longrightarrow> value_text (JUnsigned i) (dec_int i)"
  by (auto simp: in64_def inu64_def intro: integer_text unsigned_text)

abbreviation parsed_members :: "(string \<times> json) list \<Rightarrow> (string \<times> json) list" where
  "parsed_members m \<equiv> map (\<lambda>(k, v). (k, parsed v)) m"

lemma object_of_parsed: "sorted_keys m \<Longrightarrow> object_of (parsed_members m) [] = parsed_members m"
proof -
  have "map fst (parsed_members m) = map fst m" by (induction m) auto
  then show "sorted_keys m \<Longrightarrow> ?thesis" using object_of_sorted [of "[]" "parsed_members m"]
    by (simp only: append_Nil)
qed

text \<open>
  What the three functions write. The text of the members and elements leaves open the white space
  around them, since the line break before the first and after the last is written by the container.
\<close>

definition writes_value :: "dump_options \<Rightarrow> nat \<Rightarrow> json \<Rightarrow> serializer \<Rightarrow> bool" where
  "writes_value opt ind j s \<longleftrightarrow>
     (\<exists>t s'. dump_value opt ind j s = Inr s' \<and> wrote s t s' \<and> value_text (parsed j) t)"

definition writes_members :: "dump_options \<Rightarrow> nat \<Rightarrow> (string \<times> json) list \<Rightarrow> serializer \<Rightarrow> bool" where
  "writes_members opt ind m s \<longleftrightarrow>
     (\<exists>t s'. dump_members opt ind m s = Inr s' \<and> wrote s t s' \<and>
       (\<forall>w w'. blank_text w \<longrightarrow> blank_text w' \<longrightarrow> members_text (parsed_members m) (w @ t @ w')))"

definition writes_elements :: "dump_options \<Rightarrow> nat \<Rightarrow> json list \<Rightarrow> serializer \<Rightarrow> bool" where
  "writes_elements opt ind a s \<longleftrightarrow>
     (\<exists>t s'. dump_elements opt ind a s = Inr s' \<and> wrote s t s' \<and>
       (\<forall>w w'. blank_text w \<longrightarrow> blank_text w' \<longrightarrow> elements_text (map parsed a) (w @ t @ w')))"

lemma writes_primitive:
  "room opt ind s \<Longrightarrow> dump_value opt ind j s = Inr (emit t s) \<Longrightarrow> value_text (parsed j) t \<Longrightarrow>
     writes_value opt ind j s"
  unfolding writes_value_def room_def using wrote_emit by blast

lemma writes_string:
  assumes "room opt ind s" "utf8 t"
  shows "writes_value opt ind (JString t) s"
proof -
  have b: "blank_text (indent_string s)" using assms(1) by (simp add: room_def)
  obtain u s1 where u: "emit_escaped opt t (emit [CHR 0x22] s) = Inr s1" "wrote (emit [CHR 0x22] s) u s1" "string_text t u"
    using emit_escaped_text [of t "emit [CHR 0x22] s" opt] assms(2) b by (auto simp: emit_def)
  have "wrote s (quoted u) (emit [CHR 0x22] s1)" using u(2) b by (simp add: wrote_def emit_def)
  then show ?thesis using u text_intros(5) by (auto simp: writes_value_def)
qed

text \<open>The brackets around the text of a container.\<close>

lemma writes_brackets:
  assumes "room opt ind s" and "wrote s (c # w) s0" and "wrote s0 t s1"
  shows "\<exists>w' s2. close_container opt ind c' s1 = Inr s2 \<and> wrote s (c # (w @ t @ w') @ [c']) s2 \<and> blank_text w'"
proof -
  have s1: "wrote s ((c # w) @ t) s1" using wrote_trans [OF assms(2,3)] .
  obtain w' s2 where "close_container opt ind c' s1 = Inr s2" "wrote s1 (w' @ [c']) s2" "blank_text w'"
    using close_container_text [OF room_wrote [OF assms(1) s1]] by blast
  then show ?thesis using wrote_trans [OF s1] by fastforce
qed

lemma writes_object:
  assumes "room opt ind s" "m \<noteq> []" "sorted_keys m"
    and "writes_members opt (next_indent opt ind) m (open_container opt CHR ''{'' (next_indent opt ind) s)"
  shows "writes_value opt ind (JObject m) s"
proof -
  let ?s0 = "open_container opt CHR ''{'' (next_indent opt ind) s"
  obtain w where w: "wrote s (CHR ''{'' # w) ?s0" "blank_text w"
    using open_container_text [OF assms(1)] by blast
  obtain t s1 where t: "dump_members opt (next_indent opt ind) m ?s0 = Inr s1" "wrote ?s0 t s1"
      "\<And>w w'. blank_text w \<Longrightarrow> blank_text w' \<Longrightarrow> members_text (parsed_members m) (w @ t @ w')"
    using assms(4) by (auto simp: writes_members_def)
  obtain w' s2 where s2: "close_container opt ind CHR ''}'' s1 = Inr s2" "wrote s (CHR ''{'' # (w @ t @ w') @ ''}'') s2" "blank_text w'"
    using writes_brackets [OF assms(1) w(1) t(2)] by blast
  have "value_text (parsed (JObject m)) (CHR ''{'' # (w @ t @ w') @ ''}'')"
    using text_intros(9) [OF t(3) [OF w(2) s2(3)]] object_of_parsed [OF assms(3)] by simp
  then show ?thesis using assms(2) t(1) s2(1,2) by (auto simp: writes_value_def)
qed

lemma writes_array:
  assumes "room opt ind s" "a \<noteq> []"
    and "writes_elements opt (next_indent opt ind) a (open_container opt CHR ''['' (next_indent opt ind) s)"
  shows "writes_value opt ind (JArray a) s"
proof -
  let ?s0 = "open_container opt CHR ''['' (next_indent opt ind) s"
  obtain w where w: "wrote s (CHR ''['' # w) ?s0" "blank_text w"
    using open_container_text [OF assms(1)] by blast
  obtain t s1 where t: "dump_elements opt (next_indent opt ind) a ?s0 = Inr s1" "wrote ?s0 t s1"
      "\<And>w w'. blank_text w \<Longrightarrow> blank_text w' \<Longrightarrow> elements_text (map parsed a) (w @ t @ w')"
    using assms(3) by (auto simp: writes_elements_def)
  obtain w' s2 where s2: "close_container opt ind CHR '']'' s1 = Inr s2" "wrote s (CHR ''['' # (w @ t @ w') @ '']'') s2" "blank_text w'"
    using writes_brackets [OF assms(1) w(1) t(2)] by blast
  have "value_text (parsed (JArray a)) (CHR ''['' # (w @ t @ w') @ '']'')"
    using text_intros(7) [OF t(3) [OF w(2) s2(3)]] by simp
  then show ?thesis using assms(2) t(1) s2(1,2) by (auto simp: writes_value_def)
qed

text \<open>The members and elements.\<close>

lemma member_text:
  assumes "room opt ind s" "utf8 k"
    and ih: "\<forall>s1 s2. before_element opt ind s = Inr s1 \<longrightarrow> emit_key opt k s1 = Inr s2 \<longrightarrow>
      room opt ind s2 \<longrightarrow> writes_value opt ind v s2"
  shows "\<exists>s1 s2 s3 w u w2 t. before_element opt ind s = Inr s1 \<and> emit_key opt k s1 = Inr s2 \<and> dump_value opt ind v s2 = Inr s3 \<and>
    wrote s (w @ quoted u @ CHR '':'' # w2 @ t) s3 \<and> blank_text w \<and> string_text k u \<and> blank_text w2 \<and> value_text (parsed v) t"
proof -
  obtain w s1 where s1: "before_element opt ind s = Inr s1" "wrote s w s1" "blank_text w"
    using before_element_text [OF assms(1)] by blast
  have r1: "room opt ind s1" using room_wrote [OF assms(1) s1(2)] .
  obtain u w2 s2 where s2: "emit_key opt k s1 = Inr s2" "wrote s1 (quoted u @ CHR '':'' # w2) s2" "string_text k u" "blank_text w2"
    using emit_key_text [of k s1 opt] assms(2) r1 by (auto simp: room_def)
  obtain t s3 where s3: "dump_value opt ind v s2 = Inr s3" "wrote s2 t s3" "value_text (parsed v) t"
    using ih [rule_format, OF s1(1) s2(1) room_wrote [OF r1 s2(2)]] by (auto simp: writes_value_def)
  have "wrote s (w @ quoted u @ CHR '':'' # w2 @ t) s3"
    using wrote_trans [OF wrote_trans [OF s1(2) s2(2)] s3(2)] by simp
  then show ?thesis using s1 s2 s3 by blast
qed

lemma writes_member:
  assumes "room opt ind s" "utf8 k"
    and ih: "\<forall>s1 s2. before_element opt ind s = Inr s1 \<longrightarrow> emit_key opt k s1 = Inr s2 \<longrightarrow>
      room opt ind s2 \<longrightarrow> writes_value opt ind v s2"
    and ihs: "\<And>s1 s2 s3. before_element opt ind s = Inr s1 \<Longrightarrow> emit_key opt k s1 = Inr s2 \<Longrightarrow> dump_value opt ind v s2 = Inr s3 \<Longrightarrow>
      m \<noteq> [] \<Longrightarrow> room opt ind (emit (separator opt) s3) \<Longrightarrow> writes_members opt ind m (emit (separator opt) s3)"
  shows "writes_members opt ind ((k, v) # m) s"
proof -
  obtain s1 s2 s3 w u w2 t where run: "before_element opt ind s = Inr s1" "emit_key opt k s1 = Inr s2" "dump_value opt ind v s2 = Inr s3"
      and head: "wrote s (w @ quoted u @ CHR '':'' # w2 @ t) s3"
      and tx: "blank_text w" "string_text k u" "blank_text w2" "value_text (parsed v) t"
    using member_text [OF assms(1,2) ih] by blast
  show ?thesis
  proof (cases "m = []")
    case True
    have "members_text [(k, parsed v)] (w0 @ (w @ quoted u @ CHR '':'' # w2 @ t) @ w')"
      if "blank_text w0" "blank_text w'" for w0 w'
      using text_intros(12) [of "w0 @ w" k u "[]" w2 "parsed v" t w'] that tx by simp
    then show ?thesis using True run head by (auto simp: writes_members_def)
  next
    case False
    obtain ws where sep: "separator opt = CHR '','' # ws" "blank_text ws" using separator_text by blast
    let ?s4 = "emit (separator opt) s3"
    have r3: "room opt ind s3" using room_wrote [OF assms(1) head] .
    have s4: "wrote s3 (separator opt) ?s4" using r3 wrote_emit by (simp add: room_def)
    obtain t' s5 where t': "dump_members opt ind m ?s4 = Inr s5" "wrote ?s4 t' s5"
        "\<And>w w'. blank_text w \<Longrightarrow> blank_text w' \<Longrightarrow> members_text (parsed_members m) (w @ t' @ w')"
      using ihs [OF run False room_wrote [OF r3 s4]] by (auto simp: writes_members_def)
    have "wrote s ((w @ quoted u @ CHR '':'' # w2 @ t) @ CHR '','' # ws @ t') s5"
      using wrote_trans [OF wrote_trans [OF head s4] t'(2)] by (simp add: sep)
    moreover have "members_text ((k, parsed v) # parsed_members m)
        (w0 @ ((w @ quoted u @ CHR '':'' # w2 @ t) @ CHR '','' # ws @ t') @ w')"
      if "blank_text w0" "blank_text w'" for w0 w'
      using text_intros(13) [of "w0 @ w" k u "[]" w2 "parsed v" t "[]", OF _ _ _ _ _ _ t'(3) [OF sep(2) that(2)]]
        that tx by simp
    ultimately show ?thesis using False run t'(1) by (auto simp: writes_members_def)
  qed
qed

lemma writes_element:
  assumes "room opt ind s"
    and ih: "\<And>s1. before_element opt ind s = Inr s1 \<Longrightarrow> room opt ind s1 \<Longrightarrow> writes_value opt ind v s1"
    and ihs: "\<And>s1 s2. before_element opt ind s = Inr s1 \<Longrightarrow> dump_value opt ind v s1 = Inr s2 \<Longrightarrow>
      a \<noteq> [] \<Longrightarrow> room opt ind (emit (separator opt) s2) \<Longrightarrow> writes_elements opt ind a (emit (separator opt) s2)"
  shows "writes_elements opt ind (v # a) s"
proof -
  obtain w s1 where s1: "before_element opt ind s = Inr s1" "wrote s w s1" "blank_text w"
    using before_element_text [OF assms(1)] by blast
  obtain t s2 where s2: "dump_value opt ind v s1 = Inr s2" "wrote s1 t s2" "value_text (parsed v) t"
    using ih [OF s1(1) room_wrote [OF assms(1) s1(2)]] by (auto simp: writes_value_def)
  have head: "wrote s (w @ t) s2" using wrote_trans [OF s1(2) s2(2)] .
  show ?thesis
  proof (cases "a = []")
    case True
    have "elements_text [parsed v] (w0 @ (w @ t) @ w')" if "blank_text w0" "blank_text w'" for w0 w'
      using text_intros(10) [of "w0 @ w" "parsed v" t w'] that s1(3) s2(3) by simp
    then show ?thesis using True s1(1) s2(1) head by (auto simp: writes_elements_def)
  next
    case False
    obtain ws where sep: "separator opt = CHR '','' # ws" "blank_text ws" using separator_text by blast
    let ?s3 = "emit (separator opt) s2"
    have r2: "room opt ind s2" using room_wrote [OF assms(1) head] .
    have s3: "wrote s2 (separator opt) ?s3" using r2 wrote_emit by (simp add: room_def)
    obtain t' s4 where t': "dump_elements opt ind a ?s3 = Inr s4" "wrote ?s3 t' s4"
        "\<And>w w'. blank_text w \<Longrightarrow> blank_text w' \<Longrightarrow> elements_text (map parsed a) (w @ t' @ w')"
      using ihs [OF s1(1) s2(1) False room_wrote [OF r2 s3]] by (auto simp: writes_elements_def)
    have "wrote s ((w @ t) @ CHR '','' # ws @ t') s4"
      using wrote_trans [OF wrote_trans [OF head s3] t'(2)] by (simp add: sep)
    moreover have "elements_text (parsed v # map parsed a) (w0 @ ((w @ t) @ CHR '','' # ws @ t') @ w')"
      if "blank_text w0" "blank_text w'" for w0 w'
      using text_intros(11) [of "w0 @ w" "parsed v" t "[]", OF _ _ _ t'(3) [OF sep(2) that(2)]]
        that s1(3) s2(3) by simp
    ultimately show ?thesis using False s1(1) s2(1) t'(1) by (auto simp: writes_elements_def)
  qed
qed

lemma dump_text:
  "wf_json j \<Longrightarrow> no_floats j \<Longrightarrow> room opt ind s \<Longrightarrow> writes_value opt ind j s"
  "m \<noteq> [] \<Longrightarrow> \<forall>p \<in> set m. utf8 (fst p) \<and> wf_json (snd p) \<and> no_floats (snd p) \<Longrightarrow> room opt ind s \<Longrightarrow>
     writes_members opt ind m s"
  "a \<noteq> [] \<Longrightarrow> \<forall>x \<in> set a. wf_json x \<and> no_floats x \<Longrightarrow> room opt ind s \<Longrightarrow> writes_elements opt ind a s"
proof (induction opt ind j s and opt ind m s and opt ind a s rule: dump_value_dump_members_dump_elements.induct)
  case (1 opt ind m s)
  show ?case
  proof (cases "m = []")
    case False
    have "room opt (next_indent opt ind) (open_container opt CHR ''{'' (next_indent opt ind) s)"
      using open_container_text [OF 1(4)] by blast
    then show ?thesis using 1(1) [OF False False] 1(2,3) by (intro writes_object [OF 1(4) False]) auto
  qed (use 1(4) text_intros(8) [of "[]"] in \<open>auto intro!: writes_primitive\<close>)
next
  case (2 opt ind a s)
  show ?case
  proof (cases "a = []")
    case False
    have "room opt (next_indent opt ind) (open_container opt CHR ''['' (next_indent opt ind) s)"
      using open_container_text [OF 2(4)] by blast
    then show ?thesis using 2(1) [OF False False] 2(2,3) by (intro writes_array [OF 2(4) False]) auto
  qed (use 2(4) text_intros(6) [of "[]"] in \<open>auto intro!: writes_primitive\<close>)
next
  case (11 opt ind k v m s)
  show ?case by (rule writes_member [OF 11(5)]) (use 11 in auto)
next
  case (13 opt ind v a s)
  show ?case by (rule writes_element [OF 13(5)]) (use 13 in auto)
qed (auto simp: writes_string dump_integer_dec intro: text_intros numbers_text intro!: writes_primitive)

section \<open>The round trip\<close>

lemma parsed_eq: "wf_json j \<Longrightarrow> json_eq (parsed j) j"
proof (induction j)
  case (JFloat d)
  then show ?case by (simp add: double_eq_def double_nan_def isfinite_def)
next
  case (JInteger i)
  then show ?case by (simp add: wrap64_id)
next
  case (JArray a)
  then show ?case by (auto simp: list_all2_map1 intro!: list.rel_refl_strong)
next
  case (JObject m)
  then show ?case by (fastforce simp: list_all2_map1 intro!: list.rel_refl_strong)
qed auto

text \<open>
  The indentation string is doubled once per level, however large the step: with a step of 2000
  the characters of the first element are read behind its end.
\<close>

lemma wide_indent_undefined: "json_dump (JArray [JNull]) 2000 (CHR '' '') ea handler = Inl Undefined"
  by (simp add: json_dump_def next_indent_def open_container_def grow_indent_def emit_def
      before_element_def emit_indent_def)

text \<open>
  C34. What \<open>dump\<close> writes, \<open>parse\<close> reads back: for every value without floating-point numbers (its
  strings valid UTF-8), without indentation or with one of at most 1024 places per level, whose character
  is white space, with and without \<open>ensure_ascii\<close> and for each handler of errors, \<open>dump\<close> succeeds within its
  buffers, and \<open>parse\<close> of its text gives a value that is equal in the sense of \<open>operator==\<close>: the same
  one, with unsigned numbers for the integers that are not negative. (A wider indentation is read beyond
  the indentation string: \<open>wide_indent_undefined\<close>.)
\<close>

theorem dump_parse_roundtrip:
  assumes "wf_json j" and "no_floats j" and "indent \<le> 1024" and "is_ws (ord indent_char)"
  shows "\<exists>t. json_dump j indent indent_char ea handler = Inr t \<and>
    json_parse a t = Inr (parsed j) \<and> json_eq (parsed j) j"
proof -
  let ?opt = "\<lparr> pretty_print = 0 \<le> indent, ensure_ascii = ea, indent_step = nat indent, on_error = handler \<rparr>"
  let ?s = "\<lparr> out = [], indent_string = replicate 512 indent_char \<rparr>"
  have "room ?opt 0 ?s" using assms(3,4) by (simp add: room_def blank_text_def)
  then have "writes_value ?opt 0 j ?s" by (rule dump_text(1) [OF assms(1,2)])
  then obtain t s' where t: "dump_value ?opt 0 j ?s = Inr s'" "wrote ?s t s'" "value_text (parsed j) t"
    by (auto simp: writes_value_def)
  then have "json_dump j indent indent_char ea handler = Inr t" by (simp add: json_dump_def wrote_def)
  moreover have "json_text (parsed j) t" using t(3) unfolding json_text_def by (metis append_Nil append_Nil2 blank_Nil)
  ultimately show ?thesis using json_text_parse parsed_eq [OF assms(1)] by blast
qed

theorem dump_parse_roundtrip_witness:
  "\<exists>t. json_dump ex_value 2 (CHR '' '') True Eh_strict = Inr t \<and> json_parse True t = Inr ex_value"
proof -
  have "utf8 ''id''" "utf8 ''l''" by (rule utf8_ascii; simp)+
  then have "wf_json ex_value" by (simp add: ex_value_def inu64_def in64_def)
  moreover have "no_floats ex_value" "parsed ex_value = ex_value" by (simp_all add: ex_value_def)
  ultimately show ?thesis
    using dump_parse_roundtrip [of ex_value 2 "CHR '' ''" True Eh_strict True] by (auto simp: is_ws_def)
qed

end
