(* ===== verification/Json_Pointer.thy ===== *)
theory Json_Pointer
  imports Json_Accept
begin

text \<open>
  \<open>json_pointer\<close> of the JSON library: splitting and escaping of reference tokens, the walk of a
  pointer through a value, checked, unchecked and creating, and \<open>flatten\<close> with its inverse. A reference
  that is returned is the path of the part it refers to.
\<close>

section \<open>Failures\<close>

text \<open>
  \<open>std::stoi\<close> and the vector have exceptions of their own, which the library passes on where it
  does not catch them.
\<close>

datatype ptr_fail =
    Json_fail json_fail
  | Std_invalid_argument
  | Std_out_of_range
  | Std_length_error

type_synonym 'a pres = "ptr_fail + 'a"

fun of_json :: "'a jres \<Rightarrow> 'a pres" where
  "of_json (Inl f) = Inl (Json_fail f)"
| "of_json (Inr x) = Inr x"

lemma of_json_Inr [res_iff]: "of_json r = Inr x \<longleftrightarrow> r = Inr x"
  by (cases r) auto

abbreviation throws :: "json_exception \<Rightarrow> 'a pres" where
  "throws ex \<equiv> Inl (Json_fail (Throw ex))"

abbreviation in_quotes :: "string \<Rightarrow> string" where
  "in_quotes s \<equiv> CHR 0x27 # s @ [CHR 0x27]"

section \<open>Reference tokens\<close>

text \<open>Every occurrence of \<open>f\<close>, from the left, is replaced; \<open>f\<close> is not empty (an \<open>assert\<close>).\<close>

function replace_substring :: "string \<Rightarrow> string \<Rightarrow> string \<Rightarrow> string" where
  "replace_substring f t s =
     (case s of
        [] \<Rightarrow> []
      | c # cs \<Rightarrow>
          (if f \<noteq> [] \<and> prefix f s then t @ replace_substring f t (drop (length f) s)
           else c # replace_substring f t cs))"
  by auto
termination
  by (relation "measure (\<lambda>(f, t, s). length s)") auto

declare replace_substring.simps [simp del]

definition escape :: "string \<Rightarrow> string" where
  "escape s = replace_substring ''/'' ''~1'' (replace_substring ''~'' ''~0'' s)"

definition unescape :: "string \<Rightarrow> string" where
  "unescape s = replace_substring ''~0'' ''~'' (replace_substring ''~1'' ''/'' s)"

text \<open>The text after the first slash, cut at the others.\<close>

fun cut_slashes :: "string \<Rightarrow> string \<Rightarrow> string list" where
  "cut_slashes cur [] = [cur]"
| "cut_slashes cur (c # cs) =
     (if c = CHR ''/'' then cur # cut_slashes [] cs else cut_slashes (cur @ [c]) cs)"

fun escaped_well :: "string \<Rightarrow> bool" where
  "escaped_well [] = True"
| "escaped_well (c # cs) =
     ((c = CHR ''~'' \<longrightarrow> (case cs of [] \<Rightarrow> False | d # _ \<Rightarrow> d = CHR ''0'' \<or> d = CHR ''1'')) \<and> escaped_well cs)"

fun unescape_tokens :: "string list \<Rightarrow> string list jres" where
  "unescape_tokens [] = Inr []"
| "unescape_tokens (t # ts) =
     (if \<not> escaped_well t
      then Inl (Throw (parse_error_at 108 0 (''escape character '' @ in_quotes ''~'' @
             '' must be followed with '' @ in_quotes ''0'' @ '' or '' @ in_quotes ''1'')))
      else mapE (Cons (unescape t)) (unescape_tokens ts))"

definition split :: "string \<Rightarrow> string list jres" where
  "split s =
     (case s of
        [] \<Rightarrow> Inr []
      | c # cs \<Rightarrow>
          (if c \<noteq> CHR ''/''
           then Inl (Throw (parse_error_at 107 1
                  (''JSON pointer must be empty or begin with '' @ in_quotes ''/'' @ '' - was: '' @ in_quotes s)))
           else unescape_tokens (cut_slashes [] cs)))"

definition to_string :: "string list \<Rightarrow> string" where
  "to_string ts = concat (map (\<lambda>t. CHR ''/'' # escape t) ts)"

section \<open>Array indexes\<close>

text \<open>\<open>std::stoi\<close> with the number of characters it read; the token has to be read completely.\<close>

definition array_index :: "string \<Rightarrow> int pres" where
  "array_index s =
     (case scan_d s of
        None \<Rightarrow> Inl Std_invalid_argument
      | Some (i, rest) \<Rightarrow>
          (if \<not> in32 i then Inl Std_out_of_range
           else if rest \<noteq> [] then throws (out_of_range_create 404 (''unresolved reference token '' @ in_quotes s))
           else Inr i))"

text \<open>\<open>static_cast<size_type>\<close>, and the \<open>catch\<close> around it in the walks.\<close>

definition size_cast :: "int \<Rightarrow> nat" where
  "size_cast i = nat (i mod 18446744073709551616)"

definition token_index :: "string \<Rightarrow> int pres" where
  "token_index t =
     (case array_index t of
        Inl Std_invalid_argument \<Rightarrow>
          throws (parse_error_at 109 0 (''array index '' @ in_quotes t @ '' is not a number''))
      | r \<Rightarrow> r)"

definition leading_zero :: "string \<Rightarrow> bool" where
  "leading_zero t \<longleftrightarrow> 1 < length t \<and> hd t = CHR ''0''"

definition zero_error :: "string \<Rightarrow> json_exception" where
  "zero_error t = parse_error_at 106 0 (''array index '' @ in_quotes t @ '' must not begin with '' @ in_quotes ''0'')"

definition unresolved :: "string \<Rightarrow> json_exception" where
  "unresolved t = out_of_range_create 404 (''unresolved reference token '' @ in_quotes t)"

definition dash_error :: "nat \<Rightarrow> json_exception" where
  "dash_error n = out_of_range_create 402 (''array index '' @ in_quotes ''-'' @ '' ('' @ dec_int (int n) @ '') is out of range'')"

section \<open>Walks\<close>

text \<open>\<open>get_checked\<close>: \<open>at\<close> in every step.\<close>

fun get_checked :: "string list \<Rightarrow> json \<Rightarrow> ref_path pres" where
  "get_checked [] j = Inr []"
| "get_checked (t # ts) (JObject m) =
     bindE (of_json (json_at_key (JObject m) t)) (\<lambda>v. mapE (Cons (Key t)) (get_checked ts v))"
| "get_checked (t # ts) (JArray a) =
     (if t = ''-'' then throws (dash_error (length a))
      else if leading_zero t then throws (zero_error t)
      else bindE (token_index t) (\<lambda>i.
           bindE (of_json (json_at (JArray a) (size_cast i))) (\<lambda>v.
           mapE (Cons (Index (size_cast i))) (get_checked ts v))))"
| "get_checked (t # ts) j = throws (unresolved t)"

text \<open>
  \<open>operator[]\<close> with an index of a token. A negative number becomes an index that no vector can
  have: the array would have to grow beyond \<open>max_size\<close>. For -1 and an empty array the number of missing
  elements wraps round to 0, none is added, and the access is outside the array.
\<close>

definition index_token :: "json \<Rightarrow> int \<Rightarrow> (json \<times> json) pres" where
  "index_token j i =
     (if 0 \<le> i then of_json (index_at j (nat i))
      else case (if j = JNull then JArray [] else j) of
             JArray a \<Rightarrow>
               (if (i - int (length a) + 1) mod 18446744073709551616 = 0
                then Inl (Json_fail Undefined) else Inl Std_length_error)
           | _ \<Rightarrow> of_json (index_at j 0))"

text \<open>\<open>get_unchecked\<close>: \<open>null\<close> becomes a container, missing elements are filled in.\<close>

definition container_for :: "string \<Rightarrow> json \<Rightarrow> json" where
  "container_for t j =
     (if j = JNull then (if list_all is_digit t \<or> t = ''-'' then JArray [] else JObject []) else j)"

fun get_unchecked :: "string list \<Rightarrow> json \<Rightarrow> (json \<times> ref_path) pres" where
  "get_unchecked [] j = Inr (j, [])"
| "get_unchecked (t # ts) j =
     (case container_for t j of
        JObject m \<Rightarrow>
          bindE (of_json (index_key (JObject m) t)) (\<lambda>(j1, v).
          mapE (\<lambda>(v1, p). (assign [Key t] v1 j1, Key t # p)) (get_unchecked ts v))
      | JArray a \<Rightarrow>
          (if leading_zero t then throws (zero_error t)
           else bindE (if t = ''-'' then Inr (int (length a)) else token_index t) (\<lambda>i.
                bindE (index_token (JArray a) i) (\<lambda>(j1, v).
                mapE (\<lambda>(v1, p). (assign [Index (nat i)] v1 j1, Index (nat i) # p)) (get_unchecked ts v))))
      | _ \<Rightarrow> throws (unresolved t))"

text \<open>The pointer \<open>/-1\<close> on an empty array reads outside it.\<close>

lemma minus_one_undefined: "get_unchecked [''-1''] (JArray []) = Inl (Json_fail Undefined)"
  by code_simp

text \<open>\<open>get_and_create\<close>, for \<open>unflatten\<close>.\<close>

fun get_and_create :: "string list \<Rightarrow> json \<Rightarrow> (json \<times> ref_path) pres" where
  "get_and_create [] j = Inr (j, [])"
| "get_and_create (t # ts) j =
     (case j of
        JNull \<Rightarrow>
          (if t = ''0'' then
             bindE (of_json (index_at JNull 0)) (\<lambda>(j1, v).
             mapE (\<lambda>(v1, p). (assign [Index 0] v1 j1, Index 0 # p)) (get_and_create ts v))
           else
             bindE (of_json (index_key JNull t)) (\<lambda>(j1, v).
             mapE (\<lambda>(v1, p). (assign [Key t] v1 j1, Key t # p)) (get_and_create ts v)))
      | JObject m \<Rightarrow>
          bindE (of_json (index_key j t)) (\<lambda>(j1, v).
          mapE (\<lambda>(v1, p). (assign [Key t] v1 j1, Key t # p)) (get_and_create ts v))
      | JArray a \<Rightarrow>
          bindE (token_index t) (\<lambda>i.
          bindE (index_token j i) (\<lambda>(j1, v).
          mapE (\<lambda>(v1, p). (assign [Index (nat i)] v1 j1, Index (nat i) # p)) (get_and_create ts v)))
      | _ \<Rightarrow> throws (type_error_create 313 ''invalid value to unflatten''))"

fun ptr_contains :: "string list \<Rightarrow> json \<Rightarrow> bool pres" where
  "ptr_contains [] j = Inr True"
| "ptr_contains (t # ts) j =
     (case j of
        JObject m \<Rightarrow> (case map_of m t of None \<Rightarrow> Inr False | Some v \<Rightarrow> ptr_contains ts v)
      | JArray a \<Rightarrow>
          (if t = ''-'' then Inr False
           else if leading_zero t then throws (zero_error t)
           else bindE (token_index t) (\<lambda>i.
                if i < 0 \<or> int (length a) \<le> i then Inr False else ptr_contains ts (a ! nat i)))
      | _ \<Rightarrow> Inr False)"

section \<open>Flatten\<close>

text \<open>The result is an object with one member for each primitive part.\<close>

fun flatten_to :: "string \<Rightarrow> json \<Rightarrow> (string \<times> json) list \<Rightarrow> (string \<times> json) list"
  and flatten_elements :: "string \<Rightarrow> nat \<Rightarrow> json list \<Rightarrow> (string \<times> json) list \<Rightarrow> (string \<times> json) list"
  and flatten_members :: "string \<Rightarrow> (string \<times> json) list \<Rightarrow> (string \<times> json) list \<Rightarrow> (string \<times> json) list"
where
  "flatten_to path (JArray a) result =
     (if a = [] then obj_set path JNull result else flatten_elements path 0 a result)"
| "flatten_to path (JObject m) result =
     (if m = [] then obj_set path JNull result else flatten_members path m result)"
| "flatten_to path v result = obj_set path v result"
| "flatten_elements path i [] result = result"
| "flatten_elements path i (v # a) result =
     flatten_elements path (i + 1) a (flatten_to (path @ CHR ''/'' # dec_int (int i)) v result)"
| "flatten_members path [] result = result"
| "flatten_members path ((k, v) # m) result =
     flatten_members path m (flatten_to (path @ CHR ''/'' # escape k) v result)"

definition flatten :: "json \<Rightarrow> json" where
  "flatten j = JObject (flatten_to [] j [])"

definition is_primitive :: "json \<Rightarrow> bool" where
  "is_primitive j \<longleftrightarrow> m_type j \<in> {V_null, V_string, V_boolean, V_number_integer, V_number_unsigned, V_number_float}"

fun unflatten_members :: "(string \<times> json) list \<Rightarrow> json \<Rightarrow> json pres" where
  "unflatten_members [] result = Inr result"
| "unflatten_members ((k, v) # m) result =
     (if \<not> is_primitive v then throws (type_error_create 315 ''values in object must be primitive'')
      else bindE (of_json (split k)) (\<lambda>ts.
           bindE (get_and_create ts result) (\<lambda>(result1, r).
           unflatten_members m (assign r v result1))))"

definition unflatten :: "json \<Rightarrow> json pres" where
  "unflatten j =
     (case j of
        JObject m \<Rightarrow> unflatten_members m JNull
      | _ \<Rightarrow> throws (type_error_create 314 ''only objects can be unflattened''))"

end
