(* ===== verification/Json_Patch.thy ===== *)
theory Json_Patch
  imports Json_Pointer Json_Dump
begin

text \<open>
  JSON Patch in the JSON library: \<open>patch\<close> with its six operations, \<open>diff\<close>, and \<open>merge_patch\<close>.
\<close>

section \<open>The members of an operation\<close>

fun is_string :: "json \<Rightarrow> bool" where
  "is_string (JString s) = True"
| "is_string j = False"

definition get_value :: "(string \<times> json) list \<Rightarrow> string \<Rightarrow> string \<Rightarrow> bool \<Rightarrow> json jres" where
  "get_value m op member string_type =
     (let error_msg = (if op = ''op'' then ''operation'' else ''operation '' @ in_quotes op)
      in case map_of m member of
           None \<Rightarrow> Inl (Throw (parse_error_at 105 0 (error_msg @ '' must have member '' @ in_quotes member)))
         | Some v \<Rightarrow>
             (if string_type \<and> \<not> is_string v
              then Inl (Throw (parse_error_at 105 0 (error_msg @ '' must have string member '' @ in_quotes member)))
              else Inr v))"

section \<open>The operations\<close>

text \<open>Adding: the top of the pointer must exist, what is missing below it is created.\<close>

definition operation_add :: "string list \<Rightarrow> json \<Rightarrow> json \<Rightarrow> json pres" where
  "operation_add ptr val result =
     (if ptr = [] then Inr val
      else
        bindE (if [hd ptr] \<noteq> ptr then get_checked [hd ptr] result else Inr []) (\<lambda>_.
        bindE (get_unchecked (butlast ptr) result) (\<lambda>(result1, r).
        case deref r result1 of
          JNull \<Rightarrow> Inr (assign r (JObject (obj_set (last ptr) val [])) result1)
        | JObject m \<Rightarrow> Inr (assign r (JObject (obj_set (last ptr) val m)) result1)
        | JArray a \<Rightarrow>
            (if last ptr = ''-'' then Inr (assign r (JArray (a @ [val])) result1)
             else bindE (array_index (last ptr)) (\<lambda>idx.
                  if length a < size_cast idx
                  then throws (out_of_range_create 401 (''array index '' @ dec_int idx @ '' is out of range''))
                  else Inr (assign r (JArray (take (nat idx) a @ val # drop (nat idx) a)) result1)))
        | _ \<Rightarrow> Inl (Json_fail Assertion))))"

definition operation_remove :: "string list \<Rightarrow> json \<Rightarrow> json pres" where
  "operation_remove ptr result =
     (if ptr = [] then throws (out_of_range_create 405 ''JSON pointer has no parent'')
      else
        bindE (get_checked (butlast ptr) result) (\<lambda>r.
        case deref r result of
          JObject m \<Rightarrow>
            (if last ptr \<in> fst ` set m
             then Inr (assign r (JObject (filter (\<lambda>p. fst p \<noteq> last ptr) m)) result)
             else throws (out_of_range_create 403 (''key '' @ in_quotes (last ptr) @ '' not found'')))
        | JArray a \<Rightarrow>
            bindE (array_index (last ptr)) (\<lambda>i.
            let idx = size_cast i in
            if length a \<le> idx
            then throws (out_of_range_create 401 (''array index '' @ dec_int (int idx) @ '' is out of range''))
            else Inr (assign r (JArray (take idx a @ drop (Suc idx) a)) result))
        | _ \<Rightarrow> Inr result))"

definition value_at :: "string list \<Rightarrow> json \<Rightarrow> json pres" where
  "value_at ptr result = mapE (\<lambda>r. deref r result) (get_checked ptr result)"

definition the_string :: "json \<Rightarrow> string" where
  "the_string j = (case j of JString s \<Rightarrow> s | _ \<Rightarrow> [])"

text \<open>The pointer in a member of the operation.\<close>

definition pointer_member :: "(string \<times> json) list \<Rightarrow> string \<Rightarrow> string \<Rightarrow> string list pres" where
  "pointer_member m op member =
     of_json (bindE (get_value m op member True) (\<lambda>p. split (the_string p)))"

text \<open>
  \<open>test\<close>: an \<open>out_of_range\<close> of the library counts as a difference; the failure tells the whole
  operation, as \<open>dump\<close> writes it.
\<close>

definition operation_test :: "(string \<times> json) list \<Rightarrow> string list \<Rightarrow> json \<Rightarrow> json pres" where
  "operation_test m ptr result =
     bindE (case bindE (value_at ptr result) (\<lambda>v. mapE (json_eq v) (of_json (get_value m ''test'' ''value'' False))) of
              Inl (Json_fail (Throw (Out_of_range i w))) \<Rightarrow> Inr False
            | r \<Rightarrow> r) (\<lambda>success.
     if success then Inr result
     else bindE (of_json (json_dump (JObject m) (- 1) (CHR '' '') False Eh_strict)) (\<lambda>t.
          throws (other_error_create 501 (''unsuccessful: '' @ t))))"

definition apply_operation :: "json \<Rightarrow> json \<Rightarrow> json pres" where
  "apply_operation val result =
     (case val of
        JObject m \<Rightarrow>
          bindE (of_json (get_value m ''op'' ''op'' True)) (\<lambda>opv. let op = the_string opv in
          bindE (pointer_member m op ''path'') (\<lambda>ptr.
          if op = ''add'' then
            bindE (of_json (get_value m ''add'' ''value'' False)) (\<lambda>v. operation_add ptr v result)
          else if op = ''remove'' then operation_remove ptr result
          else if op = ''replace'' then
            bindE (of_json (get_value m ''replace'' ''value'' False)) (\<lambda>v.
            mapE (\<lambda>r. assign r v result) (get_checked ptr result))
          else if op = ''move'' then
            bindE (pointer_member m ''move'' ''from'') (\<lambda>from.
            bindE (value_at from result) (\<lambda>v.
            bindE (operation_remove from result) (operation_add ptr v)))
          else if op = ''copy'' then
            bindE (pointer_member m ''copy'' ''from'') (\<lambda>from.
            bindE (value_at from result) (\<lambda>v. operation_add ptr v result))
          else if op = ''test'' then operation_test m ptr result
          else throws (parse_error_at 105 0 (''operation value '' @ in_quotes op @ '' is invalid''))))
      | _ \<Rightarrow> throws (parse_error_at 104 0 ''JSON patch must be an array of objects''))"

fun apply_operations :: "json list \<Rightarrow> json \<Rightarrow> json pres" where
  "apply_operations [] result = Inr result"
| "apply_operations (val # vals) result =
     bindE (apply_operation val result) (apply_operations vals)"

definition json_patch :: "json \<Rightarrow> json \<Rightarrow> json pres" where
  "json_patch j ops =
     (case ops of
        JArray vals \<Rightarrow> apply_operations vals j
      | _ \<Rightarrow> throws (parse_error_at 104 0 ''JSON patch must be an array of objects''))"

section \<open>Difference\<close>

definition op_replace :: "string \<Rightarrow> json \<Rightarrow> json" where
  "op_replace path v = JObject [(''op'', JString ''replace''), (''path'', JString path), (''value'', v)]"

definition op_add :: "string \<Rightarrow> json \<Rightarrow> json" where
  "op_add path v = JObject [(''op'', JString ''add''), (''path'', JString path), (''value'', v)]"

definition op_remove :: "string \<Rightarrow> json" where
  "op_remove path = JObject [(''op'', JString ''remove''), (''path'', JString path)]"

definition index_path :: "string \<Rightarrow> nat \<Rightarrow> string" where
  "index_path path i = path @ CHR ''/'' # dec_int (int i)"

definition key_path :: "string \<Rightarrow> string \<Rightarrow> string" where
  "key_path path k = path @ CHR ''/'' # escape k"

text \<open>
  The elements that both arrays have, then the removals, each inserted before the ones that are
  there, then the additions.
\<close>

fun diff_ops :: "json \<Rightarrow> json \<Rightarrow> string \<Rightarrow> json list"
  and diff_elements :: "nat \<Rightarrow> json list \<Rightarrow> json list \<Rightarrow> string \<Rightarrow> json list"
  and diff_members :: "(string \<times> json) list \<Rightarrow> (string \<times> json) list \<Rightarrow> string \<Rightarrow> json list"
where
  "diff_ops source target path =
     (if json_eq source target then []
      else if m_type source \<noteq> m_type target then [op_replace path target]
      else case (source, target) of
             (JArray a, JArray b) \<Rightarrow>
               diff_elements 0 a b path @
               rev (map (\<lambda>i. op_remove (index_path path i)) [length b..<length a]) @
               map (\<lambda>i. op_add (index_path path i) (b ! i)) [length a..<length b]
           | (JObject m, JObject n) \<Rightarrow>
               diff_members m n path @
               map (\<lambda>(k, v). op_add (key_path path k) v) (filter (\<lambda>(k, v). map_of m k = None) n)
           | _ \<Rightarrow> [op_replace path target])"
| "diff_elements i (x # a) (y # b) path = diff_ops x y (index_path path i) @ diff_elements (i + 1) a b path"
| "diff_elements i a b path = []"
| "diff_members [] n path = []"
| "diff_members ((k, v) # m) n path =
     (case map_of n k of
        Some w \<Rightarrow> diff_ops v w (key_path path k)
      | None \<Rightarrow> [op_remove (key_path path k)]) @ diff_members m n path"

definition json_diff :: "json \<Rightarrow> json \<Rightarrow> string \<Rightarrow> json" where
  "json_diff source target path = JArray (diff_ops source target path)"

section \<open>Merge patch\<close>

fun merge_patch :: "json \<Rightarrow> json \<Rightarrow> json"
  and merge_members :: "(string \<times> json) list \<Rightarrow> (string \<times> json) list \<Rightarrow> (string \<times> json) list"
where
  "merge_patch (JObject p) j = JObject (merge_members p (case j of JObject m \<Rightarrow> m | _ \<Rightarrow> []))"
| "merge_patch p j = p"
| "merge_members [] m = m"
| "merge_members ((k, v) # p) m =
     merge_members p
       (if v = JNull then filter (\<lambda>q. fst q \<noteq> k) m
        else obj_set k (merge_patch v (case map_of m k of None \<Rightarrow> JNull | Some x \<Rightarrow> x)) m)"

end
