(* ===== verification/Json_Diff.thy ===== *)
theory Json_Diff
  imports Json_Patch Json_Complete
begin

text \<open>
  Pointers are written and read back, and applying the difference of two values to the first gives the second: the pointers that \<open>diff\<close>
  writes lead back to the parts it compared, and the operations change these parts one by one.
\<close>

section \<open>Pointers are written and read\<close>

lemma replace_Nil [simp]: "replace_substring f t [] = []"
  by (subst replace_substring.simps) simp

lemma replace_Cons:
  "replace_substring f t (c # s) =
     (if f \<noteq> [] \<and> prefix f (c # s) then t @ replace_substring f t (drop (length f) (c # s))
      else c # replace_substring f t s)"
  by (subst replace_substring.simps) simp

lemma replace_char: "replace_substring [f] t s = concat (map (\<lambda>c. if c = f then t else [c]) s)"
proof (induction s)
  case (Cons c s)
  then show ?case by (cases "c = f") (simp_all add: replace_Cons)
qed simp

definition esc :: "char \<Rightarrow> string" where
  "esc c = (if c = CHR ''~'' then ''~0'' else if c = CHR ''/'' then ''~1'' else [c])"

lemma escape_chars: "escape s = concat (map esc s)"
  by (induction s) (simp_all add: escape_def replace_char esc_def)

definition esc_tilde :: "char \<Rightarrow> string" where
  "esc_tilde c = (if c = CHR ''~'' then ''~0'' else [c])"

lemma unescape_slash: "replace_substring ''~1'' ''/'' (concat (map esc s)) = concat (map esc_tilde s)"
proof (induction s)
  case (Cons c s)
  then show ?case
    by (cases "c = CHR ''~''"; cases "c = CHR ''/''") (simp_all add: esc_def esc_tilde_def replace_Cons)
qed simp

lemma unescape_tilde: "replace_substring ''~0'' ''~'' (concat (map esc_tilde s)) = s"
proof (induction s)
  case (Cons c s)
  then show ?case by (cases "c = CHR ''~''") (simp_all add: esc_tilde_def replace_Cons)
qed simp

lemma unescape_escape [simp]: "unescape (escape s) = s"
  by (simp add: unescape_def escape_chars unescape_slash unescape_tilde)

lemma escaped_well_escape [simp]: "escaped_well (escape s)"
  unfolding escape_chars
proof (induction s)
  case (Cons c s)
  then show ?case by (cases "c = CHR ''~''"; cases "c = CHR ''/''") (simp_all add: esc_def)
qed simp

lemma cut_slashes_token: "CHR ''/'' \<notin> set t \<Longrightarrow> cut_slashes cur (t @ r) = cut_slashes (cur @ t) r"
  by (induction t arbitrary: cur) auto

lemma escape_no_slash: "CHR ''/'' \<notin> set (escape s)"
  by (auto simp: escape_chars esc_def split: if_splits)

lemma split_to_string [simp]: "split (to_string ts) = Inr ts"
proof (cases ts)
  case (Cons t ts')
  have "cut_slashes cur (to_string ts) = cur # map escape ts" for cur ts
  proof (induction ts arbitrary: cur)
    case (Cons t ts)
    then show ?case by (simp add: to_string_def cut_slashes_token escape_no_slash)
  qed (simp add: to_string_def)
  then have "cut_slashes [] (escape t @ to_string ts') = map escape (t # ts')"
    by (simp add: cut_slashes_token escape_no_slash)
  moreover have "unescape_tokens (map escape xs) = Inr xs" for xs
    by (induction xs) (simp_all add: escaped_well_escape)
  ultimately show ?thesis using Cons by (simp add: split_def to_string_def)
qed (simp add: split_def to_string_def)

section \<open>The pointer of a part\<close>

fun token :: "ref_step \<Rightarrow> string" where
  "token (Key k) = k"
| "token (Index i) = dec_int (int i)"

abbreviation tokens :: "ref_path \<Rightarrow> string list" where
  "tokens r \<equiv> map token r"

definition small_ref :: "ref_path \<Rightarrow> bool" where
  "small_ref r \<longleftrightarrow> (\<forall>i. Index i \<in> set r \<longrightarrow> i < 2147483648)"

lemma small_ref_simps [simp]:
  "small_ref []" "small_ref (Key k # r) = small_ref r" "small_ref (Index i # r) = (i < 2147483648 \<and> small_ref r)"
  "small_ref (r @ q) = (small_ref r \<and> small_ref q)"
  by (auto simp: small_ref_def)

lemma size_cast_int [simp]: "i < 2147483648 \<Longrightarrow> size_cast (int i) = i"
  by (simp add: size_cast_def)

lemma index_token_facts:
  assumes "i < 2147483648"
  shows "array_index (dec_int (int i)) = Inr (int i)" "token_index (dec_int (int i)) = Inr (int i)"
    "dec_int (int i) \<noteq> ''-''" "\<not> leading_zero (dec_int (int i))"
proof -
  have "scan_d (dec_int (int i)) = Some (int i, [])" using scan_d_dec_int [of "[]" "int i"] by simp
  then show idx: "array_index (dec_int (int i)) = Inr (int i)"
    using assms by (simp add: array_index_def in32_def)
  then show "token_index (dec_int (int i)) = Inr (int i)" by (simp add: token_index_def)
  obtain d ds where d: "dec_nat i = d # ds" "is_digit d" using dec_nat_cons by blast
  then show "dec_int (int i) \<noteq> ''-''" using digit_not_sign [OF d(2)] by (simp add: dec_int_def)
  show "\<not> leading_zero (dec_int (int i))"
    using dec_nat_int_part [of i] by (auto simp: leading_zero_def int_part_def dec_int_def)
qed

lemma checked_tokens: "valid_ref r j \<Longrightarrow> small_ref r \<Longrightarrow> get_checked (tokens r) j = Inr r"
  by (induction r j rule: valid_ref.induct)
     (auto simp: json_at_key_def json_at_def index_token_facts split: option.splits)

lemma unchecked_tokens: "valid_ref r j \<Longrightarrow> small_ref r \<Longrightarrow> wf_json j \<Longrightarrow> get_unchecked (tokens r) j = Inr (j, r)"
proof (induction r j rule: valid_ref.induct)
  case (2 k p m)
  then obtain v where v: "map_of m k = Some v" "valid_ref p v" by (auto split: option.splits)
  then have "get_unchecked (tokens p) v = Inr (v, p)" using 2 wf_lookup [OF 2(4) v(1)] by simp
  then show ?case using v 2(4) by (simp add: container_for_def index_key_found obj_set_same)
next
  case (3 i p a)
  then have "get_unchecked (tokens p) (a ! i) = Inr (a ! i, p)" by simp
  then show ?case using 3 by (simp add: container_for_def index_token_facts index_token_def index_at_in)
qed auto

section \<open>Pointers of an operation\<close>

text \<open>
  Where an operation works: a part of the document, well-formed, with small indexes on the way.
\<close>

definition spot :: "ref_path \<Rightarrow> json \<Rightarrow> bool" where
  "spot r j \<longleftrightarrow> valid_ref r j \<and> small_ref r \<and> wf_json j"

lemma spot_assign: "spot r j \<Longrightarrow> wf_json v \<Longrightarrow> spot r (assign r v j)"
  by (simp add: spot_def wf_assign)

lemma spot_wf: "spot r j \<Longrightarrow> wf_json (deref r j)"
  by (simp add: spot_def wf_deref)

lemma spot_deref [simp]: "spot r j \<Longrightarrow> deref r (assign r v j) = v"
  by (simp add: spot_def)

lemma spot_same: "spot r j \<Longrightarrow> assign r (deref r j) j = j"
  by (simp add: spot_def assign_deref)

lemma spot_index:
  "spot r j \<Longrightarrow> deref r j = JArray a \<Longrightarrow> i < length a \<Longrightarrow> i < 2147483648 \<Longrightarrow>
     spot (r @ [Index i]) j \<and> deref (r @ [Index i]) j = a ! i \<and>
     assign (r @ [Index i]) v j = assign r (JArray (a[i := v])) j"
  by (simp add: spot_def valid_append deref_append assign_append)

lemma spot_key:
  "spot r j \<Longrightarrow> deref r j = JObject m \<Longrightarrow> map_of m k = Some x \<Longrightarrow>
     spot (r @ [Key k]) j \<and> deref (r @ [Key k]) j = x \<and>
     assign (r @ [Key k]) v j = assign r (JObject (obj_set k v m)) j"
  by (simp add: spot_def valid_append deref_append assign_append)

lemma escape_digits: "\<forall>c \<in> set s. is_digit c \<Longrightarrow> escape s = s"
  unfolding escape_chars by (induction s) (auto simp: esc_def is_digit_def)

lemma index_path_tokens: "index_path (to_string (tokens r)) i = to_string (tokens (r @ [Index i]))"
  using escape_digits [OF dec_nat_digits [of i]] by (simp add: index_path_def to_string_def dec_int_def)

lemma key_path_tokens: "key_path (to_string (tokens r)) k = to_string (tokens (r @ [Key k]))"
  by (simp add: key_path_def to_string_def)

lemma parent_exists:
  assumes "spot r j" and "r \<noteq> []"
  shows "get_checked [hd (tokens r)] j = Inr [hd r]"
proof (cases r)
  case (Cons s r')
  have "valid_ref ([s] @ r') j" using assms Cons by (simp add: spot_def)
  then have "valid_ref [s] j" by (cases s; cases j) (auto split: option.splits)
  moreover have "small_ref [s]" using assms Cons by (cases s) (auto simp: spot_def)
  ultimately show ?thesis using checked_tokens [of "[s]" j] Cons by simp
qed (use assms in simp)

section \<open>One operation\<close>

lemmas op_unfold = apply_operation_def pointer_member_def get_value_def the_string_def

lemma apply_replace: "spot r j \<Longrightarrow> apply_operation (op_replace (to_string (tokens r)) v) j = Inr (assign r v j)"
  by (simp add: spot_def op_unfold op_replace_def checked_tokens)

lemma apply_remove:
  "apply_operation (op_remove (to_string (tokens r))) j = operation_remove (tokens r) j"
  by (simp add: op_unfold op_remove_def)

lemma apply_add:
  "apply_operation (op_add (to_string (tokens r)) v) j = operation_add (tokens r) v j"
  by (simp add: op_unfold op_add_def)

lemma remove_index:
  "spot r j \<Longrightarrow> deref r j = JArray a \<Longrightarrow> i < length a \<Longrightarrow> i < 2147483648 \<Longrightarrow>
     apply_operation (op_remove (to_string (tokens (r @ [Index i])))) j =
     Inr (assign r (JArray (take i a @ drop (Suc i) a)) j)"
  unfolding apply_remove by (simp add: operation_remove_def spot_def checked_tokens index_token_facts)

lemma remove_key:
  "spot r j \<Longrightarrow> deref r j = JObject m \<Longrightarrow> map_of m k = Some x \<Longrightarrow>
     apply_operation (op_remove (to_string (tokens (r @ [Key k])))) j =
     Inr (assign r (JObject (filter (\<lambda>p. fst p \<noteq> k) m)) j)"
  unfolding apply_remove
  by (force simp: operation_remove_def spot_def checked_tokens dest: map_of_SomeD)

lemma add_index:
  assumes "spot r j" and "deref r j = JArray a" and "length a < 2147483648"
  shows "apply_operation (op_add (to_string (tokens (r @ [Index (length a)]))) v) j =
    Inr (assign r (JArray (a @ [v])) j)"
  using assms parent_exists [OF assms(1)] unfolding apply_add
  by (cases "r = []") (simp_all add: operation_add_def spot_def unchecked_tokens index_token_facts)

lemma add_key:
  assumes "spot r j" and "deref r j = JObject m"
  shows "apply_operation (op_add (to_string (tokens (r @ [Key k]))) v) j = Inr (assign r (JObject (obj_set k v m)) j)"
  using assms parent_exists [OF assms(1)] unfolding apply_add
  by (cases "r = []") (simp_all add: operation_add_def spot_def unchecked_tokens)

section \<open>Lists of operations\<close>

lemma apply_append: "apply_operations (a @ b) j = bindE (apply_operations a j) (apply_operations b)"
  by (induction a arbitrary: j) (simp_all add: bindE_assoc cong: bindE_cong)

text \<open>The removals at the end of an array, from its last element on.\<close>

lemma apply_removals:
  assumes "spot r j" and "deref r j = JArray (a @ c)" and "length (a @ c) < 2147483648"
  shows "apply_operations
      (rev (map (\<lambda>i. op_remove (index_path (to_string (tokens r)) i)) [length a..<length (a @ c)])) j =
    Inr (assign r (JArray a) j)"
  using assms
proof (induction c arbitrary: j rule: rev_induct)
  case Nil
  then show ?case using spot_same [of r j] by simp
next
  case (snoc x c)
  let ?j = "assign r (JArray (a @ c)) j"
  have w: "wf_json (JArray (a @ c))" using spot_wf [OF snoc.prems(1)] snoc.prems(2) by auto
  have "apply_operation (op_remove (to_string (tokens (r @ [Index (length (a @ c))])))) j = Inr ?j"
    using remove_index [OF snoc.prems(1,2), of "length (a @ c)"] snoc.prems(3) by simp
  then show ?case
    using snoc.IH [OF spot_assign [OF snoc.prems(1) w]] snoc.prems(1,3)
    by (simp add: index_path_tokens)
qed

text \<open>The additions at its end, and those to an object.\<close>

lemma apply_additions:
  assumes "spot r j" and "deref r j = JArray a" and "length (a @ c) < 2147483648" and "\<forall>x \<in> set c. wf_json x"
    and "length a' = length a"
  shows "apply_operations
      (map (\<lambda>i. op_add (index_path (to_string (tokens r)) i) ((a' @ c) ! i)) [length a..<length (a @ c)]) j =
    Inr (assign r (JArray (a @ c)) j)"
  using assms
proof (induction c arbitrary: a a' j)
  case Nil
  then show ?case using spot_same [of r j] by simp
next
  case (Cons x c)
  let ?j = "assign r (JArray (a @ [x])) j"
  have w: "wf_json (JArray (a @ [x]))" using spot_wf [OF Cons.prems(1)] Cons.prems(2,4) by auto
  have 1: "apply_operation (op_add (to_string (tokens (r @ [Index (length a)]))) x) j = Inr ?j"
    using add_index [OF Cons.prems(1,2)] Cons.prems(3) by simp
  have "[length a..<length (a @ x # c)] = length a # [length (a @ [x])..<length ((a @ [x]) @ c)]"
    by (simp add: upt_conv_Cons del: upt_Suc)
  then show ?case
    using Cons.IH [OF spot_assign [OF Cons.prems(1) w], of "a @ [x]" "a' @ [x]"] Cons.prems 1
    by (simp add: index_path_tokens nth_append)
qed

definition add_all :: "(string \<times> json) list \<Rightarrow> (string \<times> json) list \<Rightarrow> (string \<times> json) list" where
  "add_all n m = fold (\<lambda>(k, v). obj_set k v) n m"

lemma add_all_simps [simp]:
  "add_all [] m = m" "add_all (p # n) m = add_all n (obj_set (fst p) (snd p) m)"
  by (simp_all add: add_all_def case_prod_beta)

lemma add_all_lookup:
  "sorted_keys n \<Longrightarrow> map_of (add_all n m) k = (case map_of n k of None \<Rightarrow> map_of m k | Some v \<Rightarrow> Some v)"
proof (induction n arbitrary: m)
  case (Cons p n)
  then have "fst p \<notin> fst ` set n" by auto
  then have "map_of n (fst p) = None" by (simp add: map_of_eq_None_iff)
  then show ?case using Cons by (cases p) (auto split: option.splits)
qed simp

lemma add_all_wf:
  "wf_json (JObject m) \<Longrightarrow> \<forall>p \<in> set n. utf8 (fst p) \<and> wf_json (snd p) \<Longrightarrow> wf_json (JObject (add_all n m))"
proof (induction n arbitrary: m)
  case (Cons p n)
  have "wf_json (JObject (obj_set (fst p) (snd p) m))"
    by (rule wf_obj_set) (use Cons.prems in \<open>simp_all del: wf_json.simps\<close>)
  then show ?case unfolding add_all_simps by (rule Cons.IH) (use Cons.prems in simp)
qed simp

lemma apply_members:
  assumes "spot r j" and "deref r j = JObject m" and "\<forall>p \<in> set n. utf8 (fst p) \<and> wf_json (snd p)"
  shows "apply_operations (map (\<lambda>(k, v). op_add (key_path (to_string (tokens r)) k) v) n) j =
    Inr (assign r (JObject (add_all n m)) j)"
  using assms
proof (induction n arbitrary: m j)
  case Nil
  then show ?case using spot_same [of r j] by simp
next
  case (Cons p n)
  obtain k v where p: "p = (k, v)" by fastforce
  let ?j = "assign r (JObject (obj_set k v m)) j"
  have w: "wf_json (JObject (obj_set k v m))"
    by (rule wf_obj_set) (use spot_wf [OF Cons.prems(1)] Cons.prems(2,3) in \<open>simp_all add: p del: wf_json.simps\<close>)
  have "apply_operation (op_add (to_string (tokens (r @ [Key k]))) v) j = Inr ?j"
    by (rule add_key [OF Cons.prems(1,2)])
  then show ?case
    using Cons.IH [OF spot_assign [OF Cons.prems(1) w]] Cons.prems
    by (simp add: p key_path_tokens)
qed

section \<open>Comparison\<close>

lemma json_eq_refl: "wf_json v \<Longrightarrow> json_eq v v"
proof (induction v rule: wf_json.induct)
  case (8 d)
  then show ?case by (simp add: double_eq_def double_nan_def isfinite_def)
qed (auto intro!: list_all2_refl simp: list.rel_refl_strong prod.case_eq_if list_all2_same)

lemma key_below: "\<forall>y \<in> fst ` set m. k < y \<Longrightarrow> map_of m k = None" for k :: string
  by (auto simp: map_of_eq_None_iff)

lemma sorted_rel:
  "sorted_keys m \<Longrightarrow> sorted_keys n \<Longrightarrow> \<forall>k. rel_option R (map_of m k) (map_of n k) \<Longrightarrow>
     list_all2 (\<lambda>p q. fst p = fst q \<and> R (snd p) (snd q)) m n"
proof (induction m arbitrary: n)
  case Nil
  then show ?case by (cases n) (auto dest: spec [of _ "fst (hd n)"])
next
  case (Cons p m)
  obtain k v where p: "p = (k, v)" by fastforce
  have rel: "rel_option R (map_of (p # m) x) (map_of n x)" for x using Cons.prems(3) by blast
  obtain q n' where n: "n = q # n'" using rel [of k] by (cases n) (auto simp: p)
  obtain k' w where q: "q = (k', w)" by fastforce
  have above: "\<forall>y \<in> fst ` set m. k < y" "\<forall>y \<in> fst ` set n'. k' < y" using Cons.prems(1,2) by (auto simp: p q n)
  have "\<not> k < k'" using rel [of k] key_below [of n k] above(2) by (fastforce simp: p q n)
  moreover have "\<not> k' < k" using rel [of k'] key_below [of "p # m" k'] above(1) by (fastforce simp: p q n)
  ultimately have k: "k' = k" by simp
  have "rel_option R (map_of m x) (map_of n' x)" for x
    using rel [of x] key_below [OF above(1)] key_below [OF above(2)] by (auto simp: p q n k split: if_splits)
  then have "list_all2 (\<lambda>p q. fst p = fst q \<and> R (snd p) (snd q)) m n'"
    using Cons.prems(1,2) by (intro Cons.IH) (auto simp: n)
  then show ?case using rel [of k] by (simp add: p q n k)
qed

section \<open>The difference\<close>

text \<open>Arrays whose indexes \<open>std::stoi\<close> can read.\<close>

fun small_json :: "json \<Rightarrow> bool" where
  "small_json (JArray a) = (length a < 2147483648 \<and> (\<forall>x \<in> set a. small_json x))"
| "small_json (JObject m) = (\<forall>p \<in> set m. small_json (snd p))"
| "small_json j = True"

definition good :: "json \<Rightarrow> bool" where
  "good j \<longleftrightarrow> wf_json j \<and> small_json j"

lemma good_simps:
  "good (JArray a) \<longleftrightarrow> length a < 2147483648 \<and> (\<forall>x \<in> set a. good x)"
  "good (JObject m) \<longleftrightarrow> sorted_keys m \<and> (\<forall>p \<in> set m. utf8 (fst p) \<and> good (snd p))"
  by (auto simp: good_def)

definition leads :: "json list \<Rightarrow> ref_path \<Rightarrow> json \<Rightarrow> json \<Rightarrow> bool" where
  "leads ops r j y \<longleftrightarrow> (\<exists>v. apply_operations ops j = Inr (assign r v j) \<and> wf_json v \<and> json_eq v y)"

definition leads_elements :: "json list \<Rightarrow> nat \<Rightarrow> json list \<Rightarrow> json list \<Rightarrow> string \<Rightarrow> bool" where
  "leads_elements ops i a b path \<longleftrightarrow>
     (\<forall>r j pre. spot r j \<and> path = to_string (tokens r) \<and> deref r j = JArray (pre @ a) \<and> length pre = i \<and>
        length (pre @ a) < 2147483648 \<longrightarrow>
        (\<exists>c. apply_operations ops j = Inr (assign r (JArray (pre @ c @ drop (length b) a)) j) \<and>
             (\<forall>x \<in> set c. wf_json x) \<and> list_all2 json_eq c (take (length a) b)))"

definition leads_members :: "json list \<Rightarrow> (string \<times> json) list \<Rightarrow> (string \<times> json) list \<Rightarrow> string \<Rightarrow> bool" where
  "leads_members ops m n path \<longleftrightarrow>
     (\<forall>r j m1. spot r j \<and> path = to_string (tokens r) \<and> deref r j = JObject m1 \<and>
        (\<forall>p \<in> set m. map_of m1 (fst p) = Some (snd p)) \<longrightarrow>
        (\<exists>m2. apply_operations ops j = Inr (assign r (JObject m2) j) \<and> wf_json (JObject m2) \<and>
              (\<forall>k. if k \<in> fst ` set m then rel_option json_eq (map_of m2 k) (map_of n k)
                   else map_of m2 k = map_of m1 k)))"

lemma spot_eq: "spot r j \<Longrightarrow> deref r j = v \<Longrightarrow> assign r v j = j"
  using spot_same by blast

lemma leads_elementsD:
  "leads_elements ops i a b path \<Longrightarrow> spot r j \<Longrightarrow> path = to_string (tokens r) \<Longrightarrow> deref r j = JArray (pre @ a) \<Longrightarrow>
     length pre = i \<Longrightarrow> length (pre @ a) < 2147483648 \<Longrightarrow>
     \<exists>c. apply_operations ops j = Inr (assign r (JArray (pre @ c @ drop (length b) a)) j) \<and>
         (\<forall>x \<in> set c. wf_json x) \<and> list_all2 json_eq c (take (length a) b)"
  unfolding leads_elements_def by blast

lemma leads_elements_Nil: "drop (length b) a = a \<Longrightarrow> take (length a) b = [] \<Longrightarrow> leads_elements [] i a b path"
  unfolding leads_elements_def by (auto intro!: exI [of _ "[]"] simp: spot_eq)

lemma leads_elements_Cons:
  assumes "\<forall>r j. spot r j \<and> deref r j = x \<and> path' = to_string (tokens r) \<longrightarrow> leads ops r j y"
    and "leads_elements ops' (i + 1) a b path" and "path' = index_path path i"
  shows "leads_elements (ops @ ops') i (x # a) (y # b) path"
  unfolding leads_elements_def
proof (intro allI impI, elim conjE)
  fix r j pre
  assume r: "spot r j" and path: "path = to_string (tokens r)" and d: "deref r j = JArray (pre @ x # a)"
    and len: "length pre = i" "length (pre @ x # a) < 2147483648"
  have i: "i < length (pre @ x # a)" "i < 2147483648" using len by auto
  note q = spot_index [OF r d i]
  have "leads ops (r @ [Index i]) j y"
    using assms(1,3) q len(1) by (simp add: path index_path_tokens nth_append)
  then obtain v where v: "apply_operations ops j = Inr (assign r (JArray (pre @ v # a)) j)" "wf_json v" "json_eq v y"
    using q len(1) by (auto simp: leads_def)
  let ?j = "assign r (JArray (pre @ v # a)) j"
  have "wf_json (JArray (pre @ v # a))" using spot_wf [OF r] d v(2) by auto
  then have "spot r ?j" "deref r ?j = JArray ((pre @ [v]) @ a)" using r by (simp_all add: spot_assign)
  then obtain c where c: "apply_operations ops' ?j = Inr (assign r (JArray ((pre @ [v]) @ c @ drop (length b) a)) ?j)"
    "\<forall>x \<in> set c. wf_json x" "list_all2 json_eq c (take (length a) b)"
    using leads_elementsD [OF assms(2) _ path, of ?j "pre @ [v]"] len by auto
  show "\<exists>c. apply_operations (ops @ ops') j = Inr (assign r (JArray (pre @ c @ drop (length (y # b)) (x # a))) j) \<and>
      (\<forall>x \<in> set c. wf_json x) \<and> list_all2 json_eq c (take (length (x # a)) (y # b))"
    using v c by (intro exI [of _ "v # c"]) (simp add: apply_append)
qed

lemma leads_membersD:
  "leads_members ops m n path \<Longrightarrow> spot r j \<Longrightarrow> path = to_string (tokens r) \<Longrightarrow> deref r j = JObject m1 \<Longrightarrow>
     \<forall>p \<in> set m. map_of m1 (fst p) = Some (snd p) \<Longrightarrow>
     \<exists>m2. apply_operations ops j = Inr (assign r (JObject m2) j) \<and> wf_json (JObject m2) \<and>
          (\<forall>k. if k \<in> fst ` set m then rel_option json_eq (map_of m2 k) (map_of n k) else map_of m2 k = map_of m1 k)"
  unfolding leads_members_def by blast

lemma leads_members_Nil: "leads_members [] [] n path"
  unfolding leads_members_def
proof (intro allI impI, elim conjE)
  fix r j m1
  assume r: "spot r j" and d: "deref r j = JObject m1"
  have "wf_json (JObject m1)" using spot_wf [OF r] d by simp
  then show "\<exists>m2. apply_operations [] j = Inr (assign r (JObject m2) j) \<and> wf_json (JObject m2) \<and>
      (\<forall>k. if k \<in> fst ` set [] then rel_option json_eq (map_of m2 k) (map_of n k) else map_of m2 k = map_of m1 k)"
    by (intro exI [of _ m1]) (simp add: spot_eq [OF r d])
qed

lemma lookup_removed: "map_of (filter (\<lambda>p. fst p \<noteq> k) m) x = (if x = k then None else map_of m x)"
  by (induction m) auto

lemma sorted_removed: "sorted_keys m \<Longrightarrow> sorted_keys (filter Q m)"
  by (induction m) auto

lemma leads_members_Cons:
  assumes kv: "case map_of n k of
      Some w \<Rightarrow> \<forall>r j. spot r j \<and> deref r j = v \<and> key_path path k = to_string (tokens r) \<longrightarrow> leads ops r j w
    | None \<Rightarrow> ops = [op_remove (key_path path k)]"
    and "leads_members ops' m n path" and "k \<notin> fst ` set m"
  shows "leads_members (ops @ ops') ((k, v) # m) n path"
  unfolding leads_members_def
proof (intro allI impI, elim conjE)
  fix r j m1
  assume r: "spot r j" and path: "path = to_string (tokens r)" and d: "deref r j = JObject m1"
    and m1: "\<forall>p \<in> set ((k, v) # m). map_of m1 (fst p) = Some (snd p)"
  have look: "map_of m1 k = Some v" using m1 by simp
  have w: "wf_json (JObject m1)" using spot_wf [OF r] d by simp
  have "\<exists>m2. apply_operations ops j = Inr (assign r (JObject m2) j) \<and> wf_json (JObject m2) \<and>
      rel_option json_eq (map_of m2 k) (map_of n k) \<and> (\<forall>x. x \<noteq> k \<longrightarrow> map_of m2 x = map_of m1 x)"
  proof (cases "map_of n k")
    case None
    have "apply_operations ops j = Inr (assign r (JObject (filter (\<lambda>p. fst p \<noteq> k) m1)) j)"
      using kv None remove_key [OF r d look] by (simp add: path key_path_tokens)
    then show ?thesis using w
      by (intro exI [of _ "filter (\<lambda>p. fst p \<noteq> k) m1"]) (simp add: None lookup_removed sorted_removed)
  next
    case (Some y)
    note q = spot_key [OF r d look]
    have "leads ops (r @ [Key k]) j y" using kv Some q by (simp add: path key_path_tokens)
    then obtain u where u: "apply_operations ops j = Inr (assign r (JObject (obj_set k u m1)) j)" "wf_json u" "json_eq u y"
      using q by (auto simp: leads_def)
    have "wf_json (JObject (obj_set k u m1))" using wf_lookup [OF w look] u(2) by (intro wf_obj_set w) auto
    then show ?thesis using u by (intro exI [of _ "obj_set k u m1"]) (simp add: Some del: wf_json.simps)
  qed
  then obtain m2 where m2: "apply_operations ops j = Inr (assign r (JObject m2) j)" "wf_json (JObject m2)"
    "rel_option json_eq (map_of m2 k) (map_of n k)" "\<forall>x. x \<noteq> k \<longrightarrow> map_of m2 x = map_of m1 x" by blast
  let ?j = "assign r (JObject m2) j"
  have j2: "spot r ?j" "deref r ?j = JObject m2" using r by (rule spot_assign [OF _ m2(2)]) (rule spot_deref [OF r])
  have "\<forall>p \<in> set m. map_of m2 (fst p) = Some (snd p)"
  proof
    fix p assume p: "p \<in> set m"
    then have "fst p \<noteq> k" using assms(3) by auto
    then show "map_of m2 (fst p) = Some (snd p)" using m1 m2(4) p by auto
  qed
  from leads_membersD [OF assms(2) j2(1) path j2(2) this]
  obtain m3 where m3: "apply_operations ops' ?j = Inr (assign r (JObject m3) ?j)" "wf_json (JObject m3)"
    "\<forall>x. if x \<in> fst ` set m then rel_option json_eq (map_of m3 x) (map_of n x) else map_of m3 x = map_of m2 x"
    by blast
  have "if x \<in> fst ` set ((k, v) # m) then rel_option json_eq (map_of m3 x) (map_of n x) else map_of m3 x = map_of m1 x" for x
    using m3(3) [rule_format, of x] m2(3) m2(4) [rule_format, of x] assms(3) by (cases "x = k") simp_all
  then show "\<exists>m3. apply_operations (ops @ ops') j = Inr (assign r (JObject m3) j) \<and> wf_json (JObject m3) \<and>
      (\<forall>x. if x \<in> fst ` set ((k, v) # m) then rel_option json_eq (map_of m3 x) (map_of n x) else map_of m3 x = map_of m1 x)"
    using m2(1) m3(1,2) by (intro exI [of _ m3]) (simp add: apply_append del: wf_json.simps)
qed

lemma leads_array:
  assumes "leads_elements ops 0 a b path" and r: "spot r j" and path: "path = to_string (tokens r)"
    and d: "deref r j = JArray a" and a: "length a < 2147483648" and b: "good (JArray b)"
  shows "leads (ops @ rev (map (\<lambda>i. op_remove (index_path path i)) [length b..<length a]) @
      map (\<lambda>i. op_add (index_path path i) (b ! i)) [length a..<length b]) r j (JArray b)"
proof -
  from leads_elementsD [OF assms(1) r path, of "[]"] d a
  obtain c where c: "apply_operations ops j = Inr (assign r (JArray (c @ drop (length b) a)) j)"
    "\<forall>x \<in> set c. wf_json x" "list_all2 json_eq c (take (length a) b)" by auto
  have len: "length c = min (length b) (length a)" using list_all2_lengthD [OF c(3)] by simp
  have wfb: "\<forall>x \<in> set b. wf_json x" using b by (simp add: good_def)
  let ?j = "assign r (JArray (c @ drop (length b) a)) j"
  show ?thesis
  proof (cases "length b \<le> length a")
    case True
    have "\<forall>x \<in> set a. wf_json x" using spot_wf [OF r] d by simp
    then have "wf_json (JArray (c @ drop (length b) a))" using c(2) by (auto dest: in_set_dropD)
    then have "spot r ?j" using r by (simp add: spot_assign)
    moreover have "length (c @ drop (length b) a) = length a" using True len by simp
    ultimately have "apply_operations (rev (map (\<lambda>i. op_remove (index_path path i)) [length b..<length a])) ?j =
        Inr (assign r (JArray c) j)"
      using apply_removals [of r ?j c "drop (length b) a"] r len True a by (simp add: path)
    then show ?thesis using c True len by (auto simp: leads_def apply_append)
  next
    case False
    have l: "length (c @ drop (length a) b) = length b" "length (take (length a) b) = length c" "length c = length a"
      using False len by simp_all
    have "spot r ?j" "deref r ?j = JArray c" using r c(2) False by (simp_all add: spot_assign)
    then have "apply_operations (map (\<lambda>i. op_add (index_path path i) (b ! i)) [length a..<length b]) ?j =
        Inr (assign r (JArray (c @ drop (length a) b)) ?j)"
      using apply_additions [of r ?j c "drop (length a) b" "take (length a) b"] l wfb b
      by (auto simp: path good_def dest: in_set_dropD)
    moreover have drp: "\<forall>x \<in> set (drop (length a) b). wf_json x" using wfb in_set_dropD by fast
    then have "list_all2 json_eq (drop (length a) b) (drop (length a) b)"
      by (simp add: list_all2_same json_eq_refl)
    then have "list_all2 json_eq (c @ drop (length a) b) b"
      using list_all2_appendI [OF c(3), of "drop (length a) b" "drop (length a) b"] by simp
    moreover have "\<forall>x \<in> set (c @ drop (length a) b). wf_json x" using c(2) drp by auto
    ultimately show ?thesis using c(1) False unfolding leads_def
      by (intro exI [of _ "JArray (c @ drop (length a) b)"]) (simp add: apply_append)
  qed
qed

lemma lookup_filter:
  "map_of (filter (\<lambda>(k, v). P k) n) k = (if P k then map_of n k else None)"
  by (induction n) auto

lemma leads_object:
  assumes "leads_members ops m n path" and r: "spot r j" and path: "path = to_string (tokens r)"
    and d: "deref r j = JObject m" and n: "good (JObject n)"
  shows "leads (ops @ map (\<lambda>(k, v). op_add (key_path path k) v) (filter (\<lambda>(k, v). map_of m k = None) n))
      r j (JObject n)"
proof -
  let ?n = "filter (\<lambda>(k, v). map_of m k = None) n"
  have m: "wf_json (JObject m)" using spot_wf [OF r] d by simp
  then have dist: "distinct (map fst m)" by (simp add: strict_sorted_iff)
  have wfn: "sorted_keys n" "\<forall>p \<in> set n. utf8 (fst p) \<and> wf_json (snd p)" using n by (simp_all add: good_def)
  have "\<forall>p \<in> set m. map_of m (fst p) = Some (snd p)" using dist by simp
  from leads_membersD [OF assms(1) r path d this]
  obtain m2 where m2: "apply_operations ops j = Inr (assign r (JObject m2) j)" "wf_json (JObject m2)"
    "\<forall>k. if k \<in> fst ` set m then rel_option json_eq (map_of m2 k) (map_of n k) else map_of m2 k = map_of m k"
    by blast
  let ?j = "assign r (JObject m2) j"
  have fn: "sorted_keys ?n" "\<forall>p \<in> set ?n. utf8 (fst p) \<and> wf_json (snd p)" using wfn by (simp_all add: sorted_removed)
  have "spot r ?j" "deref r ?j = JObject m2" using r by (rule spot_assign [OF _ m2(2)]) (rule spot_deref [OF r])
  then have "apply_operations (map (\<lambda>(k, v). op_add (key_path path k) v) ?n) ?j =
      Inr (assign r (JObject (add_all ?n m2)) j)"
    using apply_members [of r ?j m2 ?n] fn(2) path by simp
  moreover have w: "wf_json (JObject (add_all ?n m2))" by (rule add_all_wf [OF m2(2) fn(2)])
  moreover have "rel_option json_eq (map_of (add_all ?n m2) k) (map_of n k)" for k
  proof (cases "k \<in> fst ` set m")
    case True
    then have "map_of m k \<noteq> None" by (simp add: map_of_eq_None_iff)
    then have "map_of ?n k = None" unfolding lookup_filter by presburger
    then have "map_of (add_all ?n m2) k = map_of m2 k" by (simp add: add_all_lookup [OF fn(1)])
    then show ?thesis using m2(3) True by simp
  next
    case False
    then have "map_of m k = None" by (simp add: map_of_eq_None_iff)
    moreover have "map_of m2 k = None" using m2(3) False calculation by auto
    ultimately have "map_of (add_all ?n m2) k = map_of n k"
      by (simp add: add_all_lookup [OF fn(1)] lookup_filter split: option.splits)
    then show ?thesis using wfn(2) json_eq_refl by (cases "map_of n k") (auto dest!: map_of_SomeD)
  qed
  then have "json_eq (JObject (add_all ?n m2)) (JObject n)"
    using sorted_rel [of "add_all ?n m2" n json_eq] w wfn(1) by simp
  ultimately show ?thesis using m2(1) unfolding leads_def
    by (intro exI [of _ "JObject (add_all ?n m2)"]) (simp add: apply_append del: wf_json.simps json_eq.simps)
qed

lemma leads_replace: "spot r j \<Longrightarrow> wf_json y \<Longrightarrow> leads [op_replace (to_string (tokens r)) y] r j y"
  by (auto simp: leads_def apply_replace intro!: exI [of _ y] json_eq_refl)

lemma leads_nothing: "spot r j \<Longrightarrow> deref r j = x \<Longrightarrow> json_eq x y \<Longrightarrow> leads [] r j y"
  using spot_wf [of r j] by (auto simp: leads_def spot_same intro!: exI [of _ x])

lemma diff_leads:
  "good x \<Longrightarrow> good y \<Longrightarrow>
     \<forall>r j. spot r j \<and> deref r j = x \<and> path = to_string (tokens r) \<longrightarrow> leads (diff_ops x y path) r j y"
  "\<forall>x \<in> set a. good x \<Longrightarrow> \<forall>y \<in> set b. good y \<Longrightarrow> leads_elements (diff_elements i a b path) i a b path"
  "sorted_keys m \<Longrightarrow> \<forall>p \<in> set m. good (snd p) \<Longrightarrow> \<forall>p \<in> set n. good (snd p) \<Longrightarrow>
     leads_members (diff_members m n path) m n path"
proof (induction x y path and i a b path and m n path rule: diff_ops_diff_elements_diff_members.induct)
  case (1 x y path)
  show ?case
  proof (intro allI impI, elim conjE)
    fix r j
    assume r: "spot r j" and d: "deref r j = x" and path: "path = to_string (tokens r)"
    have y: "wf_json y" using "1.prems" by (simp add: good_def)
    consider (same) "json_eq x y"
      | (array) a b where "\<not> json_eq x y" "x = JArray a" "y = JArray b"
      | (object) m n where "\<not> json_eq x y" "x = JObject m" "y = JObject n"
      | (other) "\<not> json_eq x y" "\<nexists>a b. x = JArray a \<and> y = JArray b" "\<nexists>m n. x = JObject m \<and> y = JObject n"
      by blast
    then show "leads (diff_ops x y path) r j y"
    proof cases
      case same
      then show ?thesis using leads_nothing [OF r d] by simp
    next
      case array
      then have "leads_elements (diff_elements 0 a b path) 0 a b path" using 1 by (simp add: good_simps)
      then show ?thesis using leads_array [OF _ r path, of _ a b] array d "1.prems" by (simp add: good_simps)
    next
      case object
      then have "leads_members (diff_members m n path) m n path" using 1 by (simp add: good_simps)
      then show ?thesis using leads_object [OF _ r path, of _ m n] object d "1.prems" by simp
    next
      case other
      then have "diff_ops x y path = [op_replace path y]" by (cases x; cases y) simp_all
      then show ?thesis using leads_replace [OF r y] path by simp
    qed
  qed
next
  case (2 i x a y b path)
  then show ?case using leads_elements_Cons [of x "index_path path i" _ y _ i a b path] by (simp del: diff_ops.simps)
next
  case (4 n path)
  then show ?case by (simp add: leads_members_Nil)
next
  case (5 k v m n path)
  have "k \<notin> fst ` set m" using "5.prems" by auto
  moreover have "leads_members (diff_members m n path) m n path" using 5 by simp
  moreover have "case map_of n k of
      Some w \<Rightarrow> \<forall>r j. spot r j \<and> deref r j = v \<and> key_path path k = to_string (tokens r) \<longrightarrow>
        leads (diff_ops v w (key_path path k)) r j w
    | None \<Rightarrow> True"
  proof (cases "map_of n k")
    case (Some w)
    have "good v" "good w" using "5.prems" map_of_SomeD [OF Some] by auto
    from "5.IH"(1) [OF Some this] Some show ?thesis by simp
  qed simp
  ultimately show ?case
    using leads_members_Cons [where n = n and k = k and v = v and path = path and m = m and ops' = "diff_members m n path"] by (auto simp del: diff_ops.simps split: option.splits)
qed (simp_all add: leads_elements_Nil)

text \<open>
  C23. A difference is a patch that leads to the target: for all well-formed values, whose arrays are
  short enough for an index of 32 bits, \<open>patch\<close> of \<open>source\<close> with \<open>diff\<close> of the two values throws
  nothing, and its result is well formed and equal to \<open>target\<close> in the sense of \<open>operator==\<close>.
\<close>

theorem diff_then_patch:
  assumes "wf_json source" and "wf_json target" and "small_json source" and "small_json target"
  shows "\<exists>v. json_patch source (json_diff source target []) = Inr v \<and> wf_json v \<and> json_eq v target"
  using diff_leads(1) [of source target "[]"] assms
  by (auto simp: json_patch_def json_diff_def leads_def spot_def good_def to_string_def dest: spec [of _ "[]"])

definition ex_source :: json where
  "ex_source = JObject [(''a/b'', JArray [JUnsigned 1, JUnsigned 2, JNull]), (''c'', JString ''x'')]"

definition ex_target :: json where
  "ex_target = JObject [(''a/b'', JArray [JUnsigned 1, JObject []]), (''d'', JArray [JBoolean True])]"

lemma ex_source_wf: "wf_json ex_source" "wf_json ex_target" "small_json ex_source" "small_json ex_target"
proof -
  have "utf8 ''a/b''" "utf8 ''c''" "utf8 ''d''" "utf8 ''x''" by (rule utf8_ascii; simp)+
  then show "wf_json ex_source" "wf_json ex_target" by (simp_all add: ex_source_def ex_target_def inu64_def)
  show "small_json ex_source" "small_json ex_target" by (simp_all add: ex_source_def ex_target_def)
qed

lemma diff_then_patch_witness:
  "\<exists>v. json_patch ex_source (json_diff ex_source ex_target []) = Inr v \<and> wf_json v \<and> json_eq v ex_target"
  by (rule diff_then_patch [OF ex_source_wf])

section \<open>Where the text of the library says otherwise\<close>

text \<open>
  An addition below a number ends at \<open>assert(false)\<close>, which a comment calls impossible; an addition
  creates the objects that are missing on its way, but the first; a removal below a number is no error.
\<close>

lemma add_below_number: "apply_operation (op_add ''/a'' JNull) (JUnsigned 5) = Inl (Json_fail Assertion)"
  by code_simp

lemma add_creates_parents:
  "apply_operation (op_add ''/a/b/c'' JNull) (JObject [(''a'', JObject [])]) =
     Inr (JObject [(''a'', JObject [(''b'', JObject [(''c'', JNull)])])])"
  by code_simp

lemma remove_below_number: "apply_operation (op_remove ''/a'') (JUnsigned 5) = Inr (JUnsigned 5)"
  by code_simp

text \<open>An index that is no number leaves the library as \<open>std::invalid_argument\<close>.\<close>

lemma add_at_word: "apply_operation (op_add ''/x'' JNull) (JArray []) = Inl Std_invalid_argument"
  by code_simp

text \<open>An object whose first member is called 0 comes back from \<open>flatten\<close> as an array.\<close>

lemma flatten_loses_object: "unflatten (flatten (JObject [(''0'', JNull)])) = Inr (JArray [JNull])"
  by code_simp

end
