(* ===== verification/Json_Modify.thy ===== *)
theory Json_Modify
  imports Json_Accept
begin

text \<open>
  The modifiers and the lookup of \<open>basic_json\<close> that need no iterator: \<open>push_back\<close>, \<open>emplace_back\<close>,
  \<open>emplace\<close>, \<open>update\<close>, \<open>erase\<close>, \<open>clear\<close>, \<open>count\<close> and \<open>contains\<close>. A \<open>null\<close> becomes an empty container when
  an element is added to it.
\<close>

section \<open>Operations\<close>

definition cannot :: "int \<Rightarrow> string \<Rightarrow> json \<Rightarrow> json_exception" where
  "cannot i fname j = type_error_create i (''cannot use '' @ fname @ ''() with '' @ type_name (m_type j))"

definition push_back :: "json \<Rightarrow> json \<Rightarrow> json jres" where
  "push_back j v =
     (case (if j = JNull then JArray [] else j) of
        JArray a \<Rightarrow> Inr (JArray (a @ [v]))
      | _ \<Rightarrow> Inl (Throw (cannot 308 ''push_back'' j)))"

text \<open>\<open>insert\<close> and \<open>emplace\<close> of \<open>std::map\<close>: an element that is there stays; whether one was inserted.\<close>

definition map_insert :: "string \<Rightarrow> 'v \<Rightarrow> (string \<times> 'v) list \<Rightarrow> (string \<times> 'v) list \<times> bool" where
  "map_insert k v m = (case map_of m k of Some _ \<Rightarrow> (m, False) | None \<Rightarrow> (obj_set k v m, True))"

definition push_back_member :: "json \<Rightarrow> string \<Rightarrow> json \<Rightarrow> json jres" where
  "push_back_member j k v =
     (case (if j = JNull then JObject [] else j) of
        JObject m \<Rightarrow> Inr (JObject (fst (map_insert k v m)))
      | _ \<Rightarrow> Inl (Throw (cannot 308 ''push_back'' j)))"

definition emplace_back :: "json \<Rightarrow> json \<Rightarrow> json jres" where
  "emplace_back j v =
     (case (if j = JNull then JArray [] else j) of
        JArray a \<Rightarrow> Inr (JArray (a @ [v]))
      | _ \<Rightarrow> Inl (Throw (cannot 311 ''emplace_back'' j)))"

definition emplace :: "json \<Rightarrow> string \<Rightarrow> json \<Rightarrow> (json \<times> bool) jres" where
  "emplace j k v =
     (case (if j = JNull then JObject [] else j) of
        JObject m \<Rightarrow> (let (m', inserted) = map_insert k v m in Inr (JObject m', inserted))
      | _ \<Rightarrow> Inl (Throw (cannot 311 ''emplace'' j)))"

text \<open>
  \<open>update\<close>: the value afterwards, and the exception if there is one; a \<open>null\<close> has become an object also
  when the exception is about the other value.
\<close>

definition json_update :: "json \<Rightarrow> json \<Rightarrow> json \<times> json_exception option" where
  "json_update j other =
     (let j1 = (if j = JNull then JObject [] else j) in
      case j1 of
        JObject m \<Rightarrow>
          (case other of
             JObject m' \<Rightarrow> (JObject (fold (\<lambda>(k, v). obj_set k v) m' m), None)
           | _ \<Rightarrow> (j1, Some (cannot 312 ''update'' other)))
      | _ \<Rightarrow> (j1, Some (cannot 312 ''update'' j1)))"

text \<open>Both forms of \<open>erase\<close> without iterators; the first one also returns the number of elements removed.\<close>

definition erase_key :: "json \<Rightarrow> string \<Rightarrow> (json \<times> nat) jres" where
  "erase_key j key =
     (case j of
        JObject m \<Rightarrow> (let m' = filter (\<lambda>p. fst p \<noteq> key) m in Inr (JObject m', length m - length m'))
      | _ \<Rightarrow> Inl (Throw (cannot 307 ''erase'' j)))"

definition erase_index :: "json \<Rightarrow> nat \<Rightarrow> json jres" where
  "erase_index j idx =
     (case j of
        JArray a \<Rightarrow>
          (if json_size j \<le> idx
           then Inl (Throw (out_of_range_create 401 (''array index '' @ dec_int (int idx) @ '' is out of range'')))
           else Inr (JArray (take idx a @ drop (Suc idx) a)))
      | _ \<Rightarrow> Inl (Throw (cannot 307 ''erase'' j)))"

definition key_count :: "json \<Rightarrow> string \<Rightarrow> nat" where
  "key_count j key = (case j of JObject m \<Rightarrow> length (filter (\<lambda>p. fst p = key) m) | _ \<Rightarrow> 0)"

definition key_contained :: "json \<Rightarrow> string \<Rightarrow> bool" where
  "key_contained j key = (case j of JObject m \<Rightarrow> map_of m key \<noteq> None | _ \<Rightarrow> False)"

fun json_clear :: "json \<Rightarrow> json" where
  "json_clear (JInteger i) = JInteger 0"
| "json_clear (JUnsigned i) = JUnsigned 0"
| "json_clear (JFloat d) = JFloat 0"
| "json_clear (JBoolean b) = JBoolean False"
| "json_clear (JString s) = JString []"
| "json_clear (JArray a) = JArray []"
| "json_clear (JObject m) = JObject []"
| "json_clear j = j"

section \<open>What the operations do\<close>

text \<open>As the documentation of \<open>clear\<close> says, it leaves the value that is constructed from the type.\<close>

lemma clear_of_type: "json_clear j = json_of_type (m_type j)"
  by (cases j) simp_all

lemma count_contained:
  assumes "wf_json j"
  shows "key_count j key = (if key_contained j key then 1 else 0)"
proof (cases j)
  case (JObject m)
  have "sorted_keys m \<Longrightarrow> length (filter (\<lambda>p. fst p = key) m) = (if map_of m key \<noteq> None then 1 else 0)"
  proof (induction m)
    case (Cons p m)
    then show ?case by (cases p) (auto simp: map_of_eq_None_iff filter_empty_conv image_iff)
  qed simp
  then show ?thesis using assms JObject by (simp add: key_count_def key_contained_def)
qed (simp_all add: key_count_def key_contained_def)

lemma update_merges:
  assumes "sorted_keys m"
  shows "\<exists>n. json_update (JObject m) (JObject m') = (JObject n, None) \<and> sorted_keys n \<and>
    map_of n = map_of m ++ map_of (rev m')"
proof -
  have "sorted_keys m \<Longrightarrow> sorted_keys (fold (\<lambda>(k, v). obj_set k v) m' m) \<and>
      map_of (fold (\<lambda>(k, v). obj_set k v) m' m) = map_of m ++ map_of (rev m')" for m
  proof (induction m' arbitrary: m)
    case (Cons p m')
    obtain k v where p: "p = (k, v)" by fastforce
    have "map_of (obj_set k v m) = (map_of m)(k \<mapsto> v)" by (rule ext) simp
    then have "map_of (obj_set k v m) ++ map_of (rev m') = map_of m ++ map_of (rev (p # m'))"
      by (simp only: p rev.simps map_of_append map_add_assoc) simp
    then show ?case using Cons.IH [of "obj_set k v m"] Cons.prems by (simp only: p fold_simps comp_def split_conv sorted_obj_set)
  qed simp
  then show ?thesis using assms by (simp add: json_update_def)
qed

text \<open>A member that is added is found, and erasing it leads back.\<close>

lemma filter_obj_set: "k \<notin> fst ` set m \<Longrightarrow> filter (\<lambda>p. fst p \<noteq> k) (obj_set k v m) = m"
proof (induction m)
  case (Cons p m)
  have "filter (\<lambda>p. fst p \<noteq> k) m = m" using Cons.prems by (auto intro!: filter_True)
  then show ?case using Cons by (cases p) auto
qed simp

lemma length_obj_set: "k \<notin> fst ` set m \<Longrightarrow> length (obj_set k v m) = Suc (length m)"
proof (induction m)
  case (Cons p m)
  then show ?case by (cases p) auto
qed simp

lemma emplace_then_erase:
  assumes "\<not> key_contained (JObject m) k"
  shows "\<exists>j. emplace (JObject m) k v = Inr (j, True) \<and> push_back_member (JObject m) k v = Inr j \<and>
    key_contained j k \<and> json_at_key j k = Inr v \<and> erase_key j k = Inr (JObject m, 1)"
proof -
  have "k \<notin> fst ` set m" using assms by (simp add: key_contained_def map_of_eq_None_iff)
  then show ?thesis using assms
    by (simp add: key_contained_def emplace_def map_insert_def push_back_member_def json_at_key_def erase_key_def
        filter_obj_set length_obj_set Let_def)
qed

lemma push_back_then_erase:
  "push_back (JArray a) v = Inr (JArray (a @ [v])) \<and> json_at (JArray (a @ [v])) (length a) = Inr v \<and>
   erase_index (JArray (a @ [v])) (length a) = Inr (JArray a)"
  by (simp add: push_back_def json_at_def erase_index_def)

section \<open>Well-formed values stay well formed\<close>

lemma wf_map_insert: "utf8 k \<Longrightarrow> wf_json v \<Longrightarrow> wf_json (JObject m) \<Longrightarrow> wf_json (JObject (fst (map_insert k v m)))"
  using wf_obj_set [of k v m] by (simp add: map_insert_def del: wf_json.simps split: option.split)

lemma push_back_wf:
  assumes "wf_json v" "wf_json j" "push_back j v = Inr j' \<or> emplace_back j v = Inr j'"
  shows "wf_json j'"
  using assms by (auto simp: push_back_def emplace_back_def split: json.splits if_splits)

lemma add_member_wf:
  assumes "utf8 k" "wf_json v" "wf_json j" "push_back_member j k v = Inr j' \<or> emplace j k v = Inr (j', inserted)"
  shows "wf_json j'"
proof -
  obtain m where "j' = JObject (fst (map_insert k v m))" "wf_json (JObject m)"
    using assms(3,4) by (cases j) (auto simp: push_back_member_def emplace_def case_prod_beta Let_def)
  then show ?thesis using wf_map_insert [OF assms(1,2)] by blast
qed

lemma fold_obj_set_wf:
  "wf_json (JObject m) \<Longrightarrow> \<forall>p \<in> set m'. utf8 (fst p) \<and> wf_json (snd p) \<Longrightarrow>
     wf_json (JObject (fold (\<lambda>(k, v). obj_set k v) m' m))"
proof (induction m' arbitrary: m)
  case (Cons p m')
  have p: "utf8 (fst p)" "wf_json (snd p)" using Cons.prems(2) by simp_all
  have "wf_json (JObject (fold (\<lambda>(k, v). obj_set k v) m' (obj_set (fst p) (snd p) m)))"
    by (rule Cons.IH [OF wf_obj_set [OF p Cons.prems(1)]]) (use Cons.prems(2) in simp)
  then show ?case by (cases p) (simp only: fold_simps comp_def split_conv fst_conv snd_conv)
qed simp

lemma update_wf:
  assumes "wf_json j" "wf_json other"
  shows "wf_json (fst (json_update j other))"
proof (cases "\<exists>m'. other = JObject m'")
  case True
  then obtain m' where o: "other = JObject m'" by blast
  have "wf_json (JObject (fold (\<lambda>(k, v). obj_set k v) m' m))" if "wf_json (JObject m)" for m
    by (rule fold_obj_set_wf [OF that]) (use assms(2) in \<open>simp add: o\<close>)
  moreover have "wf_json (JObject [])" by simp
  ultimately show ?thesis using assms(1) by (cases j) (simp_all add: o json_update_def Let_def del: wf_json.simps(2))
next
  case False
  then show ?thesis using assms(1) by (cases j; cases other) (simp_all add: json_update_def Let_def)
qed

lemma erase_key_wf: "wf_json j \<Longrightarrow> erase_key j k = Inr (j', n) \<Longrightarrow> wf_json j'"
  by (cases j) (auto simp: erase_key_def Let_def sorted_wrt_map intro: sorted_wrt_filter)

lemma erase_index_wf:
  assumes "wf_json j" "erase_index j i = Inr j'"
  shows "wf_json j'"
proof (cases j)
  case (JArray a)
  then have "\<forall>x \<in> set a. wf_json x" using assms(1) by simp
  then have "wf_json (JArray (take i a @ drop (Suc i) a))" using set_take_subset [of i a] set_drop_subset [of "Suc i" a]
    by simp blast
  then show ?thesis using assms(2) JArray by (auto simp: erase_index_def simp del: wf_json.simps split: if_splits)
qed (use assms in \<open>simp_all add: erase_index_def\<close>)

text \<open>A failed \<open>update\<close> of a \<open>null\<close> leaves an empty object behind.\<close>

lemma failed_update_changes_null:
  "\<exists>ex. json_update JNull (JArray []) = (JObject [], Some ex)"
  by (simp add: json_update_def)

end
