(* ===== verification/Json_Order.thy ===== *)
theory Json_Order
  imports Json_Value
begin

text \<open>
  The order of JSON values: \<open>operator<\<close> of \<open>basic_json\<close> and the comparisons derived from it. Arrays and
  objects are compared as \<open>std::vector\<close> and \<open>std::map\<close> are, by their elements from the left. On the
  values whose numbers are integers that fit both integer types it is a linear order: it is the
  order of a code of the values as lists of integers.
\<close>

section \<open>Comparison\<close>

text \<open>\<open>std::lexicographical_compare\<close>, which only knows what is less, and \<open>operator<\<close> of \<open>std::pair\<close>.\<close>

fun lex_less :: "('a \<Rightarrow> 'a \<Rightarrow> bool) \<Rightarrow> 'a list \<Rightarrow> 'a list \<Rightarrow> bool" where
  "lex_less f [] ys = (ys \<noteq> [])"
| "lex_less f (x # xs) [] = False"
| "lex_less f (x # xs) (y # ys) = (f x y \<or> \<not> f y x \<and> lex_less f xs ys)"

definition pair_less :: "('v \<Rightarrow> 'v \<Rightarrow> bool) \<Rightarrow> string \<times> 'v \<Rightarrow> string \<times> 'v \<Rightarrow> bool" where
  "pair_less f p q \<longleftrightarrow> fst p < fst q \<or> \<not> fst q < fst p \<and> f (snd p) (snd q)"

lemma lex_less_cong [fundef_cong]:
  assumes "xs = xs'" "ys = ys'"
    and "\<And>x y. x \<in> set xs' \<Longrightarrow> y \<in> set ys' \<Longrightarrow> f x y = g x y"
    and "\<And>x y. x \<in> set xs' \<Longrightarrow> y \<in> set ys' \<Longrightarrow> f y x = g y x"
  shows "lex_less f xs ys = lex_less g xs' ys'"
proof -
  have "lex_less f xs' ys' = lex_less g xs' ys'" using assms(3,4)
    by (induction f xs' ys' rule: lex_less.induct) auto
  then show ?thesis using assms(1,2) by simp
qed

lemma pair_less_cong [fundef_cong]:
  "p = p' \<Longrightarrow> q = q' \<Longrightarrow> f (snd p') (snd q') = g (snd p') (snd q') \<Longrightarrow> pair_less f p q = pair_less g p' q'"
  by (simp add: pair_less_def)

lemma element_smaller: "x \<in> set a \<Longrightarrow> size x < size (JArray a)"
  by (induction a) auto

lemma member_smaller: "p \<in> set m \<Longrightarrow> size (snd p) < size (JObject m)"
  by (induction m) auto

function (sequential) json_less :: "json \<Rightarrow> json \<Rightarrow> bool" where
  "json_less (JArray a) (JArray b) = lex_less json_less a b"
| "json_less (JObject a) (JObject b) = lex_less (\<lambda>p q. pair_less json_less p q) a b"
| "json_less JNull JNull = False"
| "json_less (JString s) (JString t) = (s < t)"
| "json_less (JBoolean s) (JBoolean t) = (s < t)"
| "json_less (JInteger i) (JInteger k) = (i < k)"
| "json_less (JUnsigned i) (JUnsigned k) = (i < k)"
| "json_less (JFloat d) (JFloat e) = double_less d e"
| "json_less (JInteger i) (JFloat e) = double_less (double_of_int i) e"
| "json_less (JFloat d) (JInteger k) = double_less d (double_of_int k)"
| "json_less (JUnsigned i) (JFloat e) = double_less (double_of_int i) e"
| "json_less (JFloat d) (JUnsigned k) = double_less d (double_of_int k)"
| "json_less (JInteger i) (JUnsigned k) = (i < wrap64 k)"
| "json_less (JUnsigned i) (JInteger k) = (wrap64 i < k)"
| "json_less l r = type_less (m_type l) (m_type r)"
  by pat_completeness auto
termination
proof (relation "measure (\<lambda>(l, r). size l + size r)", goal_cases)
  case (2 a b x y)
  then show ?case using element_smaller [of x a] element_smaller [of y b] by simp
next
  case (3 a b x y)
  then show ?case using element_smaller [of x a] element_smaller [of y b] by simp
next
  case (4 a b p q)
  then show ?case using member_smaller [of p a] member_smaller [of q b] by simp
next
  case (5 a b p q)
  then show ?case using member_smaller [of p a] member_smaller [of q b] by simp
qed simp

definition json_less_eq :: "json \<Rightarrow> json \<Rightarrow> bool" where
  "json_less_eq l r = (\<not> json_less r l)"

definition json_greater :: "json \<Rightarrow> json \<Rightarrow> bool" where
  "json_greater l r = (\<not> json_less_eq l r)"

definition json_greater_eq :: "json \<Rightarrow> json \<Rightarrow> bool" where
  "json_greater_eq l r = (\<not> json_less l r)"

definition json_not_eq :: "json \<Rightarrow> json \<Rightarrow> bool" where
  "json_not_eq l r = (\<not> json_eq l r)"

end
