(* ===== verification/Json_Order_Code.thy ===== *)
theory Json_Order_Code
  imports Json_Order
begin

text \<open>The order of JSON values is the order of their codes, and so it is linear.\<close>

section \<open>Codes\<close>

text \<open>
  A code of a value as a list of integers. It begins with the place of the type in the order of types, and 0, which
  is less than everything that can stand in its place, ends a string, an array and an object.
\<close>

definition string_code :: "string \<Rightarrow> int list" where
  "string_code s = map (\<lambda>c. int (of_char c) + 1) s @ [0]"

definition list_code :: "('a \<Rightarrow> int list) \<Rightarrow> 'a list \<Rightarrow> int list" where
  "list_code c xs = concat (map c xs) @ [0]"

definition member_code :: "('v \<Rightarrow> int list) \<Rightarrow> string \<times> 'v \<Rightarrow> int list" where
  "member_code c p = 1 # string_code (fst p) @ c (snd p)"

lemma list_code_cong [fundef_cong]:
  "xs = xs' \<Longrightarrow> (\<And>x. x \<in> set xs' \<Longrightarrow> c x = d x) \<Longrightarrow> list_code c xs = list_code d xs'"
  by (auto simp: list_code_def intro!: arg_cong [where f = concat])

lemma member_code_cong [fundef_cong]:
  "p = p' \<Longrightarrow> c (snd p') = d (snd p') \<Longrightarrow> member_code c p = member_code d p'"
  by (simp add: member_code_def)

fun json_code :: "json \<Rightarrow> int list" where
  "json_code JNull = [1]"
| "json_code (JBoolean b) = [2, of_bool b]"
| "json_code (JInteger i) = [3, i]"
| "json_code (JUnsigned i) = [3, i]"
| "json_code (JFloat d) = [8]"
| "json_code (JObject m) = 4 # list_code (\<lambda>p. member_code json_code p) m"
| "json_code (JArray a) = 5 # list_code json_code a"
| "json_code (JString s) = 6 # string_code s"
| "json_code JDiscarded = [7]"

text \<open>The values that can be compared: integers in the range of both types, and no floating-point numbers.\<close>

fun comparable :: "json \<Rightarrow> bool" where
  "comparable (JInteger i) = in64 i"
| "comparable (JUnsigned i) = (0 \<le> i \<and> in64 i)"
| "comparable (JFloat d) = False"
| "comparable (JObject m) = list_all (\<lambda>p. comparable (snd p)) m"
| "comparable (JArray a) = list_all comparable a"
| "comparable JDiscarded = False"
| "comparable j = True"

text \<open>A code that can be told from what follows it, and one that does not begin as an end does.\<close>

definition apart :: "('a \<Rightarrow> int list) \<Rightarrow> 'a \<Rightarrow> bool" where
  "apart c x \<longleftrightarrow> (\<forall>y r r'. c x @ r = c y @ r' \<longrightarrow> c x = c y \<and> r = r')"

definition starts :: "('a \<Rightarrow> int list) \<Rightarrow> bool" where
  "starts c \<longleftrightarrow> (\<forall>x. \<exists>n t. c x = n # t \<and> 0 < n)"

text \<open>\<open>f\<close> is the order of the codes.\<close>

definition coded :: "('a \<Rightarrow> 'a \<Rightarrow> bool) \<Rightarrow> ('a \<Rightarrow> int list) \<Rightarrow> 'a \<Rightarrow> 'a \<Rightarrow> bool" where
  "coded f c x y \<longleftrightarrow> (f x y \<longleftrightarrow> c x < c y) \<and> (f y x \<longleftrightarrow> c y < c x)"

lemma less_append:
  fixes u v :: "int list"
  assumes "\<And>t t'. u @ t = v @ t' \<Longrightarrow> u = v"
  shows "u @ r < v @ r' \<longleftrightarrow> u < v \<or> u = v \<and> r < r'"
  using assms
proof (induction u arbitrary: v)
  case Nil
  then show ?case using Nil [of v "[]"] by auto
next
  case (Cons x u)
  show ?case
  proof (cases v)
    case Nil
    then show ?thesis using Cons.prems [of "[]" "x # u"] by simp
  next
    case (Cons y w)
    have "u = w" if "x = y" "u @ t = w @ t'" for t t' using Cons.prems [of t t'] that Cons by simp
    then show ?thesis using Cons.IH [of w] Cons by auto
  qed
qed

lemma apartI: "(\<And>y r r'. c x @ r = c y @ r' \<Longrightarrow> c x = c y \<and> r = r') \<Longrightarrow> apart c x"
  by (simp add: apart_def)

lemma append_apart: "apart c x \<Longrightarrow> c x @ r = c y @ r' \<longleftrightarrow> c x = c y \<and> r = r'"
  by (auto simp: apart_def)

lemma less_append_apart: "apart c x \<Longrightarrow> c x @ r < c y @ r' \<longleftrightarrow> c x < c y \<or> c x = c y \<and> r < r'"
  by (rule less_append) (auto simp: apart_def)

section \<open>Strings and lists\<close>

lemma string_code_apart: "string_code s @ r = string_code t @ r' \<longleftrightarrow> s = t \<and> r = r'"
proof (induction s arbitrary: t)
  case Nil
  then show ?case by (cases t) (auto simp: string_code_def)
next
  case (Cons c s)
  then show ?case by (cases t) (auto simp: string_code_def)
qed

lemma string_code_eq: "string_code s = string_code t \<longleftrightarrow> s = t"
  using string_code_apart [of s "[]" t "[]"] by simp

lemma char_code_less: "(of_char c :: nat) < of_char d \<longleftrightarrow> c < d"
  by (simp only: less_char_def)

lemma string_code_Cons: "string_code (c # s) = (int (of_char c) + 1) # string_code s"
  by (simp add: string_code_def)

lemma string_code_less: "string_code s < string_code t \<longleftrightarrow> s < t"
proof (induction s arbitrary: t)
  case Nil
  then show ?case by (cases t) (auto simp: string_code_def)
next
  case (Cons c s)
  show ?case
  proof (cases t)
    case (Cons d u)
    have "int (of_char c) + 1 < int (of_char d) + 1 \<longleftrightarrow> c < d" using char_code_less [of c d] by linarith
    moreover have "int (of_char c) + 1 = int (of_char d) + 1 \<longleftrightarrow> c = d" by simp
    ultimately show ?thesis unfolding Cons string_code_Cons Cons_less_Cons Cons.IH by blast
  qed (simp add: string_code_def)
qed

lemma list_code_simps [simp]: "list_code c [] = [0]" "list_code c (x # xs) = c x @ list_code c xs"
  by (simp_all add: list_code_def)

lemma starts_Cons:
  assumes "starts c"
  obtains n t where "c x = n # t" "0 < n"
  using assms unfolding starts_def by blast

lemma starts_not_0 [simp]: "starts c \<Longrightarrow> c x @ r \<noteq> 0 # r'" "starts c \<Longrightarrow> 0 # r' \<noteq> c x @ r"
  by (erule starts_Cons [of c x]; simp)+

lemma starts_less [simp]: "starts c \<Longrightarrow> 0 # r' < c x @ r" "starts c \<Longrightarrow> \<not> c x @ r < 0 # r'"
  by (erule starts_Cons [of c x]; simp)+

lemma list_code_apart:
  assumes "starts c" "\<And>x. x \<in> set xs \<Longrightarrow> apart c x"
  shows "list_code c xs @ r = list_code c ys @ r' \<longleftrightarrow> list_all2 (\<lambda>x y. c x = c y) xs ys \<and> r = r'"
  using assms(2)
proof (induction xs arbitrary: ys)
  case Nil
  then show ?case by (cases ys) (use assms(1) in auto)
next
  case (Cons x xs)
  then have "apart c x" "\<And>ys. list_code c xs @ r = list_code c ys @ r' \<longleftrightarrow> list_all2 (\<lambda>x y. c x = c y) xs ys \<and> r = r'"
    by simp_all
  then show ?case by (cases ys) (use assms(1) in \<open>auto simp: append_apart\<close>)
qed

lemma list_code_eq:
  assumes "starts c" "\<And>x. x \<in> set xs \<Longrightarrow> apart c x"
  shows "list_code c xs = list_code c ys \<longleftrightarrow> list_all2 (\<lambda>x y. c x = c y) xs ys"
  using list_code_apart [of c xs "[]" ys "[]"] assms by simp

lemma lex_less_code:
  assumes "starts c" "\<And>x. x \<in> set xs \<Longrightarrow> apart c x" "\<And>x y. x \<in> set xs \<Longrightarrow> y \<in> set ys \<Longrightarrow> coded f c x y"
  shows "lex_less f xs ys \<longleftrightarrow> list_code c xs < list_code c ys"
  using assms(2,3)
proof (induction f xs ys rule: lex_less.induct)
  case (1 f ys)
  then show ?case by (cases ys) (use assms(1) in auto)
next
  case (2 f x xs)
  then show ?case using assms(1) starts_less(2) [of c x "list_code c xs" "[]"] by simp
next
  case (3 f x xs y ys)
  then have "lex_less f xs ys \<longleftrightarrow> list_code c xs < list_code c ys" by simp
  moreover have "coded f c x y" "apart c x" using "3.prems" by simp_all
  ultimately show ?case by (auto simp: coded_def less_append_apart)
qed

section \<open>Values\<close>

lemma starts_json: "starts json_code"
proof -
  have "\<exists>n t. json_code x = n # t \<and> 0 < n" for x by (cases x) simp_all
  then show ?thesis by (simp add: starts_def)
qed

lemma starts_member: "starts (member_code json_code)"
  by (simp add: starts_def member_code_def)

lemma member_code_apart: "apart json_code (snd p) \<Longrightarrow> apart (member_code json_code) p"
  by (auto simp: apart_def member_code_def string_code_apart)

lemma json_code_apart: "apart json_code x"
proof (induction x)
  case (JObject m)
  have "apart (member_code json_code) p" if "p \<in> set m" for p
    using JObject [of p "snd p"] that by (intro member_code_apart) (simp add: snds.simps)
  then have "list_code (member_code json_code) m @ r = list_code (member_code json_code) m' @ r' \<longleftrightarrow>
      list_code (member_code json_code) m = list_code (member_code json_code) m' \<and> r = r'" for m' r r'
    by (simp add: list_code_apart list_code_eq starts_member)
  then have "json_code (JObject m) @ r = json_code y @ r' \<Longrightarrow> json_code (JObject m) = json_code y \<and> r = r'" for y r r'
    by (cases y) simp_all
  then show ?case by (simp add: apart_def)
next
  case (JArray a)
  then have "list_code json_code a @ r = list_code json_code b @ r' \<longleftrightarrow> list_code json_code a = list_code json_code b \<and> r = r'"
    for b r r' by (simp add: list_code_apart list_code_eq starts_json)
  then have "json_code (JArray a) @ r = json_code y @ r' \<Longrightarrow> json_code (JArray a) = json_code y \<and> r = r'" for y r r'
    by (cases y) simp_all
  then show ?case by (simp add: apart_def)
next
  case (JString s)
  have "json_code (JString s) @ r = json_code y @ r' \<Longrightarrow> json_code (JString s) = json_code y \<and> r = r'" for y r r'
    by (cases y) (auto simp: string_code_apart)
  then show ?case by (simp add: apart_def)
qed (rule apartI, rename_tac y r r', case_tac y, auto)+

section \<open>The order is that of the codes\<close>

lemma pair_less_code:
  assumes "json_less (snd p) (snd q) \<longleftrightarrow> json_code (snd p) < json_code (snd q)"
  shows "pair_less json_less p q \<longleftrightarrow> member_code json_code p < member_code json_code q"
proof -
  have "string_code (fst p) @ json_code (snd p) < string_code (fst q) @ json_code (snd q) \<longleftrightarrow>
      string_code (fst p) < string_code (fst q) \<or> string_code (fst p) = string_code (fst q) \<and> json_code (snd p) < json_code (snd q)"
    by (rule less_append) (simp add: string_code_apart)
  then show ?thesis using assms by (auto simp: pair_less_def member_code_def string_code_less string_code_eq)
qed

lemma json_less_code: "comparable a \<Longrightarrow> comparable b \<Longrightarrow> json_less a b \<longleftrightarrow> json_code a < json_code b"
proof (induction a b rule: json_less.induct)
  case (1 a b)
  then have "coded json_less json_code x y" if "x \<in> set a" "y \<in> set b" for x y
    using that by (simp add: coded_def list_all_iff)
  then show ?case by (simp add: lex_less_code starts_json json_code_apart)
next
  case (2 a b)
  then have "coded (\<lambda>p q. pair_less json_less p q) (\<lambda>p. member_code json_code p) p q" if "p \<in> set a" "q \<in> set b" for p q
    using that by (auto simp: coded_def list_all_iff pair_less_code)
  then show ?case by (simp add: lex_less_code starts_member member_code_apart json_code_apart)
qed (auto simp: type_less_def string_code_less)

lemma member_code_eq: "member_code json_code p = member_code json_code q \<longleftrightarrow> fst p = fst q \<and> json_code (snd p) = json_code (snd q)"
  by (simp add: member_code_def string_code_apart)

lemma json_eq_code: "comparable a \<Longrightarrow> comparable b \<Longrightarrow> json_eq a b \<longleftrightarrow> json_code a = json_code b"
proof (induction a b rule: json_eq.induct)
  case (1 a b)
  then have "list_all2 json_eq a b \<longleftrightarrow> list_all2 (\<lambda>x y. json_code x = json_code y) a b"
    by (intro list.rel_cong) (auto simp: list_all_iff)
  then show ?case by (simp add: list_code_eq starts_json json_code_apart)
next
  case (2 a b)
  then have "list_all2 (\<lambda>p q. fst p = fst q \<and> json_eq (snd p) (snd q)) a b \<longleftrightarrow>
      list_all2 (\<lambda>p q. member_code json_code p = member_code json_code q) a b"
    unfolding member_code_eq by (intro list.rel_cong) (auto simp: list_all_iff)
  then show ?case by (simp add: list_code_eq starts_member member_code_apart json_code_apart)
qed (auto simp: string_code_eq)

text \<open>
  C24. The comparison operators of JSON values agree: on values without floating-point numbers whose
  integers fit into 64 bits with a sign, \<open>operator<\<close> is transitive, and of any two values exactly one is less
  than the other or both are equal in the sense of \<open>operator==\<close>, at every depth of arrays and objects
  and between integers of different types.
\<close>

theorem json_less_linear:
  assumes "comparable a" "comparable b" "comparable c"
  shows "(json_less a b \<and> json_less b c \<longrightarrow> json_less a c) \<and> (json_less a b \<or> json_eq a b \<or> json_less b a) \<and>
    \<not> (json_less a b \<and> json_eq a b) \<and> \<not> (json_less a b \<and> json_less b a)"
  using assms by (auto simp: json_less_code json_eq_code)

definition ex_less :: "json list" where
  "ex_less = [JArray [JInteger (- 3), JNull], JArray [JUnsigned 7], JArray [JInteger 8, JObject [(''a'', JBoolean True)]]]"

lemma json_less_linear_witness:
  "json_less (ex_less ! 0) (ex_less ! 1) \<and> json_less (ex_less ! 1) (ex_less ! 2) \<and> json_less (ex_less ! 0) (ex_less ! 2)"
proof -
  have ok: "comparable (ex_less ! 0)" "comparable (ex_less ! 1)" "comparable (ex_less ! 2)"
    by (simp_all add: ex_less_def in64_def)
  have "json_less (ex_less ! 0) (ex_less ! 1)" "json_less (ex_less ! 1) (ex_less ! 2)"
    by (simp_all add: ex_less_def wrap64_def)
  then show ?thesis using json_less_linear [OF ok] by blast
qed

text \<open>A number that does not fit into 64 bits with a sign is taken for a negative one, and the order has a cycle.\<close>

lemma json_less_cycle:
  "json_less (JInteger 0) (JUnsigned 1) \<and> json_less (JUnsigned 1) (JUnsigned (2 ^ 63)) \<and>
   json_less (JUnsigned (2 ^ 63)) (JInteger 0)"
  by (simp add: wrap64_def)

text \<open>The derived operators on the same values.\<close>

lemma json_less_eq_code: "comparable a \<Longrightarrow> comparable b \<Longrightarrow> json_less_eq a b \<longleftrightarrow> json_less a b \<or> json_eq a b"
  by (auto simp: json_less_eq_def json_less_code json_eq_code)

lemma json_greater_code: "comparable a \<Longrightarrow> comparable b \<Longrightarrow> json_greater a b \<longleftrightarrow> json_less b a"
  by (simp add: json_greater_def json_less_eq_def)

text \<open>Values that compare to nothing, as those that are no numbers, are less or equal and greater or equal to everything.\<close>

lemma discarded_less_eq: "json_less_eq JDiscarded j \<and> json_greater_eq JDiscarded j \<and> json_not_eq JDiscarded j"
  by (cases j) (simp_all add: json_less_eq_def json_greater_eq_def json_not_eq_def type_less_def)

end
