(* ===== verification/Json_Binary.thy ===== *)
theory Json_Binary
  imports Json_Accept Json_Dump
begin

text \<open>
  What the binary formats of the JSON library share: the bytes of numbers, the reader with its last
  byte, the messages of errors, and the handler of events that is told the size of a container.
  Functions of \<open>binary_reader\<close> that return whether to go on return it here, with the state
  of the handler and the reader.
\<close>

section \<open>Bytes\<close>

text \<open>\<open>write_number\<close> of a number that is cast to \<open>w\<close> bytes, the most significant first.\<close>

fun be_bytes :: "nat \<Rightarrow> nat \<Rightarrow> string" where
  "be_bytes 0 n = []"
| "be_bytes (Suc w) n = be_bytes w (n div 256) @ [char_of (n mod 256)]"

definition be_val :: "string \<Rightarrow> nat" where
  "be_val bs = fold (\<lambda>c n. 256 * n + of_char c) bs 0"

definition write_number :: "nat \<Rightarrow> int \<Rightarrow> string" where
  "write_number w x = be_bytes w (nat (x mod 2 ^ (8 * w)))"

text \<open>The number of \<open>w\<close> bytes as a signed one.\<close>

definition sign_of :: "nat \<Rightarrow> nat \<Rightarrow> int" where
  "sign_of w n = (if n < 2 ^ (8 * w - 1) then int n else int n - 2 ^ (8 * w))"

lemma length_be_bytes [simp]: "length (be_bytes w n) = w"
  by (induction w arbitrary: n) auto

lemma length_write_number [simp]: "length (write_number w x) = w"
  by (simp add: write_number_def)

lemma be_val_snoc: "be_val (bs @ [c]) = 256 * be_val bs + of_char c"
  by (simp add: be_val_def)

lemma be_val_bytes: "n < 256 ^ w \<Longrightarrow> be_val (be_bytes w n) = n"
proof (induction w arbitrary: n)
  case (Suc w)
  then have "n div 256 < 256 ^ w" by (simp add: less_mult_imp_div_less mult.commute)
  then show ?case using Suc.IH by (simp add: be_val_snoc)
qed (simp add: be_val_def)

lemma be_val_write: "be_val (write_number w x) = nat (x mod 2 ^ (8 * w))"
proof -
  have "x mod 2 ^ (8 * w) < 2 ^ (8 * w)" "0 \<le> x mod 2 ^ (8 * w)" by simp_all
  then have "nat (x mod 2 ^ (8 * w)) < 2 ^ (8 * w)" by (simp add: nat_less_iff)
  then have "nat (x mod 2 ^ (8 * w)) < 256 ^ w" by (simp add: power_mult)
  then show ?thesis unfolding write_number_def by (rule be_val_bytes)
qed

lemma be_val_unsigned: "0 \<le> x \<Longrightarrow> x < 2 ^ (8 * w) \<Longrightarrow> be_val (write_number w x) = nat x"
  by (simp add: be_val_write)

lemma sign_of_write:
  assumes "0 < w" and "- (2 ^ (8 * w - 1)) \<le> x" and "x < 2 ^ (8 * w - 1)"
  shows "sign_of w (be_val (write_number w x)) = x"
proof -
  have p: "(2::int) ^ (8 * w) = 2 * 2 ^ (8 * w - 1)"
    using assms(1) by (simp add: power_eq_if)
  show ?thesis
  proof (cases "0 \<le> x")
    case True
    then have "be_val (write_number w x) = nat x" using assms(3) p by (intro be_val_unsigned) auto
    then show ?thesis using True assms(3) by (simp add: sign_of_def nat_less_iff)
  next
    case False
    have "x mod 2 ^ (8 * w) = (x + 2 ^ (8 * w)) mod 2 ^ (8 * w)" by simp
    also have "\<dots> = x + 2 ^ (8 * w)" using False assms(2) p by (intro mod_pos_pos_trivial) auto
    finally have m: "x mod 2 ^ (8 * w) = x + 2 ^ (8 * w)" .
    then have "be_val (write_number w x) = nat (x + 2 ^ (8 * w))" by (simp add: be_val_write)
    moreover have u: "2 ^ (8 * w - 1) \<le> x + 2 ^ (8 * w)" using assms(2) p by simp
    moreover have "0 \<le> x + 2 ^ (8 * w)" using order_trans [OF zero_le_power u] by simp
    ultimately show ?thesis using False by (simp add: sign_of_def nat_less_iff)
  qed
qed

section \<open>Floating-point numbers\<close>

text \<open>
  The number \<open>m * 2 ^ x\<close>, which is exact where \<open>m\<close> has at most 53 digits and the result is
  no subnormal number; infinity and what is no number, which becomes a quiet one; single
  precision numbers, which a \<open>double\<close> can all hold.
\<close>

definition double_scaled :: "int \<Rightarrow> int \<Rightarrow> double" where
  "double_scaled m x =
     (if m = 0 then 0
      else let l = bit_len m in
        word_of_int ((x + l + 1022) * 4503599627370496 + (m * 2 ^ nat (53 - l) - 4503599627370496)))"

definition double_special :: "int \<Rightarrow> double" where
  "double_special payload =
     word_of_int (if payload = 0 then 0x7FF0000000000000 else 0x7FF8000000000000 OR payload)"

definition double_signed :: "bool \<Rightarrow> double \<Rightarrow> double" where
  "double_signed neg d = (if neg then d XOR 0x8000000000000000 else d)"

definition double_of_single :: "int \<Rightarrow> double" where
  "double_of_single bits =
     (let ex = bits div 2 ^ 23 mod 0x100;
          mant = bits mod 2 ^ 23;
          val = (if ex = 0 then double_scaled mant (- 149)
                 else if ex = 255 then double_special (mant * 2 ^ 29)
                 else double_scaled (mant + 2 ^ 23) (ex - 150))
      in double_signed (bits div 2 ^ 31 mod 2 = 1) val)"

section \<open>The reader\<close>

datatype input_format_t = Format_bson | Format_cbor | Format_msgpack | Format_ubjson

text \<open>The end of the input is the byte -1.\<close>

record binary_reader =
  br_rest :: string
  br_current :: int
  br_chars_read :: nat

definition binary_reader_init :: "string \<Rightarrow> binary_reader" where
  "binary_reader_init input = \<lparr> br_rest = input, br_current = - 1, br_chars_read = 0 \<rparr>"

definition br_get :: "binary_reader \<Rightarrow> binary_reader" where
  "br_get b =
     (case br_rest b of
        [] \<Rightarrow> b\<lparr> br_current := - 1, br_chars_read := br_chars_read b + 1 \<rparr>
      | c # cs \<Rightarrow> b\<lparr> br_rest := cs, br_current := of_char c, br_chars_read := br_chars_read b + 1 \<rparr>)"

text \<open>Characters N are skipped where UBJSON allows them.\<close>

function get_ignore_noop :: "binary_reader \<Rightarrow> binary_reader" where
  "get_ignore_noop b = (let b1 = br_get b in if br_current b1 = 0x4E then get_ignore_noop b1 else b1)"
  by pat_completeness auto

termination
  by (relation "measure (\<lambda>b. length (br_rest b))") (auto simp: br_get_def split: list.splits)

declare get_ignore_noop.simps [simp del]

definition br_token_string :: "binary_reader \<Rightarrow> string" where
  "br_token_string b = hex2 (br_current b mod 256)"

definition br_exception_message :: "input_format_t \<Rightarrow> string \<Rightarrow> string \<Rightarrow> string" where
  "br_exception_message format detail context =
     ''syntax error while parsing '' @
     (case format of
        Format_cbor \<Rightarrow> ''CBOR''
      | Format_msgpack \<Rightarrow> ''MessagePack''
      | Format_ubjson \<Rightarrow> ''UBJSON''
      | Format_bson \<Rightarrow> ''BSON'') @ '' '' @ context @ '': '' @ detail"

text \<open>The size is given to the handler where the format has it.\<close>

record 's sized_sax = "'s sax" +
  sax_start_object_of :: "nat \<Rightarrow> 's \<Rightarrow> 's sax_result"
  sax_start_array_of :: "nat \<Rightarrow> 's \<Rightarrow> 's sax_result"

type_synonym 's bres = "(bool \<times> 's \<times> binary_reader) jres"
type_synonym ('v, 's) bval = "('v option \<times> 's \<times> binary_reader) jres"

definition send :: "'s sax_result \<Rightarrow> binary_reader \<Rightarrow> 's bres" where
  "send r b = mapE (\<lambda>(go, s). (go, s, b)) r"

text \<open>\<open>and\<close> of two calls, the second on what the first leaves; of a call that fills a variable.\<close>

definition and_then :: "'s bres \<Rightarrow> ('s \<Rightarrow> binary_reader \<Rightarrow> 's bres) \<Rightarrow> 's bres" where
  "and_then r k = bindE r (\<lambda>(go, s, b). if go then k s b else Inr (False, s, b))"

definition with_value :: "('v, 's) bval \<Rightarrow> ('v \<Rightarrow> 's \<Rightarrow> binary_reader \<Rightarrow> 's bres) \<Rightarrow> 's bres" where
  "with_value r k = bindE r (\<lambda>(v, s, b). case v of None \<Rightarrow> Inr (False, s, b) | Some x \<Rightarrow> k x s b)"

definition fill_value :: "('v, 's) bval \<Rightarrow> ('v \<Rightarrow> 's \<Rightarrow> binary_reader \<Rightarrow> ('w, 's) bval) \<Rightarrow> ('w, 's) bval" where
  "fill_value r k = bindE r (\<lambda>(v, s, b). case v of None \<Rightarrow> Inr (None, s, b) | Some x \<Rightarrow> k x s b)"

lemma and_then_cong [fundef_cong]:
  "r = r' \<Longrightarrow> (\<And>s b. r' = Inr (True, s, b) \<Longrightarrow> k s b = k' s b) \<Longrightarrow> and_then r k = and_then r' k'"
  by (cases r') (auto simp: and_then_def)

lemma with_value_cong [fundef_cong]:
  "r = r' \<Longrightarrow> (\<And>x s b. r' = Inr (Some x, s, b) \<Longrightarrow> k x s b = k' x s b) \<Longrightarrow> with_value r k = with_value r' k'"
  by (cases r') (auto simp: with_value_def split: option.split)

lemma fill_value_cong [fundef_cong]:
  "r = r' \<Longrightarrow> (\<And>x s b. r' = Inr (Some x, s, b) \<Longrightarrow> k x s b = k' x s b) \<Longrightarrow> fill_value r k = fill_value r' k'"
  by (cases r') (auto simp: fill_value_def split: option.split)

lemma then_simps [simp]:
  "and_then (Inr (True, s, b)) k = k s b" "and_then (Inr (False, s, b)) k = Inr (False, s, b)"
  "and_then (Inl err) k = Inl err"
  "with_value (Inr (Some x, s, b)) k' = k' x s b" "with_value (Inr (None, s, b)) k' = Inr (False, s, b)"
  "with_value (Inl err) k' = Inl err"
  "fill_value (Inr (Some x, s, b)) k'' = k'' x s b" "fill_value (Inr (None, s, b)) k'' = Inr (None, s, b)"
  "fill_value (Inl err) k'' = Inl err"
  "send (Inr (go, s)) b = Inr (go, s, b)" "send (Inl err) b = Inl err"
  by (simp_all add: and_then_def with_value_def fill_value_def send_def)

definition br_error :: "'s sized_sax \<Rightarrow> input_format_t \<Rightarrow> int \<Rightarrow> string \<Rightarrow> string \<Rightarrow> 's \<Rightarrow> binary_reader \<Rightarrow> 's bres" where
  "br_error sax format i detail context s b =
     send (sax_parse_error sax (br_chars_read b) (br_token_string b)
       (parse_error_at i (br_chars_read b) (br_exception_message format detail context)) s) b"

definition unexpect_eof :: "'s sized_sax \<Rightarrow> input_format_t \<Rightarrow> string \<Rightarrow> 's \<Rightarrow> binary_reader \<Rightarrow> 's bres" where
  "unexpect_eof sax format context s b =
     (if br_current b = - 1
      then send (sax_parse_error sax (br_chars_read b) ''<end of file>''
             (parse_error_at 110 (br_chars_read b)
               (br_exception_message format ''unexpected end of input'' context)) s) b
      else Inr (True, s, b))"

text \<open>
  \<open>get_number\<close> of \<open>w\<close> bytes with the most significant first. At the end of the input a handler
  could only go on against its contract; the byte is then the one that a cast of -1 gives.
\<close>

fun get_number :: "'s sized_sax \<Rightarrow> input_format_t \<Rightarrow> nat \<Rightarrow> string \<Rightarrow> 's \<Rightarrow> binary_reader \<Rightarrow> (nat, 's) bval" where
  "get_number sax format 0 vec s b = Inr (Some (be_val vec), s, b)"
| "get_number sax format (Suc w) vec s b =
     bindE (unexpect_eof sax format ''number'' s (br_get b)) (\<lambda>(go, s1, b1).
       if go then get_number sax format w (vec @ [char_of (nat (br_current b1 mod 256))]) s1 b1
       else Inr (None, s1, b1))"

text \<open>\<open>get_string\<close> reads all \<open>len\<close> bytes, also after the end of the input.\<close>

fun get_bytes :: "'s sized_sax \<Rightarrow> input_format_t \<Rightarrow> nat \<Rightarrow> bool \<Rightarrow> string \<Rightarrow> 's \<Rightarrow> binary_reader \<Rightarrow> (string, 's) bval" where
  "get_bytes sax format 0 success result s b = Inr (if success then Some result else None, s, b)"
| "get_bytes sax format (Suc len) success result s b =
     bindE (unexpect_eof sax format ''string'' s (br_get b)) (\<lambda>(go, s1, b1).
       get_bytes sax format len (success \<and> go) (result @ [char_of (nat (br_current b1 mod 256))]) s1 b1)"

definition get_string :: "'s sized_sax \<Rightarrow> input_format_t \<Rightarrow> nat \<Rightarrow> 's \<Rightarrow> binary_reader \<Rightarrow> (string, 's) bval" where
  "get_string sax format len s b = get_bytes sax format len True [] s b"

text \<open>Numbers of single and double precision.\<close>

definition number_single :: "'s sized_sax \<Rightarrow> input_format_t \<Rightarrow> 's \<Rightarrow> binary_reader \<Rightarrow> 's bres" where
  "number_single sax format s b =
     with_value (get_number sax format 4 [] s b)
       (\<lambda>n s1 b1. send (sax_number_float sax (double_of_single (int n)) [] s1) b1)"

definition number_double :: "'s sized_sax \<Rightarrow> input_format_t \<Rightarrow> 's \<Rightarrow> binary_reader \<Rightarrow> 's bres" where
  "number_double sax format s b =
     with_value (get_number sax format 8 [] s b)
       (\<lambda>n s1 b1. send (sax_number_float sax (word_of_nat n) [] s1) b1)"

text \<open>The loops over the elements of a container of known size.\<close>

fun repeat_read :: "nat \<Rightarrow> ('s \<Rightarrow> binary_reader \<Rightarrow> 's bres) \<Rightarrow> 's \<Rightarrow> binary_reader \<Rightarrow> 's bres" where
  "repeat_read 0 item s b = Inr (True, s, b)"
| "repeat_read (Suc n) item s b = and_then (item s b) (repeat_read n item)"

definition read_array :: "'s sized_sax \<Rightarrow> nat \<Rightarrow> ('s \<Rightarrow> binary_reader \<Rightarrow> 's bres) \<Rightarrow> 's \<Rightarrow> binary_reader \<Rightarrow> 's bres" where
  "read_array sax len item s b =
     and_then (send (sax_start_array_of sax len s) b) (\<lambda>s1 b1.
     and_then (repeat_read len item s1 b1) (\<lambda>s2 b2. send (sax_end_array sax s2) b2))"

text \<open>A member: its key is a string whose first byte is read first.\<close>

definition read_member ::
    "'s sized_sax \<Rightarrow> ('s \<Rightarrow> binary_reader \<Rightarrow> (string, 's) bval) \<Rightarrow> ('s \<Rightarrow> binary_reader \<Rightarrow> 's bres) \<Rightarrow>
     's \<Rightarrow> binary_reader \<Rightarrow> 's bres" where
  "read_member sax key item s b =
     with_value (key s b) (\<lambda>k s1 b1. and_then (send (sax_key sax k s1) b1) item)"

definition read_object ::
    "'s sized_sax \<Rightarrow> nat \<Rightarrow> ('s \<Rightarrow> binary_reader \<Rightarrow> (string, 's) bval) \<Rightarrow> ('s \<Rightarrow> binary_reader \<Rightarrow> 's bres) \<Rightarrow>
     's \<Rightarrow> binary_reader \<Rightarrow> 's bres" where
  "read_object sax len key item s b =
     and_then (send (sax_start_object_of sax len s) b) (\<lambda>s1 b1.
     and_then (repeat_read len (\<lambda>s b. read_member sax key item s (br_get b)) s1 b1) (\<lambda>s2 b2.
     send (sax_end_object sax s2) b2))"

text \<open>\<open>sax_parse\<close>; in strict mode the input must end after the value.\<close>

definition br_sax_parse ::
    "'s sized_sax \<Rightarrow> input_format_t \<Rightarrow> ('s \<Rightarrow> binary_reader \<Rightarrow> 's bres) \<Rightarrow> bool \<Rightarrow> 's \<Rightarrow> binary_reader \<Rightarrow> 's bres" where
  "br_sax_parse sax format parse_internal strict s b =
     and_then (parse_internal s b) (\<lambda>s1 b1.
     if strict then
       (let b2 = (if format = Format_ubjson then get_ignore_noop b1 else br_get b1) in
        if br_current b2 \<noteq> - 1
        then br_error sax format 110 (''expected end of input; last byte: 0x'' @ br_token_string b2) ''value'' s1 b2
        else Inr (True, s1, b2))
     else Inr (True, s1, b1))"

section \<open>Building a value\<close>

text \<open>The largest sizes the containers of the standard library can have.\<close>

record max_sizes =
  array_max_size :: nat
  object_max_size :: nat

definition dom_start_of :: "value_t \<Rightarrow> nat \<Rightarrow> string \<Rightarrow> nat \<Rightarrow> dom_state \<Rightarrow> dom_state sax_result" where
  "dom_start_of t limit kind len d =
     bindE (dom_start t d) (\<lambda>r.
     if limit < len then Inl (Throw (out_of_range_create 408 (''excessive '' @ kind @ '' size: '' @ dec_int (int len))))
     else Inr r)"

definition dom_sized_sax :: "max_sizes \<Rightarrow> bool \<Rightarrow> dom_state sized_sax" where
  "dom_sized_sax sizes allow_exceptions =
     sax.extend (dom_sax allow_exceptions)
       \<lparr> sax_start_object_of = dom_start_of V_object (object_max_size sizes) ''object'',
         sax_start_array_of = dom_start_of V_array (array_max_size sizes) ''array'' \<rparr>"

definition from_binary ::
    "max_sizes \<Rightarrow> input_format_t \<Rightarrow>
     (dom_state sized_sax \<Rightarrow> dom_state \<Rightarrow> binary_reader \<Rightarrow> dom_state bres) \<Rightarrow> bool \<Rightarrow> bool \<Rightarrow> string \<Rightarrow> json jres" where
  "from_binary sizes format parse_internal strict allow_exceptions input =
     (let sax = dom_sized_sax sizes allow_exceptions in
      mapE (\<lambda>(res, d, _). if res then root d else JDiscarded)
        (br_sax_parse sax format (parse_internal sax) strict dom_init (binary_reader_init input)))"

end
