(* ===== verification/Json_Codec.thy ===== *)
theory Json_Codec
  imports Json_Binary Json_Roundtrip
begin

text \<open>
  Reading back what a binary format writes. The contract of a format is the locale
  \<open>binary_format\<close>: what it writes for a value that is no container is read as that value, and for
  a container it writes a head and then the parts, which is how it reads them. From the contract
  follows that every value is read back. CBOR and MessagePack are interpretations; in BSON and UBJSON
  a part is written with its name or without its type, so they have proofs of their own.
\<close>

section \<open>The reader moves\<close>

lemma char_of_byte [simp]: "char_of (nat (ord c)) = c"
proof -
  have "nat (ord c) = of_char c" by (subst of_nat_of_char [symmetric]) (rule nat_int)
  then show ?thesis by simp
qed

lemma br_get_Cons:
  assumes "br_rest b = c # cs"
  shows "br_rest (br_get b) = cs" "br_current (br_get b) = ord c" "0 \<le> br_current (br_get b)"
    "br_current (br_get b) mod 256 = ord c"
  using assms ord_bounds [of c] by (simp_all add: br_get_def)

lemma br_get_at_end [simp]:
  "br_rest b = [] \<Longrightarrow> br_current (br_get b) = - 1" "br_rest b = [] \<Longrightarrow> get_ignore_noop b = br_get b"
  by (simp_all add: br_get_def get_ignore_noop.simps)

lemma unexpect_eof_byte: "0 \<le> br_current b \<Longrightarrow> unexpect_eof sax format context s b = Inr (True, s, b)"
  by (simp add: unexpect_eof_def)

lemma get_number_reads:
  "br_rest b = t @ r \<Longrightarrow> w = length t \<Longrightarrow>
     \<exists>b'. get_number sax format w vec s b = Inr (Some (be_val (vec @ t)), s, b') \<and> br_rest b' = r"
proof (induction t arbitrary: w vec b)
  case (Cons c t)
  have "br_rest b = c # t @ r" using Cons.prems(1) by simp
  note g = br_get_Cons [OF this]
  show ?case using Cons.IH [OF g(1), of "length t" "vec @ [c]"] Cons.prems(2) g(3,4) by (simp add: unexpect_eof_byte)
qed simp

lemma get_bytes_reads:
  "br_rest b = t @ r \<Longrightarrow> n = length t \<Longrightarrow>
     \<exists>b'. get_bytes sax format n True result s b = Inr (Some (result @ t), s, b') \<and> br_rest b' = r"
proof (induction t arbitrary: n result b)
  case (Cons c t)
  have "br_rest b = c # t @ r" using Cons.prems(1) by simp
  note g = br_get_Cons [OF this]
  show ?case using Cons.IH [OF g(1), of "length t" "result @ [c]"] Cons.prems(2) g(3,4) by (simp add: unexpect_eof_byte)
qed simp

lemma get_string_reads:
  "br_rest b = t @ r \<Longrightarrow> \<exists>b'. get_string sax format (length t) s b = Inr (Some t, s, b') \<and> br_rest b' = r"
  using get_bytes_reads [of b t r "length t" sax format "[]" s] by (simp add: get_string_def)

lemma ord_char_of_nat: "ord (char_of (n :: nat)) = int (n mod 256)"
  by (subst of_nat_of_char [symmetric]) simp

lemma write_byte: "0 \<le> x \<Longrightarrow> x < 256 \<Longrightarrow> write_number 1 x = [char_of (nat x)]"
  by (simp add: write_number_def)

lemma next_byte:
  assumes "br_rest b = write_number 1 x @ r" and "0 \<le> x" "x < 256"
  shows "br_rest (br_get b) = r" "br_current (br_get b) = x"
proof -
  have "br_rest b = char_of (nat x) # r" using assms(1) unfolding write_byte [OF assms(2,3)] by simp
  from br_get_Cons [OF this] show "br_rest (br_get b) = r" "br_current (br_get b) = x"
    using assms(2,3) by (simp_all add: ord_char_of_nat)
qed

lemma byte_and_number:
  assumes "br_rest b = write_number 1 x @ write_number w n @ r" and "0 \<le> x" "x < 256"
  shows "br_current (br_get b) = x"
    "\<exists>b'. get_number sax format w [] s (br_get b) = Inr (Some (be_val (write_number w n)), s, b') \<and> br_rest b' = r"
  using next_byte [OF assms] get_number_reads [of "br_get b" "write_number w n" r w sax format "[]" s] by auto

lemma byte_and_unsigned:
  assumes "br_rest b = write_number 1 x @ write_number w n @ r" and "0 \<le> x" "x < 256" and "0 \<le> n" "n < 2 ^ (8 * w)"
  shows "\<exists>b'. get_number sax format w [] s (br_get b) = Inr (Some (nat n), s, b') \<and> br_rest b' = r"
  using byte_and_number(2) [OF assms(1-3)] be_val_unsigned [OF assms(4,5)] by simp

section \<open>The builder of values\<close>

definition takes :: "(dom_state \<Rightarrow> binary_reader \<Rightarrow> dom_state bres) \<Rightarrow> string \<Rightarrow> json \<Rightarrow> bool" where
  "takes rd t j \<longleftrightarrow>
     (\<forall>d R b r. slot d R \<longrightarrow> br_rest b = t @ r \<longrightarrow>
        (\<exists>b' e. rd d b = Inr (True, d\<lparr> root := R j, object_element := e \<rparr>, b') \<and> br_rest b' = r))"

text \<open>The reader of a string, whose first byte is read before it is called.\<close>

definition spells :: "(dom_state \<Rightarrow> binary_reader \<Rightarrow> (string, dom_state) bval) \<Rightarrow> string \<Rightarrow> string \<Rightarrow> bool" where
  "spells rd t k \<longleftrightarrow>
     (\<forall>d b r. br_rest b = t @ r \<longrightarrow> (\<exists>b'. rd d (br_get b) = Inr (Some k, d, b') \<and> br_rest b' = r))"

lemma takesD:
  "takes rd t j \<Longrightarrow> slot d R \<Longrightarrow> br_rest b = t @ r \<Longrightarrow>
     \<exists>b' e. rd d b = Inr (True, d\<lparr> root := R j, object_element := e \<rparr>, b') \<and> br_rest b' = r"
  unfolding takes_def by blast

lemma spellsD:
  "spells rd t k \<Longrightarrow> br_rest b = t @ r \<Longrightarrow> \<exists>b'. rd d (br_get b) = Inr (Some k, d, b') \<and> br_rest b' = r"
  unfolding spells_def by blast

lemma sized_sax_fields [simp]:
  "sax_null (dom_sized_sax z a) = dom_value JNull"
  "sax_boolean (dom_sized_sax z a) = (\<lambda>b. dom_value (JBoolean b))"
  "sax_number_integer (dom_sized_sax z a) = (\<lambda>i. dom_value (JInteger i))"
  "sax_number_unsigned (dom_sized_sax z a) = (\<lambda>i. dom_value (JUnsigned i))"
  "sax_number_float (dom_sized_sax z a) = (\<lambda>x t. dom_value (JFloat x))"
  "sax_string (dom_sized_sax z a) = (\<lambda>t. dom_value (JString t))"
  "sax_start_object (dom_sized_sax z a) = dom_start V_object"
  "sax_start_array (dom_sized_sax z a) = dom_start V_array"
  "sax_key (dom_sized_sax z a) = dom_key"
  "sax_end_object (dom_sized_sax z a) = dom_end" "sax_end_array (dom_sized_sax z a) = dom_end"
  "sax_parse_error (dom_sized_sax z a) = dom_parse_error a"
  "sax_start_object_of (dom_sized_sax z a) = dom_start_of V_object (object_max_size z) ''object''"
  "sax_start_array_of (dom_sized_sax z a) = dom_start_of V_array (array_max_size z) ''array''"
  by (simp_all add: dom_sized_sax_def dom_sax_def sax.extend_def)

lemma dom_start_of_small: "n \<le> limit \<Longrightarrow> dom_start_of t limit kind n d = dom_start t d"
  by (cases "dom_start t d") (simp_all add: dom_start_of_def)

lemma takes_event:
  assumes "\<And>d b r. br_rest b = t @ r \<Longrightarrow> \<exists>b'. rd d b = send (dom_value j d) b' \<and> br_rest b' = r"
  shows "takes rd t j"
  unfolding takes_def
proof (intro allI impI)
  fix d R r and b :: binary_reader
  assume s: "slot d R" and b: "br_rest b = t @ r"
  obtain b' where b': "rd d b = send (dom_value j d) b'" "br_rest b' = r" using assms [OF b] by blast
  then show "\<exists>b' e. rd d b = Inr (True, d\<lparr> root := R j, object_element := e \<rparr>, b') \<and> br_rest b' = r"
    using b' slot_value [OF s, of j] by (auto intro!: exI [of _ "object_element d"])
qed

section \<open>Containers\<close>

lemma repeat_elements:
  assumes "place q R" and "list_all2 (takes rd) ts vs"
  shows "ref_stack d = q # rs \<Longrightarrow> root d = R (JArray ys) \<Longrightarrow> br_rest b = concat ts @ r \<Longrightarrow>
    \<exists>b' e. repeat_read (length vs) rd d b = Inr (True, d\<lparr> root := R (JArray (ys @ vs)), object_element := e \<rparr>, b') \<and>
      br_rest b' = r"
  using assms(2)
proof (induction ts vs arbitrary: d b ys rule: list_all2_induct)
  case Nil
  then show ?case by (auto intro!: exI [of _ "object_element d"])
next
  case (Cons t ts v vs)
  obtain b1 e1 where 1: "rd d b = Inr (True, d\<lparr> root := R (JArray (ys @ [v])), object_element := e1 \<rparr>, b1)"
    "br_rest b1 = concat ts @ r"
    using takesD [OF Cons(1) slot_element [OF assms(1) Cons(4,5)], of b "concat ts @ r"] Cons(6) by auto
  let ?d = "d\<lparr> root := R (JArray (ys @ [v])), object_element := e1 \<rparr>"
  obtain b' e where "repeat_read (length vs) rd ?d b1 =
      Inr (True, ?d\<lparr> root := R (JArray ((ys @ [v]) @ vs)), object_element := e \<rparr>, b')" "br_rest b' = r"
    using Cons(3) [of ?d "ys @ [v]" b1] Cons(4) 1(2) by auto
  then show ?case using 1(1) by auto
qed

lemma read_array_takes:
  assumes s: "slot d R" and "list_all2 (takes rd) ts vs" and b: "br_rest b = concat ts @ r"
    and n: "length vs \<le> array_max_size z"
  shows "\<exists>b' e. read_array (dom_sized_sax z a) (length vs) rd d b =
      Inr (True, d\<lparr> root := R (JArray vs), object_element := e \<rparr>, b') \<and> br_rest b' = r"
proof -
  obtain q where q: "place q R"
    "dom_start V_array d = Inr (True, d\<lparr> root := R (JArray []), ref_stack := q # ref_stack d \<rparr>)"
    using slot_start [OF s, of V_array] by auto
  let ?d = "d\<lparr> root := R (JArray []), ref_stack := q # ref_stack d \<rparr>"
  obtain b' e where "repeat_read (length vs) rd ?d b =
      Inr (True, ?d\<lparr> root := R (JArray vs), object_element := e \<rparr>, b')" "br_rest b' = r"
    using repeat_elements [OF q(1) assms(2), of ?d "ref_stack d" "[]" b r] b by auto
  then show ?thesis using q(2) n
    by (auto simp: read_array_def dom_start_of_small dom_end_def ref_stack_first intro!: exI [of _ e])
qed

text \<open>The texts of members.\<close>

definition takes_member ::
    "(dom_state \<Rightarrow> binary_reader \<Rightarrow> (string, dom_state) bval) \<Rightarrow> (dom_state \<Rightarrow> binary_reader \<Rightarrow> dom_state bres) \<Rightarrow>
     string \<Rightarrow> string \<times> json \<Rightarrow> bool" where
  "takes_member key rd t p \<longleftrightarrow> (\<exists>kt vt. t = kt @ vt \<and> spells key kt (fst p) \<and> takes rd vt (snd p))"

lemma repeat_members:
  assumes "place q R" and "list_all2 (takes_member key rd) ts m"
  shows "sorted_keys (ms @ m) \<Longrightarrow> ref_stack d = q # rs \<Longrightarrow> root d = R (JObject ms) \<Longrightarrow> br_rest b = concat ts @ r \<Longrightarrow>
    \<exists>b' e. repeat_read (length m) (\<lambda>s b. read_member (dom_sized_sax z a) key rd s (br_get b)) d b =
        Inr (True, d\<lparr> root := R (JObject (ms @ m)), object_element := e \<rparr>, b') \<and> br_rest b' = r"
  using assms(2)
proof (induction ts m arbitrary: d b ms rule: list_all2_induct)
  case Nil
  then show ?case by (auto intro!: exI [of _ "object_element d"])
next
  case (Cons t ts p m)
  obtain k v where p: "p = (k, v)" by fastforce
  obtain kt vt where t: "t = kt @ vt" "spells key kt k" "takes rd vt v" using Cons(1) by (auto simp: takes_member_def p)
  obtain b0 where b0: "key d (br_get b) = Inr (Some k, d, b0)" "br_rest b0 = vt @ concat ts @ r"
    using spellsD [OF t(2), of b "vt @ concat ts @ r" d] Cons(7) t(1) by auto
  obtain m' where key: "dom_key k d = Inr (True, d\<lparr> root := R (JObject m'), object_element := Some (q @ [Key k]) \<rparr>)"
    and s: "slot (d\<lparr> root := R (JObject m'), object_element := Some (q @ [Key k]) \<rparr>) (\<lambda>x. R (JObject (obj_set k x ms)))"
    using slot_key [OF assms(1) Cons(5,6)] by blast
  have "\<forall>x \<in> fst ` set ms. x < k" using Cons(4) by (auto simp: sorted_wrt_append p)
  then have ms: "obj_set k v ms = ms @ [p]" by (simp add: obj_set_append p)
  obtain b1 e1 where 1: "rd (d\<lparr> root := R (JObject m'), object_element := Some (q @ [Key k]) \<rparr>) b0 =
      Inr (True, d\<lparr> root := R (JObject (ms @ [p])), object_element := e1 \<rparr>, b1)" "br_rest b1 = concat ts @ r"
    using takesD [OF t(3) s b0(2)] ms by auto
  let ?d = "d\<lparr> root := R (JObject (ms @ [p])), object_element := e1 \<rparr>"
  obtain b' e where "repeat_read (length m) (\<lambda>s b. read_member (dom_sized_sax z a) key rd s (br_get b)) ?d b1 =
      Inr (True, ?d\<lparr> root := R (JObject ((ms @ [p]) @ m)), object_element := e \<rparr>, b')" "br_rest b' = r"
    using Cons(3) [of "ms @ [p]" ?d b1] Cons(4,5) 1(2) by auto
  then show ?case using 1(1) b0(1) key by (auto simp: read_member_def)
qed

lemma read_object_takes:
  assumes s: "slot d R" and "list_all2 (takes_member key rd) ts m" and b: "br_rest b = concat ts @ r"
    and n: "length m \<le> object_max_size z" and m: "sorted_keys m"
  shows "\<exists>b' e. read_object (dom_sized_sax z a) (length m) key rd d b =
      Inr (True, d\<lparr> root := R (JObject m), object_element := e \<rparr>, b') \<and> br_rest b' = r"
proof -
  obtain q where q: "place q R"
    "dom_start V_object d = Inr (True, d\<lparr> root := R (JObject []), ref_stack := q # ref_stack d \<rparr>)"
    using slot_start [OF s, of V_object] by auto
  let ?d = "d\<lparr> root := R (JObject []), ref_stack := q # ref_stack d \<rparr>"
  obtain b' e where "repeat_read (length m) (\<lambda>s b. read_member (dom_sized_sax z a) key rd s (br_get b)) ?d b =
      Inr (True, ?d\<lparr> root := R (JObject m), object_element := e \<rparr>, b')" "br_rest b' = r"
    using repeat_members [OF q(1) assms(2), of "[]" ?d "ref_stack d" b r z a] b m by auto
  then show ?thesis using q(2) n
    by (auto simp: read_object_def dom_start_of_small dom_end_def ref_stack_first intro!: exI [of _ e])
qed

section \<open>The contract of a format\<close>

fun json_depth :: "json \<Rightarrow> nat" where
  "json_depth (JArray a) = Suc (Max (insert 0 (json_depth ` set a)))"
| "json_depth (JObject m) = Suc (Max (insert 0 ((\<lambda>p. json_depth (snd p)) ` set m)))"
| "json_depth v = 0"

lemma depth_parts:
  "x \<in> set a \<Longrightarrow> json_depth x < json_depth (JArray a)"
  "p \<in> set m \<Longrightarrow> json_depth (snd p) < json_depth (JObject m)"
  by (simp_all add: less_Suc_eq_le)

text \<open>Strings and containers whose sizes the format can write and the reader accepts.\<close>

fun sized :: "nat \<Rightarrow> max_sizes \<Rightarrow> json \<Rightarrow> bool" where
  "sized n z (JString s) = (length s < n)"
| "sized n z (JArray a) = (length a < n \<and> length a \<le> array_max_size z \<and> (\<forall>x \<in> set a. sized n z x))"
| "sized n z (JObject m) =
     (length m < n \<and> length m \<le> object_max_size z \<and> (\<forall>p \<in> set m. length (fst p) < n \<and> sized n z (snd p)))"
| "sized n z v = True"

fun is_structured :: "json \<Rightarrow> bool" where
  "is_structured (JArray a) = True"
| "is_structured (JObject m) = True"
| "is_structured v = False"

lemma depth_le:
  "\<forall>x \<in> set a. json_depth x \<le> n \<Longrightarrow> json_depth (JArray a) \<le> Suc n"
  "\<forall>p \<in> set m. json_depth (snd p) \<le> n \<Longrightarrow> json_depth (JObject m) \<le> Suc n"
  by simp_all

locale binary_format =
  fixes enc :: "json \<Rightarrow> string"
    and array_head object_head :: "nat \<Rightarrow> string"
    and dec :: "max_sizes \<Rightarrow> bool \<Rightarrow> nat \<Rightarrow> dom_state \<Rightarrow> binary_reader \<Rightarrow> dom_state bres"
    and dec_key :: "max_sizes \<Rightarrow> bool \<Rightarrow> nat \<Rightarrow> dom_state \<Rightarrow> binary_reader \<Rightarrow> (string, dom_state) bval"
    and size_bound :: nat
  assumes read_primitive: "wf_json j \<Longrightarrow> sized size_bound z j \<Longrightarrow> \<not> is_structured j \<Longrightarrow>
      takes (dec z a (Suc f)) (enc j) (parsed j)"
    and heads: "n < size_bound \<Longrightarrow> array_head n \<noteq> []" "n < size_bound \<Longrightarrow> object_head n \<noteq> []"
    and write_array: "enc (JArray xs) = array_head (length xs) @ concat (map enc xs)"
    and write_object: "enc (JObject m) =
      object_head (length m) @ concat (map (\<lambda>p. enc (JString (fst p)) @ enc (snd p)) m)"
    and read_array_head: "n < size_bound \<Longrightarrow> br_rest b = array_head n @ r \<Longrightarrow>
      \<exists>b'. dec z a (Suc f) d b = read_array (dom_sized_sax z a) n (dec z a f) d b' \<and> br_rest b' = r"
    and read_object_head: "n < size_bound \<Longrightarrow> br_rest b = object_head n @ r \<Longrightarrow>
      \<exists>b'. dec z a (Suc f) d b = read_object (dom_sized_sax z a) n (dec_key z a f) (dec z a f) d b' \<and> br_rest b' = r"
    and read_key: "length k < size_bound \<Longrightarrow> spells (dec_key z a (Suc f)) (enc (JString k)) k"
begin

lemma array_back:
  assumes xs: "sized size_bound z (JArray xs)" and parts: "\<forall>x \<in> set xs. takes (dec z a f) (enc x) (parsed x)"
  shows "takes (dec z a (Suc f)) (enc (JArray xs)) (parsed (JArray xs))"
  unfolding takes_def
proof (intro allI impI)
  fix d R r and b :: binary_reader
  assume s: "slot d R" and b: "br_rest b = enc (JArray xs) @ r"
  have n: "length xs < size_bound" "length (map parsed xs) \<le> array_max_size z" using xs by simp_all
  have all: "list_all2 (takes (dec z a f)) (map enc xs) (map parsed xs)"
    using parts by (simp add: list_all2_map1 list_all2_map2 list_all2_same)
  obtain b' where b': "dec z a (Suc f) d b = read_array (dom_sized_sax z a) (length xs) (dec z a f) d b'"
    "br_rest b' = concat (map enc xs) @ r"
    using read_array_head [OF n(1), where b = b and r = "concat (map enc xs) @ r" and z = z and a = a and f = f and d = d]
      b by (auto simp: write_array)
  show "\<exists>b' e. dec z a (Suc f) d b = Inr (True, d\<lparr> root := R (parsed (JArray xs)), object_element := e \<rparr>, b') \<and> br_rest b' = r"
    using read_array_takes [OF s all b'(2) n(2), of a] b'(1) by simp
qed

lemma object_back:
  assumes m: "sized size_bound z (JObject m)" "sorted_keys m"
    and parts: "\<forall>p \<in> set m. 0 < f \<and> takes (dec z a f) (enc (snd p)) (parsed (snd p))"
  shows "takes (dec z a (Suc f)) (enc (JObject m)) (parsed (JObject m))"
  unfolding takes_def
proof (intro allI impI)
  fix d R r and b :: binary_reader
  assume s: "slot d R" and b: "br_rest b = enc (JObject m) @ r"
  let ?text = "\<lambda>p. enc (JString (fst p)) @ enc (snd p)"
  have n: "length m < size_bound" "length (parsed_members m) \<le> object_max_size z" using m(1) by simp_all
  have "takes_member (dec_key z a f) (dec z a f) (?text p) (fst p, parsed (snd p))" if p: "p \<in> set m" for p
  proof -
    have "0 < f" using parts p by blast
    then obtain g where f: "f = Suc g" by (cases f) auto
    have "spells (dec_key z a f) (enc (JString (fst p))) (fst p)" using m(1) p unfolding f by (intro read_key) auto
    then show ?thesis using parts p by (auto simp: takes_member_def)
  qed
  then have all: "list_all2 (takes_member (dec_key z a f) (dec z a f)) (map ?text m) (parsed_members m)"
    by (simp add: list_all2_map1 list_all2_map2 list_all2_same case_prod_beta)
  obtain b' where b': "dec z a (Suc f) d b = read_object (dom_sized_sax z a) (length m) (dec_key z a f) (dec z a f) d b'"
    "br_rest b' = concat (map ?text m) @ r"
    using read_object_head [OF n(1), where b = b and r = "concat (map ?text m) @ r" and z = z and a = a and f = f and d = d]
      b by (auto simp: write_object)
  have "map fst (parsed_members m) = map fst m" by (induction m) auto
  then have srt: "sorted_keys (parsed_members m)" using m(2) by (simp only:)
  show "\<exists>b' e. dec z a (Suc f) d b = Inr (True, d\<lparr> root := R (parsed (JObject m)), object_element := e \<rparr>, b') \<and> br_rest b' = r"
    using read_object_takes [OF s all b'(2) n(2) srt, of a] b'(1) by simp
qed

lemma primitive_back:
  "\<not> is_structured j \<Longrightarrow> wf_json j \<Longrightarrow> sized size_bound z j \<Longrightarrow> 0 < f \<Longrightarrow> takes (dec z a f) (enc j) (parsed j)"
  using read_primitive by (cases f) auto

lemma read_back: "wf_json j \<Longrightarrow> sized size_bound z j \<Longrightarrow> json_depth j < f \<Longrightarrow> takes (dec z a f) (enc j) (parsed j)"
proof (induction j arbitrary: f)
  case (JArray xs)
  obtain g where f: "f = Suc g" using JArray.prems(3) by (cases f) auto
  have "takes (dec z a g) (enc x) (parsed x)" if x: "x \<in> set xs" for x
    using JArray.IH [OF x, of g] JArray.prems depth_parts(1) [OF x] x f by simp
  then show ?case unfolding f using JArray.prems by (intro array_back) auto
next
  case (JObject m)
  obtain g where f: "f = Suc g" using JObject.prems(3) by (cases f) auto
  have "takes (dec z a g) (enc (snd p)) (parsed (snd p))" "0 < g" if p: "p \<in> set m" for p
    using JObject.IH [of p "snd p" g] JObject.prems depth_parts(2) [OF p] p f by (auto simp: snds.simps)
  then show ?case unfolding f using JObject.prems by (intro object_back) auto
qed (rule primitive_back; simp)+

lemma depth_bound: "sized size_bound z j \<Longrightarrow> json_depth j \<le> length (enc j)"
proof (induction j)
  case (JArray xs)
  have "json_depth x \<le> length (concat (map enc xs))" if "x \<in> set xs" for x
  proof -
    have "length (enc x) \<le> length (concat (map enc xs))" using that by (auto simp: length_concat intro: member_le_sum_list)
    then show ?thesis using JArray.IH [OF that] JArray.prems that by simp
  qed
  then have "json_depth (JArray xs) \<le> Suc (length (concat (map enc xs)))" by (intro depth_le) blast
  moreover have "0 < length (array_head (length xs))" using heads(1) JArray.prems by simp
  ultimately show ?case unfolding write_array length_append by linarith
next
  case (JObject m)
  let ?text = "\<lambda>p. enc (JString (fst p)) @ enc (snd p)"
  have "json_depth (snd p) \<le> length (concat (map ?text m))" if p: "p \<in> set m" for p
  proof -
    have "length (?text p) \<le> length (concat (map ?text m))" using p by (auto simp: length_concat intro: member_le_sum_list)
    then show ?thesis using JObject.IH [of p "snd p"] JObject.prems p by (auto simp: snds.simps)
  qed
  then have "json_depth (JObject m) \<le> Suc (length (concat (map ?text m)))" by (intro depth_le) blast
  moreover have "0 < length (object_head (length m))" using heads(2) JObject.prems by simp
  ultimately show ?case unfolding write_object length_append by linarith
qed simp_all

lemma from_binary_back:
  assumes "wf_json j" and "sized size_bound z j"
  shows "from_binary z format (\<lambda>sax. dec z a (length (enc j) + 2)) strict a (enc j) = Inr (parsed j)"
proof -
  have "takes (dec z a (length (enc j) + 2)) (enc j) (parsed j)"
    using assms depth_bound [of z j] by (intro read_back) simp_all
  from takesD [OF this slot_init, of "binary_reader_init (enc j)" "[]"]
  obtain b' e where r: "dec z a (length (enc j) + 2) dom_init (binary_reader_init (enc j)) =
      Inr (True, dom_init\<lparr> root := parsed j, object_element := e \<rparr>, b')" "br_rest b' = []"
    by (auto simp: binary_reader_init_def)
  then show ?thesis by (simp add: from_binary_def br_sax_parse_def Let_def)
qed

end

text \<open>A value for examples.\<close>

definition ex_packed :: json where
  "ex_packed = JObject [(''a'', JArray [JNull, JUnsigned 300, JInteger (- 40), JString ''hi'']), (''f'', JFloat 0x3FF8000000000000)]"

lemma ex_packed_ok:
  "wf_json ex_packed" "4 < n \<Longrightarrow> 4 \<le> array_max_size z \<Longrightarrow> 2 \<le> object_max_size z \<Longrightarrow> sized n z ex_packed"
  "parsed ex_packed = ex_packed"
proof -
  have "utf8 ''a''" "utf8 ''f''" "utf8 ''hi''" by (rule utf8_ascii; simp)+
  moreover have "isfinite 0x3FF8000000000000" by code_simp
  ultimately show "wf_json ex_packed" by (simp add: ex_packed_def inu64_def in64_def)
qed (simp_all add: ex_packed_def)

end
