(* ===== verification/Json_Cbor.thy ===== *)
theory Json_Cbor
  imports Json_Codec
begin

text \<open>
  CBOR in the JSON library: \<open>write_cbor\<close>, \<open>parse_cbor_internal\<close> with the strings, arrays and
  objects below it, \<open>to_cbor\<close> and \<open>from_cbor\<close>.
\<close>

section \<open>Writing\<close>

text \<open>The control byte and the number of the types that carry one in up to eight bytes.\<close>

definition cbor_head :: "int \<Rightarrow> int \<Rightarrow> string" where
  "cbor_head base n =
     (if n \<le> 0x17 then write_number 1 (base + n)
      else if n \<le> 0xFF then write_number 1 (base + 0x18) @ write_number 1 n
      else if n \<le> 0xFFFF then write_number 1 (base + 0x19) @ write_number 2 n
      else if n \<le> 0xFFFFFFFF then write_number 1 (base + 0x1A) @ write_number 4 n
      else write_number 1 (base + 0x1B) @ write_number 8 n)"

fun write_cbor :: "json \<Rightarrow> string" where
  "write_cbor JNull = write_number 1 0xF6"
| "write_cbor (JBoolean b) = write_number 1 (if b then 0xF5 else 0xF4)"
| "write_cbor (JInteger i) =
     (if 0 \<le> i then cbor_head 0x00 i else cbor_head 0x20 (- 1 - i))"
| "write_cbor (JUnsigned i) = cbor_head 0x00 i"
| "write_cbor (JFloat d) = write_number 1 0xFB @ write_number 8 (uint d)"
| "write_cbor (JString s) = cbor_head 0x60 (int (length s)) @ s"
| "write_cbor (JArray a) = cbor_head 0x80 (int (length a)) @ concat (map write_cbor a)"
| "write_cbor (JObject m) =
     cbor_head 0xA0 (int (length m)) @
     concat (map (\<lambda>p. cbor_head 0x60 (int (length (fst p))) @ fst p @ write_cbor (snd p)) m)"
| "write_cbor JDiscarded = []"

section \<open>Reading numbers\<close>

text \<open>The number of bytes that follow a control byte whose low five bits are 0x18 to 0x1B.\<close>

definition cbor_width :: "int \<Rightarrow> nat" where
  "cbor_width c =
     (if c mod 0x20 = 0x18 then 1 else if c mod 0x20 = 0x19 then 2 else if c mod 0x20 = 0x1A then 4 else 8)"

definition cbor_unsigned :: "'s sized_sax \<Rightarrow> 's \<Rightarrow> binary_reader \<Rightarrow> 's bres" where
  "cbor_unsigned sax s b =
     (let c = br_current b in
      if c \<le> 0x17 then send (sax_number_unsigned sax c s) b
      else with_value (get_number sax Format_cbor (cbor_width c) [] s b)
             (\<lambda>n s1 b1. send (sax_number_unsigned sax (int n) s1) b1))"

text \<open>The largest numbers are cast to a signed one first; the difference is always in range.\<close>

definition cbor_negative :: "'s sized_sax \<Rightarrow> 's \<Rightarrow> binary_reader \<Rightarrow> 's bres" where
  "cbor_negative sax s b =
     (let c = br_current b in
      if c \<le> 0x37 then send (sax_number_integer sax (0x20 - 1 - c) s) b
      else with_value (get_number sax Format_cbor (cbor_width c) [] s b)
             (\<lambda>n s1 b1. send (sax_number_integer sax (- 1 - wrap64 (int n)) s1) b1))"

text \<open>The length in the control byte or after it.\<close>

definition cbor_length :: "'s sized_sax \<Rightarrow> 's \<Rightarrow> binary_reader \<Rightarrow> (nat, 's) bval" where
  "cbor_length sax s b =
     (let c = br_current b in
      if c mod 0x20 \<le> 0x17 then Inr (Some (nat (c mod 0x20)), s, b)
      else get_number sax Format_cbor (cbor_width c) [] s b)"

text \<open>Half precision: 5 bits of exponent and 10 of fraction.\<close>

definition double_of_half :: "int \<Rightarrow> double" where
  "double_of_half half =
     (let ex = half div 2 ^ 10 mod 0x20;
          mant = half mod 0x400;
          val = (if ex = 0 then double_scaled mant (- 24)
                 else if ex = 31 then double_special (if mant = 0 then 0 else 0x8000000000000)
                 else double_scaled (mant + 1024) (ex - 25))
      in double_signed (half div 0x8000 mod 2 = 1) val)"

definition cbor_half :: "'s sized_sax \<Rightarrow> 's \<Rightarrow> binary_reader \<Rightarrow> 's bres" where
  "cbor_half sax s b =
     (let b1 = br_get b in
      and_then (unexpect_eof sax Format_cbor ''number'' s b1) (\<lambda>s1 b1.
      let b2 = br_get b1 in
      and_then (unexpect_eof sax Format_cbor ''number'' s1 b2) (\<lambda>s2 b2.
      send (sax_number_float sax
              (double_of_half (br_current b1 mod 256 * 256 + br_current b2 mod 256)) [] s2) b2)))"

section \<open>Reading strings\<close>

text \<open>The pieces of a string of indefinite length, up to the byte 0xFF.\<close>

fun cbor_chunks ::
    "nat \<Rightarrow> ('s \<Rightarrow> binary_reader \<Rightarrow> (string, 's) bval) \<Rightarrow> string \<Rightarrow> 's \<Rightarrow> binary_reader \<Rightarrow> (string, 's) bval" where
  "cbor_chunks 0 chunk result s b = Inl Undefined"
| "cbor_chunks (Suc n) chunk result s b =
     (let b1 = br_get b in
      if br_current b1 = 0xFF then Inr (Some result, s, b1)
      else fill_value (chunk s b1) (\<lambda>t s2 b2. cbor_chunks n chunk (result @ t) s2 b2))"

text \<open>
  The first argument bounds the depth of strings in strings; more than the bytes that are left are
  never used.
\<close>

fun get_cbor_string :: "nat \<Rightarrow> 's sized_sax \<Rightarrow> 's \<Rightarrow> binary_reader \<Rightarrow> (string, 's) bval" where
  "get_cbor_string 0 sax s b = Inl Undefined"
| "get_cbor_string (Suc f) sax s b =
     bindE (unexpect_eof sax Format_cbor ''string'' s b) (\<lambda>(go, s1, b1).
     if \<not> go then Inr (None, s1, b1)
     else
       let c = br_current b1 in
       if 0x60 \<le> c \<and> c \<le> 0x7B then
         fill_value (cbor_length sax s1 b1) (\<lambda>len s2 b2. get_string sax Format_cbor len s2 b2)
       else if c = 0x7F then cbor_chunks (Suc (length (br_rest b1))) (get_cbor_string f sax) [] s1 b1
       else mapE (\<lambda>(go, s2, b2). (if go then Some [] else None, s2, b2))
              (br_error sax Format_cbor 113
                 (''expected length specification (0x60-0x7B) or indefinite string type (0x7F); last byte: 0x'' @
                  br_token_string b1) ''string'' s1 b1))"

section \<open>Reading values\<close>

text \<open>The elements of a container of indefinite length; the first byte of each is read here.\<close>

fun cbor_until_break ::
    "nat \<Rightarrow> ('s \<Rightarrow> binary_reader \<Rightarrow> 's bres) \<Rightarrow> 's \<Rightarrow> binary_reader \<Rightarrow> 's bres" where
  "cbor_until_break 0 item s b = Inl Undefined"
| "cbor_until_break (Suc n) item s b =
     (let b1 = br_get b in
      if br_current b1 = 0xFF then Inr (True, s, b1)
      else and_then (item s b1) (cbor_until_break n item))"

abbreviation size_t_max :: nat where
  "size_t_max \<equiv> 18446744073709551615"

definition get_cbor_array ::
    "'s sized_sax \<Rightarrow> nat \<Rightarrow> (bool \<Rightarrow> 's \<Rightarrow> binary_reader \<Rightarrow> 's bres) \<Rightarrow> 's \<Rightarrow> binary_reader \<Rightarrow> 's bres" where
  "get_cbor_array sax len parse_internal s b =
     (if len \<noteq> size_t_max then read_array sax len (parse_internal True) s b
      else
        and_then (send (sax_start_array sax s) b) (\<lambda>s1 b1.
        and_then (cbor_until_break (Suc (length (br_rest b1))) (parse_internal False) s1 b1) (\<lambda>s2 b2.
        send (sax_end_array sax s2) b2)))"

definition get_cbor_object ::
    "'s sized_sax \<Rightarrow> nat \<Rightarrow> ('s \<Rightarrow> binary_reader \<Rightarrow> (string, 's) bval) \<Rightarrow>
     (bool \<Rightarrow> 's \<Rightarrow> binary_reader \<Rightarrow> 's bres) \<Rightarrow> 's \<Rightarrow> binary_reader \<Rightarrow> 's bres" where
  "get_cbor_object sax len key parse_internal s b =
     (if len \<noteq> size_t_max then read_object sax len key (parse_internal True) s b
      else
        and_then (send (sax_start_object sax s) b) (\<lambda>s1 b1.
        and_then (cbor_until_break (Suc (length (br_rest b1))) (read_member sax key (parse_internal True)) s1 b1)
          (\<lambda>s2 b2. send (sax_end_object sax s2) b2)))"

text \<open>\<open>parse_cbor_internal\<close> with \<open>get_char\<close>; the first argument bounds the depth of the value.\<close>

fun parse_cbor_internal :: "nat \<Rightarrow> 's sized_sax \<Rightarrow> bool \<Rightarrow> 's \<Rightarrow> binary_reader \<Rightarrow> 's bres" where
  "parse_cbor_internal 0 sax get_char s b0 = Inl Undefined"
| "parse_cbor_internal (Suc f) sax get_char s b0 =
     (let b = (if get_char then br_get b0 else b0);
          c = br_current b
      in if c = - 1 then unexpect_eof sax Format_cbor ''value'' s b
         else if c \<le> 0x1B then cbor_unsigned sax s b
         else if 0x20 \<le> c \<and> c \<le> 0x3B then cbor_negative sax s b
         else if 0x60 \<le> c \<and> c \<le> 0x7B \<or> c = 0x7F then
           with_value (get_cbor_string (Suc f) sax s b) (\<lambda>t s1 b1. send (sax_string sax t s1) b1)
         else if 0x80 \<le> c \<and> c \<le> 0x9B then
           with_value (cbor_length sax s b) (\<lambda>len. get_cbor_array sax len (parse_cbor_internal f sax))
         else if c = 0x9F then get_cbor_array sax size_t_max (parse_cbor_internal f sax) s b
         else if 0xA0 \<le> c \<and> c \<le> 0xBB then
           with_value (cbor_length sax s b)
             (\<lambda>len. get_cbor_object sax len (get_cbor_string f sax) (parse_cbor_internal f sax))
         else if c = 0xBF then
           get_cbor_object sax size_t_max (get_cbor_string f sax) (parse_cbor_internal f sax) s b
         else if c = 0xF4 then send (sax_boolean sax False s) b
         else if c = 0xF5 then send (sax_boolean sax True s) b
         else if c = 0xF6 then send (sax_null sax s) b
         else if c = 0xF9 then cbor_half sax s b
         else if c = 0xFA then number_single sax Format_cbor s b
         else if c = 0xFB then number_double sax Format_cbor s b
         else br_error sax Format_cbor 112 (''invalid byte: 0x'' @ br_token_string b) ''value'' s b)"

definition to_cbor :: "json \<Rightarrow> string" where
  "to_cbor j = write_cbor j"

definition from_cbor :: "max_sizes \<Rightarrow> bool \<Rightarrow> bool \<Rightarrow> string \<Rightarrow> json jres" where
  "from_cbor sizes strict allow_exceptions input =
     from_binary sizes Format_cbor (\<lambda>sax. parse_cbor_internal (length input + 2) sax True)
       strict allow_exceptions input"

section \<open>What is written is read back\<close>

lemma cbor_head_shape:
  assumes "0 \<le> n" "n < 2 ^ 64" and base: "base \<in> {0x00, 0x20, 0x60, 0x80, 0xA0}"
  shows "\<exists>k t. cbor_head base n = char_of (nat (base + k)) # t \<and> 0 \<le> k \<and> k \<le> 0x1B \<and>
    (if k \<le> 0x17 then n = k \<and> t = [] else length t = cbor_width (base + k) \<and> be_val t = nat n)"
proof -
  have byte: "0 \<le> k \<Longrightarrow> k \<le> 0x1B \<Longrightarrow> write_number 1 (base + k) = [char_of (nat (base + k))]" for k
    using base by (intro write_byte) auto
  have width: "cbor_width (base + 0x18) = 1" "cbor_width (base + 0x19) = 2" "cbor_width (base + 0x1A) = 4"
    "cbor_width (base + 0x1B) = 8"
    using base by (auto simp: cbor_width_def)
  consider "n \<le> 0x17" | "0x17 < n" "n \<le> 0xFF" | "0xFF < n" "n \<le> 0xFFFF" | "0xFFFF < n" "n \<le> 0xFFFFFFFF"
    | "0xFFFFFFFF < n" by linarith
  then show ?thesis
  proof cases
    case 1
    then show ?thesis using byte [of n] assms(1) by (intro exI [of _ n] exI [of _ "[]"]) (simp add: cbor_head_def)
  next
    case 2
    then show ?thesis using byte [of "0x18"] width be_val_unsigned [of n 1]
      by (intro exI [of _ "0x18"] exI [of _ "write_number 1 n"]) (simp add: cbor_head_def)
  next
    case 3
    then show ?thesis using byte [of "0x19"] width be_val_unsigned [of n 2]
      by (intro exI [of _ "0x19"] exI [of _ "write_number 2 n"]) (simp add: cbor_head_def)
  next
    case 4
    then show ?thesis using byte [of "0x1A"] width be_val_unsigned [of n 4]
      by (intro exI [of _ "0x1A"] exI [of _ "write_number 4 n"]) (simp add: cbor_head_def)
  next
    case 5
    then show ?thesis using byte [of "0x1B"] width be_val_unsigned [of n 8] assms(2)
      by (intro exI [of _ "0x1B"] exI [of _ "write_number 8 n"]) (simp add: cbor_head_def)
  qed
qed

lemma cbor_head_reads:
  assumes "0 \<le> n" "n < 2 ^ 64" and base: "base \<in> {0x00, 0x20, 0x60, 0x80, 0xA0}"
    and b: "br_rest b = cbor_head base n @ r"
  shows "\<exists>k. br_current (br_get b) = base + k \<and> 0 \<le> k \<and> k \<le> 0x1B \<and>
    (if k \<le> 0x17 then n = k \<and> br_rest (br_get b) = r
     else \<exists>b'. get_number sax Format_cbor (cbor_width (base + k)) [] s (br_get b) = Inr (Some (nat n), s, b') \<and>
            br_rest b' = r)"
proof -
  obtain k t where k: "cbor_head base n = char_of (nat (base + k)) # t" "0 \<le> k" "k \<le> 0x1B"
    "if k \<le> 0x17 then n = k \<and> t = [] else length t = cbor_width (base + k) \<and> be_val t = nat n"
    using cbor_head_shape [OF assms(1-3)] by blast
  have "br_rest b = char_of (nat (base + k)) # t @ r" using b k(1) by simp
  note g = br_get_Cons [OF this]
  have "br_current (br_get b) = base + k" using g(2) k(2,3) base by (auto simp: ord_char_of_nat)
  then show ?thesis using k(2-4) g(1) get_number_reads [OF g(1), of "cbor_width (base + k)" sax Format_cbor "[]" s]
    by (intro exI [of _ k]) (auto split: if_splits)
qed

lemma cbor_length_reads:
  assumes "0 \<le> n" "n < 2 ^ 64" and base: "base \<in> {0x60, 0x80, 0xA0}" and b: "br_rest b = cbor_head base n @ r"
  shows "base \<le> br_current (br_get b) \<and> br_current (br_get b) \<le> base + 0x1B \<and>
    (\<exists>b'. cbor_length sax s (br_get b) = Inr (Some (nat n), s, b') \<and> br_rest b' = r)"
proof -
  have "base \<in> {0x00, 0x20, 0x60, 0x80, 0xA0}" using base by auto
  from cbor_head_reads [OF assms(1,2) this b, of sax s]
  obtain k where k: "br_current (br_get b) = base + k" "0 \<le> k" "k \<le> 0x1B"
    "if k \<le> 0x17 then n = k \<and> br_rest (br_get b) = r
     else \<exists>b'. get_number sax Format_cbor (cbor_width (base + k)) [] s (br_get b) = Inr (Some (nat n), s, b') \<and>
            br_rest b' = r" by blast
  have "base mod 0x20 = 0" using base by auto
  then have "(base + k) mod 0x20 = k mod 0x20" using mod_add_left_eq [of base "0x20" k] by simp
  then have "(base + k) mod 0x20 = k" using k(2,3) by simp
  then show ?thesis using k by (auto simp: cbor_length_def Let_def split: if_splits)
qed

lemma get_cbor_string_spells:
  assumes "length k < size_t_max"
  shows "spells (get_cbor_string (Suc f) sax) (write_cbor (JString k)) k"
  unfolding spells_def
proof (intro allI impI)
  fix d r and b :: binary_reader
  assume b: "br_rest b = write_cbor (JString k) @ r"
  have "br_rest b = cbor_head 0x60 (int (length k)) @ k @ r" using b by simp
  from cbor_length_reads [OF _ _ _ this, of sax d] assms
  obtain b1 where 1: "0x60 \<le> br_current (br_get b)" "br_current (br_get b) \<le> 0x7B"
    "cbor_length sax d (br_get b) = Inr (Some (length k), d, b1)" "br_rest b1 = k @ r" by auto
  then show "\<exists>b'. get_cbor_string (Suc f) sax d (br_get b) = Inr (Some k, d, b') \<and> br_rest b' = r"
    using get_string_reads [OF 1(4), of sax Format_cbor d] by (simp add: unexpect_eof_byte Let_def)
qed

text \<open>The branch that a first byte selects.\<close>

lemma cbor_branch:
  assumes "br_current (br_get b) = c"
  shows "0 \<le> c \<Longrightarrow> c \<le> 0x1B \<Longrightarrow> parse_cbor_internal (Suc f) sax True s b = cbor_unsigned sax s (br_get b)"
    "0x20 \<le> c \<Longrightarrow> c \<le> 0x3B \<Longrightarrow> parse_cbor_internal (Suc f) sax True s b = cbor_negative sax s (br_get b)"
    "0x60 \<le> c \<Longrightarrow> c \<le> 0x7B \<Longrightarrow> parse_cbor_internal (Suc f) sax True s b =
       with_value (get_cbor_string (Suc f) sax s (br_get b)) (\<lambda>t s1 b1. send (sax_string sax t s1) b1)"
    "0x80 \<le> c \<Longrightarrow> c \<le> 0x9B \<Longrightarrow> parse_cbor_internal (Suc f) sax True s b =
       with_value (cbor_length sax s (br_get b)) (\<lambda>len. get_cbor_array sax len (parse_cbor_internal f sax))"
    "0xA0 \<le> c \<Longrightarrow> c \<le> 0xBB \<Longrightarrow> parse_cbor_internal (Suc f) sax True s b =
       with_value (cbor_length sax s (br_get b))
         (\<lambda>len. get_cbor_object sax len (get_cbor_string f sax) (parse_cbor_internal f sax))"
    "c = 0xF4 \<Longrightarrow> parse_cbor_internal (Suc f) sax True s b = send (sax_boolean sax False s) (br_get b)"
    "c = 0xF5 \<Longrightarrow> parse_cbor_internal (Suc f) sax True s b = send (sax_boolean sax True s) (br_get b)"
    "c = 0xF6 \<Longrightarrow> parse_cbor_internal (Suc f) sax True s b = send (sax_null sax s) (br_get b)"
    "c = 0xFB \<Longrightarrow> parse_cbor_internal (Suc f) sax True s b = number_double sax Format_cbor s (br_get b)"
  by (simp_all add: assms Let_def del: get_cbor_string.simps)

lemma cbor_takes_unsigned:
  assumes "inu64 n"
  shows "takes (parse_cbor_internal (Suc f) (dom_sized_sax z a) True) (cbor_head 0x00 n) (JUnsigned n)"
proof (rule takes_event)
  fix d r and b :: binary_reader
  assume b: "br_rest b = cbor_head 0x00 n @ r"
  have n: "0 \<le> n" "n < 2 ^ 64" using assms by (simp_all add: inu64_def)
  let ?sax = "dom_sized_sax z a"
  obtain k where k: "br_current (br_get b) = 0x00 + k" "0 \<le> k" "k \<le> 0x1B"
    "if k \<le> 0x17 then n = k \<and> br_rest (br_get b) = r
     else \<exists>b'. get_number ?sax Format_cbor (cbor_width (0x00 + k)) [] d (br_get b) = Inr (Some (nat n), d, b') \<and>
            br_rest b' = r"
    using cbor_head_reads [OF n _ b, of ?sax d] by auto
  have "parse_cbor_internal (Suc f) ?sax True d b = cbor_unsigned ?sax d (br_get b)"
    by (rule cbor_branch(1) [OF refl]) (use k(1-3) in simp_all)
  then show "\<exists>b'. parse_cbor_internal (Suc f) ?sax True d b = send (dom_value (JUnsigned n) d) b' \<and> br_rest b' = r"
    using k n(1) by (auto simp: cbor_unsigned_def Let_def split: if_splits)
qed

lemma cbor_takes_negative:
  assumes "in64 i" "i < 0"
  shows "takes (parse_cbor_internal (Suc f) (dom_sized_sax z a) True) (cbor_head 0x20 (- 1 - i)) (JInteger i)"
proof (rule takes_event)
  fix d r and b :: binary_reader
  assume b: "br_rest b = cbor_head 0x20 (- 1 - i) @ r"
  have n: "0 \<le> - 1 - i" "- 1 - i < 2 ^ 64" "in64 (- 1 - i)" using assms by (simp_all add: in64_def)
  let ?sax = "dom_sized_sax z a"
  obtain k where k: "br_current (br_get b) = 0x20 + k" "0 \<le> k" "k \<le> 0x1B"
    "if k \<le> 0x17 then - 1 - i = k \<and> br_rest (br_get b) = r
     else \<exists>b'. get_number ?sax Format_cbor (cbor_width (0x20 + k)) [] d (br_get b) = Inr (Some (nat (- 1 - i)), d, b') \<and>
            br_rest b' = r"
    using cbor_head_reads [OF n(1,2) _ b, of ?sax d] by auto
  have w: "- 1 - wrap64 (int (nat (- 1 - i))) = i" using n(1,3) by simp
  have p: "parse_cbor_internal (Suc f) ?sax True d b = cbor_negative ?sax d (br_get b)"
    by (rule cbor_branch(2) [OF refl]) (use k(1-3) in simp_all)
  show "\<exists>b'. parse_cbor_internal (Suc f) ?sax True d b = send (dom_value (JInteger i) d) b' \<and> br_rest b' = r"
  proof (cases "k \<le> 0x17")
    case True
    then have "0x20 - 1 - br_current (br_get b) = i" "br_rest (br_get b) = r" using k(1,4) by simp_all
    then show ?thesis unfolding p using k(1) True by (auto simp: cbor_negative_def Let_def)
  next
    case False
    then obtain b' where "get_number ?sax Format_cbor (cbor_width (0x20 + k)) [] d (br_get b) =
        Inr (Some (nat (- 1 - i)), d, b')" "br_rest b' = r" using k(4) by auto
    then show ?thesis unfolding p using k(1) False w by (intro exI [of _ b']) (simp add: cbor_negative_def Let_def del: int_nat_eq)
  qed
qed

lemma cbor_takes_float:
  "takes (parse_cbor_internal (Suc f) (dom_sized_sax z a) True) (write_cbor (JFloat x)) (JFloat x)"
proof (rule takes_event)
  fix d r and b :: binary_reader
  let ?sax = "dom_sized_sax z a"
  assume "br_rest b = write_cbor (JFloat x) @ r"
  then have b: "br_rest b = write_number 1 0xFB @ write_number 8 (uint x) @ r" by simp
  have c: "br_rest (br_get b) = write_number 8 (uint x) @ r" "br_current (br_get b) = 0xFB"
    using next_byte [OF b] by simp_all
  have v: "be_val (write_number 8 (uint x)) = nat (uint x)"
    by (rule be_val_unsigned) (use uint_bounded [of x] in simp_all)
  obtain b' where b': "get_number ?sax Format_cbor 8 [] d (br_get b) =
      Inr (Some (be_val (write_number 8 (uint x))), d, b')" "br_rest b' = r"
    using get_number_reads [OF c(1), of 8 ?sax Format_cbor "[]" d] by auto
  show "\<exists>b'. parse_cbor_internal (Suc f) ?sax True d b = send (dom_value (JFloat x) d) b' \<and> br_rest b' = r"
    unfolding cbor_branch(9) [OF refl c(2)] number_double_def b'(1) v using b'(2) by auto
qed

lemma cbor_takes_string:
  assumes "length t < size_t_max"
  shows "takes (parse_cbor_internal (Suc f) (dom_sized_sax z a) True) (write_cbor (JString t)) (JString t)"
proof (rule takes_event)
  fix d r and b :: binary_reader
  let ?sax = "dom_sized_sax z a"
  assume b: "br_rest b = write_cbor (JString t) @ r"
  then have "br_rest b = cbor_head 0x60 (int (length t)) @ t @ r" by simp
  from cbor_length_reads [OF _ _ _ this, of ?sax d] assms
  have c: "0x60 \<le> br_current (br_get b)" "br_current (br_get b) \<le> 0x7B" by auto
  obtain b' where "get_cbor_string (Suc f) ?sax d (br_get b) = Inr (Some t, d, b')" "br_rest b' = r"
    using spellsD [OF get_cbor_string_spells [OF assms] b] by blast
  then show "\<exists>b'. parse_cbor_internal (Suc f) ?sax True d b = send (dom_value (JString t) d) b' \<and> br_rest b' = r"
    unfolding cbor_branch(3) [OF refl c] by auto
qed

lemma cbor_takes_literal:
  "takes (parse_cbor_internal (Suc f) (dom_sized_sax z a) True) (write_number 1 0xF6) JNull"
  "takes (parse_cbor_internal (Suc f) (dom_sized_sax z a) True) (write_number 1 0xF5) (JBoolean True)"
  "takes (parse_cbor_internal (Suc f) (dom_sized_sax z a) True) (write_number 1 0xF4) (JBoolean False)"
proof -
  show "takes (parse_cbor_internal (Suc f) (dom_sized_sax z a) True) (write_number 1 0xF6) JNull"
    by (rule takes_event) (use next_byte [of _ "0xF6"] cbor_branch(8) in fastforce)
  show "takes (parse_cbor_internal (Suc f) (dom_sized_sax z a) True) (write_number 1 0xF5) (JBoolean True)"
    by (rule takes_event) (use next_byte [of _ "0xF5"] cbor_branch(7) in fastforce)
  show "takes (parse_cbor_internal (Suc f) (dom_sized_sax z a) True) (write_number 1 0xF4) (JBoolean False)"
    by (rule takes_event) (use next_byte [of _ "0xF4"] cbor_branch(6) in fastforce)
qed

lemma cbor_takes_primitive:
  assumes "wf_json j" "sized size_t_max z j" "\<not> is_structured j"
  shows "takes (parse_cbor_internal (Suc f) (dom_sized_sax z a) True) (write_cbor j) (parsed j)"
proof (cases j)
  case (JBoolean x)
  then show ?thesis using cbor_takes_literal(2,3) by (cases x) simp_all
next
  case (JInteger i)
  then have "in64 i" using assms(1) by simp
  then show ?thesis using JInteger cbor_takes_negative [of i] cbor_takes_unsigned [of i]
    by (simp add: in64_def inu64_def)
next
  case (JFloat x)
  then show ?thesis using cbor_takes_float by (simp del: write_cbor.simps)
next
  case (JString t)
  then show ?thesis using assms(2) cbor_takes_string by (simp del: write_cbor.simps)
qed (use assms cbor_takes_literal(1) cbor_takes_unsigned in auto)

lemma cbor_array_head:
  assumes "n < size_t_max" and b: "br_rest b = cbor_head 0x80 (int n) @ r"
  shows "\<exists>b'. parse_cbor_internal (Suc f) sax True d b =
    read_array sax n (parse_cbor_internal f sax True) d b' \<and> br_rest b' = r"
proof -
  from cbor_length_reads [OF _ _ _ b, of sax d] assms(1)
  obtain b' where c: "0x80 \<le> br_current (br_get b)" "br_current (br_get b) \<le> 0x9B"
    "cbor_length sax d (br_get b) = Inr (Some n, d, b')" "br_rest b' = r" by auto
  show ?thesis unfolding cbor_branch(4) [OF refl c(1,2)] using c(3,4) assms(1) by (auto simp: get_cbor_array_def)
qed

lemma cbor_object_head:
  assumes "n < size_t_max" and b: "br_rest b = cbor_head 0xA0 (int n) @ r"
  shows "\<exists>b'. parse_cbor_internal (Suc f) sax True d b =
    read_object sax n (get_cbor_string f sax) (parse_cbor_internal f sax True) d b' \<and> br_rest b' = r"
proof -
  from cbor_length_reads [OF _ _ _ b, of sax d] assms(1)
  obtain b' where c: "0xA0 \<le> br_current (br_get b)" "br_current (br_get b) \<le> 0xBB"
    "cbor_length sax d (br_get b) = Inr (Some n, d, b')" "br_rest b' = r" by auto
  show ?thesis unfolding cbor_branch(5) [OF refl c(1,2)] using c(3,4) assms(1) by (auto simp: get_cbor_object_def)
qed

lemma cbor_head_not_Nil [simp]: "cbor_head base n \<noteq> []"
  by (auto simp: cbor_head_def dest: arg_cong [where f = length])

interpretation cbor: binary_format write_cbor "\<lambda>n. cbor_head 0x80 (int n)" "\<lambda>n. cbor_head 0xA0 (int n)"
  "\<lambda>z a f. parse_cbor_internal f (dom_sized_sax z a) True" "\<lambda>z a f. get_cbor_string f (dom_sized_sax z a)" size_t_max
  by unfold_locales
     (simp_all add: cbor_takes_primitive cbor_array_head cbor_object_head
        get_cbor_string_spells [unfolded write_cbor.simps] del: parse_cbor_internal.simps get_cbor_string.simps)

text \<open>
  C25. CBOR round trip: every well-formed value whose strings and containers are not longer than a
  size can say is read back from what \<open>to_cbor\<close> writes for it, with the input consumed completely: the same value,
  floating-point numbers to the bit, with unsigned numbers for the integers that are not negative,
  and equal to it in the sense of \<open>operator==\<close>.
\<close>

theorem cbor_roundtrip:
  assumes "wf_json j" and "sized size_t_max z j"
  shows "from_cbor z strict a (to_cbor j) = Inr (parsed j) \<and> json_eq (parsed j) j"
  using cbor.from_binary_back [OF assms] parsed_eq [OF assms(1)]
  by (simp add: from_cbor_def to_cbor_def from_binary_def del: parse_cbor_internal.simps)

lemma cbor_roundtrip_witness:
  "from_cbor \<lparr> array_max_size = 1000, object_max_size = 1000 \<rparr> True True (to_cbor ex_packed) = Inr ex_packed \<and>
   json_eq ex_packed ex_packed"
  using cbor_roundtrip [OF ex_packed_ok(1,2), of "\<lparr> array_max_size = 1000, object_max_size = 1000 \<rparr>" True True]
  by (simp add: ex_packed_ok(3))

end
