(* ===== verification/Json_Msgpack.thy ===== *)
theory Json_Msgpack
  imports Json_Codec
begin

text \<open>
  MessagePack in the JSON library: \<open>write_msgpack\<close>, \<open>parse_msgpack_internal\<close> with the strings,
  arrays and objects below it, \<open>to_msgpack\<close> and \<open>from_msgpack\<close>.
\<close>

section \<open>Writing\<close>

definition msgpack_unsigned :: "int \<Rightarrow> string" where
  "msgpack_unsigned n =
     (if n < 128 then write_number 1 n
      else if n \<le> 0xFF then write_number 1 0xCC @ write_number 1 n
      else if n \<le> 0xFFFF then write_number 1 0xCD @ write_number 2 n
      else if n \<le> 0xFFFFFFFF then write_number 1 0xCE @ write_number 4 n
      else write_number 1 0xCF @ write_number 8 n)"

definition msgpack_negative :: "int \<Rightarrow> string" where
  "msgpack_negative i =
     (if - 32 \<le> i then write_number 1 i
      else if - 128 \<le> i then write_number 1 0xD0 @ write_number 1 i
      else if - 32768 \<le> i then write_number 1 0xD1 @ write_number 2 i
      else if - 2147483648 \<le> i then write_number 1 0xD2 @ write_number 4 i
      else write_number 1 0xD3 @ write_number 8 i)"

text \<open>What is longer than 32 bits can say gets no head.\<close>

definition msgpack_string_head :: "int \<Rightarrow> string" where
  "msgpack_string_head n =
     (if n \<le> 31 then write_number 1 (0xA0 OR n)
      else if n \<le> 0xFF then write_number 1 0xD9 @ write_number 1 n
      else if n \<le> 0xFFFF then write_number 1 0xDA @ write_number 2 n
      else if n \<le> 0xFFFFFFFF then write_number 1 0xDB @ write_number 4 n
      else [])"

definition msgpack_array_head :: "int \<Rightarrow> string" where
  "msgpack_array_head n =
     (if n \<le> 15 then write_number 1 (0x90 OR n)
      else if n \<le> 0xFFFF then write_number 1 0xDC @ write_number 2 n
      else if n \<le> 0xFFFFFFFF then write_number 1 0xDD @ write_number 4 n
      else [])"

definition msgpack_object_head :: "int \<Rightarrow> string" where
  "msgpack_object_head n =
     (if n \<le> 15 then write_number 1 (0x80 OR (n AND 0xF))
      else if n \<le> 0xFFFF then write_number 1 0xDE @ write_number 2 n
      else if n \<le> 0xFFFFFFFF then write_number 1 0xDF @ write_number 4 n
      else [])"

fun write_msgpack :: "json \<Rightarrow> string" where
  "write_msgpack JNull = write_number 1 0xC0"
| "write_msgpack (JBoolean b) = write_number 1 (if b then 0xC3 else 0xC2)"
| "write_msgpack (JInteger i) = (if 0 \<le> i then msgpack_unsigned i else msgpack_negative i)"
| "write_msgpack (JUnsigned i) = msgpack_unsigned i"
| "write_msgpack (JFloat d) = write_number 1 0xCB @ write_number 8 (uint d)"
| "write_msgpack (JString s) = msgpack_string_head (int (length s)) @ s"
| "write_msgpack (JArray a) = msgpack_array_head (int (length a)) @ concat (map write_msgpack a)"
| "write_msgpack (JObject m) =
     msgpack_object_head (int (length m)) @
     concat (map (\<lambda>p. (msgpack_string_head (int (length (fst p))) @ fst p) @ write_msgpack (snd p)) m)"
| "write_msgpack JDiscarded = []"

section \<open>Reading\<close>

definition get_msgpack_string :: "'s sized_sax \<Rightarrow> 's \<Rightarrow> binary_reader \<Rightarrow> (string, 's) bval" where
  "get_msgpack_string sax s b =
     bindE (unexpect_eof sax Format_msgpack ''string'' s b) (\<lambda>(go, s1, b1).
     if \<not> go then Inr (None, s1, b1)
     else
       let c = br_current b1 in
       if 0xA0 \<le> c \<and> c \<le> 0xBF then get_string sax Format_msgpack (nat (c AND 0x1F)) s1 b1
       else if c = 0xD9 then fill_value (get_number sax Format_msgpack 1 [] s1 b1) (get_string sax Format_msgpack)
       else if c = 0xDA then fill_value (get_number sax Format_msgpack 2 [] s1 b1) (get_string sax Format_msgpack)
       else if c = 0xDB then fill_value (get_number sax Format_msgpack 4 [] s1 b1) (get_string sax Format_msgpack)
       else mapE (\<lambda>(go, s2, b2). (if go then Some [] else None, s2, b2))
              (br_error sax Format_msgpack 113
                 (''expected length specification (0xA0-0xBF, 0xD9-0xDB); last byte: 0x'' @ br_token_string b1)
                 ''string'' s1 b1))"

definition msgpack_uint :: "'s sized_sax \<Rightarrow> nat \<Rightarrow> 's \<Rightarrow> binary_reader \<Rightarrow> 's bres" where
  "msgpack_uint sax w s b =
     with_value (get_number sax Format_msgpack w [] s b) (\<lambda>n s1 b1. send (sax_number_unsigned sax (int n) s1) b1)"

definition msgpack_int :: "'s sized_sax \<Rightarrow> nat \<Rightarrow> 's \<Rightarrow> binary_reader \<Rightarrow> 's bres" where
  "msgpack_int sax w s b =
     with_value (get_number sax Format_msgpack w [] s b) (\<lambda>n s1 b1. send (sax_number_integer sax (sign_of w n) s1) b1)"

definition get_msgpack_array ::
    "'s sized_sax \<Rightarrow> ('s \<Rightarrow> binary_reader \<Rightarrow> 's bres) \<Rightarrow> nat \<Rightarrow> 's \<Rightarrow> binary_reader \<Rightarrow> 's bres" where
  "get_msgpack_array sax parse_internal len s b = read_array sax len parse_internal s b"

definition get_msgpack_object ::
    "'s sized_sax \<Rightarrow> ('s \<Rightarrow> binary_reader \<Rightarrow> 's bres) \<Rightarrow> nat \<Rightarrow> 's \<Rightarrow> binary_reader \<Rightarrow> 's bres" where
  "get_msgpack_object sax parse_internal len s b = read_object sax len (get_msgpack_string sax) parse_internal s b"

text \<open>The first argument bounds the depth of the value.\<close>

fun parse_msgpack_internal :: "nat \<Rightarrow> 's sized_sax \<Rightarrow> 's \<Rightarrow> binary_reader \<Rightarrow> 's bres" where
  "parse_msgpack_internal 0 sax s b0 = Inl Undefined"
| "parse_msgpack_internal (Suc f) sax s b0 =
     (let b = br_get b0;
          c = br_current b;
          arr = get_msgpack_array sax (parse_msgpack_internal f sax);
          obj = get_msgpack_object sax (parse_msgpack_internal f sax)
      in if c = - 1 then unexpect_eof sax Format_msgpack ''value'' s b
         else if c \<le> 0x7F then send (sax_number_unsigned sax c s) b
         else if c \<le> 0x8F then obj (nat (c AND 0x0F)) s b
         else if c \<le> 0x9F then arr (nat (c AND 0x0F)) s b
         else if c \<le> 0xBF \<or> 0xD9 \<le> c \<and> c \<le> 0xDB then
           with_value (get_msgpack_string sax s b) (\<lambda>t s1 b1. send (sax_string sax t s1) b1)
         else if c = 0xC0 then send (sax_null sax s) b
         else if c = 0xC2 then send (sax_boolean sax False s) b
         else if c = 0xC3 then send (sax_boolean sax True s) b
         else if c = 0xCA then number_single sax Format_msgpack s b
         else if c = 0xCB then number_double sax Format_msgpack s b
         else if c = 0xCC then msgpack_uint sax 1 s b
         else if c = 0xCD then msgpack_uint sax 2 s b
         else if c = 0xCE then msgpack_uint sax 4 s b
         else if c = 0xCF then msgpack_uint sax 8 s b
         else if c = 0xD0 then msgpack_int sax 1 s b
         else if c = 0xD1 then msgpack_int sax 2 s b
         else if c = 0xD2 then msgpack_int sax 4 s b
         else if c = 0xD3 then msgpack_int sax 8 s b
         else if c = 0xDC then with_value (get_number sax Format_msgpack 2 [] s b) arr
         else if c = 0xDD then with_value (get_number sax Format_msgpack 4 [] s b) arr
         else if c = 0xDE then with_value (get_number sax Format_msgpack 2 [] s b) obj
         else if c = 0xDF then with_value (get_number sax Format_msgpack 4 [] s b) obj
         else if 0xE0 \<le> c then send (sax_number_integer sax (c - 256) s) b
         else br_error sax Format_msgpack 112 (''invalid byte: 0x'' @ br_token_string b) ''value'' s b)"

definition to_msgpack :: "json \<Rightarrow> string" where
  "to_msgpack j = write_msgpack j"

definition from_msgpack :: "max_sizes \<Rightarrow> bool \<Rightarrow> bool \<Rightarrow> string \<Rightarrow> json jres" where
  "from_msgpack sizes strict allow_exceptions input =
     from_binary sizes Format_msgpack (parse_msgpack_internal (length input + 2))
       strict allow_exceptions input"

section \<open>What is written is read back\<close>

text \<open>The branch that a first byte selects.\<close>

lemma msgpack_branch:
  assumes "br_current (br_get b) = c"
  shows "0 \<le> c \<Longrightarrow> c \<le> 0x7F \<Longrightarrow>
      parse_msgpack_internal (Suc f) sax s b = send (sax_number_unsigned sax c s) (br_get b)"
    "0x80 \<le> c \<Longrightarrow> c \<le> 0x8F \<Longrightarrow> parse_msgpack_internal (Suc f) sax s b =
      get_msgpack_object sax (parse_msgpack_internal f sax) (nat (c AND 0x0F)) s (br_get b)"
    "0x90 \<le> c \<Longrightarrow> c \<le> 0x9F \<Longrightarrow> parse_msgpack_internal (Suc f) sax s b =
      get_msgpack_array sax (parse_msgpack_internal f sax) (nat (c AND 0x0F)) s (br_get b)"
    "0xA0 \<le> c \<and> c \<le> 0xBF \<or> 0xD9 \<le> c \<and> c \<le> 0xDB \<Longrightarrow> parse_msgpack_internal (Suc f) sax s b =
      with_value (get_msgpack_string sax s (br_get b)) (\<lambda>t s1 b1. send (sax_string sax t s1) b1)"
    "c = 0xC0 \<Longrightarrow> parse_msgpack_internal (Suc f) sax s b = send (sax_null sax s) (br_get b)"
    "c = 0xC2 \<Longrightarrow> parse_msgpack_internal (Suc f) sax s b = send (sax_boolean sax False s) (br_get b)"
    "c = 0xC3 \<Longrightarrow> parse_msgpack_internal (Suc f) sax s b = send (sax_boolean sax True s) (br_get b)"
    "c = 0xCB \<Longrightarrow> parse_msgpack_internal (Suc f) sax s b = number_double sax Format_msgpack s (br_get b)"
    "(c, w) \<in> {(0xCC, 1), (0xCD, 2), (0xCE, 4), (0xCF, 8)} \<Longrightarrow>
      parse_msgpack_internal (Suc f) sax s b = msgpack_uint sax w s (br_get b)"
    "(c, w) \<in> {(0xD0, 1), (0xD1, 2), (0xD2, 4), (0xD3, 8)} \<Longrightarrow>
      parse_msgpack_internal (Suc f) sax s b = msgpack_int sax w s (br_get b)"
    "(c, w) \<in> {(0xDC, 2), (0xDD, 4)} \<Longrightarrow> parse_msgpack_internal (Suc f) sax s b =
      with_value (get_number sax Format_msgpack w [] s (br_get b)) (get_msgpack_array sax (parse_msgpack_internal f sax))"
    "(c, w) \<in> {(0xDE, 2), (0xDF, 4)} \<Longrightarrow> parse_msgpack_internal (Suc f) sax s b =
      with_value (get_number sax Format_msgpack w [] s (br_get b)) (get_msgpack_object sax (parse_msgpack_internal f sax))"
    "0xE0 \<le> c \<Longrightarrow> c \<le> 0xFF \<Longrightarrow>
      parse_msgpack_internal (Suc f) sax s b = send (sax_number_integer sax (c - 256) s) (br_get b)"
  by (auto simp: assms Let_def)

text \<open>The bits of the short heads do not overlap.\<close>

lemma short_heads:
  "0 \<le> n \<Longrightarrow> n \<le> 31 \<Longrightarrow> 0xA0 OR n = 0xA0 + n \<and> (0xA0 + n) AND 0x1F = n"
  "0 \<le> n \<Longrightarrow> n \<le> 15 \<Longrightarrow> 0x90 OR n = 0x90 + n \<and> (0x90 + n) AND 0x0F = n"
  "0 \<le> n \<Longrightarrow> n \<le> 15 \<Longrightarrow> 0x80 OR (n AND 0xF) = 0x80 + n \<and> (0x80 + n) AND 0x0F = n" for n :: int
proof -
  have "list_all (\<lambda>n. 0xA0 OR n = 0xA0 + n \<and> (0xA0 + n) AND 0x1F = n) [0..31 :: int]" by code_simp
  then show "0 \<le> n \<Longrightarrow> n \<le> 31 \<Longrightarrow> 0xA0 OR n = 0xA0 + n \<and> (0xA0 + n) AND 0x1F = n"
    by (simp add: list_all_iff)
  have "list_all (\<lambda>n. 0x90 OR n = 0x90 + n \<and> (0x90 + n) AND 0x0F = n) [0..15 :: int]" by code_simp
  then show "0 \<le> n \<Longrightarrow> n \<le> 15 \<Longrightarrow> 0x90 OR n = 0x90 + n \<and> (0x90 + n) AND 0x0F = n"
    by (simp add: list_all_iff)
  have "list_all (\<lambda>n. 0x80 OR (n AND 0xF) = 0x80 + n \<and> (0x80 + n) AND 0x0F = n) [0..15 :: int]" by code_simp
  then show "0 \<le> n \<Longrightarrow> n \<le> 15 \<Longrightarrow> 0x80 OR (n AND 0xF) = 0x80 + n \<and> (0x80 + n) AND 0x0F = n"
    by (simp add: list_all_iff)
qed

text \<open>The long heads: a control byte and a number of the width it stands for.\<close>

lemma long_heads:
  "128 \<le> n \<Longrightarrow> n < 2 ^ 64 \<Longrightarrow> \<exists>c w. (c, w) \<in> {(0xCC, 1), (0xCD, 2), (0xCE, 4), (0xCF, 8)} \<and>
     msgpack_unsigned n = write_number 1 c @ write_number w n \<and> n < 2 ^ (8 * w)"
  "i < - 32 \<Longrightarrow> - (2 ^ 63) \<le> i \<Longrightarrow> \<exists>c w. (c, w) \<in> {(0xD0, 1), (0xD1, 2), (0xD2, 4), (0xD3, 8)} \<and>
     msgpack_negative i = write_number 1 c @ write_number w i \<and> - (2 ^ (8 * w - 1)) \<le> i"
  "31 < n \<Longrightarrow> n < 2 ^ 32 \<Longrightarrow> \<exists>c w. (c, w) \<in> {(0xD9, 1), (0xDA, 2), (0xDB, 4)} \<and>
     msgpack_string_head n = write_number 1 c @ write_number w n \<and> n < 2 ^ (8 * w)"
  "15 < n \<Longrightarrow> n < 2 ^ 32 \<Longrightarrow> \<exists>c w. (c, w) \<in> {(0xDC, 2), (0xDD, 4)} \<and>
     msgpack_array_head n = write_number 1 c @ write_number w n \<and> n < 2 ^ (8 * w)"
  "15 < n \<Longrightarrow> n < 2 ^ 32 \<Longrightarrow> \<exists>c w. (c, w) \<in> {(0xDE, 2), (0xDF, 4)} \<and>
     msgpack_object_head n = write_number 1 c @ write_number w n \<and> n < 2 ^ (8 * w)"
  by (simp_all add: msgpack_unsigned_def msgpack_negative_def msgpack_string_head_def msgpack_array_head_def
      msgpack_object_head_def conj_disj_distribR ex_disj_distrib)

lemma msgpack_takes_unsigned:
  assumes "inu64 n"
  shows "takes (parse_msgpack_internal (Suc f) (dom_sized_sax z a)) (msgpack_unsigned n) (JUnsigned n)"
proof (rule takes_event)
  fix d r and b :: binary_reader
  let ?sax = "dom_sized_sax z a"
  assume b: "br_rest b = msgpack_unsigned n @ r"
  have n: "0 \<le> n" "n < 2 ^ 64" using assms by (simp_all add: inu64_def)
  show "\<exists>b'. parse_msgpack_internal (Suc f) ?sax d b = send (dom_value (JUnsigned n) d) b' \<and> br_rest b' = r"
  proof (cases "n < 128")
    case True
    then have "br_rest b = write_number 1 n @ r" using b by (simp add: msgpack_unsigned_def)
    from next_byte [OF this] show ?thesis using msgpack_branch(1) [of b n f ?sax d] True n(1) by auto
  next
    case False
    then obtain c w where c: "(c, w) \<in> {(0xCC, 1), (0xCD, 2), (0xCE, 4), (0xCF, 8)}"
      "msgpack_unsigned n = write_number 1 c @ write_number w n" "n < 2 ^ (8 * w)" using long_heads(1) [of n] n by auto
    have r: "br_rest b = write_number 1 c @ write_number w n @ r" and bd: "0 \<le> c" "c < 256" using b c(1,2) by auto
    have p: "parse_msgpack_internal (Suc f) ?sax d b = msgpack_uint ?sax w d (br_get b)"
      by (rule msgpack_branch(9) [OF byte_and_number(1) [OF r bd] c(1)])
    show ?thesis
      using byte_and_unsigned [OF r bd n(1) c(3), of ?sax Format_msgpack d] n(1) unfolding p by (auto simp: msgpack_uint_def)
  qed
qed

lemma msgpack_takes_negative:
  assumes "in64 i" "i < 0"
  shows "takes (parse_msgpack_internal (Suc f) (dom_sized_sax z a)) (msgpack_negative i) (JInteger i)"
proof (rule takes_event)
  fix d r and b :: binary_reader
  let ?sax = "dom_sized_sax z a"
  assume b: "br_rest b = msgpack_negative i @ r"
  show "\<exists>b'. parse_msgpack_internal (Suc f) ?sax d b = send (dom_value (JInteger i) d) b' \<and> br_rest b' = r"
  proof (cases "- 32 \<le> i")
    case True
    have "i mod 256 = (i + 256) mod 256" by simp
    also have "\<dots> = i + 256" using True assms(2) by (intro mod_pos_pos_trivial) auto
    finally have "write_number 1 i = write_number 1 (i + 256)" by (simp add: write_number_def)
    then have "br_rest b = write_number 1 (i + 256) @ r" using b True by (simp add: msgpack_negative_def)
    from next_byte [OF this] show ?thesis using msgpack_branch(13) [of b "i + 256" f ?sax d] True assms(2) by auto
  next
    case False
    then obtain c w where c: "(c, w) \<in> {(0xD0, 1), (0xD1, 2), (0xD2, 4), (0xD3, 8)}"
      "msgpack_negative i = write_number 1 c @ write_number w i" "- (2 ^ (8 * w - 1)) \<le> i"
      using long_heads(2) [of i] assms by (auto simp: in64_def)
    have r: "br_rest b = write_number 1 c @ write_number w i @ r" and bd: "0 \<le> c" "c < 256" "0 < w" using b c(1,2) by auto
    have p: "parse_msgpack_internal (Suc f) ?sax d b = msgpack_int ?sax w d (br_get b)"
      by (rule msgpack_branch(10) [OF byte_and_number(1) [OF r bd(1,2)] c(1)])
    have "i < 2 ^ (8 * w - 1)" using assms(2) less_le_trans [of i 0 "2 ^ (8 * w - 1)"] by simp
    then have "sign_of w (be_val (write_number w i)) = i" by (rule sign_of_write [OF bd(3) c(3)])
    then show ?thesis
      using byte_and_number(2) [OF r bd(1,2), of ?sax Format_msgpack d] unfolding p by (auto simp: msgpack_int_def)
  qed
qed

lemma msgpack_takes_float:
  "takes (parse_msgpack_internal (Suc f) (dom_sized_sax z a)) (write_msgpack (JFloat x)) (JFloat x)"
proof (rule takes_event)
  fix d r and b :: binary_reader
  let ?sax = "dom_sized_sax z a"
  assume "br_rest b = write_msgpack (JFloat x) @ r"
  then have b: "br_rest b = write_number 1 0xCB @ write_number 8 (uint x) @ r" by simp
  have u: "0 \<le> uint x" "uint x < 2 ^ (8 * 8)" using uint_bounded [of x] by simp_all
  obtain b' where "get_number ?sax Format_msgpack 8 [] d (br_get b) = Inr (Some (nat (uint x)), d, b')" "br_rest b' = r"
    using byte_and_unsigned [OF b _ _ u, of ?sax Format_msgpack d] by auto
  then show "\<exists>b'. parse_msgpack_internal (Suc f) ?sax d b = send (dom_value (JFloat x) d) b' \<and> br_rest b' = r"
    using msgpack_branch(8) [OF byte_and_number(1) [OF b], of f ?sax d] by (auto simp: number_double_def)
qed

lemma msgpack_string_reads:
  assumes n: "length k < 2 ^ 32" and b: "br_rest b = msgpack_string_head (int (length k)) @ k @ r"
  shows "\<exists>c. br_current (br_get b) = c \<and> (0xA0 \<le> c \<and> c \<le> 0xBF \<or> 0xD9 \<le> c \<and> c \<le> 0xDB) \<and>
    (\<exists>b'. get_msgpack_string sax d (br_get b) = Inr (Some k, d, b') \<and> br_rest b' = r)"
proof (cases "length k \<le> 31")
  case True
  let ?c = "0xA0 + int (length k)"
  note h = short_heads(1) [of "int (length k)"]
  have bits: "0xA0 OR int (length k) = ?c" "nat (?c AND 0x1F) = length k" using h True by simp_all
  have "br_rest b = write_number 1 ?c @ k @ r" using b True bits(1) by (simp add: msgpack_string_head_def)
  from next_byte [OF this] have c: "br_rest (br_get b) = k @ r" "br_current (br_get b) = ?c" using True by simp_all
  then show ?thesis using True bits(2) get_string_reads [OF c(1), of sax Format_msgpack d]
    by (simp add: get_msgpack_string_def unexpect_eof_byte)
next
  case False
  then obtain c w where c: "(c, w) \<in> {(0xD9, 1), (0xDA, 2), (0xDB, 4)}"
    "msgpack_string_head (int (length k)) = write_number 1 c @ write_number w (int (length k))" "int (length k) < 2 ^ (8 * w)"
    using long_heads(3) [of "int (length k)"] n by auto
  have r: "br_rest b = write_number 1 c @ write_number w (int (length k)) @ k @ r" and bd: "0 \<le> c" "c < 256"
    using b c(1,2) by auto
  obtain b1 where b1: "get_number sax Format_msgpack w [] d (br_get b) = Inr (Some (length k), d, b1)" "br_rest b1 = k @ r"
    using byte_and_unsigned [OF r bd _ c(3), of sax Format_msgpack d] by auto
  have "fill_value (get_number sax Format_msgpack w [] d (br_get b)) (get_string sax Format_msgpack) =
      get_msgpack_string sax d (br_get b)"
    using c(1) byte_and_number(1) [OF r bd] by (auto simp: get_msgpack_string_def unexpect_eof_byte)
  then show ?thesis using c(1) b1(1) byte_and_number(1) [OF r bd] get_string_reads [OF b1(2), of sax Format_msgpack d] by auto
qed

lemma msgpack_string_spells:
  "length k < 2 ^ 32 \<Longrightarrow> spells (get_msgpack_string sax) (write_msgpack (JString k)) k"
  unfolding spells_def using msgpack_string_reads by fastforce

lemma msgpack_takes_string:
  assumes "length t < 2 ^ 32"
  shows "takes (parse_msgpack_internal (Suc f) (dom_sized_sax z a)) (write_msgpack (JString t)) (JString t)"
proof (rule takes_event)
  fix d r and b :: binary_reader
  let ?sax = "dom_sized_sax z a"
  assume "br_rest b = write_msgpack (JString t) @ r"
  then have b: "br_rest b = msgpack_string_head (int (length t)) @ t @ r" by simp
  from msgpack_string_reads [OF assms b, of ?sax d]
  obtain c b' where c: "br_current (br_get b) = c" "0xA0 \<le> c \<and> c \<le> 0xBF \<or> 0xD9 \<le> c \<and> c \<le> 0xDB"
    and b': "get_msgpack_string ?sax d (br_get b) = Inr (Some t, d, b')" "br_rest b' = r" by auto
  show "\<exists>b'. parse_msgpack_internal (Suc f) ?sax d b = send (dom_value (JString t) d) b' \<and> br_rest b' = r"
    unfolding msgpack_branch(4) [OF c] using b' by auto
qed

lemma msgpack_takes_literal:
  "takes (parse_msgpack_internal (Suc f) (dom_sized_sax z a)) (write_number 1 0xC0) JNull"
  "takes (parse_msgpack_internal (Suc f) (dom_sized_sax z a)) (write_number 1 0xC2) (JBoolean False)"
  "takes (parse_msgpack_internal (Suc f) (dom_sized_sax z a)) (write_number 1 0xC3) (JBoolean True)"
proof -
  show "takes (parse_msgpack_internal (Suc f) (dom_sized_sax z a)) (write_number 1 0xC0) JNull"
    by (rule takes_event) (use next_byte [of _ "0xC0"] msgpack_branch(5) in fastforce)
  show "takes (parse_msgpack_internal (Suc f) (dom_sized_sax z a)) (write_number 1 0xC2) (JBoolean False)"
    by (rule takes_event) (use next_byte [of _ "0xC2"] msgpack_branch(6) in fastforce)
  show "takes (parse_msgpack_internal (Suc f) (dom_sized_sax z a)) (write_number 1 0xC3) (JBoolean True)"
    by (rule takes_event) (use next_byte [of _ "0xC3"] msgpack_branch(7) in fastforce)
qed

lemma msgpack_takes_primitive:
  assumes "wf_json j" "sized (2 ^ 32) z j" "\<not> is_structured j"
  shows "takes (parse_msgpack_internal (Suc f) (dom_sized_sax z a)) (write_msgpack j) (parsed j)"
proof (cases j)
  case (JBoolean x)
  then show ?thesis using msgpack_takes_literal(2,3) by (cases x) simp_all
next
  case (JInteger i)
  then have "in64 i" using assms(1) by simp
  then show ?thesis using JInteger msgpack_takes_negative [of i] msgpack_takes_unsigned [of i]
    by (simp add: in64_def inu64_def)
next
  case (JFloat x)
  then show ?thesis using msgpack_takes_float by (simp del: write_msgpack.simps)
next
  case (JString t)
  then show ?thesis using assms(2) msgpack_takes_string by (simp del: write_msgpack.simps)
qed (use assms msgpack_takes_literal(1) msgpack_takes_unsigned in auto)

lemma msgpack_array_reads:
  assumes n: "n < 2 ^ 32" and b: "br_rest b = msgpack_array_head (int n) @ r"
  shows "\<exists>b'. parse_msgpack_internal (Suc f) sax d b =
    read_array sax n (parse_msgpack_internal f sax) d b' \<and> br_rest b' = r"
proof (cases "n \<le> 15")
  case True
  let ?c = "0x90 + int n"
  have bits: "0x90 OR int n = ?c" "nat (?c AND 0x0F) = n" using short_heads(2) [of "int n"] True by simp_all
  have "br_rest b = write_number 1 ?c @ r" using b True bits(1) by (simp add: msgpack_array_head_def)
  from next_byte [OF this] have c: "br_rest (br_get b) = r" "br_current (br_get b) = ?c" using True by simp_all
  have "parse_msgpack_internal (Suc f) sax d b =
      get_msgpack_array sax (parse_msgpack_internal f sax) (nat (?c AND 0x0F)) d (br_get b)"
    by (rule msgpack_branch(3) [OF c(2)]) (use True in simp_all)
  then show ?thesis using bits(2) c(1) by (auto simp: get_msgpack_array_def)
next
  case False
  then obtain c w where c: "(c, w) \<in> {(0xDC, 2), (0xDD, 4)}"
    "msgpack_array_head (int n) = write_number 1 c @ write_number w (int n)" "int n < 2 ^ (8 * w)"
    using long_heads(4) [of "int n"] n by auto
  have r: "br_rest b = write_number 1 c @ write_number w (int n) @ r" and bd: "0 \<le> c" "c < 256" using b c(1,2) by auto
  show ?thesis
    using byte_and_unsigned [OF r bd _ c(3), of sax Format_msgpack d]
    unfolding msgpack_branch(11) [OF byte_and_number(1) [OF r bd] c(1)] by (auto simp: get_msgpack_array_def)
qed

lemma msgpack_object_reads:
  assumes n: "n < 2 ^ 32" and b: "br_rest b = msgpack_object_head (int n) @ r"
  shows "\<exists>b'. parse_msgpack_internal (Suc f) sax d b =
    read_object sax n (get_msgpack_string sax) (parse_msgpack_internal f sax) d b' \<and> br_rest b' = r"
proof (cases "n \<le> 15")
  case True
  let ?c = "0x80 + int n"
  have bits: "0x80 OR (int n AND 0xF) = ?c" "nat (?c AND 0x0F) = n" using short_heads(3) [of "int n"] True by simp_all
  have "br_rest b = write_number 1 ?c @ r" using b True bits(1) by (simp add: msgpack_object_head_def)
  from next_byte [OF this] have c: "br_rest (br_get b) = r" "br_current (br_get b) = ?c" using True by simp_all
  have "parse_msgpack_internal (Suc f) sax d b =
      get_msgpack_object sax (parse_msgpack_internal f sax) (nat (?c AND 0x0F)) d (br_get b)"
    by (rule msgpack_branch(2) [OF c(2)]) (use True in simp_all)
  then show ?thesis using bits(2) c(1) by (auto simp: get_msgpack_object_def)
next
  case False
  then obtain c w where c: "(c, w) \<in> {(0xDE, 2), (0xDF, 4)}"
    "msgpack_object_head (int n) = write_number 1 c @ write_number w (int n)" "int n < 2 ^ (8 * w)"
    using long_heads(5) [of "int n"] n by auto
  have r: "br_rest b = write_number 1 c @ write_number w (int n) @ r" and bd: "0 \<le> c" "c < 256" using b c(1,2) by auto
  show ?thesis
    using byte_and_unsigned [OF r bd _ c(3), of sax Format_msgpack d]
    unfolding msgpack_branch(12) [OF byte_and_number(1) [OF r bd] c(1)] by (auto simp: get_msgpack_object_def)
qed

lemma msgpack_heads_not_Nil:
  "int n < 2 ^ 32 \<Longrightarrow> msgpack_array_head (int n) \<noteq> []" "int n < 2 ^ 32 \<Longrightarrow> msgpack_object_head (int n) \<noteq> []"
  by (auto simp: msgpack_array_head_def msgpack_object_head_def dest: arg_cong [where f = length])

interpretation msgpack: binary_format write_msgpack "\<lambda>n. msgpack_array_head (int n)" "\<lambda>n. msgpack_object_head (int n)"
  "\<lambda>z a f. parse_msgpack_internal f (dom_sized_sax z a)" "\<lambda>z a f. get_msgpack_string (dom_sized_sax z a)" "2 ^ 32"
proof unfold_locales
  fix n :: nat assume "n < 2 ^ 32"
  then have "int n < 2 ^ 32" by simp
  then show "msgpack_array_head (int n) \<noteq> []" "msgpack_object_head (int n) \<noteq> []" by (rule msgpack_heads_not_Nil)+
qed ((rule msgpack_takes_primitive msgpack_array_reads msgpack_object_reads msgpack_string_spells; assumption) |
     simp only: write_msgpack.simps)+

text \<open>
  C26. MessagePack round trip: every well-formed value whose strings and containers are shorter than
  2 to the power of 32 is read back from what \<open>to_msgpack\<close> writes for it, with the input consumed completely:
  the same value, floating-point numbers to the bit, with unsigned numbers for the integers that are
  not negative, and equal to it in the sense of \<open>operator==\<close>.
\<close>

theorem msgpack_roundtrip:
  assumes "wf_json j" and "sized (2 ^ 32) z j"
  shows "from_msgpack z strict a (to_msgpack j) = Inr (parsed j) \<and> json_eq (parsed j) j"
  using msgpack.from_binary_back [OF assms] parsed_eq [OF assms(1)]
  by (simp add: from_msgpack_def to_msgpack_def from_binary_def del: parse_msgpack_internal.simps)

lemma msgpack_roundtrip_witness:
  "from_msgpack \<lparr> array_max_size = 1000, object_max_size = 1000 \<rparr> True True (to_msgpack ex_packed) = Inr ex_packed \<and>
   json_eq ex_packed ex_packed"
  using msgpack_roundtrip [OF ex_packed_ok(1,2), of "\<lparr> array_max_size = 1000, object_max_size = 1000 \<rparr>" True True]
  by (simp add: ex_packed_ok(3))

end
