(* ===== verification/Json_Binary_Safe.thy ===== *)
theory Json_Binary_Safe
  imports Json_Cbor Json_Msgpack
begin

text \<open>
  Reading CBOR and MessagePack is defined for every input: it ends, with a value, with the discarded
  value, or with an exception of the library, and never at an assertion, with an access that is not
  defined, or at the bound of the recursion.
\<close>

section \<open>Outcomes\<close>

abbreviation left :: "binary_reader \<Rightarrow> nat" where
  "left b \<equiv> length (br_rest b)"

text \<open>An exception, or not more input left than \<open>n\<close> bytes and, if reading goes on, a state with \<open>P\<close>.\<close>

definition fine :: "(dom_state \<Rightarrow> bool) \<Rightarrow> nat \<Rightarrow> dom_state bres \<Rightarrow> bool" where
  "fine P n r \<longleftrightarrow>
     (case r of Inl err \<Rightarrow> \<exists>ex. err = Throw ex | Inr (go, d, b) \<Rightarrow> left b \<le> n \<and> (go \<longrightarrow> P d))"

definition fine_value :: "(dom_state \<Rightarrow> bool) \<Rightarrow> nat \<Rightarrow> ('v, dom_state) bval \<Rightarrow> bool" where
  "fine_value P n r \<longleftrightarrow>
     (case r of Inl err \<Rightarrow> \<exists>ex. err = Throw ex | Inr (v, d, b) \<Rightarrow> left b \<le> n \<and> (v \<noteq> None \<longrightarrow> P d))"

lemma fine_simps [simp]:
  "fine P n (Inr (go, d, b)) \<longleftrightarrow> left b \<le> n \<and> (go \<longrightarrow> P d)" "fine P n (Inl err) \<longleftrightarrow> (\<exists>ex. err = Throw ex)"
  "fine_value P n (Inr (v, d, b)) \<longleftrightarrow> left b \<le> n \<and> (v \<noteq> None \<longrightarrow> P d)"
  "fine_value P n (Inl err) \<longleftrightarrow> (\<exists>ex. err = Throw ex)"
  by (simp_all add: fine_def fine_value_def)

lemma fine_mono: "fine P m r \<Longrightarrow> m \<le> n \<Longrightarrow> (\<And>d. P d \<Longrightarrow> Q d) \<Longrightarrow> fine Q n r"
  by (auto simp: fine_def split: sum.splits)

lemma fine_value_mono: "fine_value P m r \<Longrightarrow> m \<le> n \<Longrightarrow> fine_value P n r"
  by (auto simp: fine_value_def split: sum.splits)

lemma fine_and_then:
  "fine P m r \<Longrightarrow> m \<le> n \<Longrightarrow> (\<And>d b. P d \<Longrightarrow> left b \<le> m \<Longrightarrow> fine Q n (k d b)) \<Longrightarrow> fine Q n (and_then r k)"
  by (cases r) (auto simp: and_then_def)

lemma fine_with_value:
  "fine_value P m r \<Longrightarrow> m \<le> n \<Longrightarrow> (\<And>x d b. P d \<Longrightarrow> left b \<le> m \<Longrightarrow> fine Q n (k x d b)) \<Longrightarrow>
     fine Q n (with_value r k)"
  by (cases r) (auto simp: with_value_def split: option.splits)

lemma fine_fill_value:
  "fine_value P m r \<Longrightarrow> m \<le> n \<Longrightarrow> (\<And>x d b. P d \<Longrightarrow> left b \<le> m \<Longrightarrow> fine_value Q n (k x d b)) \<Longrightarrow>
     fine_value Q n (fill_value r k)"
  by (cases r) (auto simp: fill_value_def split: option.splits)

lemma left_get: "left (br_get b) = left b - 1" "br_rest b = [] \<Longrightarrow> br_current (br_get b) = - 1"
  by (auto simp: br_get_def split: list.splits)

lemma left_ignore: "left (get_ignore_noop b) \<le> left b - 1"
proof (induction b rule: get_ignore_noop.induct)
  case (1 b)
  then show ?case by (subst get_ignore_noop.simps) (fastforce simp: Let_def left_get)
qed

section \<open>Errors, numbers and strings\<close>

lemma dom_parse_error_at:
  "i \<in> {110, 112, 113, 114} \<Longrightarrow>
     dom_parse_error a pos tok (parse_error_at i p m) d =
       (if a then Inl (Throw (parse_error_at i p m)) else Inr (False, d\<lparr> errored := True \<rparr>))"
  by (auto simp: dom_parse_error_def rethrow_def parse_error_at_def)

lemma unexpect_eof_cases:
  "(\<exists>ex. unexpect_eof (dom_sized_sax z a) format context d b = Inl (Throw ex)) \<or>
   (\<exists>d'. unexpect_eof (dom_sized_sax z a) format context d b = Inr (False, d', b)) \<or>
   unexpect_eof (dom_sized_sax z a) format context d b = Inr (True, d, b) \<and> br_current b \<noteq> - 1"
  by (cases a) (auto simp: unexpect_eof_def dom_parse_error_at)

lemma br_error_cases:
  assumes "i \<in> {110, 112, 113}"
  shows "(\<exists>ex. br_error (dom_sized_sax z a) format i detail context d b = Inl (Throw ex)) \<or>
    (\<exists>d'. br_error (dom_sized_sax z a) format i detail context d b = Inr (False, d', b))"
  using assms by (cases a) (auto simp: br_error_def dom_parse_error_at)

lemma unexpect_eof_fine: "P d \<Longrightarrow> left b \<le> n \<Longrightarrow> fine P n (unexpect_eof (dom_sized_sax z a) format context d b)"
  using unexpect_eof_cases [of z a format "context" d b] by auto

lemma br_error_fine:
  "i \<in> {110, 112, 113} \<Longrightarrow> left b \<le> n \<Longrightarrow> fine P n (br_error (dom_sized_sax z a) format i detail context d b)"
  using br_error_cases [of i z a format detail "context" d b] by auto

lemma get_number_fine: "left b \<le> n \<Longrightarrow> fine_value ((=) d) n (get_number (dom_sized_sax z a) format w vec d b)"
proof (induction w arbitrary: vec b)
  case (Suc w)
  then show ?case using unexpect_eof_cases [of z a format "''number''" d "br_get b"] by (auto simp: left_get)
qed simp

lemma get_bytes_fine:
  "left b \<le> n \<Longrightarrow> (success \<Longrightarrow> d0 = d) \<Longrightarrow>
     fine_value ((=) d0) n (get_bytes (dom_sized_sax z a) format len success result d b)"
proof (induction len arbitrary: success result d b)
  case (Suc len)
  have l: "left (br_get b) \<le> n" using Suc.prems by (simp add: left_get)
  show ?case
    using unexpect_eof_cases [of z a format "''string''" d "br_get b"] Suc.IH [OF l] Suc.prems(2) by auto
qed simp

lemma get_string_fine: "left b \<le> n \<Longrightarrow> fine_value ((=) d) n (get_string (dom_sized_sax z a) format len d b)"
  by (simp add: get_string_def get_bytes_fine)

section \<open>Events and containers\<close>

lemma dom_value_fine: "dom_shape st True d \<Longrightarrow> left b \<le> n \<Longrightarrow> fine (dom_shape st False) n (send (dom_value v d) b)"
  using dom_value_shape [of st d v] by auto

lemma dom_start_of_fine:
  assumes "dom_shape st True d" and "left b \<le> n" and "t = (if c then V_array else V_object)"
  shows "fine (dom_shape (c # st) False) n (send (dom_start_of t limit kind len d) b)"
  using dom_start_shape [OF assms(1,3)] assms(2) by (auto simp: dom_start_of_def)

lemma dom_start_fine:
  assumes "dom_shape st True d" and "left b \<le> n" and "t = (if c then V_array else V_object)"
  shows "fine (dom_shape (c # st) False) n (send (dom_start t d) b)"
  using dom_start_shape [OF assms(1,3)] assms(2) by auto

lemma dom_end_fine: "dom_shape (c # st) False d \<Longrightarrow> left b \<le> n \<Longrightarrow> fine (dom_shape st False) n (send (dom_end d) b)"
  using dom_end_shape [of c st d] by auto

lemma repeat_read_fine:
  assumes "\<And>d b. P d \<Longrightarrow> left b \<le> n \<Longrightarrow> fine P n (item d b)"
  shows "P d \<Longrightarrow> left b \<le> n \<Longrightarrow> fine P n (repeat_read len item d b)"
proof (induction len arbitrary: d b)
  case (Suc len)
  then show ?case by (auto intro!: fine_and_then [OF assms order_refl])
qed simp

lemma read_array_fine:
  assumes d: "dom_shape st True d" "left b \<le> n"
    and item: "\<And>d b. dom_shape (True # st) True d \<Longrightarrow> left b \<le> n \<Longrightarrow> fine (dom_shape (True # st) False) n (item d b)"
  shows "fine (dom_shape st False) n (read_array (dom_sized_sax z a) len item d b)"
  unfolding read_array_def
proof (rule fine_and_then [OF _ order_refl])
  show "fine (dom_shape (True # st) False) n (send (sax_start_array_of (dom_sized_sax z a) len d) b)"
    using dom_start_of_fine [OF d, of V_array True] by simp
  fix d1 and b1 :: binary_reader
  assume 1: "dom_shape (True # st) False d1" "left b1 \<le> n"
  have i: "dom_shape (True # st) True d \<Longrightarrow> left b \<le> n \<Longrightarrow> fine (dom_shape (True # st) True) n (item d b)" for d b
    using item by (blast intro: fine_mono dom_next_shape)
  have "fine (dom_shape (True # st) True) n (repeat_read len item d1 b1)"
    by (rule repeat_read_fine [OF i dom_next_shape [OF 1(1)] 1(2)])
  then have "fine (dom_shape (True # st) False) n (repeat_read len item d1 b1)"
    by (rule fine_mono) (auto simp: dom_shape_def)
  then show "fine (dom_shape st False) n (and_then (repeat_read len item d1 b1) (\<lambda>d2 b2. send (sax_end_array (dom_sized_sax z a) d2) b2))"
    by (rule fine_and_then [OF _ order_refl]) (simp add: dom_end_fine)
qed

lemma read_member_fine:
  assumes "dom_shape (False # st) False d" "left b \<le> n" and "fine_value ((=) d) n (key d b)"
    and item: "\<And>d b. dom_shape (False # st) True d \<Longrightarrow> left b \<le> n \<Longrightarrow> fine (dom_shape (False # st) False) n (item d b)"
  shows "fine (dom_shape (False # st) False) n (read_member (dom_sized_sax z a) key item d b)"
  unfolding read_member_def
proof (rule fine_with_value [OF assms(3) order_refl])
  fix k d' and b1 :: binary_reader
  assume "d = d'" "left b1 \<le> n"
  then have "fine (dom_shape (False # st) True) n (send (sax_key (dom_sized_sax z a) k d') b1)"
    using dom_key_shape [OF assms(1), of k] by auto
  then show "fine (dom_shape (False # st) False) n (and_then (send (sax_key (dom_sized_sax z a) k d') b1) item)"
    by (rule fine_and_then [OF _ order_refl]) (rule item)
qed

lemma read_object_fine:
  assumes d: "dom_shape st True d" "left b \<le> n"
    and key: "\<And>d b. left b \<le> n \<Longrightarrow> fine_value ((=) d) n (key d (br_get b))"
    and item: "\<And>d b. dom_shape (False # st) True d \<Longrightarrow> left b \<le> n \<Longrightarrow> fine (dom_shape (False # st) False) n (item d b)"
  shows "fine (dom_shape st False) n (read_object (dom_sized_sax z a) len key item d b)"
  unfolding read_object_def
proof (rule fine_and_then [OF _ order_refl])
  show "fine (dom_shape (False # st) False) n (send (sax_start_object_of (dom_sized_sax z a) len d) b)"
    using dom_start_of_fine [OF d, of V_object False] by simp
  fix d1 and b1 :: binary_reader
  assume 1: "dom_shape (False # st) False d1" "left b1 \<le> n"
  have "fine (dom_shape (False # st) False) n (read_member (dom_sized_sax z a) key item d (br_get b))"
    if "dom_shape (False # st) False d" "left b \<le> n" for d b
    using that key item by (intro read_member_fine) (simp_all add: left_get)
  then have "fine (dom_shape (False # st) False) n
      (repeat_read len (\<lambda>d b. read_member (dom_sized_sax z a) key item d (br_get b)) d1 b1)"
    using 1 by (intro repeat_read_fine) auto
  then show "fine (dom_shape st False) n
      (and_then (repeat_read len (\<lambda>d b. read_member (dom_sized_sax z a) key item d (br_get b)) d1 b1)
        (\<lambda>d2 b2. send (sax_end_object (dom_sized_sax z a) d2) b2))"
    by (rule fine_and_then [OF _ order_refl]) (simp add: dom_end_fine)
qed

lemma number_fine:
  assumes "dom_shape st True d" "left b \<le> n"
  shows "fine (dom_shape st False) n (number_single (dom_sized_sax z a) format d b)"
    "fine (dom_shape st False) n (number_double (dom_sized_sax z a) format d b)"
  unfolding number_single_def number_double_def
  by (rule fine_with_value [OF get_number_fine [OF assms(2)] order_refl], use assms(1) in \<open>simp add: dom_value_fine\<close>)+

section \<open>MessagePack\<close>

lemma byte_error_fine:
  assumes "i \<in> {110, 112, 113}" and "left b \<le> n"
  shows "fine_value P n (mapE (\<lambda>(go, r). (if go then Some [] else None, r))
    (br_error (dom_sized_sax z a) format i detail context d b))"
  using br_error_cases [OF assms(1), of z a format detail "context" d b] assms(2) by auto

lemma get_msgpack_string_fine:
  assumes "left b \<le> n"
  shows "fine_value ((=) d) n (get_msgpack_string (dom_sized_sax z a) d b)"
proof -
  have "fine_value ((=) d) n (fill_value (get_number (dom_sized_sax z a) Format_msgpack w [] d b)
      (get_string (dom_sized_sax z a) Format_msgpack))" for w
    by (rule fine_fill_value [OF get_number_fine [OF assms] order_refl]) (simp add: get_string_fine)
  then show ?thesis
    using unexpect_eof_cases [of z a Format_msgpack "''string''" d b] assms
    by (auto simp: get_msgpack_string_def Let_def get_string_fine byte_error_fine simp del: get_number.simps)
qed

lemma msgpack_number_fine:
  assumes "dom_shape st True d" "left b \<le> n"
  shows "fine (dom_shape st False) n (msgpack_uint (dom_sized_sax z a) w d b)"
    "fine (dom_shape st False) n (msgpack_int (dom_sized_sax z a) w d b)"
  unfolding msgpack_uint_def msgpack_int_def
  by (rule fine_with_value [OF get_number_fine [OF assms(2)] order_refl], use assms(1) in \<open>simp add: dom_value_fine\<close>)+

lemma parse_msgpack_fine:
  "dom_shape st True d \<Longrightarrow> left b \<le> n \<Longrightarrow> n < f \<Longrightarrow>
     fine (dom_shape st False) n (parse_msgpack_internal f (dom_sized_sax z a) d b)"
proof (induction f arbitrary: st d b n)
  case (Suc f)
  let ?sax = "dom_sized_sax z a" and ?b = "br_get b"
  let ?fine = "fine (dom_shape st False) n"
  have l: "left ?b \<le> n" using Suc.prems(2) by (simp add: left_get)
  show ?case
  proof (cases "br_rest b = []")
    case True
    then have "parse_msgpack_internal (Suc f) ?sax d b = unexpect_eof ?sax Format_msgpack ''value'' d ?b"
      by (simp add: left_get)
    then show ?thesis using unexpect_eof_cases [of z a Format_msgpack "''value''" d ?b] l True
      by (auto simp: left_get)
  next
    case False
    then obtain m where n: "n = Suc m" and m: "left ?b \<le> m" using Suc.prems(2)
      by (cases n) (auto simp: left_get)
    have item: "fine (dom_shape (c # st) False) m (parse_msgpack_internal f ?sax d' b')"
      if "dom_shape (c # st) True d'" "left b' \<le> m" for c d' and b' :: binary_reader
      using Suc.IH [OF that] Suc.prems(3) n by simp
    have arr: "?fine (get_msgpack_array ?sax (parse_msgpack_internal f ?sax) len d b')" if "left b' \<le> m" for len b'
      unfolding get_msgpack_array_def
      by (rule fine_mono [OF read_array_fine [OF Suc.prems(1) that item]]) (simp_all add: n)
    have obj: "?fine (get_msgpack_object ?sax (parse_msgpack_internal f ?sax) len d b')" if "left b' \<le> m" for len b'
      unfolding get_msgpack_object_def
      by (rule fine_mono [OF read_object_fine [OF Suc.prems(1) that get_msgpack_string_fine item]])
        (simp_all add: n left_get)
    have sized: "?fine (with_value (get_number ?sax Format_msgpack w [] d ?b) (get_msgpack_array ?sax (parse_msgpack_internal f ?sax)))"
      "?fine (with_value (get_number ?sax Format_msgpack w [] d ?b) (get_msgpack_object ?sax (parse_msgpack_internal f ?sax)))" for w
      by (rule fine_with_value [OF get_number_fine [OF m]]; use arr obj n in auto)+
    have str: "?fine (with_value (get_msgpack_string ?sax d ?b) (\<lambda>t s1. send (dom_value (JString t) s1)))"
      by (rule fine_with_value [OF get_msgpack_string_fine [OF l] order_refl]) (use Suc.prems(1) in \<open>simp add: dom_value_fine\<close>)
    have eof: "?fine (unexpect_eof ?sax Format_msgpack ''value'' d ?b)" if "br_current ?b = - 1"
      using unexpect_eof_cases [of z a Format_msgpack "''value''" d ?b] l that by auto
    show ?thesis
      by (simp add: Let_def arr obj m sized str eof dom_value_fine [OF Suc.prems(1) l] number_fine [OF Suc.prems(1) l]
            msgpack_number_fine [OF Suc.prems(1) l] br_error_fine [OF _ l] del: get_number.simps)
  qed
qed simp

section \<open>CBOR\<close>

text \<open>The bound of the recursion is enough for what is left after the byte that is looked at.\<close>

definition enough :: "nat \<Rightarrow> binary_reader \<Rightarrow> bool" where
  "enough f b \<longleftrightarrow> 0 < f \<and> (br_current b = - 1 \<or> left b + 2 \<le> f)"

lemma enough_get: "left b < f \<Longrightarrow> enough f (br_get b)"
  by (cases "br_rest b") (auto simp: enough_def br_get_def)

text \<open>
  Loops up to the byte 0xFF: every turn takes a byte, and at the end of the input what is read there
  fails.
\<close>

lemma loop_get: "br_current (br_get b) \<noteq> - 1 \<Longrightarrow> left (br_get b) < left b"
  by (auto simp: br_get_def split: list.splits)

lemma until_break_fine:
  assumes item: "\<And>d b m. P d \<Longrightarrow> left b \<le> m \<Longrightarrow> m < n \<Longrightarrow> fine P m (item d b)"
    and eof: "\<And>d b. br_current b = - 1 \<Longrightarrow> left b \<le> n \<Longrightarrow> fine (\<lambda>_. False) n (item d b)"
  shows "P d \<Longrightarrow> left b \<le> n \<Longrightarrow> left b < k \<Longrightarrow> fine P n (cbor_until_break k item d b)"
proof (induction k arbitrary: d b)
  case (Suc k)
  let ?b = "br_get b"
  show ?case
  proof (cases "br_current ?b = - 1")
    case True
    have "left ?b \<le> n" using Suc.prems(2) by (simp add: left_get)
    then show ?thesis using fine_and_then [OF eof [OF True] order_refl] True by (simp add: Let_def)
  next
    case False
    have l: "left ?b < n" "left ?b < k" using loop_get [OF False] Suc.prems by simp_all
    have "fine P n (and_then (item d ?b) (cbor_until_break k item))"
      by (rule fine_and_then [OF item [OF Suc.prems(1) order_refl l(1)]]) (use l Suc.IH in auto)
    then show ?thesis using l(1) Suc.prems(1) by (simp add: Let_def)
  qed
qed simp

lemma chunks_fine:
  assumes chunk: "\<And>d b m. left b \<le> m \<Longrightarrow> m < n \<Longrightarrow> fine_value ((=) d) m (chunk d b)"
    and eof: "\<And>d b. br_current b = - 1 \<Longrightarrow> left b \<le> n \<Longrightarrow> fine_value (\<lambda>_. False) n (chunk d b)"
  shows "left b \<le> n \<Longrightarrow> left b < k \<Longrightarrow> fine_value ((=) d) n (cbor_chunks k chunk result d b)"
proof (induction k arbitrary: result b)
  case (Suc k)
  let ?b = "br_get b"
  show ?case
  proof (cases "br_current ?b = - 1")
    case True
    have "left ?b \<le> n" using Suc.prems(1) by (simp add: left_get)
    then show ?thesis using fine_fill_value [OF eof [OF True] order_refl] True by (simp add: Let_def)
  next
    case False
    have l: "left ?b < n" "left ?b < k" using loop_get [OF False] Suc.prems by simp_all
    have "fine_value ((=) d) n (fill_value (chunk d ?b) (\<lambda>t. cbor_chunks k chunk (result @ t)))"
      by (rule fine_fill_value [OF chunk [OF order_refl l(1)]]) (use l Suc.IH in auto)
    then show ?thesis using l(1) by (simp add: Let_def)
  qed
qed simp

lemma cbor_length_fine: "left b \<le> n \<Longrightarrow> fine_value ((=) d) n (cbor_length (dom_sized_sax z a) d b)"
  by (simp add: cbor_length_def Let_def get_number_fine del: get_number.simps)

lemma get_cbor_string_eof:
  "br_current b = - 1 \<Longrightarrow> 0 < f \<Longrightarrow> left b \<le> n \<Longrightarrow> fine_value P n (get_cbor_string f (dom_sized_sax z a) d b)"
  using unexpect_eof_cases [of z a Format_cbor "''string''" d b] by (cases f) auto

lemma get_cbor_string_fine:
  "enough f b \<Longrightarrow> left b \<le> n \<Longrightarrow> fine_value ((=) d) n (get_cbor_string f (dom_sized_sax z a) d b)"
proof (induction f arbitrary: d b n)
  case (Suc f)
  let ?sax = "dom_sized_sax z a"
  have l: "left b \<le> n" by fact
  consider ex where "unexpect_eof ?sax Format_cbor ''string'' d b = Inl (Throw ex)"
    | d' where "unexpect_eof ?sax Format_cbor ''string'' d b = Inr (False, d', b)"
    | "unexpect_eof ?sax Format_cbor ''string'' d b = Inr (True, d, b)" "br_current b \<noteq> - 1"
    using unexpect_eof_cases [of z a Format_cbor "''string''" d b] by blast
  then show ?case
  proof cases
    case 3
    have f: "left b < f" using Suc.prems(1) 3(2) by (simp add: enough_def)
    have "fine_value ((=) d) (left b) (cbor_chunks (Suc (left b)) (get_cbor_string f ?sax) [] d b)"
    proof (rule chunks_fine)
      fix d m and b' :: binary_reader
      assume "left b' \<le> m" "m < left b"
      then show "fine_value ((=) d) m (get_cbor_string f ?sax d b')"
        using f by (intro Suc.IH) (simp_all add: enough_def)
    qed (use f in \<open>simp_all add: get_cbor_string_eof\<close>)
    then have "fine_value ((=) d) n (cbor_chunks (Suc (left b)) (get_cbor_string f ?sax) [] d b)"
      by (rule fine_value_mono) (rule l)
    moreover have "fine_value ((=) d) n (fill_value (cbor_length ?sax d b) (get_string ?sax Format_cbor))"
      by (rule fine_fill_value [OF cbor_length_fine [OF l] order_refl]) (simp add: get_string_fine)
    ultimately show ?thesis
      by (simp add: 3(1) Let_def byte_error_fine l del: cbor_chunks.simps)
  qed (simp_all add: l)
qed (simp add: enough_def)

lemma until_break_container:
  assumes item: "\<And>d b m. dom_shape (c # st) r d \<Longrightarrow> left b \<le> m \<Longrightarrow> m < left b1 \<Longrightarrow> fine (dom_shape (c # st) r) m (item d b)"
    and eof: "\<And>d b. br_current b = - 1 \<Longrightarrow> left b \<le> left b1 \<Longrightarrow> fine (\<lambda>_. False) (left b1) (item d b)"
    and d: "dom_shape (c # st) r d1" and k: "\<And>d. dom_shape (c # st) r d \<Longrightarrow> dom_shape (c # st) False d"
    and n: "left b1 \<le> n"
  shows "fine (dom_shape st False) n
    (and_then (cbor_until_break (Suc (left b1)) item d1 b1) (\<lambda>d2 b2. send (dom_end d2) b2))"
  by (rule fine_and_then [OF until_break_fine [OF item eof d] n])
     (use n in \<open>auto intro: dom_end_fine k\<close>)

lemma get_cbor_array_fine:
  assumes d: "dom_shape st True d" "left b \<le> n"
    and itemT: "\<And>d b. dom_shape (True # st) True d \<Longrightarrow> left b \<le> n \<Longrightarrow> fine (dom_shape (True # st) False) n (parse True d b)"
    and itemF: "\<And>d b m. dom_shape (True # st) True d \<Longrightarrow> left b \<le> m \<Longrightarrow> m < n \<Longrightarrow>
      fine (dom_shape (True # st) False) m (parse False d b)"
    and eof: "\<And>d b m. br_current b = - 1 \<Longrightarrow> left b \<le> m \<Longrightarrow> fine (\<lambda>_. False) m (parse False d b)"
  shows "fine (dom_shape st False) n (get_cbor_array (dom_sized_sax z a) len parse d b)"
proof (cases "len = size_t_max")
  case False
  then show ?thesis using read_array_fine [OF d itemT] by (simp add: get_cbor_array_def)
next
  case True
  have "fine (dom_shape st False) n (and_then (cbor_until_break (Suc (left b1)) (parse False) d1 b1) (\<lambda>d2 b2. send (dom_end d2) b2))"
    if "dom_shape (True # st) False d1" "left b1 \<le> n" for d1 and b1 :: binary_reader
  proof (rule until_break_container [where c = True and r = True])
    fix d m and b :: binary_reader
    assume "dom_shape (True # st) True d" "left b \<le> m" "m < left b1"
    then show "fine (dom_shape (True # st) True) m (parse False d b)"
      using itemF [of d b m] that(2) by (auto elim!: fine_mono intro: dom_next_shape)
  qed (use that eof in \<open>auto simp: dom_shape_def\<close>)
  then show ?thesis unfolding get_cbor_array_def using True
    by (auto intro!: fine_and_then [OF dom_start_fine [OF d, of V_array True] order_refl] simp del: cbor_until_break.simps)
qed

lemma get_cbor_object_fine:
  assumes d: "dom_shape st True d" "left b \<le> n"
    and keyT: "\<And>d b. left b \<le> n \<Longrightarrow> fine_value ((=) d) n (key d (br_get b))"
    and keyF: "\<And>d b m. left b \<le> m \<Longrightarrow> m < n \<Longrightarrow> fine_value ((=) d) m (key d b)"
    and item: "\<And>d b m. dom_shape (False # st) True d \<Longrightarrow> left b \<le> m \<Longrightarrow> m \<le> n \<Longrightarrow>
      fine (dom_shape (False # st) False) m (parse True d b)"
    and eof: "\<And>d b m. br_current b = - 1 \<Longrightarrow> left b \<le> m \<Longrightarrow> fine_value (\<lambda>_. False) m (key d b)"
  shows "fine (dom_shape st False) n (get_cbor_object (dom_sized_sax z a) len key parse d b)"
proof (cases "len = size_t_max")
  case False
  have "fine (dom_shape st False) n (read_object (dom_sized_sax z a) len key (parse True) d b)"
    by (rule read_object_fine [OF d]) (auto intro!: keyT item)
  then show ?thesis using False by (simp add: get_cbor_object_def)
next
  case True
  let ?member = "read_member (dom_sized_sax z a) key (parse True)"
  have "fine (dom_shape st False) n (and_then (cbor_until_break (Suc (left b1)) ?member d1 b1) (\<lambda>d2 b2. send (dom_end d2) b2))"
    if "dom_shape (False # st) False d1" "left b1 \<le> n" for d1 and b1 :: binary_reader
  proof (rule until_break_container [where c = False and r = False])
    fix d m and b :: binary_reader
    assume "dom_shape (False # st) False d" "left b \<le> m" "m < left b1"
    then show "fine (dom_shape (False # st) False) m (?member d b)"
      using that(2) by (intro read_member_fine keyF item) simp_all
  next
    fix d and b :: binary_reader
    assume "br_current b = - 1" "left b \<le> left b1"
    then show "fine (\<lambda>_. False) (left b1) (?member d b)"
      unfolding read_member_def by (intro fine_with_value [OF eof order_refl]) auto
  qed (use that in auto)
  then show ?thesis unfolding get_cbor_object_def using True
    by (auto intro!: fine_and_then [OF dom_start_fine [OF d, of V_object False] order_refl] simp del: cbor_until_break.simps)
qed

lemma cbor_number_fine:
  assumes d: "dom_shape st True d" and b: "left b \<le> n"
  shows "fine (dom_shape st False) n (cbor_unsigned (dom_sized_sax z a) d b)"
    "fine (dom_shape st False) n (cbor_negative (dom_sized_sax z a) d b)"
    "fine (dom_shape st False) n (cbor_half (dom_sized_sax z a) d b)"
proof -
  let ?sax = "dom_sized_sax z a"
  have "fine (dom_shape st False) n (with_value (get_number ?sax Format_cbor w [] d b) (\<lambda>n d b. send (dom_value (v n) d) b))" for w v
    by (rule fine_with_value [OF get_number_fine [OF b] order_refl]) (use d in \<open>simp add: dom_value_fine\<close>)
  then show "fine (dom_shape st False) n (cbor_unsigned ?sax d b)" "fine (dom_shape st False) n (cbor_negative ?sax d b)"
    by (simp_all add: cbor_unsigned_def cbor_negative_def Let_def dom_value_fine d b)
  have "fine (dom_shape st True) n (unexpect_eof ?sax Format_cbor ''number'' d' (br_get b'))"
    if "dom_shape st True d'" "left b' \<le> n" for d' and b' :: binary_reader
    by (rule unexpect_eof_fine) (use that in \<open>simp_all add: left_get\<close>)
  then show "fine (dom_shape st False) n (cbor_half ?sax d b)"
    unfolding cbor_half_def Let_def
    by (auto intro!: fine_and_then [OF _ order_refl] dom_value_fine d b)
qed

lemma parse_cbor_get: "parse_cbor_internal f sax True s b = parse_cbor_internal f sax False s (br_get b)"
  by (cases f) simp_all

lemma parse_cbor_eof:
  "br_current b = - 1 \<Longrightarrow> 0 < f \<Longrightarrow> left b \<le> n \<Longrightarrow> fine P n (parse_cbor_internal f (dom_sized_sax z a) False d b)"
  using unexpect_eof_cases [of z a Format_cbor "''value''" d b] by (cases f) auto

lemma parse_cbor_fine:
  "enough f b \<Longrightarrow> dom_shape st True d \<Longrightarrow> left b \<le> n \<Longrightarrow>
     fine (dom_shape st False) n (parse_cbor_internal f (dom_sized_sax z a) False d b)"
proof (induction f arbitrary: st d b n)
  case (Suc f)
  let ?sax = "dom_sized_sax z a" and ?fine = "fine (dom_shape st False) n" and ?parse = "parse_cbor_internal f (dom_sized_sax z a)"
  note d = Suc.prems(2) and l = Suc.prems(3)
  show ?case
  proof (cases "br_current b = - 1")
    case True
    then show ?thesis by (rule parse_cbor_eof) (use l in simp_all)
  next
    case False
    then have f: "left b < f" using Suc.prems(1) by (simp add: enough_def)
    have item: "fine (dom_shape (c # st) False) m (?parse g d' b')"
      if "dom_shape (c # st) True d'" "left b' \<le> m" "if g then m \<le> left b else m < left b" for c d' m g and b' :: binary_reader
    proof -
      have "enough f b'" if "\<not> g" using f \<open>if g then _ else _\<close> \<open>left b' \<le> m\<close> that by (simp add: enough_def)
      moreover have "enough f (br_get b')" if g
        using f \<open>if g then _ else _\<close> \<open>left b' \<le> m\<close> that by (intro enough_get) simp
      ultimately show ?thesis using Suc.IH [OF _ that(1)] that(2) by (cases g) (simp_all add: parse_cbor_get left_get)
    qed
    have key: "fine_value ((=) d') m (get_cbor_string f ?sax d' b')" if "left b' \<le> m" "m < left b" for d' m and b' :: binary_reader
      using that f by (intro get_cbor_string_fine) (simp_all add: enough_def)
    have keyT: "fine_value ((=) d') m (get_cbor_string f ?sax d' (br_get b'))"
      if "left b' \<le> m" "m \<le> left b" for d' m and b' :: binary_reader
      using that f by (intro get_cbor_string_fine enough_get) (simp_all add: left_get)
    have arr: "?fine (get_cbor_array ?sax len ?parse d b')" if "left b' \<le> left b" for len b'
      by (rule fine_mono [OF get_cbor_array_fine [OF d that]])
         (use f l in \<open>simp_all add: item parse_cbor_eof\<close>)
    have obj: "?fine (get_cbor_object ?sax len (get_cbor_string f ?sax) ?parse d b')" if "left b' \<le> left b" for len b'
      by (rule fine_mono [OF get_cbor_object_fine [OF d that]])
         (use f l in \<open>simp_all add: item key keyT get_cbor_string_eof\<close>)
    have sized: "?fine (with_value (cbor_length ?sax d b) (\<lambda>len. get_cbor_array ?sax len ?parse))"
      "?fine (with_value (cbor_length ?sax d b) (\<lambda>len. get_cbor_object ?sax len (get_cbor_string f ?sax) ?parse))"
      by (rule fine_with_value [OF cbor_length_fine [OF order_refl] l]; use arr obj in auto)+
    have str: "?fine (with_value (get_cbor_string (Suc f) ?sax d b) (\<lambda>t s1. send (dom_value (JString t) s1)))"
      by (rule fine_with_value [OF get_cbor_string_fine [OF Suc.prems(1) l] order_refl]) (use d in \<open>simp add: dom_value_fine\<close>)
    show ?thesis
      using False by (simp add: Let_def arr obj sized str dom_value_fine [OF d l] number_fine [OF d l]
        cbor_number_fine [OF d l] br_error_fine [OF _ l] del: get_cbor_string.simps)
  qed
qed (simp add: enough_def)

section \<open>Every input has an outcome\<close>

lemma from_binary_defined:
  assumes "fine (dom_shape [] False) (length input) (parse (dom_sized_sax z a) dom_init (binary_reader_init input))"
  shows "(\<exists>j. from_binary z format parse strict a input = Inr j) \<or>
    (\<exists>ex. from_binary z format parse strict a input = Inl (Throw ex))"
proof -
  have "fine (\<lambda>_. True) (length input)
      (br_sax_parse (dom_sized_sax z a) format (parse (dom_sized_sax z a)) strict dom_init (binary_reader_init input))"
    unfolding br_sax_parse_def
    by (rule fine_and_then [OF assms order_refl]) (auto simp: Let_def left_get intro!: br_error_fine le_trans [OF left_ignore])
  then show ?thesis by (auto simp: from_binary_def Let_def fine_def split: sum.splits)
qed

lemma dom_init_shape: "dom_shape [] True dom_init"
  by (simp add: dom_shape_def dom_init_def)

lemma from_cbor_defined:
  "(\<exists>j. from_cbor z strict a input = Inr j) \<or> (\<exists>ex. from_cbor z strict a input = Inl (Throw ex))"
  unfolding from_cbor_def
proof (rule from_binary_defined)
  have "enough (length input + 2) (br_get (binary_reader_init input))"
    by (rule enough_get) (simp add: binary_reader_init_def)
  then show "fine (dom_shape [] False) (length input)
      (parse_cbor_internal (length input + 2) (dom_sized_sax z a) True dom_init (binary_reader_init input))"
    unfolding parse_cbor_get by (rule parse_cbor_fine [OF _ dom_init_shape]) (simp add: left_get binary_reader_init_def)
qed

lemma from_msgpack_defined:
  "(\<exists>j. from_msgpack z strict a input = Inr j) \<or> (\<exists>ex. from_msgpack z strict a input = Inl (Throw ex))"
  unfolding from_msgpack_def
  by (rule from_binary_defined, rule parse_msgpack_fine [OF dom_init_shape]) (simp_all add: binary_reader_init_def)

text \<open>
  Without exceptions the end of the input does not end a string: as many characters are added to it as
  its head says, which can be 2 to the power of 64 for an input of nine bytes.
\<close>

lemma get_bytes_past_end:
  "\<exists>v d' b'. get_bytes (dom_sized_sax z False) format len success result d b = Inr (v, d', b') \<and>
     br_chars_read b' = br_chars_read b + len"
proof (induction len arbitrary: success result d b)
  case (Suc len)
  have "br_chars_read (br_get b) = br_chars_read b + 1" by (simp add: br_get_def split: list.split)
  moreover have "\<exists>go d'. unexpect_eof (dom_sized_sax z False) format ''string'' d (br_get b) = Inr (go, d', br_get b)"
    by (auto simp: unexpect_eof_def dom_parse_error_at)
  ultimately show ?case using Suc.IH [of _ _ _ "br_get b"] by auto
qed simp

lemma string_read_past_end:
  "\<exists>v d' b'. get_string (dom_sized_sax z False) format len d \<lparr> br_rest = [], br_current = c, br_chars_read = n \<rparr> =
     Inr (v, d', b') \<and> br_chars_read b' = n + len"
  using get_bytes_past_end [where b = "\<lparr> br_rest = [], br_current = c, br_chars_read = n \<rparr>"]
  by (simp add: get_string_def)

end
