(* ===== verification/Json_Bson.thy ===== *)
theory Json_Bson
  imports Json_Codec Json_Binary_Safe
begin

text \<open>
  BSON in the JSON library: the sizes of documents, \<open>write_bson\<close>, \<open>parse_bson_internal\<close> with the
  element lists below it, \<open>to_bson\<close> and \<open>from_bson\<close>. Numbers have their lowest byte first.
\<close>

section \<open>Sizes\<close>

definition write_number_le :: "nat \<Rightarrow> int \<Rightarrow> string" where
  "write_number_le w x = rev (write_number w x)"

definition calc_bson_entry_header_size :: "string \<Rightarrow> nat jres" where
  "calc_bson_entry_header_size name =
     (if CHR 0x00 \<in> set name
      then Inl (Throw (out_of_range_create 409
             (''BSON key cannot contain code point U+0000 (at byte '' @
              dec_int (int (length (takeWhile (\<lambda>c. c \<noteq> CHR 0x00) name))) @ '')'')))
      else Inr (1 + length name + 1))"

definition calc_bson_string_size :: "string \<Rightarrow> nat" where
  "calc_bson_string_size v = 4 + length v + 1"

definition calc_bson_integer_size :: "int \<Rightarrow> nat" where
  "calc_bson_integer_size v = (if - 2147483648 \<le> v \<and> v \<le> 2147483647 then 4 else 8)"

definition calc_bson_unsigned_size :: "int \<Rightarrow> nat" where
  "calc_bson_unsigned_size v = (if v \<le> 2147483647 then 4 else 8)"

text \<open>The elements of an array have their indices as names.\<close>

definition indexed :: "json list \<Rightarrow> (string \<times> json) list" where
  "indexed a = zip (map (\<lambda>i. dec_int (int i)) [0..<length a]) a"

lemma indexed_members: "p \<in> set (indexed a) \<Longrightarrow> snd p \<in> set a"
  by (cases p) (auto simp: indexed_def dest: set_zip_rightD)

definition calc_bson_object_size :: "(string \<Rightarrow> json \<Rightarrow> nat jres) \<Rightarrow> (string \<times> json) list \<Rightarrow> nat jres" where
  "calc_bson_object_size element_size m =
     mapE (\<lambda>n. 4 + n + 1) (forE (\<lambda>p result. mapE (\<lambda>n. result + n) (element_size (fst p) (snd p))) m 0)"

definition calc_bson_array_size :: "(string \<Rightarrow> json \<Rightarrow> nat jres) \<Rightarrow> json list \<Rightarrow> nat jres" where
  "calc_bson_array_size element_size a =
     mapE (\<lambda>n. 4 + n + 1) (forE (\<lambda>p result. mapE (\<lambda>n. result + n) (element_size (fst p) (snd p))) (indexed a) 0)"

lemma calc_bson_object_size_cong [fundef_cong]:
  "m = m' \<Longrightarrow> (\<And>k p. p \<in> set m' \<Longrightarrow> f k (snd p) = g k (snd p)) \<Longrightarrow> calc_bson_object_size f m = calc_bson_object_size g m'"
  by (auto simp: calc_bson_object_size_def intro!: arg_cong [where f = "mapE _"] forE_cong)

lemma calc_bson_array_size_cong [fundef_cong]:
  "a = a' \<Longrightarrow> (\<And>k v. v \<in> set a' \<Longrightarrow> f k v = g k v) \<Longrightarrow> calc_bson_array_size f a = calc_bson_array_size g a'"
  by (auto simp: calc_bson_array_size_def dest: indexed_members intro!: arg_cong [where f = "mapE _"] forE_cong)

fun calc_bson_element_size :: "string \<Rightarrow> json \<Rightarrow> nat jres" where
  "calc_bson_element_size name j =
     bindE (calc_bson_entry_header_size name) (\<lambda>header_size.
     case j of
       JObject m \<Rightarrow> mapE (\<lambda>n. header_size + n) (calc_bson_object_size calc_bson_element_size m)
     | JArray a \<Rightarrow> mapE (\<lambda>n. header_size + n) (calc_bson_array_size calc_bson_element_size a)
     | JBoolean b \<Rightarrow> Inr (header_size + 1)
     | JFloat d \<Rightarrow> Inr (header_size + 8)
     | JInteger i \<Rightarrow> Inr (header_size + calc_bson_integer_size i)
     | JUnsigned i \<Rightarrow> Inr (header_size + calc_bson_unsigned_size i)
     | JString s \<Rightarrow> Inr (header_size + calc_bson_string_size s)
     | JNull \<Rightarrow> Inr (header_size + 0)
     | JDiscarded \<Rightarrow> Inl Assertion)"

declare calc_bson_element_size.simps [simp del]

section \<open>Writing\<close>

definition write_bson_entry_header :: "string \<Rightarrow> int \<Rightarrow> string" where
  "write_bson_entry_header name element_type = write_number 1 element_type @ name @ [CHR 0x00]"

definition write_bson_boolean :: "string \<Rightarrow> bool \<Rightarrow> string" where
  "write_bson_boolean name v = write_bson_entry_header name 0x08 @ write_number 1 (if v then 1 else 0)"

definition write_bson_double :: "string \<Rightarrow> double \<Rightarrow> string" where
  "write_bson_double name d = write_bson_entry_header name 0x01 @ write_number_le 8 (uint d)"

definition write_bson_string :: "string \<Rightarrow> string \<Rightarrow> string" where
  "write_bson_string name s =
     write_bson_entry_header name 0x02 @ write_number_le 4 (int (length s) + 1) @ s @ [CHR 0x00]"

definition write_bson_null :: "string \<Rightarrow> string" where
  "write_bson_null name = write_bson_entry_header name 0x0A"

definition write_bson_integer :: "string \<Rightarrow> int \<Rightarrow> string" where
  "write_bson_integer name i =
     (if - 2147483648 \<le> i \<and> i \<le> 2147483647
      then write_bson_entry_header name 0x10 @ write_number_le 4 i
      else write_bson_entry_header name 0x12 @ write_number_le 8 i)"

definition write_bson_unsigned :: "string \<Rightarrow> int \<Rightarrow> string jres" where
  "write_bson_unsigned name i =
     (if i \<le> 2147483647 then Inr (write_bson_entry_header name 0x10 @ write_number_le 4 i)
      else if i \<le> 9223372036854775807 then Inr (write_bson_entry_header name 0x12 @ write_number_le 8 i)
      else Inl (Throw (out_of_range_create 407
             (''integer number '' @ dec_int i @ '' cannot be represented by BSON as it does not fit int64''))))"

text \<open>The loops over the elements; what is written so far is their state.\<close>

definition write_bson_object :: "(string \<Rightarrow> json \<Rightarrow> string jres) \<Rightarrow> (string \<times> json) list \<Rightarrow> string jres" where
  "write_bson_object element m =
     bindE (calc_bson_object_size calc_bson_element_size m) (\<lambda>n.
     mapE (\<lambda>acc. acc @ [CHR 0x00])
       (forE (\<lambda>p acc. mapE (\<lambda>t. acc @ t) (element (fst p) (snd p))) m (write_number_le 4 (int n))))"

definition write_bson_array :: "(string \<Rightarrow> json \<Rightarrow> string jres) \<Rightarrow> string \<Rightarrow> json list \<Rightarrow> string jres" where
  "write_bson_array element name a =
     bindE (calc_bson_array_size calc_bson_element_size a) (\<lambda>n.
     mapE (\<lambda>acc. acc @ [CHR 0x00])
       (forE (\<lambda>p acc. mapE (\<lambda>t. acc @ t) (element (fst p) (snd p))) (indexed a)
         (write_bson_entry_header name 0x04 @ write_number_le 4 (int n))))"

lemma write_bson_object_cong [fundef_cong]:
  "m = m' \<Longrightarrow> (\<And>k p. p \<in> set m' \<Longrightarrow> f k (snd p) = g k (snd p)) \<Longrightarrow> write_bson_object f m = write_bson_object g m'"
  by (auto simp: write_bson_object_def intro!: bindE_cong arg_cong [where f = "mapE _"] forE_cong)

lemma write_bson_array_cong [fundef_cong]:
  "n = n' \<Longrightarrow> a = a' \<Longrightarrow> (\<And>k v. v \<in> set a' \<Longrightarrow> f k v = g k v) \<Longrightarrow> write_bson_array f n a = write_bson_array g n' a'"
  by (auto simp: write_bson_array_def dest: indexed_members intro!: bindE_cong arg_cong [where f = "mapE _"] forE_cong)

fun write_bson_element :: "string \<Rightarrow> json \<Rightarrow> string jres" where
  "write_bson_element name (JObject m) =
     mapE (\<lambda>t. write_bson_entry_header name 0x03 @ t) (write_bson_object write_bson_element m)"
| "write_bson_element name (JArray a) = write_bson_array write_bson_element name a"
| "write_bson_element name (JBoolean b) = Inr (write_bson_boolean name b)"
| "write_bson_element name (JFloat d) = Inr (write_bson_double name d)"
| "write_bson_element name (JInteger i) = Inr (write_bson_integer name i)"
| "write_bson_element name (JUnsigned i) = write_bson_unsigned name i"
| "write_bson_element name (JString s) = Inr (write_bson_string name s)"
| "write_bson_element name JNull = Inr (write_bson_null name)"
| "write_bson_element name JDiscarded = Inl Assertion"

definition to_bson :: "json \<Rightarrow> string jres" where
  "to_bson j =
     (case j of
        JObject m \<Rightarrow> write_bson_object write_bson_element m
      | _ \<Rightarrow> Inl (Throw (type_error_create 317
                (''to serialize to BSON, top-level type must be object, but is '' @ type_name (m_type j)))))"

section \<open>Reading\<close>

definition get_number_le :: "'s sized_sax \<Rightarrow> nat \<Rightarrow> 's \<Rightarrow> binary_reader \<Rightarrow> (nat, 's) bval" where
  "get_number_le sax w s b =
     fill_value (get_number sax Format_bson w [] s b) (\<lambda>n s1 b1. Inr (Some (be_val (rev (be_bytes w n))), s1, b1))"

text \<open>The characters up to the byte 0; the first argument bounds their number.\<close>

fun get_bson_cstr :: "nat \<Rightarrow> 's sized_sax \<Rightarrow> string \<Rightarrow> 's \<Rightarrow> binary_reader \<Rightarrow> (string, 's) bval" where
  "get_bson_cstr 0 sax result s b = Inl Undefined"
| "get_bson_cstr (Suc n) sax result s b =
     bindE (unexpect_eof sax Format_bson ''cstring'' s (br_get b)) (\<lambda>(go, s1, b1).
     if \<not> go then Inr (None, s1, b1)
     else if br_current b1 = 0 then Inr (Some result, s1, b1)
     else get_bson_cstr n sax (result @ [char_of (nat (br_current b1 mod 256))]) s1 b1)"

text \<open>At the end of the input the byte 0 is missing without an error being reported.\<close>

definition get_bson_string :: "'s sized_sax \<Rightarrow> int \<Rightarrow> 's \<Rightarrow> binary_reader \<Rightarrow> (string, 's) bval" where
  "get_bson_string sax len s b =
     (if len < 1
      then mapE (\<lambda>(go, r). (if go then Some [] else None, r))
             (br_error sax Format_bson 112 (''string length must be at least 1, is '' @ dec_int len) ''string'' s b)
      else fill_value (get_string sax Format_bson (nat (len - 1)) s b) (\<lambda>t s1 b1.
             let b2 = br_get b1 in Inr (if br_current b2 \<noteq> - 1 then Some t else None, s1, b2)))"

text \<open>Each turn reads the type and the name of an element and then the element, up to a type of 0.\<close>

fun parse_bson_element_list ::
    "nat \<Rightarrow> 's sized_sax \<Rightarrow> bool \<Rightarrow> (int \<Rightarrow> nat \<Rightarrow> 's \<Rightarrow> binary_reader \<Rightarrow> 's bres) \<Rightarrow> 's \<Rightarrow> binary_reader \<Rightarrow> 's bres" where
  "parse_bson_element_list 0 sax is_array element s b = Inl Undefined"
| "parse_bson_element_list (Suc n) sax is_array element s b =
     (let b1 = br_get b;
          element_type = br_current b1
      in if element_type = 0 then Inr (True, s, b1)
         else
           and_then (unexpect_eof sax Format_bson ''element list'' s b1) (\<lambda>s1 b1.
           let element_type_parse_position = br_chars_read b1 in
           with_value (get_bson_cstr (Suc (length (br_rest b1))) sax [] s1 b1) (\<lambda>key s2 b2.
           and_then (if is_array then Inr (True, s2, b2) else send (sax_key sax key s2) b2) (\<lambda>s3 b3.
           and_then (element element_type element_type_parse_position s3 b3)
             (parse_bson_element_list n sax is_array element)))))"

text \<open>The size of a document is read, and not used; whether it could be read is not looked at.\<close>

definition parse_bson_internal ::
    "'s sized_sax \<Rightarrow> (int \<Rightarrow> nat \<Rightarrow> 's \<Rightarrow> binary_reader \<Rightarrow> 's bres) \<Rightarrow> 's \<Rightarrow> binary_reader \<Rightarrow> 's bres" where
  "parse_bson_internal sax element s b =
     bindE (get_number_le sax 4 s b) (\<lambda>(_, s1, b1).
     and_then (send (sax_start_object sax s1) b1) (\<lambda>s2 b2.
     and_then (parse_bson_element_list (Suc (length (br_rest b2))) sax False element s2 b2) (\<lambda>s3 b3.
     send (sax_end_object sax s3) b3)))"

definition parse_bson_array ::
    "'s sized_sax \<Rightarrow> (int \<Rightarrow> nat \<Rightarrow> 's \<Rightarrow> binary_reader \<Rightarrow> 's bres) \<Rightarrow> 's \<Rightarrow> binary_reader \<Rightarrow> 's bres" where
  "parse_bson_array sax element s b =
     bindE (get_number_le sax 4 s b) (\<lambda>(_, s1, b1).
     and_then (send (sax_start_array sax s1) b1) (\<lambda>s2 b2.
     and_then (parse_bson_element_list (Suc (length (br_rest b2))) sax True element s2 b2) (\<lambda>s3 b3.
     send (sax_end_array sax s3) b3)))"

definition bson_integer :: "'s sized_sax \<Rightarrow> nat \<Rightarrow> 's \<Rightarrow> binary_reader \<Rightarrow> 's bres" where
  "bson_integer sax w s b =
     with_value (get_number_le sax w s b) (\<lambda>n s1 b1. send (sax_number_integer sax (sign_of w n) s1) b1)"

definition unsupported_type :: "'s sized_sax \<Rightarrow> int \<Rightarrow> nat \<Rightarrow> 's \<Rightarrow> binary_reader \<Rightarrow> 's bres" where
  "unsupported_type sax element_type pos s b =
     (let cr = hex2 (element_type mod 256) in
      send (sax_parse_error sax pos cr (parse_error_at 114 pos (''Unsupported BSON record type 0x'' @ cr)) s) b)"

text \<open>The first argument bounds the depth of the value.\<close>

fun parse_bson_element_internal ::
    "nat \<Rightarrow> 's sized_sax \<Rightarrow> int \<Rightarrow> nat \<Rightarrow> 's \<Rightarrow> binary_reader \<Rightarrow> 's bres" where
  "parse_bson_element_internal 0 sax element_type pos s b = Inl Undefined"
| "parse_bson_element_internal (Suc f) sax element_type pos s b =
     (if element_type = 0x01 then
        with_value (get_number_le sax 8 s b) (\<lambda>n s1 b1. send (sax_number_float sax (word_of_nat n) [] s1) b1)
      else if element_type = 0x02 then
        with_value (get_number_le sax 4 s b) (\<lambda>n s1 b1.
        with_value (get_bson_string sax (sign_of 4 n) s1 b1) (\<lambda>t s2 b2. send (sax_string sax t s2) b2))
      else if element_type = 0x03 then parse_bson_internal sax (parse_bson_element_internal f sax) s b
      else if element_type = 0x04 then parse_bson_array sax (parse_bson_element_internal f sax) s b
      else if element_type = 0x08 then (let b1 = br_get b in send (sax_boolean sax (br_current b1 \<noteq> 0) s) b1)
      else if element_type = 0x0A then send (sax_null sax s) b
      else if element_type = 0x10 then bson_integer sax 4 s b
      else if element_type = 0x12 then bson_integer sax 8 s b
      else unsupported_type sax element_type pos s b)"

definition from_bson :: "max_sizes \<Rightarrow> bool \<Rightarrow> bool \<Rightarrow> string \<Rightarrow> json jres" where
  "from_bson sizes strict allow_exceptions input =
     from_binary sizes Format_bson
       (\<lambda>sax. parse_bson_internal sax (parse_bson_element_internal (length input) sax))
       strict allow_exceptions input"

section \<open>The size of a document is its length\<close>

lemma loop_sizes:
  assumes "forE (\<lambda>p acc. mapE (\<lambda>t. acc @ t) (f (fst p) (snd p))) ps acc = Inr acc'"
    and "forE (\<lambda>p r. mapE (\<lambda>n. r + n) (g (fst p) (snd p))) ps r = Inr r'"
    and "\<And>p t n. p \<in> set ps \<Longrightarrow> f (fst p) (snd p) = Inr t \<Longrightarrow> g (fst p) (snd p) = Inr n \<Longrightarrow> n = length t"
  shows "length acc' + r = length acc + r'"
  using assms
proof (induction ps arbitrary: acc r)
  case (Cons p ps)
  obtain t n where tn: "f (fst p) (snd p) = Inr t" "g (fst p) (snd p) = Inr n" using Cons.prems(1,2)
    by (auto simp: res_iff)
  then have "n = length t" by (intro Cons.prems(3)) auto
  moreover have "length acc' + (r + n) = length (acc @ t) + r'"
    by (rule Cons.IH) (use Cons.prems(1,2) tn in simp_all, auto intro: Cons.prems(3))
  ultimately show ?case by simp
qed simp

lemma length_write_number_le [simp]: "length (write_number_le w x) = w"
  by (simp add: write_number_le_def)

lemma length_header [simp]: "length (write_bson_entry_header k ty) = length k + 2"
  by (simp add: write_bson_entry_header_def)

lemma header_not_Nil [simp]: "write_bson_entry_header k ty \<noteq> []"
  using length_header [of k ty] by (auto simp del: length_header)

lemma bson_object_size:
  assumes "write_bson_object write_bson_element m = Inr w" and "calc_bson_object_size calc_bson_element_size m = Inr n"
    and "\<And>p k t n. p \<in> set m \<Longrightarrow> write_bson_element k (snd p) = Inr t \<Longrightarrow> calc_bson_element_size k (snd p) = Inr n \<Longrightarrow> n = length t"
  shows "n = length w"
proof -
  obtain acc where acc: "w = acc @ [CHR 0x00]"
    "forE (\<lambda>p acc. mapE (\<lambda>t. acc @ t) (write_bson_element (fst p) (snd p))) m (write_number_le 4 (int n)) = Inr acc"
    using assms(1,2) by (auto simp: write_bson_object_def res_iff)
  obtain r where r: "forE (\<lambda>p r. mapE (\<lambda>n. r + n) (calc_bson_element_size (fst p) (snd p))) m 0 = Inr r" "n = 4 + r + 1"
    using assms(2) by (auto simp: calc_bson_object_size_def res_iff)
  have "length acc + 0 = length (write_number_le 4 (int n)) + r"
    by (rule loop_sizes [OF acc(2) r(1)]) (rule assms(3))
  then show ?thesis using acc(1) r(2) by simp
qed

lemma bson_array_size:
  assumes "write_bson_array write_bson_element name a = Inr w" and "calc_bson_array_size calc_bson_element_size a = Inr n"
    and "\<And>v k t n. v \<in> set a \<Longrightarrow> write_bson_element k v = Inr t \<Longrightarrow> calc_bson_element_size k v = Inr n \<Longrightarrow> n = length t"
  shows "length name + 2 + n = length w"
proof -
  let ?head = "write_bson_entry_header name 0x04 @ write_number_le 4 (int n)"
  obtain acc where acc: "w = acc @ [CHR 0x00]"
    "forE (\<lambda>p acc. mapE (\<lambda>t. acc @ t) (write_bson_element (fst p) (snd p))) (indexed a) ?head = Inr acc"
    using assms(1,2) by (auto simp: write_bson_array_def res_iff)
  obtain r where r: "forE (\<lambda>p r. mapE (\<lambda>n. r + n) (calc_bson_element_size (fst p) (snd p))) (indexed a) 0 = Inr r" "n = 4 + r + 1"
    using assms(2) by (auto simp: calc_bson_array_size_def res_iff)
  have "length acc + 0 = length ?head + r"
    by (rule loop_sizes [OF acc(2) r(1)]) (rule assms(3) [OF indexed_members])
  then show ?thesis using acc(1) r(2) by simp
qed

lemma bson_element_size:
  "write_bson_element k j = Inr w \<Longrightarrow> calc_bson_element_size k j = Inr n \<Longrightarrow> n = length w"
proof (induction j arbitrary: k w n)
  case (JObject m)
  obtain t o' where t: "write_bson_object write_bson_element m = Inr t" "w = write_bson_entry_header k 0x03 @ t"
    "calc_bson_object_size calc_bson_element_size m = Inr o'" "n = 1 + length k + 1 + o'"
    using JObject.prems by (auto simp: res_iff calc_bson_element_size.simps calc_bson_entry_header_size_def split: if_splits)
  have "o' = length t" by (rule bson_object_size [OF t(1,3)]) (use JObject.IH in \<open>force simp: snds.simps\<close>)
  then show ?case using t by simp
next
  case (JArray a)
  obtain o' where t: "write_bson_array write_bson_element k a = Inr w"
    "calc_bson_array_size calc_bson_element_size a = Inr o'" "n = 1 + length k + 1 + o'"
    using JArray.prems by (auto simp: res_iff calc_bson_element_size.simps calc_bson_entry_header_size_def split: if_splits)
  have "length k + 2 + o' = length w" by (rule bson_array_size [OF t(1,2)]) (rule JArray.IH)
  then show ?case using t(3) by simp
next
  case (JUnsigned i)
  then show ?case by (auto simp: calc_bson_element_size.simps res_iff calc_bson_entry_header_size_def write_bson_unsigned_def
        calc_bson_unsigned_size_def split: if_splits)
qed (auto simp: calc_bson_element_size.simps res_iff calc_bson_entry_header_size_def calc_bson_integer_size_def
    calc_bson_string_size_def write_bson_boolean_def write_bson_double_def write_bson_integer_def write_bson_string_def
    write_bson_null_def split: if_splits)

section \<open>The format of a document\<close>

text \<open>
  The format, written down without the calculation of sizes: a container is its own length in bytes,
  a 32-bit number with the lowest byte first, its entries and the byte 0; an entry is the byte of its type, its
  name, the byte 0 and its value. The names of the elements of an array are their indices.
\<close>

definition framed :: "string \<Rightarrow> string" where
  "framed t = write_number_le 4 (int (4 + length t + 1)) @ t @ [CHR 0x00]"

fun bson_type :: "json \<Rightarrow> int" where
  "bson_type (JFloat d) = 0x01"
| "bson_type (JString s) = 0x02"
| "bson_type (JObject m) = 0x03"
| "bson_type (JArray a) = 0x04"
| "bson_type (JBoolean b) = 0x08"
| "bson_type (JInteger i) = (if - 2147483648 \<le> i \<and> i \<le> 2147483647 then 0x10 else 0x12)"
| "bson_type (JUnsigned i) = (if i \<le> 2147483647 then 0x10 else 0x12)"
| "bson_type v = 0x0A"

definition bson_name :: "string \<Rightarrow> json \<Rightarrow> string" where
  "bson_name k v = write_number 1 (bson_type v) @ k @ [CHR 0x00]"

fun bson_bytes :: "json \<Rightarrow> string"
  and bson_members :: "(string \<times> json) list \<Rightarrow> string"
  and bson_elements :: "nat \<Rightarrow> json list \<Rightarrow> string"
where
  "bson_bytes (JObject m) = framed (bson_members m)"
| "bson_bytes (JArray a) = framed (bson_elements 0 a)"
| "bson_bytes (JBoolean b) = write_number 1 (if b then 1 else 0)"
| "bson_bytes (JFloat d) = write_number_le 8 (uint d)"
| "bson_bytes (JInteger i) = write_number_le (if bson_type (JInteger i) = 0x10 then 4 else 8) i"
| "bson_bytes (JUnsigned i) = write_number_le (if bson_type (JUnsigned i) = 0x10 then 4 else 8) i"
| "bson_bytes (JString s) = write_number_le 4 (int (length s + 1)) @ s @ [CHR 0x00]"
| "bson_bytes v = []"
| "bson_members [] = []"
| "bson_members ((k, v) # m) = bson_name k v @ bson_bytes v @ bson_members m"
| "bson_elements i [] = []"
| "bson_elements i (v # a) = bson_name (dec_int (int i)) v @ bson_bytes v @ bson_elements (Suc i) a"

lemma bson_members_concat:
  "bson_members m = concat (map (\<lambda>p. bson_name (fst p) (snd p) @ bson_bytes (snd p)) m)"
  by (induction m) auto

lemma bson_elements_concat:
  "bson_elements i a = concat (map (\<lambda>p. bson_name (fst p) (snd p) @ bson_bytes (snd p))
     (zip (map (\<lambda>i. dec_int (int i)) [i..<i + length a]) a))"
proof (induction a arbitrary: i)
  case (Cons v a)
  then show ?case using upt_conv_Cons [of i "i + length (v # a)"] by simp
qed simp

lemma loop_writes:
  assumes "forE (\<lambda>p acc. mapE (\<lambda>t. acc @ t) (f (fst p) (snd p))) ps acc = Inr acc'"
    and "\<And>p t. p \<in> set ps \<Longrightarrow> f (fst p) (snd p) = Inr t \<Longrightarrow> t = g p"
  shows "acc' = acc @ concat (map g ps)"
  using assms
proof (induction ps arbitrary: acc)
  case (Cons p ps)
  then obtain t where t: "f (fst p) (snd p) = Inr t" by (auto simp: res_iff)
  have "t = g p" by (rule Cons.prems(2) [OF _ t]) simp
  moreover have "acc' = (acc @ t) @ concat (map g ps)"
    by (rule Cons.IH) (use Cons.prems t in simp_all)
  ultimately show ?case by simp
qed simp

lemma object_bytes:
  assumes "write_bson_object write_bson_element m = Inr w"
    and "\<And>p k t. p \<in> set m \<Longrightarrow> write_bson_element k (snd p) = Inr t \<Longrightarrow> t = bson_name k (snd p) @ bson_bytes (snd p)"
  shows "w = framed (bson_members m)"
proof -
  obtain n acc where n: "calc_bson_object_size calc_bson_element_size m = Inr n" and acc: "w = acc @ [CHR 0x00]"
    "forE (\<lambda>p acc. mapE (\<lambda>t. acc @ t) (write_bson_element (fst p) (snd p))) m (write_number_le 4 (int n)) = Inr acc"
    using assms(1) by (auto simp: write_bson_object_def res_iff)
  have "n = length w" by (rule bson_object_size [OF assms(1) n]) (rule bson_element_size)
  moreover have "acc = write_number_le 4 (int n) @ bson_members m"
    unfolding bson_members_concat by (rule loop_writes [OF acc(2)]) (rule assms(2))
  ultimately show ?thesis using acc(1) by (simp add: framed_def)
qed

lemma array_bytes:
  assumes "write_bson_array write_bson_element name a = Inr w"
    and "\<And>v k t. v \<in> set a \<Longrightarrow> write_bson_element k v = Inr t \<Longrightarrow> t = bson_name k v @ bson_bytes v"
  shows "w = bson_name name (JArray a) @ framed (bson_elements 0 a)"
proof -
  obtain n acc where n: "calc_bson_array_size calc_bson_element_size a = Inr n" and acc: "w = acc @ [CHR 0x00]"
    "forE (\<lambda>p acc. mapE (\<lambda>t. acc @ t) (write_bson_element (fst p) (snd p))) (indexed a)
       (write_bson_entry_header name 0x04 @ write_number_le 4 (int n)) = Inr acc"
    using assms(1) by (auto simp: write_bson_array_def res_iff)
  have "length name + 2 + n = length w" by (rule bson_array_size [OF assms(1) n]) (rule bson_element_size)
  moreover have "acc = (write_bson_entry_header name 0x04 @ write_number_le 4 (int n)) @ bson_elements 0 a"
    unfolding bson_elements_concat indexed_def [symmetric] add_0
    by (rule loop_writes [OF acc(2)]) (rule assms(2) [OF indexed_members])
  ultimately show ?thesis using acc(1)
    by (simp add: framed_def bson_name_def write_bson_entry_header_def)
qed

lemma element_bytes: "write_bson_element k j = Inr t \<Longrightarrow> t = bson_name k j @ bson_bytes j"
proof (induction j arbitrary: k t)
  case (JObject m)
  then obtain w where w: "write_bson_object write_bson_element m = Inr w" "t = write_bson_entry_header k 0x03 @ w"
    by (auto simp: res_iff)
  have "w = framed (bson_members m)" by (rule object_bytes [OF w(1)]) (use JObject.IH in \<open>force simp: snds.simps\<close>)
  then show ?case using w(2) by (simp add: bson_name_def write_bson_entry_header_def)
next
  case (JArray a)
  have "write_bson_array write_bson_element k a = Inr t" using JArray.prems by simp
  then have "t = bson_name k (JArray a) @ framed (bson_elements 0 a)" by (rule array_bytes) (rule JArray.IH)
  then show ?case by simp
qed (auto simp: bson_name_def write_bson_entry_header_def write_bson_boolean_def write_bson_double_def
    write_bson_integer_def write_bson_string_def write_bson_null_def write_bson_unsigned_def add.commute split: if_splits)

text \<open>
  C28. What \<open>to_bson\<close> writes is the document in the format \<open>bson_bytes\<close>, so the sizes that are calculated
  before anything is written are right at every depth: every object and every array in the document
  begins with its own length in bytes, as a 32-bit number with the lowest byte first (the length modulo 2 to
  the power of 32), and ends with the byte 0. A document shorter than 2 to the power of 31 bytes begins with
  four bytes that a reader takes for its length.
\<close>

theorem bson_document_size:
  assumes "to_bson j = Inr w"
  shows "w = bson_bytes j \<and> take 4 w = write_number_le 4 (int (length w)) \<and> last w = CHR 0x00 \<and>
    (length w < 2147483648 \<longrightarrow> sign_of 4 (be_val (rev (take 4 w))) = int (length w))"
proof -
  obtain m where m: "j = JObject m" "write_bson_object write_bson_element m = Inr w"
    using assms by (auto simp: to_bson_def split: json.splits)
  have w: "w = framed (bson_members m)" by (rule object_bytes [OF m(2)]) (rule element_bytes)
  then have t: "take 4 w = write_number_le 4 (int (length w))" by (simp add: framed_def)
  have "rev (take 4 w) = write_number 4 (int (length w))" unfolding t by (simp add: write_number_le_def)
  moreover have "sign_of 4 (be_val (write_number 4 (int n))) = int n" if "n < 2147483648" for n
    by (rule sign_of_write) (use that in simp_all)
  ultimately have "length w < 2147483648 \<longrightarrow> sign_of 4 (be_val (rev (take 4 w))) = int (length w)"
    by (simp only:) simp
  then show ?thesis using w t m(1) by (simp add: framed_def)
qed

lemma bson_document_size_witness:
  "\<exists>w. to_bson (JObject [(''a'', JArray [JNull])]) = Inr w \<and> length w = 16 \<and>
     sign_of 4 (be_val (rev (take 4 w))) = 16 \<and> take 4 (drop 7 w) = write_number_le 4 8"
proof -
  let ?w = "[CHR 0x10, CHR 0x00, CHR 0x00, CHR 0x00, CHR 0x04, CHR ''a'', CHR 0x00,
    CHR 0x08, CHR 0x00, CHR 0x00, CHR 0x00, CHR 0x0A, CHR ''0'', CHR 0x00, CHR 0x00, CHR 0x00]"
  have w: "to_bson (JObject [(''a'', JArray [JNull])]) = Inr ?w" by code_simp
  have "sign_of 4 (be_val (rev (take 4 ?w))) = 16"
    using bson_document_size [OF w, THEN conjunct2, THEN conjunct2, THEN conjunct2] by simp
  moreover have "take 4 (drop 7 ?w) = write_number_le 4 8" by code_simp
  ultimately show ?thesis using w by (intro exI [of _ ?w]) simp
qed

text \<open>The length of a string is cast to a 32-bit number: 2 to the power of 31 becomes negative.\<close>

lemma long_string_negative:
  assumes "length s = 2147483647"
  shows "write_bson_string k s = write_bson_entry_header k 0x02 @ write_number_le 4 (- 2147483648) @ s @ [CHR 0x00]"
proof -
  have "write_number 4 2147483648 = write_number 4 (- 2147483648)" by (simp add: write_number_def)
  then show ?thesis by (simp add: write_bson_string_def write_number_le_def assms)
qed

end
