(* ===== verification/Json_Bson_Codec.thy ===== *)
theory Json_Bson_Codec
  imports Json_Bson
begin

text \<open>BSON: what is written is read back.\<close>

section \<open>What is written is read back\<close>

text \<open>BSON has no unsigned numbers.\<close>

fun bson_value :: "json \<Rightarrow> json" where
  "bson_value (JUnsigned i) = JInteger i"
| "bson_value (JArray a) = JArray (map bson_value a)"
| "bson_value (JObject m) = JObject (map (\<lambda>p. (fst p, bson_value (snd p))) m)"
| "bson_value v = v"

text \<open>The length of a string with the byte 0 after it fits into a signed 32-bit number.\<close>

fun short_strings :: "json \<Rightarrow> bool" where
  "short_strings (JString s) = (length s + 1 < 2 ^ 31)"
| "short_strings (JArray a) = (\<forall>x \<in> set a. short_strings x)"
| "short_strings (JObject m) = (\<forall>p \<in> set m. short_strings (snd p))"
| "short_strings v = True"

lemma be_bytes_val: "be_bytes (length t) (be_val t) = t"
proof (induction t rule: rev_induct)
  case (snoc c t)
  have "(of_char c :: nat) < 256" using of_char_mod_256 [of c] by (metis mod_less_divisor zero_less_numeral)
  then show ?case using snoc by (simp add: be_val_snoc)
qed simp

lemma get_number_le_reads:
  assumes "br_rest b = write_number_le w x @ r"
  shows "\<exists>b'. get_number_le sax w s b = Inr (Some (be_val (write_number w x)), s, b') \<and> br_rest b' = r"
proof -
  obtain b' where b': "get_number sax Format_bson w [] s b = Inr (Some (be_val (write_number_le w x)), s, b')" "br_rest b' = r"
    using get_number_reads [OF assms, of w sax Format_bson "[]" s] by auto
  have "be_bytes w (be_val (write_number_le w x)) = write_number_le w x"
    using be_bytes_val [of "write_number_le w x"] by simp
  then show ?thesis using b' by (simp add: get_number_le_def write_number_le_def)
qed

lemma get_signed_le_reads:
  assumes "br_rest b = write_number_le w x @ r" and "0 < w" "- (2 ^ (8 * w - 1)) \<le> x" "x < 2 ^ (8 * w - 1)"
  shows "\<exists>n b'. get_number_le sax w s b = Inr (Some n, s, b') \<and> sign_of w n = x \<and> br_rest b' = r"
  using get_number_le_reads [OF assms(1), of sax s] sign_of_write [OF assms(2-4)] by auto

lemma cstr_reads:
  "CHR 0x00 \<notin> set k \<Longrightarrow> br_rest b = k @ CHR 0x00 # r \<Longrightarrow> length k < n \<Longrightarrow>
     \<exists>b'. get_bson_cstr n sax acc d b = Inr (Some (acc @ k), d, b') \<and> br_rest b' = r"
proof (induction k arbitrary: n b acc)
  case Nil
  then obtain n' where n: "n = Suc n'" by (cases n) auto
  have "br_rest b = CHR 0x00 # r" using Nil.prems(2) by simp
  from br_get_Cons [OF this] show ?case by (simp add: n unexpect_eof_byte)
next
  case (Cons c k)
  then obtain n' where n: "n = Suc n'" by (cases n) auto
  have c: "br_rest b = c # k @ CHR 0x00 # r" using Cons.prems(2) by simp
  note g = br_get_Cons [OF c]
  have "ord c \<noteq> 0"
  proof
    assume "ord c = 0"
    then have "char_of (nat 0) = c" by (metis char_of_byte)
    moreover have "char_of (nat 0) = CHR 0x00" by code_simp
    ultimately show False using Cons.prems(1) by simp
  qed
  then show ?case using Cons.IH [OF _ g(1), of n' "acc @ [c]"] Cons.prems g(2-4) by (simp add: n unexpect_eof_byte)
qed

lemma bson_string_reads:
  assumes "br_rest b = t @ CHR 0x00 # r"
  shows "\<exists>b'. get_bson_string sax (int (length t) + 1) s b = Inr (Some t, s, b') \<and> br_rest b' = r"
proof -
  obtain b1 where b1: "get_string sax Format_bson (length t) s b = Inr (Some t, s, b1)" "br_rest b1 = CHR 0x00 # r"
    using get_string_reads [OF assms, of sax Format_bson s] by auto
  then show ?thesis using br_get_Cons(1-3) [OF b1(2)] by (simp add: get_bson_string_def)
qed

text \<open>The text of an element: its type and name, and what its reader takes for it.\<close>

definition takes_entry ::
    "(int \<Rightarrow> nat \<Rightarrow> dom_state \<Rightarrow> binary_reader \<Rightarrow> dom_state bres) \<Rightarrow> string \<Rightarrow> string \<times> json \<Rightarrow> bool" where
  "takes_entry rd t p \<longleftrightarrow>
     (\<exists>ty body. t = write_bson_entry_header (fst p) ty @ body \<and> 0 < ty \<and> ty < 256 \<and> CHR 0x00 \<notin> set (fst p) \<and>
        (\<forall>pos. takes (rd ty pos) body (snd p)))"

lemma entry_reads:
  assumes "takes_entry rd t (k, v)" and "br_rest b = t @ r"
  shows "\<exists>ty pos body b2. br_rest b2 = body @ r \<and> takes (rd ty pos) body v \<and>
    parse_bson_element_list (Suc n) (dom_sized_sax z a) is_array rd d b =
      and_then (if is_array then Inr (True, d, b2) else send (dom_key k d) b2) (\<lambda>d b.
      and_then (rd ty pos d b) (parse_bson_element_list n (dom_sized_sax z a) is_array rd))"
proof -
  obtain ty body where t: "t = write_bson_entry_header k ty @ body" "0 < ty" "ty < 256" "CHR 0x00 \<notin> set k"
    "\<forall>pos. takes (rd ty pos) body v"
    using assms(1) by (auto simp: takes_entry_def)
  have "br_rest b = write_number 1 ty @ k @ CHR 0x00 # body @ r" using assms(2) t(1) by (simp add: write_bson_entry_header_def)
  from next_byte [OF this] t(2,3) have g: "br_rest (br_get b) = k @ CHR 0x00 # body @ r" "br_current (br_get b) = ty" by simp_all
  obtain b2 where "get_bson_cstr (Suc (length (br_rest (br_get b)))) (dom_sized_sax z a) [] d (br_get b) = Inr (Some k, d, b2)"
    "br_rest b2 = body @ r"
    using cstr_reads [OF t(4) g(1), of "Suc (length (br_rest (br_get b)))" "dom_sized_sax z a" "[]" d] g(1) by auto
  then show ?thesis using t(2,5) g(2)
    by (auto simp: unexpect_eof_byte Let_def simp del: get_bson_cstr.simps intro!: exI [of _ ty])
qed

lemma bson_list_end:
  assumes "br_rest b = CHR 0x00 # r"
  shows "\<exists>b'. parse_bson_element_list (Suc n) sax is_array rd d b = Inr (True, d, b') \<and> br_rest b' = r"
  using br_get_Cons [OF assms] by simp

lemma bson_elements:
  assumes "place q R" and "list_all2 (takes_entry rd) ts ps"
  shows "ref_stack d = q # rs \<Longrightarrow> root d = R (JArray ys) \<Longrightarrow> br_rest b = concat ts @ CHR 0x00 # r \<Longrightarrow> length ts < n \<Longrightarrow>
    \<exists>b' e. parse_bson_element_list n (dom_sized_sax z a) True rd d b =
        Inr (True, d\<lparr> root := R (JArray (ys @ map snd ps)), object_element := e \<rparr>, b') \<and> br_rest b' = r"
  using assms(2)
proof (induction ts ps arbitrary: d b ys n rule: list_all2_induct)
  case Nil
  then obtain n' where "n = Suc n'" by (cases n) auto
  then show ?case using bson_list_end [of b r n' "dom_sized_sax z a" True rd d] Nil by (auto intro!: exI [of _ "object_element d"])
next
  case (Cons t ts p ps)
  then obtain n' where n: "n = Suc n'" by (cases n) auto
  obtain k v where p: "p = (k, v)" by fastforce
  obtain ty pos body b2 where e: "br_rest b2 = body @ concat ts @ CHR 0x00 # r" "takes (rd ty pos) body v"
    "parse_bson_element_list n (dom_sized_sax z a) True rd d b =
      and_then (rd ty pos d b2) (parse_bson_element_list n' (dom_sized_sax z a) True rd)"
    using entry_reads [OF Cons(1) [unfolded p], of b "concat ts @ CHR 0x00 # r" n' z a True d] Cons(6) by (auto simp: n)
  obtain b1 e1 where 1: "rd ty pos d b2 = Inr (True, d\<lparr> root := R (JArray (ys @ [v])), object_element := e1 \<rparr>, b1)"
    "br_rest b1 = concat ts @ CHR 0x00 # r"
    using takesD [OF e(2) slot_element [OF assms(1) Cons(4,5)] e(1)] by auto
  let ?d = "d\<lparr> root := R (JArray (ys @ [v])), object_element := e1 \<rparr>"
  obtain b' e' where "parse_bson_element_list n' (dom_sized_sax z a) True rd ?d b1 =
      Inr (True, ?d\<lparr> root := R (JArray ((ys @ [v]) @ map snd ps)), object_element := e' \<rparr>, b')" "br_rest b' = r"
    using Cons(3) [of ?d "ys @ [v]" b1 n'] Cons(4,7) 1(2) n by auto
  then show ?case using 1(1) e(3) p by auto
qed

lemma bson_members:
  assumes "place q R" and "list_all2 (takes_entry rd) ts m"
  shows "sorted_keys (ms @ m) \<Longrightarrow> ref_stack d = q # rs \<Longrightarrow> root d = R (JObject ms) \<Longrightarrow>
    br_rest b = concat ts @ CHR 0x00 # r \<Longrightarrow> length ts < n \<Longrightarrow>
    \<exists>b' e. parse_bson_element_list n (dom_sized_sax z a) False rd d b =
        Inr (True, d\<lparr> root := R (JObject (ms @ m)), object_element := e \<rparr>, b') \<and> br_rest b' = r"
  using assms(2)
proof (induction ts m arbitrary: d b ms n rule: list_all2_induct)
  case Nil
  then obtain n' where "n = Suc n'" by (cases n) auto
  then show ?case using bson_list_end [of b r n' "dom_sized_sax z a" False rd d] Nil by (auto intro!: exI [of _ "object_element d"])
next
  case (Cons t ts p m)
  then obtain n' where n: "n = Suc n'" by (cases n) auto
  obtain k v where p: "p = (k, v)" by fastforce
  obtain ty pos body b2 where e: "br_rest b2 = body @ concat ts @ CHR 0x00 # r" "takes (rd ty pos) body v"
    "parse_bson_element_list n (dom_sized_sax z a) False rd d b =
      and_then (send (dom_key k d) b2) (\<lambda>d b. and_then (rd ty pos d b) (parse_bson_element_list n' (dom_sized_sax z a) False rd))"
    using entry_reads [OF Cons(1) [unfolded p], of b "concat ts @ CHR 0x00 # r" n' z a False d] Cons(7) by (auto simp: n)
  obtain m' where key: "dom_key k d = Inr (True, d\<lparr> root := R (JObject m'), object_element := Some (q @ [Key k]) \<rparr>)"
    and s: "slot (d\<lparr> root := R (JObject m'), object_element := Some (q @ [Key k]) \<rparr>) (\<lambda>x. R (JObject (obj_set k x ms)))"
    using slot_key [OF assms(1) Cons(5,6)] by blast
  have "\<forall>x \<in> fst ` set ms. x < k" using Cons(4) by (auto simp: sorted_wrt_append p)
  then have ms: "obj_set k v ms = ms @ [p]" by (simp add: obj_set_append p)
  obtain b1 e1 where 1: "rd ty pos (d\<lparr> root := R (JObject m'), object_element := Some (q @ [Key k]) \<rparr>) b2 =
      Inr (True, d\<lparr> root := R (JObject (ms @ [p])), object_element := e1 \<rparr>, b1)" "br_rest b1 = concat ts @ CHR 0x00 # r"
    using takesD [OF e(2) s e(1)] ms by auto
  let ?d = "d\<lparr> root := R (JObject (ms @ [p])), object_element := e1 \<rparr>"
  obtain b' e' where "parse_bson_element_list n' (dom_sized_sax z a) False rd ?d b1 =
      Inr (True, ?d\<lparr> root := R (JObject ((ms @ [p]) @ m)), object_element := e' \<rparr>, b')" "br_rest b' = r"
    using Cons(3) [of "ms @ [p]" ?d b1 n'] Cons(4,5,8) 1(2) n by auto
  then show ?case using 1(1) e(3) key by auto
qed

lemma list_texts: "list_all2 (takes_entry rd) ts ps \<Longrightarrow> length ts \<le> length (concat ts)"
proof (induction ts ps rule: list_all2_induct)
  case (Cons t ts p ps)
  have "Suc 0 \<le> length t" using Cons(1) by (auto simp: takes_entry_def)
  then show ?case using Cons(3) by simp
qed simp

lemma bson_object_reads:
  assumes "list_all2 (takes_entry rd) ts m" and "sorted_keys m"
  shows "takes (parse_bson_internal (dom_sized_sax z a) rd) (write_number_le 4 x @ concat ts @ [CHR 0x00]) (JObject m)"
  unfolding takes_def
proof (intro allI impI)
  fix d R r and b :: binary_reader
  assume s: "slot d R" and "br_rest b = (write_number_le 4 x @ concat ts @ [CHR 0x00]) @ r"
  then have b: "br_rest b = write_number_le 4 x @ concat ts @ CHR 0x00 # r" by simp
  obtain n b1 where b1: "get_number_le (dom_sized_sax z a) 4 d b = Inr (Some n, d, b1)" "br_rest b1 = concat ts @ CHR 0x00 # r"
    using get_number_le_reads [OF b, of "dom_sized_sax z a" d] by auto
  obtain q where q: "place q R"
    "dom_start V_object d = Inr (True, d\<lparr> root := R (JObject []), ref_stack := q # ref_stack d \<rparr>)"
    using slot_start [OF s, of V_object] by auto
  let ?d = "d\<lparr> root := R (JObject []), ref_stack := q # ref_stack d \<rparr>"
  have l: "length ts < Suc (length (br_rest b1))" using list_texts [OF assms(1)] b1(2) by simp
  obtain b' e where "parse_bson_element_list (Suc (length (br_rest b1))) (dom_sized_sax z a) False rd ?d b1 =
      Inr (True, ?d\<lparr> root := R (JObject m), object_element := e \<rparr>, b')" "br_rest b' = r"
    using bson_members [OF q(1) assms(1), of "[]" ?d "ref_stack d" b1 r "Suc (length (br_rest b1))" z a] assms(2) b1(2) l by auto
  then show "\<exists>b' e. parse_bson_internal (dom_sized_sax z a) rd d b =
      Inr (True, d\<lparr> root := R (JObject m), object_element := e \<rparr>, b') \<and> br_rest b' = r"
    using q(2) b1(1) by (auto simp: parse_bson_internal_def dom_end_def ref_stack_first simp del: parse_bson_element_list.simps
        intro!: exI [of _ e])
qed

lemma bson_array_reads:
  assumes "list_all2 (takes_entry rd) ts ps"
  shows "takes (parse_bson_array (dom_sized_sax z a) rd) (write_number_le 4 x @ concat ts @ [CHR 0x00]) (JArray (map snd ps))"
  unfolding takes_def
proof (intro allI impI)
  fix d R r and b :: binary_reader
  assume s: "slot d R" and "br_rest b = (write_number_le 4 x @ concat ts @ [CHR 0x00]) @ r"
  then have b: "br_rest b = write_number_le 4 x @ concat ts @ CHR 0x00 # r" by simp
  obtain n b1 where b1: "get_number_le (dom_sized_sax z a) 4 d b = Inr (Some n, d, b1)" "br_rest b1 = concat ts @ CHR 0x00 # r"
    using get_number_le_reads [OF b, of "dom_sized_sax z a" d] by auto
  obtain q where q: "place q R"
    "dom_start V_array d = Inr (True, d\<lparr> root := R (JArray []), ref_stack := q # ref_stack d \<rparr>)"
    using slot_start [OF s, of V_array] by auto
  let ?d = "d\<lparr> root := R (JArray []), ref_stack := q # ref_stack d \<rparr>"
  have l: "length ts < Suc (length (br_rest b1))" using list_texts [OF assms(1)] b1(2) by simp
  obtain b' e where "parse_bson_element_list (Suc (length (br_rest b1))) (dom_sized_sax z a) True rd ?d b1 =
      Inr (True, ?d\<lparr> root := R (JArray (map snd ps)), object_element := e \<rparr>, b')" "br_rest b' = r"
    using bson_elements [OF q(1) assms(1), of ?d "ref_stack d" "[]" b1 r "Suc (length (br_rest b1))" z a] b1(2) l by auto
  then show "\<exists>b' e. parse_bson_array (dom_sized_sax z a) rd d b =
      Inr (True, d\<lparr> root := R (JArray (map snd ps)), object_element := e \<rparr>, b') \<and> br_rest b' = r"
    using q(2) b1(1) by (auto simp: parse_bson_array_def dom_end_def ref_stack_first simp del: parse_bson_element_list.simps
        intro!: exI [of _ e])
qed

text \<open>What the writing loops leave.\<close>

lemma loop_texts:
  "forE (\<lambda>p acc. mapE (\<lambda>t. acc @ t) (f (fst p) (snd p))) ps acc = Inr acc' \<Longrightarrow>
     \<exists>ts. acc' = acc @ concat ts \<and> list_all2 (\<lambda>t p. f (fst p) (snd p) = Inr t) ts ps"
proof (induction ps arbitrary: acc)
  case (Cons p ps)
  obtain t where t: "f (fst p) (snd p) = Inr t" using Cons.prems by (auto simp: res_iff)
  obtain ts where "acc' = (acc @ t) @ concat ts" "list_all2 (\<lambda>t p. f (fst p) (snd p) = Inr t) ts ps"
    using Cons.IH [of "acc @ t"] Cons.prems t by auto
  then show ?case using t by (intro exI [of _ "t # ts"]) simp
qed simp

lemma loop_names:
  "forE (\<lambda>p r. mapE (\<lambda>n. r + n) (calc_bson_element_size (fst p) (snd p))) ps r = Inr r' \<Longrightarrow> p \<in> set ps \<Longrightarrow>
     CHR 0x00 \<notin> set (fst p)"
proof (induction ps arbitrary: r)
  case (Cons p' ps)
  then show ?case
    by (auto simp: res_iff calc_bson_element_size.simps calc_bson_entry_header_size_def split: if_splits)
qed simp

lemma bson_entries:
  assumes "forE (\<lambda>p acc. mapE (\<lambda>t. acc @ t) (write_bson_element (fst p) (snd p))) ps acc = Inr acc'"
    and "forE (\<lambda>p r. mapE (\<lambda>n. r + n) (calc_bson_element_size (fst p) (snd p))) ps 0 = Inr r"
    and "\<And>p t. p \<in> set ps \<Longrightarrow> write_bson_element (fst p) (snd p) = Inr t \<Longrightarrow> CHR 0x00 \<notin> set (fst p) \<Longrightarrow>
      takes_entry rd t (fst p, bson_value (snd p))"
  shows "\<exists>ts. acc' = acc @ concat ts \<and> list_all2 (takes_entry rd) ts (map (\<lambda>p. (fst p, bson_value (snd p))) ps)"
proof -
  obtain ts where ts: "acc' = acc @ concat ts" "list_all2 (\<lambda>t p. write_bson_element (fst p) (snd p) = Inr t) ts ps"
    using loop_texts [OF assms(1)] by blast
  have "list_all2 (\<lambda>t p. takes_entry rd t (fst p, bson_value (snd p))) ts ps"
    by (rule list.rel_mono_strong [OF ts(2)], rule assms(3)) (assumption | erule loop_names [OF assms(2)])+
  then show ?thesis using ts(1) by (auto simp: list_all2_map2)
qed

text \<open>Values that are no containers.\<close>

lemma takes_entryI:
  assumes "t = write_bson_entry_header k ty @ body" "0 < ty" "ty < 256" "CHR 0x00 \<notin> set k"
    and "\<And>pos. takes (rd ty pos) body v"
  shows "takes_entry rd t (k, v)"
  using assms by (auto simp: takes_entry_def)

lemma bson_branch:
  "parse_bson_element_internal (Suc f) sax 0x01 pos =
     (\<lambda>s b. with_value (get_number_le sax 8 s b) (\<lambda>n s1 b1. send (sax_number_float sax (word_of_nat n) [] s1) b1))"
  "parse_bson_element_internal (Suc f) sax 0x02 pos =
     (\<lambda>s b. with_value (get_number_le sax 4 s b) (\<lambda>n s1 b1.
        with_value (get_bson_string sax (sign_of 4 n) s1 b1) (\<lambda>t s2 b2. send (sax_string sax t s2) b2)))"
  "parse_bson_element_internal (Suc f) sax 0x03 pos = parse_bson_internal sax (parse_bson_element_internal f sax)"
  "parse_bson_element_internal (Suc f) sax 0x04 pos = parse_bson_array sax (parse_bson_element_internal f sax)"
  "parse_bson_element_internal (Suc f) sax 0x08 pos =
     (\<lambda>s b. send (sax_boolean sax (br_current (br_get b) \<noteq> 0) s) (br_get b))"
  "parse_bson_element_internal (Suc f) sax 0x0A pos = (\<lambda>s b. send (sax_null sax s) b)"
  "parse_bson_element_internal (Suc f) sax 0x10 pos = bson_integer sax 4"
  "parse_bson_element_internal (Suc f) sax 0x12 pos = bson_integer sax 8"
  by (intro ext; simp add: Let_def)+

lemma bson_integer_back:
  assumes k: "CHR 0x00 \<notin> set k" and i: "in64 i"
  shows "takes_entry (parse_bson_element_internal (Suc f) (dom_sized_sax z a)) (write_bson_integer k i) (k, JInteger i)"
proof -
  let ?sax = "dom_sized_sax z a"
  have rd: "takes (bson_integer ?sax w) (write_number_le w i) (JInteger i)"
    if "0 < w" "- (2 ^ (8 * w - 1)) \<le> i" "i < 2 ^ (8 * w - 1)" for w
  proof (rule takes_event)
    fix d r and b :: binary_reader
    assume "br_rest b = write_number_le w i @ r"
    from get_signed_le_reads [OF this that, of ?sax d]
    show "\<exists>b'. bson_integer ?sax w d b = send (dom_value (JInteger i) d) b' \<and> br_rest b' = r"
      by (auto simp: bson_integer_def)
  qed
  show ?thesis
  proof (cases "- 2147483648 \<le> i \<and> i \<le> 2147483647")
    case True
    show ?thesis
      by (rule takes_entryI [where ty = "0x10" and body = "write_number_le 4 i"])
         (use True k rd [of 4] in \<open>simp_all add: write_bson_integer_def bson_branch del: parse_bson_element_internal.simps\<close>)
  next
    case False
    show ?thesis
      by (rule takes_entryI [where ty = "0x12" and body = "write_number_le 8 i"])
         (use False k rd [of 8] i in \<open>auto simp: write_bson_integer_def in64_def bson_branch simp del: parse_bson_element_internal.simps\<close>)
  qed
qed

lemma bson_unsigned_back:
  assumes "write_bson_unsigned k i = Inr t" and "CHR 0x00 \<notin> set k" and "inu64 i"
  shows "takes_entry (parse_bson_element_internal (Suc f) (dom_sized_sax z a)) t (k, JInteger i)"
proof -
  have "t = write_bson_integer k i" "in64 i"
    using assms(1,3) by (auto simp: write_bson_unsigned_def write_bson_integer_def inu64_def in64_def split: if_splits)
  then show ?thesis using bson_integer_back [OF assms(2), of i] by simp
qed

lemma bson_primitive_back:
  assumes k: "CHR 0x00 \<notin> set k"
  shows "takes_entry (parse_bson_element_internal (Suc f) (dom_sized_sax z a)) (write_bson_null k) (k, JNull)"
    "takes_entry (parse_bson_element_internal (Suc f) (dom_sized_sax z a)) (write_bson_boolean k v) (k, JBoolean v)"
    "takes_entry (parse_bson_element_internal (Suc f) (dom_sized_sax z a)) (write_bson_double k x) (k, JFloat x)"
    "length s + 1 < 2 ^ 31 \<Longrightarrow>
       takes_entry (parse_bson_element_internal (Suc f) (dom_sized_sax z a)) (write_bson_string k s) (k, JString s)"
proof -
  let ?sax = "dom_sized_sax z a"
  show "takes_entry (parse_bson_element_internal (Suc f) ?sax) (write_bson_null k) (k, JNull)"
    by (rule takes_entryI [where ty = "0x0A" and body = "[]"])
       (use k in \<open>auto simp: write_bson_null_def bson_branch simp del: parse_bson_element_internal.simps intro!: takes_event\<close>)
  have "takes (\<lambda>d b. send (dom_value (JBoolean (br_current (br_get b) \<noteq> 0)) d) (br_get b)) (write_number 1 (if v then 1 else 0)) (JBoolean v)"
  proof (rule takes_event)
    fix d r and b :: binary_reader
    assume "br_rest b = write_number 1 (if v then 1 else 0) @ r"
    from next_byte [OF this] show "\<exists>b'. send (dom_value (JBoolean (br_current (br_get b) \<noteq> 0)) d) (br_get b) =
      send (dom_value (JBoolean v) d) b' \<and> br_rest b' = r" by (intro exI [of _ "br_get b"]) (simp split: if_splits)
  qed
  then show "takes_entry (parse_bson_element_internal (Suc f) ?sax) (write_bson_boolean k v) (k, JBoolean v)"
    by (intro takes_entryI [where ty = "0x08"]) (use k in \<open>auto simp: write_bson_boolean_def bson_branch simp del: parse_bson_element_internal.simps\<close>)
  have "takes (\<lambda>d b. with_value (get_number_le ?sax 8 d b) (\<lambda>n s1 b1. send (dom_value (JFloat (word_of_nat n)) s1) b1))
      (write_number_le 8 (uint x)) (JFloat x)"
  proof (rule takes_event)
    fix d r and b :: binary_reader
    assume "br_rest b = write_number_le 8 (uint x) @ r"
    from get_number_le_reads [OF this, of ?sax d]
    show "\<exists>b'. with_value (get_number_le ?sax 8 d b) (\<lambda>n s1 b1. send (dom_value (JFloat (word_of_nat n)) s1) b1) =
      send (dom_value (JFloat x) d) b' \<and> br_rest b' = r"
      using be_val_unsigned [of "uint x" 8] uint_lt2p [of x] by auto
  qed
  then show "takes_entry (parse_bson_element_internal (Suc f) ?sax) (write_bson_double k x) (k, JFloat x)"
    by (intro takes_entryI [where ty = "0x01"]) (use k in \<open>auto simp: write_bson_double_def bson_branch simp del: parse_bson_element_internal.simps\<close>)
  assume s: "length s + 1 < 2 ^ 31"
  have "takes (\<lambda>d b. with_value (get_number_le ?sax 4 d b) (\<lambda>n s1 b1.
        with_value (get_bson_string ?sax (sign_of 4 n) s1 b1) (\<lambda>t s2 b2. send (dom_value (JString t) s2) b2)))
      (write_number_le 4 (int (length s) + 1) @ s @ [CHR 0x00]) (JString s)" (is "takes ?rd _ _")
  proof (rule takes_event)
    fix d r and b :: binary_reader
    assume "br_rest b = (write_number_le 4 (int (length s) + 1) @ s @ [CHR 0x00]) @ r"
    then have b: "br_rest b = write_number_le 4 (int (length s) + 1) @ (s @ CHR 0x00 # r)" by simp
    obtain n b1 where n: "get_number_le ?sax 4 d b = Inr (Some n, d, b1)" "sign_of 4 n = int (length s) + 1"
      "br_rest b1 = s @ CHR 0x00 # r"
      using get_signed_le_reads [OF b, of ?sax d] s by auto
    show "\<exists>b'. ?rd d b = send (dom_value (JString s) d) b' \<and> br_rest b' = r"
      using n bson_string_reads [OF n(3), of ?sax d] by auto
  qed
  then show "takes_entry (parse_bson_element_internal (Suc f) ?sax) (write_bson_string k s) (k, JString s)"
    by (intro takes_entryI [where ty = "0x02"]) (use k in \<open>auto simp: write_bson_string_def bson_branch simp del: parse_bson_element_internal.simps\<close>)
qed

section \<open>Every value\<close>

lemma bson_object_back:
  assumes m: "write_bson_object write_bson_element m = Inr t" "sorted_keys m"
    and parts: "\<And>p t. p \<in> set m \<Longrightarrow> write_bson_element (fst p) (snd p) = Inr t \<Longrightarrow> CHR 0x00 \<notin> set (fst p) \<Longrightarrow>
      takes_entry rd t (fst p, bson_value (snd p))"
  shows "takes (parse_bson_internal (dom_sized_sax z a) rd) t (bson_value (JObject m))"
proof -
  obtain n acc where n: "calc_bson_object_size calc_bson_element_size m = Inr n" and t: "t = acc @ [CHR 0x00]"
    and w: "forE (\<lambda>p acc. mapE (\<lambda>t. acc @ t) (write_bson_element (fst p) (snd p))) m (write_number_le 4 (int n)) = Inr acc"
    using m(1) by (auto simp: write_bson_object_def res_iff)
  obtain r where r: "forE (\<lambda>p r. mapE (\<lambda>n. r + n) (calc_bson_element_size (fst p) (snd p))) m 0 = Inr r"
    using n by (auto simp: calc_bson_object_size_def res_iff)
  obtain ts where ts: "acc = write_number_le 4 (int n) @ concat ts"
    "list_all2 (takes_entry rd) ts (map (\<lambda>p. (fst p, bson_value (snd p))) m)"
    using bson_entries [OF w r parts] by blast
  have srt: "sorted_keys (map (\<lambda>p. (fst p, bson_value (snd p))) m)" using m(2) by (simp add: comp_def)
  show ?thesis using bson_object_reads [OF ts(2) srt, of z a "int n"] by (simp add: t ts(1))
qed

lemma bson_array_back:
  assumes a: "write_bson_array write_bson_element k xs = Inr t"
    and parts: "\<And>k v t. v \<in> set xs \<Longrightarrow> write_bson_element k v = Inr t \<Longrightarrow> CHR 0x00 \<notin> set k \<Longrightarrow>
      takes_entry rd t (k, bson_value v)"
  shows "\<exists>body. t = write_bson_entry_header k 0x04 @ body \<and>
    takes (parse_bson_array (dom_sized_sax z al) rd) body (bson_value (JArray xs))"
proof -
  obtain n acc where n: "calc_bson_array_size calc_bson_element_size xs = Inr n" and t: "t = acc @ [CHR 0x00]"
    and w: "forE (\<lambda>p acc. mapE (\<lambda>t. acc @ t) (write_bson_element (fst p) (snd p))) (indexed xs)
      (write_bson_entry_header k 0x04 @ write_number_le 4 (int n)) = Inr acc"
    using a by (auto simp: write_bson_array_def res_iff)
  obtain r where r: "forE (\<lambda>p r. mapE (\<lambda>n. r + n) (calc_bson_element_size (fst p) (snd p))) (indexed xs) 0 = Inr r"
    using n by (auto simp: calc_bson_array_size_def res_iff)
  obtain ts where ts: "acc = (write_bson_entry_header k 0x04 @ write_number_le 4 (int n)) @ concat ts"
    "list_all2 (takes_entry rd) ts (map (\<lambda>p. (fst p, bson_value (snd p))) (indexed xs))"
    using bson_entries [OF w r parts [OF indexed_members]] by blast
  have "map snd (map (\<lambda>p. (fst p, bson_value (snd p))) (indexed xs)) = map bson_value (map snd (indexed xs))" by simp
  also have "\<dots> = map bson_value xs" by (simp add: indexed_def)
  finally show ?thesis using bson_array_reads [OF ts(2), of z al "int n"] by (simp add: t ts(1))
qed

lemma bson_flat_back:
  assumes "\<not> is_structured j" and "write_bson_element k j = Inr t" and "CHR 0x00 \<notin> set k"
    and "wf_json j" "short_strings j" and "json_depth j < f"
  shows "takes_entry (parse_bson_element_internal f (dom_sized_sax z a)) t (k, bson_value j)"
proof -
  obtain g where "f = Suc g" using assms(6) by (cases f) auto
  then show ?thesis using assms bson_unsigned_back [of k _ t g z a]
    by (cases j) (auto simp: bson_integer_back bson_primitive_back simp del: parse_bson_element_internal.simps)
qed

lemma bson_element_back:
  "write_bson_element k j = Inr t \<Longrightarrow> CHR 0x00 \<notin> set k \<Longrightarrow> wf_json j \<Longrightarrow> short_strings j \<Longrightarrow> json_depth j < f \<Longrightarrow>
     takes_entry (parse_bson_element_internal f (dom_sized_sax z a)) t (k, bson_value j)"
proof (induction j arbitrary: k t f)
  case (JObject m)
  obtain g where f: "f = Suc g" using JObject.prems(5) by (cases f) auto
  obtain u where u: "write_bson_object write_bson_element m = Inr u" "t = write_bson_entry_header k 0x03 @ u"
    using JObject.prems(1) by (auto simp: res_iff)
  have "takes_entry (parse_bson_element_internal g (dom_sized_sax z a)) t (fst p, bson_value (snd p))"
    if p: "p \<in> set m" "write_bson_element (fst p) (snd p) = Inr t" "CHR 0x00 \<notin> set (fst p)" for p t
    using JObject.IH [OF p(1) _ p(2,3), of g] JObject.prems(3-5) depth_parts(2) [OF p(1)] p(1) f by (auto simp: snds.simps)
  then have "takes (parse_bson_internal (dom_sized_sax z a) (parse_bson_element_internal g (dom_sized_sax z a))) u (bson_value (JObject m))"
    using bson_object_back [OF u(1)] JObject.prems(3) by simp
  then show ?case unfolding f
    by (intro takes_entryI [where ty = "0x03" and body = u])
       (use JObject.prems(2) u(2) in \<open>simp_all add: bson_branch del: parse_bson_element_internal.simps bson_value.simps\<close>)
next
  case (JArray xs)
  obtain g where f: "f = Suc g" using JArray.prems(5) by (cases f) auto
  have "takes_entry (parse_bson_element_internal g (dom_sized_sax z a)) t (k, bson_value v)"
    if v: "v \<in> set xs" "write_bson_element k v = Inr t" "CHR 0x00 \<notin> set k" for k v t
    using JArray.IH [OF v, of g] JArray.prems(3-5) depth_parts(1) [OF v(1)] v(1) f by auto
  then obtain body where b: "t = write_bson_entry_header k 0x04 @ body"
    "takes (parse_bson_array (dom_sized_sax z a) (parse_bson_element_internal g (dom_sized_sax z a))) body (bson_value (JArray xs))"
    using bson_array_back [of k xs t] JArray.prems(1) by fastforce
  then show ?case unfolding f
    by (intro takes_entryI [where ty = "0x04" and body = body])
       (use JArray.prems(2) in \<open>simp_all add: bson_branch del: parse_bson_element_internal.simps bson_value.simps\<close>)
qed (rule bson_flat_back; simp)+

text \<open>The parts of what was written, which is longer than its value is deep.\<close>

lemma loop_each:
  "forE (\<lambda>p acc. mapE (\<lambda>t. acc @ t) (f (fst p) (snd p))) ps acc = Inr acc' \<Longrightarrow> p \<in> set ps \<Longrightarrow>
     \<exists>t. f (fst p) (snd p) = Inr t \<and> length acc + length t \<le> length acc'"
proof (induction ps arbitrary: acc)
  case (Cons p' ps)
  obtain t where t: "f (fst p') (snd p') = Inr t" "forE (\<lambda>p acc. mapE (\<lambda>t. acc @ t) (f (fst p) (snd p))) ps (acc @ t) = Inr acc'"
    using Cons.prems(1) by (auto simp: res_iff)
  have "length (acc @ t) \<le> length acc'" using loop_texts [OF t(2)] by auto
  then show ?case using Cons.IH [OF t(2)] Cons.prems(2) t(1) by fastforce
qed simp

lemma bson_object_parts:
  assumes "write_bson_object write_bson_element m = Inr u" and "p \<in> set m"
  shows "\<exists>t. write_bson_element (fst p) (snd p) = Inr t \<and> length t + 5 \<le> length u"
  using assms loop_each [OF _ assms(2)] by (fastforce simp: write_bson_object_def res_iff)

lemma bson_array_parts:
  assumes "write_bson_array write_bson_element k xs = Inr u" and "v \<in> set xs"
  shows "\<exists>k t. write_bson_element k v = Inr t \<and> length t + 5 \<le> length u"
proof -
  have "v \<in> set (map snd (indexed xs))" using assms(2) by (simp add: indexed_def)
  then obtain p where p: "p \<in> set (indexed xs)" "snd p = v" by auto
  show ?thesis using assms(1) loop_each [OF _ p(1)] p(2) by (fastforce simp: write_bson_array_def res_iff)
qed

lemma bson_depth:
  "write_bson_element k j = Inr t \<Longrightarrow> json_depth j < length t"
proof (induction j arbitrary: k t)
  case (JObject m)
  obtain u where u: "write_bson_object write_bson_element m = Inr u" "t = write_bson_entry_header k 0x03 @ u"
    using JObject.prems(1) by (auto simp: res_iff)
  have "json_depth (snd p) \<le> length u" if p: "p \<in> set m" for p
    using bson_object_parts [OF u(1) p] JObject.IH [OF p, of "snd p"] by (fastforce simp: snds.simps)
  then have "json_depth (JObject m) \<le> Suc (length u)" by (intro depth_le) blast
  then show ?case using u(2) by (simp del: json_depth.simps)
next
  case (JArray xs)
  have w: "write_bson_array write_bson_element k xs = Inr t" using JArray.prems by simp
  have "json_depth v + 6 \<le> length t" if v: "v \<in> set xs" for v
    using bson_array_parts [OF w v] JArray.IH [OF v] by fastforce
  then have "\<forall>v \<in> set xs. json_depth v \<le> length t - 6" by fastforce
  then have "json_depth (JArray xs) \<le> Suc (length t - 6)" by (rule depth_le)
  moreover have "6 \<le> length t"
    using w loop_texts by (fastforce simp: write_bson_array_def res_iff)
  ultimately show ?case by linarith
qed (auto simp: write_bson_null_def write_bson_boolean_def write_bson_double_def write_bson_integer_def
    write_bson_unsigned_def write_bson_string_def split: if_splits)

lemma bson_value_eq: "write_bson_element k j = Inr t \<Longrightarrow> wf_json j \<Longrightarrow> json_eq (bson_value j) j"
proof (induction j arbitrary: k t)
  case (JObject m)
  obtain u where u: "write_bson_object write_bson_element m = Inr u" using JObject.prems(1) by (auto simp: res_iff)
  have "json_eq (bson_value (snd p)) (snd p)" if p: "p \<in> set m" for p
    using bson_object_parts [OF u p] JObject.IH [OF p, of "snd p"] JObject.prems(2) p by (fastforce simp: snds.simps)
  then show ?case by (auto simp: list_all2_map1 intro!: list.rel_refl_strong)
next
  case (JArray xs)
  have w: "write_bson_array write_bson_element k xs = Inr t" using JArray.prems by simp
  have "json_eq (bson_value v) v" if v: "v \<in> set xs" for v
    using bson_array_parts [OF w v] JArray.IH [OF v] JArray.prems(2) v by fastforce
  then show ?case by (auto simp: list_all2_map1 intro!: list.rel_refl_strong)
next
  case (JUnsigned i)
  then have "in64 i" by (auto simp: write_bson_unsigned_def inu64_def in64_def split: if_splits)
  then show ?case by (simp add: wrap64_id)
next
  case (JFloat d)
  then show ?case by (simp add: double_eq_def double_nan_def isfinite_def)
qed auto

text \<open>
  What BSON can hold: names without the byte 0 and integers of 64 bits with a sign. Writing succeeds
  for it, and only for it.
\<close>

fun bson_fits :: "json \<Rightarrow> bool" where
  "bson_fits (JUnsigned i) = (i \<le> 9223372036854775807)"
| "bson_fits (JArray a) = (\<forall>x \<in> set a. bson_fits x)"
| "bson_fits (JObject m) = (\<forall>p \<in> set m. CHR 0x00 \<notin> set (fst p) \<and> bson_fits (snd p))"
| "bson_fits JDiscarded = False"
| "bson_fits v = True"

lemma forE_succeeds: "(\<And>x s. x \<in> set xs \<Longrightarrow> \<exists>s'. f x s = Inr s') \<Longrightarrow> \<exists>s'. forE f xs s = Inr s'"
proof (induction xs arbitrary: s)
  case (Cons x xs)
  obtain s1 where "f x s = Inr s1" using Cons.prems [of x s] by auto
  moreover have "\<exists>s'. forE f xs s1 = Inr s'" by (rule Cons.IH) (auto intro: Cons.prems)
  ultimately show ?case by simp
qed simp

lemma index_name: "p \<in> set (indexed a) \<Longrightarrow> CHR 0x00 \<notin> set (fst p)"
proof -
  assume "p \<in> set (indexed a)"
  then have "fst p \<in> set (map (\<lambda>i. dec_int (int i)) [0..<length a])"
    unfolding indexed_def by (metis prod.collapse set_zip_leftD)
  then obtain i where "fst p = dec_nat i" by (auto simp: dec_int_def)
  moreover have "\<not> is_digit (CHR 0x00)" by code_simp
  ultimately show ?thesis using dec_nat_digits [of i] by auto
qed

lemma object_size_succeeds:
  "(\<And>p. p \<in> set m \<Longrightarrow> \<exists>n. f (fst p) (snd p) = Inr n) \<Longrightarrow> \<exists>n. calc_bson_object_size f m = Inr n"
  using forE_succeeds [of m "\<lambda>p result. mapE (\<lambda>n. result + n) (f (fst p) (snd p))" 0]
  by (fastforce simp: calc_bson_object_size_def res_iff)

lemma array_size_succeeds:
  "(\<And>p. p \<in> set (indexed xs) \<Longrightarrow> \<exists>n. f (fst p) (snd p) = Inr n) \<Longrightarrow> \<exists>n. calc_bson_array_size f xs = Inr n"
  using forE_succeeds [of "indexed xs" "\<lambda>p result. mapE (\<lambda>n. result + n) (f (fst p) (snd p))" 0]
  by (fastforce simp: calc_bson_array_size_def res_iff)

lemma element_size_succeeds:
  "bson_fits j \<Longrightarrow> CHR 0x00 \<notin> set k \<Longrightarrow> \<exists>n. calc_bson_element_size k j = Inr n"
proof (induction j arbitrary: k)
  case (JObject m)
  have "\<exists>n. calc_bson_object_size calc_bson_element_size m = Inr n"
    by (rule object_size_succeeds) (use JObject.IH JObject.prems(1) in \<open>force simp: snds.simps\<close>)
  then show ?case using JObject.prems(2) by (auto simp: calc_bson_element_size.simps calc_bson_entry_header_size_def)
next
  case (JArray xs)
  have "\<exists>n. calc_bson_array_size calc_bson_element_size xs = Inr n"
    by (rule array_size_succeeds, rule JArray.IH) (use JArray.prems(1) index_name indexed_members in auto)
  then show ?case using JArray.prems(2) by (auto simp: calc_bson_element_size.simps calc_bson_entry_header_size_def)
qed (auto simp: calc_bson_element_size.simps calc_bson_entry_header_size_def)

lemma bson_object_succeeds:
  assumes "bson_fits (JObject m)" and "\<And>p k. p \<in> set m \<Longrightarrow> \<exists>t. write_bson_element k (snd p) = Inr t"
  shows "\<exists>w. write_bson_object write_bson_element m = Inr w"
proof -
  obtain n where n: "calc_bson_object_size calc_bson_element_size m = Inr n"
    using object_size_succeeds [of m calc_bson_element_size] element_size_succeeds assms(1) by fastforce
  have "\<exists>acc. forE (\<lambda>p acc. mapE (\<lambda>t. acc @ t) (write_bson_element (fst p) (snd p))) m (write_number_le 4 (int n)) = Inr acc"
    by (rule forE_succeeds) (use assms(2) in \<open>fastforce simp: res_iff\<close>)
  then show ?thesis using n by (auto simp: write_bson_object_def)
qed

lemma bson_array_succeeds:
  assumes "bson_fits (JArray xs)" and "\<And>v k. v \<in> set xs \<Longrightarrow> \<exists>t. write_bson_element k v = Inr t"
  shows "\<exists>w. write_bson_array write_bson_element k xs = Inr w"
proof -
  obtain n where n: "calc_bson_array_size calc_bson_element_size xs = Inr n"
    using array_size_succeeds [of xs calc_bson_element_size] element_size_succeeds index_name indexed_members assms(1) by fastforce
  have "\<exists>acc. forE (\<lambda>p acc. mapE (\<lambda>t. acc @ t) (write_bson_element (fst p) (snd p))) (indexed xs)
      (write_bson_entry_header k 0x04 @ write_number_le 4 (int n)) = Inr acc"
    by (rule forE_succeeds) (use assms(2) [OF indexed_members] in \<open>fastforce simp: res_iff\<close>)
  then show ?thesis using n by (auto simp: write_bson_array_def)
qed

lemma bson_element_succeeds: "bson_fits j \<Longrightarrow> \<exists>t. write_bson_element k j = Inr t"
proof (induction j arbitrary: k)
  case (JObject m)
  have "\<exists>w. write_bson_object write_bson_element m = Inr w"
    by (rule bson_object_succeeds [OF JObject.prems]) (use JObject.IH JObject.prems in \<open>force simp: snds.simps\<close>)
  then show ?case by auto
next
  case (JArray xs)
  have "\<exists>w. write_bson_array write_bson_element k xs = Inr w"
    by (rule bson_array_succeeds [OF JArray.prems]) (use JArray.IH JArray.prems in auto)
  then show ?case by simp
qed (auto simp: write_bson_unsigned_def)

lemma bson_back:
  assumes "wf_json j" and "short_strings j" and "to_bson j = Inr w"
  shows "from_bson z strict a w = Inr (bson_value j) \<and> json_eq (bson_value j) j"
proof -
  obtain m where j: "j = JObject m" and m: "write_bson_object write_bson_element m = Inr w"
    using assms(3) by (auto simp: to_bson_def split: json.splits)
  have "takes_entry (parse_bson_element_internal (length w) (dom_sized_sax z a)) t (fst p, bson_value (snd p))"
    if p: "p \<in> set m" "write_bson_element (fst p) (snd p) = Inr t" "CHR 0x00 \<notin> set (fst p)" for p t
  proof (rule bson_element_back [OF p(2,3)])
    show "wf_json (snd p)" "short_strings (snd p)" using assms(1,2) p(1) by (auto simp: j)
    show "json_depth (snd p) < length w" using bson_depth [OF p(2)] bson_object_parts [OF m p(1)] p(2) by auto
  qed
  then have "takes (parse_bson_internal (dom_sized_sax z a) (parse_bson_element_internal (length w) (dom_sized_sax z a))) w (bson_value j)"
    using bson_object_back [OF m] assms(1) unfolding j by simp
  from takesD [OF this slot_init, of "binary_reader_init w" "[]"]
  obtain b' e where "parse_bson_internal (dom_sized_sax z a) (parse_bson_element_internal (length w) (dom_sized_sax z a))
      dom_init (binary_reader_init w) = Inr (True, dom_init\<lparr> root := bson_value j, object_element := e \<rparr>, b')" "br_rest b' = []"
    by (auto simp: binary_reader_init_def)
  then have "from_bson z strict a w = Inr (bson_value j)"
    by (simp add: from_bson_def from_binary_def br_sax_parse_def Let_def)
  moreover have "write_bson_element [] j = Inr (write_bson_entry_header [] 0x03 @ w)" by (simp add: j m)
  ultimately show ?thesis using bson_value_eq assms(1) by blast
qed

text \<open>
  C27. BSON round trip: for every well-formed object whose string values are shorter than 2 to the
  power of 31 minus 1 bytes (so that the length with the byte 0 fits a signed 32-bit number; see
  \<open>long_string_negative\<close>), whose names have no byte 0 and whose integers fit into 64 bits with a sign, \<open>to_bson\<close> succeeds, and
  \<open>from_bson\<close> reads back what it writes, with the input consumed completely: the same value,
  floating-point numbers to the bit, with signed numbers for the unsigned ones, and equal to it in the
  sense of \<open>operator==\<close>.
\<close>

theorem bson_roundtrip:
  assumes "wf_json (JObject m)" and "short_strings (JObject m)" and "bson_fits (JObject m)"
  shows "\<exists>w. to_bson (JObject m) = Inr w \<and> from_bson z strict a w = Inr (bson_value (JObject m)) \<and>
    json_eq (bson_value (JObject m)) (JObject m)"
proof -
  obtain w where "to_bson (JObject m) = Inr w"
    using bson_element_succeeds [OF assms(3), of "[]"] by (auto simp: to_bson_def res_iff)
  then show ?thesis using bson_back [OF assms(1,2)] by blast
qed

lemma bson_roundtrip_witness:
  "\<exists>w. to_bson ex_packed = Inr w \<and>
     from_bson \<lparr> array_max_size = 1000, object_max_size = 1000 \<rparr> True True w = Inr (bson_value ex_packed) \<and>
     bson_value ex_packed \<noteq> ex_packed \<and> json_eq (bson_value ex_packed) ex_packed"
proof -
  obtain m where m: "ex_packed = JObject m" by (auto simp: ex_packed_def)
  have "short_strings ex_packed" "bson_fits ex_packed" "bson_value ex_packed \<noteq> ex_packed" by (simp_all add: ex_packed_def)
  then show ?thesis using bson_roundtrip [of m] ex_packed_ok(1) unfolding m by blast
qed

end
