(* ===== verification/Json_Bson_Safe.thy ===== *)
theory Json_Bson_Safe
  imports Json_Bson
begin

text \<open>Reading BSON is defined for every input, as for the other formats.\<close>

section \<open>Every input has an outcome\<close>

text \<open>A number that could not be read leaves the builder as it is, but for the flag of the error.\<close>

lemma dom_shape_errored [simp]: "dom_shape st r (d\<lparr> errored := x \<rparr>) = dom_shape st r d"
  by (simp add: dom_shape_def split: list.split bool.split)

lemma unexpect_eof_shape:
  "unexpect_eof (dom_sized_sax z a) format context d b = Inr (go, d', b') \<Longrightarrow> dom_shape st r d \<Longrightarrow> dom_shape st r d'"
  by (auto simp: unexpect_eof_def dom_parse_error_at split: if_splits)

lemma get_number_shape:
  "get_number (dom_sized_sax z a) format w vec d b = Inr (v, d', b') \<Longrightarrow> dom_shape st r d \<Longrightarrow> dom_shape st r d'"
proof (induction w arbitrary: vec d b)
  case (Suc w)
  obtain go d1 b1 where e: "unexpect_eof (dom_sized_sax z a) format ''number'' d (br_get b) = Inr (go, d1, b1)"
    using Suc.prems(1) by (auto simp: res_iff)
  then show ?case using Suc.IH Suc.prems(1) unexpect_eof_shape [OF e Suc.prems(2)] by (auto split: if_splits)
qed simp

lemma get_number_le_fine: "left b \<le> n \<Longrightarrow> fine_value ((=) d) n (get_number_le (dom_sized_sax z a) w d b)"
  unfolding get_number_le_def by (rule fine_fill_value [OF get_number_fine order_refl]) simp_all

lemma get_number_le_shape:
  "get_number_le (dom_sized_sax z a) w d b = Inr (v, d', b') \<Longrightarrow> dom_shape st r d \<Longrightarrow> dom_shape st r d'"
  by (auto simp: get_number_le_def fill_value_def res_iff split: option.splits dest: get_number_shape)

lemma get_bson_cstr_fine:
  "left b \<le> n \<Longrightarrow> left b < k \<Longrightarrow> fine_value ((=) d) n (get_bson_cstr k (dom_sized_sax z a) acc d b)"
proof (induction k arbitrary: acc b)
  case (Suc k)
  have "br_current (br_get b) \<noteq> - 1 \<Longrightarrow> left (br_get b) < k" using loop_get [of b] Suc.prems(2) by simp
  then show ?case using unexpect_eof_cases [of z a Format_bson "''cstring''" d "br_get b"] Suc.IH [of "br_get b"] Suc.prems(1)
    by (auto simp: left_get)
qed simp

lemma get_bson_string_fine:
  assumes "left b \<le> n"
  shows "fine_value ((=) d) n (get_bson_string (dom_sized_sax z a) len d b)"
proof (cases "len < 1")
  case True
  then show ?thesis using assms by (simp add: get_bson_string_def byte_error_fine)
next
  case False
  have "fine_value ((=) d) n (fill_value (get_string (dom_sized_sax z a) Format_bson (nat (len - 1)) d b) (\<lambda>t s1 b1.
      let b2 = br_get b1 in Inr (if br_current b2 \<noteq> - 1 then Some t else None, s1, b2)))"
    by (rule fine_fill_value [OF get_string_fine [OF assms] order_refl]) (auto simp: Let_def left_get)
  then show ?thesis using False by (simp add: get_bson_string_def)
qed

lemma element_list_fine:
  assumes element: "\<And>ty pos d b m. dom_shape (c # st) True d \<Longrightarrow> left b \<le> m \<Longrightarrow> m < n \<Longrightarrow>
      fine (dom_shape (c # st) False) m (rd ty pos d b)"
  shows "dom_shape (c # st) False d \<Longrightarrow> left b \<le> n \<Longrightarrow> left b < k \<Longrightarrow>
    fine (dom_shape (c # st) False) n (parse_bson_element_list k (dom_sized_sax z a) c rd d b)"
proof (induction k arbitrary: d b)
  case (Suc k)
  let ?sax = "dom_sized_sax z a" and ?b = "br_get b" and ?list = "parse_bson_element_list k (dom_sized_sax z a) c rd"
  consider "br_current ?b = 0" | "br_current ?b = - 1" | "br_current ?b \<noteq> 0" "br_current ?b \<noteq> - 1" by blast
  then show ?case
  proof cases
    case 1
    then show ?thesis using Suc.prems(1,2) by (simp add: Let_def left_get)
  next
    case 2
    have "left ?b \<le> n" using Suc.prems(2) by (simp add: left_get)
    then show ?thesis using 2 unexpect_eof_cases [of z a Format_bson "''element list''" d ?b] by (auto simp: Let_def)
  next
    case 3
    have l: "left ?b < n" "left ?b < k" using loop_get [OF 3(2)] Suc.prems by simp_all
    have key: "fine (dom_shape (c # st) True) (left ?b) (if c then Inr (True, d, b2) else send (sax_key ?sax key d) b2)"
      if "left b2 \<le> left ?b" for key and b2 :: binary_reader
      using Suc.prems(1) dom_key_shape [of st d key] that by (cases c) (auto intro: dom_next_shape)
    have rest: "fine (dom_shape (c # st) False) n (and_then (rd ty pos d3 b3) ?list)"
      if "dom_shape (c # st) True d3" "left b3 \<le> left ?b" for ty pos d3 and b3 :: binary_reader
      by (rule fine_and_then [OF element [OF that l(1)]]) (use l Suc.IH in auto)
    have "fine (dom_shape (c # st) False) n
      (with_value (get_bson_cstr (Suc (left ?b)) ?sax [] d ?b) (\<lambda>key s2 b2.
         and_then (if c then Inr (True, s2, b2) else send (sax_key ?sax key s2) b2) (\<lambda>s3 b3.
         and_then (rd (br_current ?b) (br_chars_read ?b) s3 b3) ?list)))"
    proof (rule fine_with_value [OF get_bson_cstr_fine [OF order_refl lessI]])
      fix key d2 and b2 :: binary_reader
      assume d2: "d = d2" and b2: "left b2 \<le> left ?b"
      show "fine (dom_shape (c # st) False) n
          (and_then (if c then Inr (True, d2, b2) else send (sax_key ?sax key d2) b2) (\<lambda>s3 b3.
           and_then (rd (br_current ?b) (br_chars_read ?b) s3 b3) ?list))"
        unfolding d2 [symmetric] by (rule fine_and_then [OF key [OF b2]]) (use l(1) rest in auto)
    qed (use l(1) in simp)
    then show ?thesis
      using 3 unexpect_eof_cases [of z a Format_bson "''element list''" d ?b] l(1)
      by (auto simp: Let_def simp del: get_bson_cstr.simps)
  qed
qed simp

lemma bson_document_fine:
  assumes d: "dom_shape st True d" and b: "left b \<le> n"
    and element: "\<And>c ty pos d b m. dom_shape (c # st) True d \<Longrightarrow> left b \<le> m \<Longrightarrow> m < n \<Longrightarrow>
      fine (dom_shape (c # st) False) m (rd ty pos d b)"
  shows "fine (dom_shape st False) n (parse_bson_internal (dom_sized_sax z a) rd d b)"
    "fine (dom_shape st False) n (parse_bson_array (dom_sized_sax z a) rd d b)"
proof -
  let ?sax = "dom_sized_sax z a"
  have list: "fine (dom_shape st False) n
      (and_then (parse_bson_element_list (Suc (left b2)) ?sax c rd d2 b2) (\<lambda>s3 b3. send (dom_end s3) b3))"
    if "dom_shape (c # st) False d2" "left b2 \<le> n" for c d2 and b2 :: binary_reader
    by (rule fine_and_then [OF element_list_fine [OF element that] order_refl]) (auto intro: dom_end_fine)
  have whole: "fine (dom_shape st False) n (bindE (get_number_le ?sax 4 d b) (\<lambda>(v, s1, b1).
      and_then (send (dom_start t s1) b1) (\<lambda>s2 b2.
      and_then (parse_bson_element_list (Suc (left b2)) ?sax c rd s2 b2) (\<lambda>s3 b3. send (dom_end s3) b3))))"
    if t: "t = (if c then V_array else V_object)" for t c
  proof (cases "get_number_le ?sax 4 d b")
    case (Inl err)
    then show ?thesis using get_number_le_fine [OF b, of d z a 4] by auto
  next
    case (Inr r)
    then obtain v d1 b1 where r: "get_number_le ?sax 4 d b = Inr (v, d1, b1)" by (cases r) auto
    have "left b1 \<le> n" using get_number_le_fine [OF b, of d z a 4] r by simp
    then have "fine (dom_shape st False) n (and_then (send (dom_start t d1) b1) (\<lambda>s2 b2.
        and_then (parse_bson_element_list (Suc (left b2)) ?sax c rd s2 b2) (\<lambda>s3 b3. send (dom_end s3) b3)))"
      by (intro fine_and_then [OF dom_start_fine [OF get_number_le_shape [OF r d] _ t] order_refl] list)
    then show ?thesis by (simp add: r del: parse_bson_element_list.simps)
  qed
  show "fine (dom_shape st False) n (parse_bson_internal ?sax rd d b)" "fine (dom_shape st False) n (parse_bson_array ?sax rd d b)"
    using whole [of V_object False] whole [of V_array True]
    by (simp_all add: parse_bson_internal_def parse_bson_array_def del: parse_bson_element_list.simps)
qed

lemma bson_element_fine:
  "dom_shape st True d \<Longrightarrow> left b \<le> n \<Longrightarrow> n < f \<Longrightarrow>
     fine (dom_shape st False) n (parse_bson_element_internal f (dom_sized_sax z a) ty pos d b)"
proof (induction f arbitrary: st d b n ty pos)
  case (Suc f)
  let ?sax = "dom_sized_sax z a" and ?fine = "fine (dom_shape st False) n"
  note d = Suc.prems(1) and b = Suc.prems(2)
  have el: "fine (dom_shape (c # st) False) m (parse_bson_element_internal f ?sax ty pos d b)"
    if "dom_shape (c # st) True d" "left b \<le> m" "m < n" for c ty pos d m and b :: binary_reader
    using Suc.IH [OF that(1,2)] that(3) Suc.prems(3) by simp
  have doc: "?fine (parse_bson_internal ?sax (parse_bson_element_internal f ?sax) d b)"
    "?fine (parse_bson_array ?sax (parse_bson_element_internal f ?sax) d b)"
    by (rule bson_document_fine [OF d b]; rule el; assumption)+
  have num: "?fine (with_value (get_number_le ?sax w d b) (\<lambda>n s1 b1. send (dom_value (v n) s1) b1))" for w v
    by (rule fine_with_value [OF get_number_le_fine [OF b] order_refl]) (use d in \<open>simp add: dom_value_fine\<close>)
  have str: "?fine (with_value (get_number_le ?sax 4 d b) (\<lambda>n s1 b1.
      with_value (get_bson_string ?sax (sign_of 4 n) s1 b1) (\<lambda>t s2 b2. send (dom_value (JString t) s2) b2)))"
    by (rule fine_with_value [OF get_number_le_fine [OF b] order_refl],
        rule fine_with_value [OF get_bson_string_fine order_refl])
       (use d in \<open>auto intro: dom_value_fine\<close>)
  have "left (br_get b) \<le> n" using b by (simp add: left_get)
  then show ?case
    using num [of 8 "\<lambda>n. JFloat (word_of_nat n)"] num [of 4 "\<lambda>n. JInteger (sign_of 4 n)"]
      num [of 8 "\<lambda>n. JInteger (sign_of 8 n)"] str doc d b
    by (simp add: Let_def dom_value_fine bson_integer_def unsupported_type_def dom_parse_error_at)
qed simp

lemma from_bson_defined:
  "(\<exists>j. from_bson z strict a input = Inr j) \<or> (\<exists>ex. from_bson z strict a input = Inl (Throw ex))"
  unfolding from_bson_def
  by (rule from_binary_defined, rule bson_document_fine(1) [OF dom_init_shape _ bson_element_fine])
     (auto simp: binary_reader_init_def)

end
