(* ===== verification/Json_Ubjson.thy ===== *)
theory Json_Ubjson
  imports Json_Codec Json_Binary_Safe
begin

text \<open>
  UBJSON in the JSON library: \<open>write_ubjson\<close> with its optional counts and types of containers,
  \<open>get_ubjson_value\<close> with the strings, sizes and containers below it, \<open>to_ubjson\<close> and
  \<open>from_ubjson\<close>.
\<close>

section \<open>Writing\<close>

text \<open>The three forms of \<open>write_number_with_ubjson_prefix\<close>.\<close>

definition with_prefix :: "bool \<Rightarrow> char \<Rightarrow> string \<Rightarrow> string" where
  "with_prefix add_prefix c t = (if add_prefix then c # t else t)"

definition ubjson_float :: "double \<Rightarrow> bool \<Rightarrow> string" where
  "ubjson_float d add_prefix = with_prefix add_prefix (CHR ''D'') (write_number 8 (uint d))"

definition ubjson_too_large :: "int \<Rightarrow> json_fail" where
  "ubjson_too_large n =
     Throw (out_of_range_create 407
       (''integer number '' @ dec_int n @ '' cannot be represented by UBJSON as it does not fit int64''))"

definition ubjson_unsigned :: "int \<Rightarrow> bool \<Rightarrow> string jres" where
  "ubjson_unsigned n add_prefix =
     (if n \<le> 127 then Inr (with_prefix add_prefix (CHR ''i'') (write_number 1 n))
      else if n \<le> 255 then Inr (with_prefix add_prefix (CHR ''U'') (write_number 1 n))
      else if n \<le> 32767 then Inr (with_prefix add_prefix (CHR ''I'') (write_number 2 n))
      else if n \<le> 2147483647 then Inr (with_prefix add_prefix (CHR ''l'') (write_number 4 n))
      else if n \<le> 9223372036854775807 then Inr (with_prefix add_prefix (CHR ''L'') (write_number 8 n))
      else Inl (ubjson_too_large n))"

definition ubjson_signed :: "int \<Rightarrow> bool \<Rightarrow> string jres" where
  "ubjson_signed n add_prefix =
     (if - 128 \<le> n \<and> n \<le> 127 then Inr (with_prefix add_prefix (CHR ''i'') (write_number 1 n))
      else if 0 \<le> n \<and> n \<le> 255 then Inr (with_prefix add_prefix (CHR ''U'') (write_number 1 n))
      else if - 32768 \<le> n \<and> n \<le> 32767 then Inr (with_prefix add_prefix (CHR ''I'') (write_number 2 n))
      else if - 2147483648 \<le> n \<and> n \<le> 2147483647 then Inr (with_prefix add_prefix (CHR ''l'') (write_number 4 n))
      else if - 9223372036854775808 \<le> n \<and> n \<le> 9223372036854775807
      then Inr (with_prefix add_prefix (CHR ''L'') (write_number 8 n))
      else Inl (ubjson_too_large n))"

fun ubjson_prefix :: "json \<Rightarrow> char" where
  "ubjson_prefix JNull = CHR ''Z''"
| "ubjson_prefix (JBoolean b) = (if b then CHR ''T'' else CHR ''F'')"
| "ubjson_prefix (JInteger n) =
     (if - 128 \<le> n \<and> n \<le> 127 then CHR ''i''
      else if 0 \<le> n \<and> n \<le> 255 then CHR ''U''
      else if - 32768 \<le> n \<and> n \<le> 32767 then CHR ''I''
      else if - 2147483648 \<le> n \<and> n \<le> 2147483647 then CHR ''l''
      else CHR ''L'')"
| "ubjson_prefix (JUnsigned n) =
     (if n \<le> 127 then CHR ''i''
      else if n \<le> 255 then CHR ''U''
      else if n \<le> 32767 then CHR ''I''
      else if n \<le> 2147483647 then CHR ''l''
      else CHR ''L'')"
| "ubjson_prefix (JFloat d) = CHR ''D''"
| "ubjson_prefix (JString s) = CHR ''S''"
| "ubjson_prefix (JArray a) = CHR ''[''"
| "ubjson_prefix (JObject m) = CHR ''{''"
| "ubjson_prefix JDiscarded = CHR ''N''"

text \<open>Whether the elements of a container need prefixes, and the mark of their common type.\<close>

definition ubjson_type_mark :: "bool \<Rightarrow> bool \<Rightarrow> json list \<Rightarrow> (bool \<times> string) jres" where
  "ubjson_type_mark use_count use_type vs =
     (if use_type \<and> vs \<noteq> [] then
        if \<not> use_count then Inl Assertion
        else
          let first_prefix = ubjson_prefix (hd vs) in
          if list_all (\<lambda>v. ubjson_prefix v = first_prefix) vs then Inr (False, [CHR ''$'', first_prefix])
          else Inr (True, [])
      else Inr (True, []))"

definition ubjson_count :: "bool \<Rightarrow> nat \<Rightarrow> string jres" where
  "ubjson_count use_count n =
     (if use_count then mapE (\<lambda>t. CHR ''#'' # t) (ubjson_unsigned (int n) True) else Inr [])"

fun write_ubjson :: "json \<Rightarrow> bool \<Rightarrow> bool \<Rightarrow> bool \<Rightarrow> string jres" where
  "write_ubjson JNull use_count use_type add_prefix = Inr (with_prefix add_prefix (CHR ''Z'') [])"
| "write_ubjson (JBoolean b) use_count use_type add_prefix =
     Inr (with_prefix add_prefix (if b then CHR ''T'' else CHR ''F'') [])"
| "write_ubjson (JInteger n) use_count use_type add_prefix = ubjson_signed n add_prefix"
| "write_ubjson (JUnsigned n) use_count use_type add_prefix = ubjson_unsigned n add_prefix"
| "write_ubjson (JFloat d) use_count use_type add_prefix = Inr (ubjson_float d add_prefix)"
| "write_ubjson (JString s) use_count use_type add_prefix =
     mapE (\<lambda>t. with_prefix add_prefix (CHR ''S'') (t @ s)) (ubjson_unsigned (int (length s)) True)"
| "write_ubjson (JArray a) use_count use_type add_prefix =
     bindE (ubjson_type_mark use_count use_type a) (\<lambda>(prefix_required, mark).
     bindE (ubjson_count use_count (length a)) (\<lambda>count.
     mapE (\<lambda>acc. acc @ (if use_count then [] else '']''))
       (forE (\<lambda>el acc. mapE (\<lambda>t. acc @ t) (write_ubjson el use_count use_type prefix_required)) a
         (with_prefix add_prefix (CHR ''['') (mark @ count)))))"
| "write_ubjson (JObject m) use_count use_type add_prefix =
     bindE (ubjson_type_mark use_count use_type (map snd m)) (\<lambda>(prefix_required, mark).
     bindE (ubjson_count use_count (length m)) (\<lambda>count.
     mapE (\<lambda>acc. acc @ (if use_count then [] else ''}''))
       (forE (\<lambda>el acc.
          bindE (ubjson_unsigned (int (length (fst el))) True) (\<lambda>n.
          mapE (\<lambda>t. acc @ n @ fst el @ t) (write_ubjson (snd el) use_count use_type prefix_required))) m
         (with_prefix add_prefix (CHR ''{'') (mark @ count)))))"
| "write_ubjson JDiscarded use_count use_type add_prefix = Inr []"

definition to_ubjson :: "json \<Rightarrow> bool \<Rightarrow> bool \<Rightarrow> string jres" where
  "to_ubjson j use_size use_type = write_ubjson j use_size use_type True"

section \<open>Reading numbers and strings\<close>

text \<open>The types of integers: their width, and whether they have a sign.\<close>

definition ubjson_int_type :: "int \<Rightarrow> (nat \<times> bool) option" where
  "ubjson_int_type c =
     (if c = 0x55 then Some (1, False) else if c = 0x69 then Some (1, True) else if c = 0x49 then Some (2, True)
      else if c = 0x6C then Some (4, True) else if c = 0x4C then Some (8, True) else None)"

definition ubjson_int :: "'s sized_sax \<Rightarrow> nat \<times> bool \<Rightarrow> 's \<Rightarrow> binary_reader \<Rightarrow> (int, 's) bval" where
  "ubjson_int sax t s b =
     fill_value (get_number sax Format_ubjson (fst t) [] s b)
       (\<lambda>n s1 b1. Inr (Some (if snd t then sign_of (fst t) n else int n), s1, b1))"

text \<open>A negative length reads nothing.\<close>

definition get_ubjson_string :: "'s sized_sax \<Rightarrow> bool \<Rightarrow> 's \<Rightarrow> binary_reader \<Rightarrow> (string, 's) bval" where
  "get_ubjson_string sax get_char s b0 =
     (let b = (if get_char then br_get b0 else b0) in
      bindE (unexpect_eof sax Format_ubjson ''value'' s b) (\<lambda>(go, s1, b1).
      if \<not> go then Inr (None, s1, b1)
      else case ubjson_int_type (br_current b1) of
          Some t \<Rightarrow> fill_value (ubjson_int sax t s1 b1) (\<lambda>len s2 b2. get_string sax Format_ubjson (nat len) s2 b2)
        | None \<Rightarrow> mapE (\<lambda>(go, r). (if go then Some [] else None, r))
              (br_error sax Format_ubjson 113
                (''expected length type specification (U, i, I, l, L); last byte: 0x'' @ br_token_string b1)
                ''string'' s1 b1)))"

abbreviation npos :: nat where
  "npos \<equiv> 18446744073709551615"

text \<open>The size of a container; a negative one becomes very large.\<close>

definition get_ubjson_size_value :: "'s sized_sax \<Rightarrow> 's \<Rightarrow> binary_reader \<Rightarrow> (nat, 's) bval" where
  "get_ubjson_size_value sax s b0 =
     (let b = get_ignore_noop b0 in
      case ubjson_int_type (br_current b) of
        Some t \<Rightarrow> fill_value (ubjson_int sax t s b) (\<lambda>n s1 b1. Inr (Some (nat (n mod 2 ^ 64)), s1, b1))
      | None \<Rightarrow> mapE (\<lambda>(go, r). (if go then Some npos else None, r))
            (br_error sax Format_ubjson 113
              (''expected length type specification (U, i, I, l, L) after '' @ [CHR 0x27, CHR ''#'', CHR 0x27] @
               ''; last byte: 0x'' @ br_token_string b) ''size'' s b))"

text \<open>The size of a container, or the mark of none, and the type of its elements, or 0.\<close>

definition get_ubjson_size_type :: "'s sized_sax \<Rightarrow> 's \<Rightarrow> binary_reader \<Rightarrow> (nat \<times> int, 's) bval" where
  "get_ubjson_size_type sax s b0 =
     (let b = get_ignore_noop b0 in
      if br_current b = 0x24 then
        let b1 = br_get b in
        bindE (unexpect_eof sax Format_ubjson ''type'' s b1) (\<lambda>(go, s1, b1).
        if \<not> go then Inr (None, s1, b1)
        else
          let b2 = get_ignore_noop b1 in
          if br_current b2 \<noteq> 0x23 then
            bindE (unexpect_eof sax Format_ubjson ''value'' s1 b2) (\<lambda>(go, s2, b2).
            if \<not> go then Inr (None, s2, b2)
            else mapE (\<lambda>(go, r). (if go then Some (npos, br_current b1) else None, r))
                (br_error sax Format_ubjson 112
                  (''expected '' @ [CHR 0x27, CHR ''#'', CHR 0x27] @ '' after type information; last byte: 0x'' @
                   br_token_string b2) ''size'' s2 b2))
          else fill_value (get_ubjson_size_value sax s1 b2) (\<lambda>n s2 b3. Inr (Some (n, br_current b1), s2, b3)))
      else if br_current b = 0x23 then
        fill_value (get_ubjson_size_value sax s b) (\<lambda>n s1 b1. Inr (Some (n, 0), s1, b1))
      else Inr (Some (npos, 0), s, b))"

section \<open>Reading values\<close>

definition ubjson_char :: "'s sized_sax \<Rightarrow> 's \<Rightarrow> binary_reader \<Rightarrow> 's bres" where
  "ubjson_char sax s b0 =
     (let b = br_get b0 in
      and_then (unexpect_eof sax Format_ubjson ''char'' s b) (\<lambda>s1 b1.
      if 127 < br_current b1
      then br_error sax Format_ubjson 113
             (''byte after '' @ [CHR 0x27, CHR ''C'', CHR 0x27] @ '' must be in range 0x00..0x7F; last byte: 0x'' @
              br_token_string b1) ''char'' s1 b1
      else send (sax_string sax [char_of (nat (br_current b1))] s1) b1))"

text \<open>The parts of a container without a size, up to its closing character; the first argument bounds the turns.\<close>

fun ubjson_until ::
    "nat \<Rightarrow> int \<Rightarrow> ('s \<Rightarrow> binary_reader \<Rightarrow> 's bres) \<Rightarrow> 's \<Rightarrow> binary_reader \<Rightarrow> 's bres" where
  "ubjson_until 0 close item s b = Inl Undefined"
| "ubjson_until (Suc n) close item s b =
     (if br_current b = close then Inr (True, s, b)
      else and_then (item s b) (\<lambda>s1 b1. ubjson_until n close item s1 (get_ignore_noop b1)))"

text \<open>\<open>parse_ubjson_internal\<close> with the reader of a value as an argument.\<close>

definition parse_ubjson_internal ::
    "(int \<Rightarrow> 's \<Rightarrow> binary_reader \<Rightarrow> 's bres) \<Rightarrow> bool \<Rightarrow> 's \<Rightarrow> binary_reader \<Rightarrow> 's bres" where
  "parse_ubjson_internal ubjson_value get_char s b0 =
     (let b = (if get_char then get_ignore_noop b0 else b0) in ubjson_value (br_current b) s b)"

definition get_ubjson_array ::
    "'s sized_sax \<Rightarrow> (int \<Rightarrow> 's \<Rightarrow> binary_reader \<Rightarrow> 's bres) \<Rightarrow> 's \<Rightarrow> binary_reader \<Rightarrow> 's bres" where
  "get_ubjson_array sax ubjson_value s b =
     with_value (get_ubjson_size_type sax s b) (\<lambda>(size, type) s1 b1.
     if size \<noteq> npos then
       if type \<noteq> 0 then
         if type \<noteq> 0x4E then read_array sax size (ubjson_value type) s1 b1
         else and_then (send (sax_start_array_of sax size s1) b1) (\<lambda>s2 b2. send (sax_end_array sax s2) b2)
       else read_array sax size (parse_ubjson_internal ubjson_value True) s1 b1
     else
       and_then (send (sax_start_array sax s1) b1) (\<lambda>s2 b2.
       and_then (ubjson_until (length (br_rest b2) + 2) 0x5D (parse_ubjson_internal ubjson_value False) s2 b2)
         (\<lambda>s3 b3. send (sax_end_array sax s3) b3)))"

definition get_ubjson_object ::
    "'s sized_sax \<Rightarrow> (int \<Rightarrow> 's \<Rightarrow> binary_reader \<Rightarrow> 's bres) \<Rightarrow> 's \<Rightarrow> binary_reader \<Rightarrow> 's bres" where
  "get_ubjson_object sax ubjson_value s b =
     with_value (get_ubjson_size_type sax s b) (\<lambda>(size, type) s1 b1.
     if size \<noteq> npos then
       read_object sax size (get_ubjson_string sax False)
         (if type \<noteq> 0 then ubjson_value type else parse_ubjson_internal ubjson_value True) s1 b1
     else
       and_then (send (sax_start_object sax s1) b1) (\<lambda>s2 b2.
       and_then (ubjson_until (length (br_rest b2) + 2) 0x7D
                   (read_member sax (get_ubjson_string sax False) (parse_ubjson_internal ubjson_value True)) s2 b2)
         (\<lambda>s3 b3. send (sax_end_object sax s3) b3)))"

text \<open>The first argument bounds the depth of the value.\<close>

fun get_ubjson_value :: "nat \<Rightarrow> 's sized_sax \<Rightarrow> int \<Rightarrow> 's \<Rightarrow> binary_reader \<Rightarrow> 's bres" where
  "get_ubjson_value 0 sax pfx s b = Inl Undefined"
| "get_ubjson_value (Suc f) sax pfx s b =
     (if pfx = - 1 then unexpect_eof sax Format_ubjson ''value'' s b
      else if pfx = 0x54 then send (sax_boolean sax True s) b
      else if pfx = 0x46 then send (sax_boolean sax False s) b
      else if pfx = 0x5A then send (sax_null sax s) b
      else if pfx = 0x55 then
        with_value (ubjson_int sax (1, False) s b) (\<lambda>n s1 b1. send (sax_number_unsigned sax n s1) b1)
      else if pfx = 0x69 then
        with_value (ubjson_int sax (1, True) s b) (\<lambda>n s1 b1. send (sax_number_integer sax n s1) b1)
      else if pfx = 0x49 then
        with_value (ubjson_int sax (2, True) s b) (\<lambda>n s1 b1. send (sax_number_integer sax n s1) b1)
      else if pfx = 0x6C then
        with_value (ubjson_int sax (4, True) s b) (\<lambda>n s1 b1. send (sax_number_integer sax n s1) b1)
      else if pfx = 0x4C then
        with_value (ubjson_int sax (8, True) s b) (\<lambda>n s1 b1. send (sax_number_integer sax n s1) b1)
      else if pfx = 0x64 then number_single sax Format_ubjson s b
      else if pfx = 0x44 then number_double sax Format_ubjson s b
      else if pfx = 0x43 then ubjson_char sax s b
      else if pfx = 0x53 then
        with_value (get_ubjson_string sax True s b) (\<lambda>t s1 b1. send (sax_string sax t s1) b1)
      else if pfx = 0x5B then get_ubjson_array sax (get_ubjson_value f sax) s b
      else if pfx = 0x7B then get_ubjson_object sax (get_ubjson_value f sax) s b
      else br_error sax Format_ubjson 112 (''invalid byte: 0x'' @ br_token_string b) ''value'' s b)"

definition from_ubjson :: "max_sizes \<Rightarrow> bool \<Rightarrow> bool \<Rightarrow> string \<Rightarrow> json jres" where
  "from_ubjson sizes strict allow_exceptions input =
     from_binary sizes Format_ubjson
       (\<lambda>sax. parse_ubjson_internal (get_ubjson_value (length input + 2) sax) True)
       strict allow_exceptions input"

end
