(* ===== verification/Json_Ubjson_Codec.thy ===== *)
theory Json_Ubjson_Codec
  imports Json_Ubjson
begin

text \<open>UBJSON: what is written is read back, with and without counts and types of containers.\<close>

section \<open>Numbers\<close>

lemma int_reads:
  assumes "br_rest b = write_number w x @ r" and "0 < w"
    and "if sg then - (2 ^ (8 * w - 1)) \<le> x \<and> x < 2 ^ (8 * w - 1) else 0 \<le> x \<and> x < 2 ^ (8 * w)"
  shows "\<exists>b'. ubjson_int sax (w, sg) s b = Inr (Some x, s, b') \<and> br_rest b' = r"
proof -
  obtain b' where b': "get_number sax Format_ubjson w [] s b = Inr (Some (be_val (write_number w x)), s, b')" "br_rest b' = r"
    using get_number_reads [OF assms(1), of w sax Format_ubjson "[]" s] by auto
  moreover have "(if sg then sign_of w (be_val (write_number w x)) else int (be_val (write_number w x))) = x"
    using assms(2,3) sign_of_write be_val_unsigned by (auto split: if_splits)
  ultimately show ?thesis by (auto simp: ubjson_int_def split: if_splits)
qed

text \<open>Both forms of an integer choose the same type, and so does \<open>ubjson_prefix\<close>.\<close>

lemma number_form:
  assumes "in64 n"
  shows "\<exists>c w sg. (\<forall>add. ubjson_signed n add = Inr (with_prefix add c (write_number w n))) \<and>
    (0 \<le> n \<longrightarrow> (\<forall>add. ubjson_unsigned n add = Inr (with_prefix add c (write_number w n)))) \<and>
    ubjson_prefix (JInteger n) = c \<and> (0 \<le> n \<longrightarrow> ubjson_prefix (JUnsigned n) = c) \<and>
    ubjson_int_type (ord c) = Some (w, sg) \<and> 0 < w \<and> (sg \<longleftrightarrow> \<not> (128 \<le> n \<and> n \<le> 255)) \<and>
    (if sg then - (2 ^ (8 * w - 1)) \<le> n \<and> n < 2 ^ (8 * w - 1) else 0 \<le> n \<and> n < 2 ^ (8 * w))"
proof -
  have t: "ubjson_int_type (ord (CHR ''i'')) = Some (1, True)" "ubjson_int_type (ord (CHR ''U'')) = Some (1, False)"
    "ubjson_int_type (ord (CHR ''I'')) = Some (2, True)" "ubjson_int_type (ord (CHR ''l'')) = Some (4, True)"
    "ubjson_int_type (ord (CHR ''L'')) = Some (8, True)" by code_simp+
  consider "- 128 \<le> n" "n \<le> 127" | "127 < n" "n \<le> 255"
    | "n < - 128 \<or> 255 < n" "- 32768 \<le> n" "n \<le> 32767"
    | "n < - 32768 \<or> 32767 < n" "- 2147483648 \<le> n" "n \<le> 2147483647"
    | "n < - 2147483648 \<or> 2147483647 < n" by linarith
  then show ?thesis
  proof cases
    case 1
    then show ?thesis using t(1) by (intro exI [of _ "CHR ''i''"] exI [of _ 1] exI [of _ True])
        (simp add: ubjson_signed_def ubjson_unsigned_def)
  next
    case 2
    then show ?thesis using t(2) by (intro exI [of _ "CHR ''U''"] exI [of _ 1] exI [of _ False])
        (simp add: ubjson_signed_def ubjson_unsigned_def)
  next
    case 3
    then show ?thesis using t(3) by (intro exI [of _ "CHR ''I''"] exI [of _ 2] exI [of _ True])
        (auto simp: ubjson_signed_def ubjson_unsigned_def)
  next
    case 4
    then show ?thesis using t(4) by (intro exI [of _ "CHR ''l''"] exI [of _ 4] exI [of _ True])
        (auto simp: ubjson_signed_def ubjson_unsigned_def)
  next
    case 5
    then show ?thesis using t(5) assms by (intro exI [of _ "CHR ''L''"] exI [of _ 8] exI [of _ True])
        (auto simp: ubjson_signed_def ubjson_unsigned_def in64_def)
  qed
qed

lemma value_of_int_type:
  "ubjson_int_type pfx = Some (w, sg) \<Longrightarrow> get_ubjson_value (Suc f) sax pfx =
     (\<lambda>s b. with_value (ubjson_int sax (w, sg) s b)
        (\<lambda>n s1 b1. send (if sg then sax_number_integer sax n s1 else sax_number_unsigned sax n s1) b1))"
  by (intro ext) (auto simp: ubjson_int_type_def split: if_splits)

section \<open>Strings and sizes\<close>

text \<open>The first character of what is to be read has been read.\<close>

definition facing :: "binary_reader \<Rightarrow> string \<Rightarrow> bool" where
  "facing b t \<longleftrightarrow> t \<noteq> [] \<and> br_current b = ord (hd t) \<and> br_rest b = tl t"

lemma facing_get: "br_rest b = t \<Longrightarrow> t \<noteq> [] \<Longrightarrow> facing (br_get b) t"
  by (cases t) (simp_all add: facing_def br_get_Cons)

lemma facing_ignore:
  assumes "br_rest b = t" and "t \<noteq> []" and "hd t \<noteq> CHR ''N''"
  shows "get_ignore_noop b = br_get b" "facing (get_ignore_noop b) t"
proof -
  obtain c cs where t: "t = c # cs" using assms(2) by (cases t) auto
  have "ord c \<noteq> 0x4E"
  proof
    assume "ord c = 0x4E"
    then have "char_of (nat 0x4E) = c" by (metis char_of_byte)
    moreover have "char_of (nat 0x4E) = CHR ''N''" by code_simp
    ultimately show False using assms(3) t by simp
  qed
  then show "get_ignore_noop b = br_get b" using br_get_Cons [of b c cs] assms(1) t by (simp add: get_ignore_noop.simps)
  then show "facing (get_ignore_noop b) t" using facing_get [OF assms(1,2)] by simp
qed

text \<open>A length as it is written: the character of its type and its bytes.\<close>

lemma length_form:
  assumes "n < 2 ^ 63"
  shows "\<exists>c w sg. ubjson_unsigned (int n) True = Inr (c # write_number w (int n)) \<and>
    c \<in> {CHR ''i'', CHR ''U'', CHR ''I'', CHR ''l'', CHR ''L''} \<and> ubjson_int_type (ord c) = Some (w, sg) \<and>
    (\<forall>sax :: 's sized_sax. \<forall>s b r. br_rest b = write_number w (int n) @ r \<longrightarrow>
       (\<exists>b'. ubjson_int sax (w, sg) s b = Inr (Some (int n), s, b') \<and> br_rest b' = r))"
proof -
  have i: "in64 (int n)" using assms by (simp add: in64_def)
  obtain c w sg where f: "\<forall>add. ubjson_unsigned (int n) add = Inr (with_prefix add c (write_number w (int n)))"
    "ubjson_prefix (JInteger (int n)) = c" "ubjson_int_type (ord c) = Some (w, sg)" "0 < w"
    "if sg then - (2 ^ (8 * w - 1)) \<le> int n \<and> int n < 2 ^ (8 * w - 1) else 0 \<le> int n \<and> int n < 2 ^ (8 * w)"
    using number_form [OF i] by auto
  have "c \<in> {CHR ''i'', CHR ''U'', CHR ''I'', CHR ''l'', CHR ''L''}" using f(2) by (auto split: if_splits)
  then show ?thesis using f int_reads [OF _ f(4,5)] by (intro exI [of _ c] exI [of _ w] exI [of _ sg]) (auto simp: with_prefix_def)
qed

lemma string_reads:
  assumes k: "length k < 2 ^ 63" and t: "ubjson_unsigned (int (length k)) True = Inr t" and b: "facing b (t @ k @ r)"
  shows "\<exists>b'. get_ubjson_string sax False d b = Inr (Some k, d, b') \<and> br_rest b' = r"
proof -
  obtain c w sg where f: "ubjson_unsigned (int (length k)) True = Inr (c # write_number w (int (length k)))"
    "ubjson_int_type (ord c) = Some (w, sg)"
    "\<And>s b r. br_rest b = write_number w (int (length k)) @ r \<Longrightarrow>
       \<exists>b'. ubjson_int sax (w, sg) s b = Inr (Some (int (length k)), s, b') \<and> br_rest b' = r"
    using length_form [OF k, where 's = 'a] by blast
  have c: "br_current b = ord c" "br_rest b = write_number w (int (length k)) @ k @ r"
    using b t f(1) by (auto simp: facing_def)
  obtain b1 where b1: "ubjson_int sax (w, sg) d b = Inr (Some (int (length k)), d, b1)" "br_rest b1 = k @ r"
    using f(3) [OF c(2), of d] by blast
  obtain b2 where "get_string sax Format_ubjson (length k) d b1 = Inr (Some k, d, b2)" "br_rest b2 = r"
    using get_string_reads [OF b1(2), of sax Format_ubjson d] by auto
  then show ?thesis using c(1) b1(1) f(2) ord_bounds [of c]
    by (simp add: get_ubjson_string_def Let_def unexpect_eof_byte)
qed

lemma size_value_reads:
  assumes n: "n < 2 ^ 63" and t: "ubjson_unsigned (int n) True = Inr t" and b: "br_rest b = t @ r"
  shows "\<exists>b'. get_ubjson_size_value sax d b = Inr (Some n, d, b') \<and> br_rest b' = r"
proof -
  obtain c w sg where f: "ubjson_unsigned (int n) True = Inr (c # write_number w (int n))"
    "c \<in> {CHR ''i'', CHR ''U'', CHR ''I'', CHR ''l'', CHR ''L''}" "ubjson_int_type (ord c) = Some (w, sg)"
    "\<And>s b r. br_rest b = write_number w (int n) @ r \<Longrightarrow>
       \<exists>b'. ubjson_int sax (w, sg) s b = Inr (Some (int n), s, b') \<and> br_rest b' = r"
    using length_form [OF n, where 's = 'a] by blast
  have t': "t = c # write_number w (int n)" using t f(1) by simp
  have "facing (get_ignore_noop b) (t @ r)" by (rule facing_ignore(2) [OF b]) (use f(2) t' in auto)
  then have c: "br_current (get_ignore_noop b) = ord c" "br_rest (get_ignore_noop b) = write_number w (int n) @ r"
    by (auto simp: facing_def t')
  obtain b1 where "ubjson_int sax (w, sg) d (get_ignore_noop b) = Inr (Some (int n), d, b1)" "br_rest b1 = r"
    using f(4) [OF c(2), of d] by blast
  moreover have "int n mod 2 ^ 64 = int n" using n by simp
  ultimately show ?thesis using c(1) f(3) by (simp add: get_ubjson_size_value_def Let_def)
qed

lemma size_type_counted:
  assumes n: "n < 2 ^ 63" and t: "ubjson_unsigned (int n) True = Inr t" and b: "br_rest b = CHR ''#'' # t @ r"
  shows "\<exists>b'. get_ubjson_size_type sax d b = Inr (Some (n, 0), d, b') \<and> br_rest b' = r"
proof -
  have "facing (get_ignore_noop b) (CHR ''#'' # t @ r)" by (rule facing_ignore(2) [OF b]) auto
  then have g: "br_current (get_ignore_noop b) = 0x23" "br_rest (get_ignore_noop b) = t @ r" by (auto simp: facing_def)
  from size_value_reads [OF n t g(2), of sax d] show ?thesis using g(1)
    by (auto simp: get_ubjson_size_type_def Let_def)
qed

lemma size_type_typed:
  assumes n: "n < 2 ^ 63" and t: "ubjson_unsigned (int n) True = Inr t"
    and b: "br_rest b = CHR ''$'' # c # CHR ''#'' # t @ r"
  shows "\<exists>b'. get_ubjson_size_type sax d b = Inr (Some (n, ord c), d, b') \<and> br_rest b' = r"
proof -
  let ?b = "get_ignore_noop b"
  have "facing ?b (CHR ''$'' # c # CHR ''#'' # t @ r)" by (rule facing_ignore(2) [OF b]) auto
  then have g: "br_current ?b = 0x24" "br_rest ?b = c # CHR ''#'' # t @ r" by (auto simp: facing_def)
  note h = br_get_Cons [OF g(2)]
  have "facing (get_ignore_noop (br_get ?b)) (CHR ''#'' # t @ r)" by (rule facing_ignore(2) [OF h(1)]) auto
  then have i: "br_current (get_ignore_noop (br_get ?b)) = 0x23" "br_rest (get_ignore_noop (br_get ?b)) = t @ r"
    by (auto simp: facing_def)
  from size_value_reads [OF n t i(2), of sax d] show ?thesis using g(1) h(2,3) i(1)
    by (auto simp: get_ubjson_size_type_def Let_def unexpect_eof_byte)
qed

lemma size_type_none:
  assumes "br_rest b = t" "t \<noteq> []" "hd t \<notin> {CHR ''N'', CHR ''$'', CHR ''#''}"
  shows "get_ubjson_size_type sax d b = Inr (Some (npos, 0), d, br_get b)" "facing (br_get b) t"
proof -
  have "ord (hd t) \<noteq> 0x24" "ord (hd t) \<noteq> 0x23"
  proof -
    have "char_of (nat 0x24) = CHR ''$''" "char_of (nat 0x23) = CHR ''#''" by code_simp+
    then show "ord (hd t) \<noteq> 0x24" "ord (hd t) \<noteq> 0x23" using assms(3) by (metis char_of_byte insertCI)+
  qed
  moreover have "get_ignore_noop b = br_get b" "facing (br_get b) t"
    using facing_ignore(1) [OF assms(1,2)] facing_get [OF assms(1,2)] assms(3) by auto
  ultimately show "get_ubjson_size_type sax d b = Inr (Some (npos, 0), d, br_get b)" "facing (br_get b) t"
    by (simp_all add: get_ubjson_size_type_def Let_def facing_def)
qed

section \<open>Values\<close>

text \<open>Only the numbers from 128 to 255 are unsigned in UBJSON.\<close>

fun ubjson_value :: "json \<Rightarrow> json" where
  "ubjson_value (JInteger n) = (if 128 \<le> n \<and> n \<le> 255 then JUnsigned n else JInteger n)"
| "ubjson_value (JUnsigned n) = (if 128 \<le> n \<and> n \<le> 255 then JUnsigned n else JInteger n)"
| "ubjson_value (JArray a) = JArray (map ubjson_value a)"
| "ubjson_value (JObject m) = JObject (map (\<lambda>p. (fst p, ubjson_value (snd p))) m)"
| "ubjson_value v = v"

fun ubjson_fits :: "json \<Rightarrow> bool" where
  "ubjson_fits (JUnsigned n) = (n \<le> 9223372036854775807)"
| "ubjson_fits (JArray a) = (\<forall>x \<in> set a. ubjson_fits x)"
| "ubjson_fits (JObject m) = (\<forall>p \<in> set m. ubjson_fits (snd p))"
| "ubjson_fits v = True"

lemma good_prefix:
  "wf_json v \<Longrightarrow> ubjson_prefix v \<notin> {CHR ''N'', CHR '']'', CHR ''$'', CHR ''#'', CHR 0x00}"
  by (cases v) auto

lemma prefix_code: "wf_json v \<Longrightarrow> ord (ubjson_prefix v) \<noteq> 0" "wf_json v \<Longrightarrow> ord (ubjson_prefix v) \<noteq> 0x4E"
proof -
  have "char_of (nat 0) = CHR 0x00" "char_of (nat 0x4E) = CHR ''N''" by code_simp+
  then show "wf_json v \<Longrightarrow> ord (ubjson_prefix v) \<noteq> 0" "wf_json v \<Longrightarrow> ord (ubjson_prefix v) \<noteq> 0x4E"
    using good_prefix [of v] by (metis char_of_byte insertCI)+
qed

text \<open>
  A value is written as the character of its type and its text, and the text is read as the value if
  the type is given.
\<close>

definition ubjson_text :: "max_sizes \<Rightarrow> bool \<Rightarrow> bool \<Rightarrow> bool \<Rightarrow> json \<Rightarrow> string \<Rightarrow> bool" where
  "ubjson_text z a use_count use_type v u \<longleftrightarrow>
     (\<forall>add. write_ubjson v use_count use_type add = Inr (with_prefix add (ubjson_prefix v) u)) \<and>
     json_depth v \<le> length u \<and>
     (\<forall>f > json_depth v. takes (get_ubjson_value f (dom_sized_sax z a) (ord (ubjson_prefix v))) u (ubjson_value v))"

lemma ubjson_textI:
  assumes "\<And>add. write_ubjson v uc ut add = Inr (with_prefix add (ubjson_prefix v) u)" and "json_depth v \<le> length u"
    and "\<And>f. json_depth v \<le> f \<Longrightarrow> takes (get_ubjson_value (Suc f) (dom_sized_sax z a) (ord (ubjson_prefix v))) u (ubjson_value v)"
  shows "ubjson_text z a uc ut v u"
proof -
  have "takes (get_ubjson_value f (dom_sized_sax z a) (ord (ubjson_prefix v))) u (ubjson_value v)" if "json_depth v < f" for f
    using assms(3) [of "f - 1"] that by (cases f) auto
  then show ?thesis using assms(1,2) by (simp add: ubjson_text_def)
qed

lemma integer_takes:
  assumes "in64 n" and "ubjson_prefix v = ubjson_prefix (JInteger n)" and "ubjson_value v = ubjson_value (JInteger n)"
    and "\<And>add. write_ubjson v uc ut add = ubjson_signed n add" and "json_depth v = 0"
  shows "\<exists>u. ubjson_text z a uc ut v u"
proof -
  obtain c w sg where f: "\<And>add. ubjson_signed n add = Inr (with_prefix add c (write_number w n))"
    "ubjson_prefix (JInteger n) = c" "ubjson_int_type (ord c) = Some (w, sg)" "0 < w" "sg \<longleftrightarrow> \<not> (128 \<le> n \<and> n \<le> 255)"
    "if sg then - (2 ^ (8 * w - 1)) \<le> n \<and> n < 2 ^ (8 * w - 1) else 0 \<le> n \<and> n < 2 ^ (8 * w)"
    using number_form [OF assms(1)] by auto
  have "takes (get_ubjson_value (Suc f) (dom_sized_sax z a) (ord c)) (write_number w n) (ubjson_value (JInteger n))" for f
    unfolding value_of_int_type [OF f(3)]
  proof (rule takes_event)
    fix d r and b :: binary_reader
    assume b: "br_rest b = write_number w n @ r"
    show "\<exists>b'. with_value (ubjson_int (dom_sized_sax z a) (w, sg) d b)
        (\<lambda>n s1 b1. send (if sg then sax_number_integer (dom_sized_sax z a) n s1 else sax_number_unsigned (dom_sized_sax z a) n s1) b1) =
        send (dom_value (ubjson_value (JInteger n)) d) b' \<and> br_rest b' = r"
      using int_reads [OF b f(4,6), of "dom_sized_sax z a" d] f(5) by auto
  qed
  then have "ubjson_text z a uc ut v (write_number w n)"
    using assms(2-5) f(1,2) by (intro ubjson_textI) simp_all
  then show ?thesis by blast
qed

lemma flat_branch:
  "get_ubjson_value (Suc f) sax 0x5A = (\<lambda>s b. send (sax_null sax s) b)"
  "get_ubjson_value (Suc f) sax 0x54 = (\<lambda>s b. send (sax_boolean sax True s) b)"
  "get_ubjson_value (Suc f) sax 0x46 = (\<lambda>s b. send (sax_boolean sax False s) b)"
  "get_ubjson_value (Suc f) sax 0x44 = number_double sax Format_ubjson"
  "get_ubjson_value (Suc f) sax 0x53 =
     (\<lambda>s b. with_value (get_ubjson_string sax True s b) (\<lambda>t s1 b1. send (sax_string sax t s1) b1))"
  "get_ubjson_value (Suc f) sax 0x5B = get_ubjson_array sax (get_ubjson_value f sax)"
  "get_ubjson_value (Suc f) sax 0x7B = get_ubjson_object sax (get_ubjson_value f sax)"
  by (intro ext; simp)+

lemma flat_text:
  assumes "\<not> is_structured v" and "wf_json v" and "ubjson_fits v" and "sized (2 ^ 63) z v"
  shows "\<exists>u. ubjson_text z a uc ut v u"
proof (cases v)
  case (JInteger n)
  then show ?thesis using assms by (intro integer_takes [where n = n]) simp_all
next
  case (JUnsigned n)
  then have n: "in64 n" "0 \<le> n" using assms(2,3) by (auto simp: in64_def inu64_def)
  have "ubjson_unsigned n add = ubjson_signed n add" "ubjson_prefix (JUnsigned n) = ubjson_prefix (JInteger n)" for add
    using number_form [OF n(1)] n(2) by auto
  then show ?thesis using n(1) JUnsigned by (intro integer_takes [where n = n]) simp_all
next
  case JNull
  have "ubjson_text z a uc ut v []" unfolding JNull
    by (rule ubjson_textI) (auto simp: flat_branch simp del: get_ubjson_value.simps intro!: takes_event)
  then show ?thesis by blast
next
  case (JBoolean b)
  have "ubjson_text z a uc ut v []" unfolding JBoolean
    by (rule ubjson_textI) (auto simp: flat_branch simp del: get_ubjson_value.simps intro!: takes_event)
  then show ?thesis by blast
next
  case (JFloat x)
  have "takes (number_double (dom_sized_sax z a) Format_ubjson) (write_number 8 (uint x)) (JFloat x)"
  proof (rule takes_event)
    fix d r and b :: binary_reader
    assume "br_rest b = write_number 8 (uint x) @ r"
    from get_number_reads [OF this, of 8 "dom_sized_sax z a" Format_ubjson "[]" d]
    show "\<exists>b'. number_double (dom_sized_sax z a) Format_ubjson d b = send (dom_value (JFloat x) d) b' \<and> br_rest b' = r"
      using be_val_unsigned [of "uint x" 8] uint_lt2p [of x] by (auto simp: number_double_def)
  qed
  then have "ubjson_text z a uc ut v (write_number 8 (uint x))" unfolding JFloat
    by (intro ubjson_textI) (simp_all add: ubjson_float_def flat_branch del: get_ubjson_value.simps)
  then show ?thesis by blast
next
  case (JString s)
  then have s: "length s < 2 ^ 63" using assms(4) by simp
  obtain t where t: "ubjson_unsigned (int (length s)) True = Inr t" "t \<noteq> []" using length_form [OF s, where 's = unit] by auto
  have "takes (\<lambda>d b. with_value (get_ubjson_string (dom_sized_sax z a) True d b) (\<lambda>t d b. send (dom_value (JString t) d) b)) (t @ s) (JString s)"
  proof (rule takes_event)
    fix d r and b :: binary_reader
    assume "br_rest b = (t @ s) @ r"
    then have "facing (br_get b) (t @ s @ r)" using t(2) by (intro facing_get) simp_all
    from string_reads [OF s t(1) this, of "dom_sized_sax z a" d]
    show "\<exists>b'. with_value (get_ubjson_string (dom_sized_sax z a) True d b) (\<lambda>t d b. send (dom_value (JString t) d) b) =
        send (dom_value (JString s) d) b' \<and> br_rest b' = r"
      by (auto simp: get_ubjson_string_def)
  qed
  then have "ubjson_text z a uc ut v (t @ s)" unfolding JString
    by (intro ubjson_textI) (simp_all add: t(1) flat_branch del: get_ubjson_value.simps)
  then show ?thesis by blast
qed (use assms in simp_all)

section \<open>Containers with a size\<close>

lemma prefixed_takes:
  assumes "takes (rd (ord c)) u v" and "c \<noteq> CHR ''N''"
  shows "takes (parse_ubjson_internal rd True) (c # u) v"
  unfolding takes_def
proof (intro allI impI)
  fix d R r and b :: binary_reader
  assume s: "slot d R" and b: "br_rest b = (c # u) @ r"
  have "facing (get_ignore_noop b) ((c # u) @ r)" by (rule facing_ignore(2) [OF b]) (use assms(2) in auto)
  then have "br_current (get_ignore_noop b) = ord c" "br_rest (get_ignore_noop b) = u @ r" by (simp_all add: facing_def)
  then show "\<exists>b' e. parse_ubjson_internal rd True d b = Inr (True, d\<lparr> root := R v, object_element := e \<rparr>, b') \<and> br_rest b' = r"
    using takesD [OF assms(1) s] by (auto simp: parse_ubjson_internal_def Let_def)
qed

definition size_head :: "max_sizes \<Rightarrow> bool \<Rightarrow> string \<Rightarrow> nat \<Rightarrow> int \<Rightarrow> bool" where
  "size_head z a h n ty \<longleftrightarrow>
     (\<forall>d b r. br_rest b = h @ r \<longrightarrow>
        (\<exists>b'. get_ubjson_size_type (dom_sized_sax z a) d b = Inr (Some (n, ty), d, b') \<and> br_rest b' = r))"

lemma size_headD:
  "size_head z a h n ty \<Longrightarrow> br_rest b = h @ r \<Longrightarrow>
     \<exists>b'. get_ubjson_size_type (dom_sized_sax z a) d b = Inr (Some (n, ty), d, b') \<and> br_rest b' = r"
  unfolding size_head_def by blast

lemma size_heads:
  assumes "n < 2 ^ 63" and "ubjson_unsigned (int n) True = Inr t"
  shows "size_head z a (CHR ''#'' # t) n 0" "size_head z a (CHR ''$'' # c # CHR ''#'' # t) n (ord c)"
  using size_type_counted [OF assms] size_type_typed [OF assms] by (auto simp: size_head_def)

lemma sized_array_takes:
  assumes h: "size_head z a h (length vs) ty" and n: "length vs < 2 ^ 63" "length vs \<le> array_max_size z" and ty: "ty \<noteq> 0x4E"
    and ts: "list_all2 (takes (if ty \<noteq> 0 then rd ty else parse_ubjson_internal rd True)) ts vs"
  shows "takes (get_ubjson_array (dom_sized_sax z a) rd) (h @ concat ts) (JArray vs)"
  unfolding takes_def
proof (intro allI impI)
  fix d R r and b :: binary_reader
  assume s: "slot d R" and b: "br_rest b = (h @ concat ts) @ r"
  obtain b1 where b1: "get_ubjson_size_type (dom_sized_sax z a) d b = Inr (Some (length vs, ty), d, b1)" "br_rest b1 = concat ts @ r"
    using size_headD [OF h, of b "concat ts @ r" d] b by auto
  show "\<exists>b' e. get_ubjson_array (dom_sized_sax z a) rd d b = Inr (True, d\<lparr> root := R (JArray vs), object_element := e \<rparr>, b') \<and> br_rest b' = r"
    using read_array_takes [OF s ts b1(2) n(2), of a] n(1) ty b1(1) by (simp add: get_ubjson_array_def split: if_splits)
qed

lemma sized_object_takes:
  assumes h: "size_head z a h (length m) ty" and n: "length m < 2 ^ 63" "length m \<le> object_max_size z" and m: "sorted_keys m"
    and ts: "list_all2 (takes_member (get_ubjson_string (dom_sized_sax z a) False)
      (if ty \<noteq> 0 then rd ty else parse_ubjson_internal rd True)) ts m"
  shows "takes (get_ubjson_object (dom_sized_sax z a) rd) (h @ concat ts) (JObject m)"
  unfolding takes_def
proof (intro allI impI)
  fix d R r and b :: binary_reader
  assume s: "slot d R" and b: "br_rest b = (h @ concat ts) @ r"
  obtain b1 where b1: "get_ubjson_size_type (dom_sized_sax z a) d b = Inr (Some (length m, ty), d, b1)" "br_rest b1 = concat ts @ r"
    using size_headD [OF h, of b "concat ts @ r" d] b by auto
  show "\<exists>b' e. get_ubjson_object (dom_sized_sax z a) rd d b = Inr (True, d\<lparr> root := R (JObject m), object_element := e \<rparr>, b') \<and> br_rest b' = r"
    using read_object_takes [OF s ts b1(2) n(2) m, of a] n(1) b1(1) by (simp add: get_ubjson_object_def)
qed

section \<open>Containers up to a closing character\<close>

text \<open>The text of a value with its prefix.\<close>

definition prefixed :: "(json \<Rightarrow> string) \<Rightarrow> json \<Rightarrow> string" where
  "prefixed U v = ubjson_prefix v # U v"

lemma until_elements:
  assumes "place q R"
  shows "\<forall>v \<in> set vs. wf_json v \<and> takes (rd (ord (ubjson_prefix v))) (U v) (ubjson_value v) \<Longrightarrow>
    ref_stack d = q # rs \<Longrightarrow> root d = R (JArray ys) \<Longrightarrow>
    facing b (concat (map (prefixed U) vs) @ CHR '']'' # r) \<Longrightarrow> length vs < n \<Longrightarrow>
    \<exists>b' e. ubjson_until n 0x5D (parse_ubjson_internal rd False) d b =
      Inr (True, d\<lparr> root := R (JArray (ys @ map ubjson_value vs)), object_element := e \<rparr>, b') \<and> br_rest b' = r"
proof (induction vs arbitrary: d b ys n)
  case Nil
  then obtain n' where "n = Suc n'" by (cases n) auto
  then show ?case using Nil by (auto simp: facing_def intro!: exI [of _ "object_element d"])
next
  case (Cons v vs)
  then obtain n' where n: "n = Suc n'" by (cases n) auto
  let ?rest = "concat (map (prefixed U) vs) @ CHR '']'' # r"
  have b: "br_current b = ord (ubjson_prefix v)" "br_rest b = U v @ ?rest" using Cons.prems(4) by (simp_all add: facing_def prefixed_def [of U v])
  have v: "takes (rd (ord (ubjson_prefix v))) (U v) (ubjson_value v)" "wf_json v" using Cons.prems(1) by simp_all
  have "ord (ubjson_prefix v) \<noteq> 0x5D"
  proof
    assume "ord (ubjson_prefix v) = 0x5D"
    then have "char_of (nat 0x5D) = ubjson_prefix v" by (metis char_of_byte)
    moreover have "char_of (nat 0x5D) = CHR '']''" by code_simp
    ultimately show False using good_prefix [OF v(2)] by simp
  qed
  moreover obtain b1 e1 where 1: "rd (ord (ubjson_prefix v)) d b =
      Inr (True, d\<lparr> root := R (JArray (ys @ [ubjson_value v])), object_element := e1 \<rparr>, b1)" "br_rest b1 = ?rest"
    using takesD [OF v(1) slot_element [OF assms Cons.prems(2,3)] b(2)] by auto
  let ?d = "d\<lparr> root := R (JArray (ys @ [ubjson_value v])), object_element := e1 \<rparr>"
  have "hd ?rest \<noteq> CHR ''N''" using Cons.prems(1) good_prefix by (cases vs) (auto simp: prefixed_def)
  then have "facing (get_ignore_noop b1) ?rest" by (intro facing_ignore(2) [OF 1(2)]) simp_all
  then obtain b' e' where "ubjson_until n' 0x5D (parse_ubjson_internal rd False) ?d (get_ignore_noop b1) =
      Inr (True, ?d\<lparr> root := R (JArray ((ys @ [ubjson_value v]) @ map ubjson_value vs)), object_element := e' \<rparr>, b')" "br_rest b' = r"
    using Cons.IH [of ?d "ys @ [ubjson_value v]" "get_ignore_noop b1" n'] Cons.prems(1,2,5) n by auto
  moreover have "parse_ubjson_internal rd False d b = Inr (True, ?d, b1)"
    using 1(1) b(1) by (simp add: parse_ubjson_internal_def)
  ultimately show ?case using b(1) n by auto
qed

text \<open>The text of a member: the length of its name, the name and the value.\<close>

definition ubjson_member :: "(string \<times> json \<Rightarrow> string) \<Rightarrow> (string \<times> json \<Rightarrow> string) \<Rightarrow> string \<times> json \<Rightarrow> string" where
  "ubjson_member N T p = N p @ fst p @ T p"

definition good_name :: "(string \<times> json \<Rightarrow> string) \<Rightarrow> string \<times> json \<Rightarrow> bool" where
  "good_name N p \<longleftrightarrow> length (fst p) < 2 ^ 63 \<and> ubjson_unsigned (int (length (fst p))) True = Inr (N p)"

lemma good_nameD:
  assumes "good_name N p"
  shows "N p \<noteq> []" "hd (N p) \<in> {CHR ''i'', CHR ''U'', CHR ''I'', CHR ''l'', CHR ''L''}"
  using assms length_form [of "length (fst p)", where 's = unit] by (auto simp: good_name_def)

lemma until_members:
  assumes "place q R"
  shows "\<forall>p \<in> set ps. good_name N p \<and> takes (parse_ubjson_internal rd True) (T p) (ubjson_value (snd p)) \<Longrightarrow>
    sorted_keys (ms @ ps) \<Longrightarrow> ref_stack d = q # rs \<Longrightarrow> root d = R (JObject ms) \<Longrightarrow>
    facing b (concat (map (ubjson_member N T) ps) @ CHR ''}'' # r) \<Longrightarrow> length ps < n \<Longrightarrow>
    \<exists>b' e. ubjson_until n 0x7D (read_member (dom_sized_sax z a) (get_ubjson_string (dom_sized_sax z a) False)
        (parse_ubjson_internal rd True)) d b =
      Inr (True, d\<lparr> root := R (JObject (ms @ map (\<lambda>p. (fst p, ubjson_value (snd p))) ps)), object_element := e \<rparr>, b') \<and> br_rest b' = r"
proof (induction ps arbitrary: d b ms n)
  case Nil
  then obtain n' where "n = Suc n'" by (cases n) auto
  then show ?case using Nil by (auto simp: facing_def intro!: exI [of _ "object_element d"])
next
  case (Cons p ps)
  then obtain n' where n: "n = Suc n'" by (cases n) auto
  let ?sax = "dom_sized_sax z a" and ?rest = "concat (map (ubjson_member N T) ps) @ CHR ''}'' # r"
  let ?member = "read_member ?sax (get_ubjson_string ?sax False) (parse_ubjson_internal rd True)"
  let ?v = "ubjson_value (snd p)" and ?k = "fst p"
  have good: "good_name N p" and v: "takes (parse_ubjson_internal rd True) (T p) ?v" using Cons.prems(1) by simp_all
  have b: "facing b (N p @ ?k @ T p @ ?rest)" using Cons.prems(5) by (simp add: ubjson_member_def [of N T p])
  obtain b0 where b0: "get_ubjson_string ?sax False d b = Inr (Some ?k, d, b0)" "br_rest b0 = T p @ ?rest"
    using string_reads [OF _ _ b, of ?sax d] good by (auto simp: good_name_def)
  have "br_current b = ord (hd (N p))" using b good_nameD(1) [OF good] by (simp add: facing_def)
  then have close: "br_current b \<noteq> 0x7D" using good_nameD(2) [OF good] by auto
  obtain m' where key: "dom_key ?k d = Inr (True, d\<lparr> root := R (JObject m'), object_element := Some (q @ [Key ?k]) \<rparr>)"
    and s: "slot (d\<lparr> root := R (JObject m'), object_element := Some (q @ [Key ?k]) \<rparr>) (\<lambda>x. R (JObject (obj_set ?k x ms)))"
    using slot_key [OF assms Cons.prems(3,4)] by blast
  have "\<forall>x \<in> fst ` set ms. x < ?k" using Cons.prems(2) by (auto simp: sorted_wrt_append)
  then have ms: "obj_set ?k ?v ms = ms @ [(?k, ?v)]" by (simp add: obj_set_append)
  obtain b1 e1 where 1: "parse_ubjson_internal rd True (d\<lparr> root := R (JObject m'), object_element := Some (q @ [Key ?k]) \<rparr>) b0 =
      Inr (True, d\<lparr> root := R (JObject (ms @ [(?k, ?v)])), object_element := e1 \<rparr>, b1)" "br_rest b1 = ?rest"
    using takesD [OF v s b0(2)] ms by auto
  let ?d = "d\<lparr> root := R (JObject (ms @ [(?k, ?v)])), object_element := e1 \<rparr>"
  have "hd ?rest \<noteq> CHR ''N''" using Cons.prems(1) good_nameD by (cases ps) (fastforce simp: ubjson_member_def)+
  then have "facing (get_ignore_noop b1) ?rest" by (intro facing_ignore(2) [OF 1(2)]) simp_all
  moreover have "sorted_keys ((ms @ [(?k, ?v)]) @ ps)" using Cons.prems(2) by simp
  ultimately obtain b' e' where "ubjson_until n' 0x7D ?member ?d (get_ignore_noop b1) =
      Inr (True, ?d\<lparr> root := R (JObject ((ms @ [(?k, ?v)]) @ map (\<lambda>p. (fst p, ubjson_value (snd p))) ps)), object_element := e' \<rparr>, b')"
    "br_rest b' = r"
    using Cons.IH [of "ms @ [(?k, ?v)]" ?d "get_ignore_noop b1" n'] Cons.prems(1,3,6) n by auto
  moreover have "?member d b = Inr (True, ?d, b1)" using 1(1) b0(1) key by (simp add: read_member_def)
  ultimately show ?case using close n by auto
qed

lemma open_array_takes:
  assumes parts: "\<forall>v \<in> set vs. wf_json v \<and> takes (rd (ord (ubjson_prefix v))) (U v) (ubjson_value v)"
  shows "takes (get_ubjson_array (dom_sized_sax z a) rd) (concat (map (prefixed U) vs) @ [CHR '']'']) (JArray (map ubjson_value vs))"
  unfolding takes_def
proof (intro allI impI)
  fix d R r and b :: binary_reader
  assume s: "slot d R" and b: "br_rest b = (concat (map (prefixed U) vs) @ [CHR '']'']) @ r"
  let ?t = "concat (map (prefixed U) vs) @ CHR '']'' # r" and ?b = "br_get b"
  have "hd ?t \<notin> {CHR ''N'', CHR ''$'', CHR ''#''}" using parts good_prefix by (cases vs) (auto simp: prefixed_def)
  then have st: "get_ubjson_size_type (dom_sized_sax z a) d b = Inr (Some (npos, 0), d, ?b)" "facing ?b ?t"
    using b by (intro size_type_none; simp)+
  obtain q where q: "place q R"
    "dom_start V_array d = Inr (True, d\<lparr> root := R (JArray []), ref_stack := q # ref_stack d \<rparr>)"
    using slot_start [OF s, of V_array] by auto
  let ?d = "d\<lparr> root := R (JArray []), ref_stack := q # ref_stack d \<rparr>"
  have "length vs \<le> length (concat (map (prefixed U) vs))" by (induction vs) (simp_all add: prefixed_def)
  then have l: "length vs < length (br_rest ?b) + 2" using st(2) by (simp add: facing_def)
  obtain b' e where "ubjson_until (length (br_rest ?b) + 2) 0x5D (parse_ubjson_internal rd False) ?d ?b =
      Inr (True, ?d\<lparr> root := R (JArray (map ubjson_value vs)), object_element := e \<rparr>, b')" "br_rest b' = r"
    using until_elements [OF q(1) parts, of ?d "ref_stack d" "[]" ?b r "length (br_rest ?b) + 2"] st(2) l
    by (auto simp del: ubjson_until.simps)
  then show "\<exists>b' e. get_ubjson_array (dom_sized_sax z a) rd d b =
      Inr (True, d\<lparr> root := R (JArray (map ubjson_value vs)), object_element := e \<rparr>, b') \<and> br_rest b' = r"
    using q(2) st(1) by (auto simp: get_ubjson_array_def dom_end_def ref_stack_first simp del: ubjson_until.simps
        intro!: exI [of _ e])
qed

lemma open_object_takes:
  assumes parts: "\<forall>p \<in> set ps. good_name N p \<and> takes (parse_ubjson_internal rd True) (T p) (ubjson_value (snd p))"
    and srt: "sorted_keys ps"
  shows "takes (get_ubjson_object (dom_sized_sax z a) rd) (concat (map (ubjson_member N T) ps) @ [CHR ''}''])
    (JObject (map (\<lambda>p. (fst p, ubjson_value (snd p))) ps))"
  unfolding takes_def
proof (intro allI impI)
  fix d R r and b :: binary_reader
  assume s: "slot d R" and b: "br_rest b = (concat (map (ubjson_member N T) ps) @ [CHR ''}'']) @ r"
  let ?t = "concat (map (ubjson_member N T) ps) @ CHR ''}'' # r" and ?b = "br_get b" and ?sax = "dom_sized_sax z a"
  let ?v = "map (\<lambda>p. (fst p, ubjson_value (snd p))) ps"
  have "hd ?t \<notin> {CHR ''N'', CHR ''$'', CHR ''#''}"
    using parts good_nameD by (cases ps) (fastforce simp: ubjson_member_def)+
  then have st: "get_ubjson_size_type ?sax d b = Inr (Some (npos, 0), d, ?b)" "facing ?b ?t"
    using b by (intro size_type_none; simp)+
  obtain q where q: "place q R"
    "dom_start V_object d = Inr (True, d\<lparr> root := R (JObject []), ref_stack := q # ref_stack d \<rparr>)"
    using slot_start [OF s, of V_object] by auto
  let ?d = "d\<lparr> root := R (JObject []), ref_stack := q # ref_stack d \<rparr>"
  have "1 \<le> length (ubjson_member N T p)" if "p \<in> set ps" for p
    using good_nameD(1) parts that by (fastforce simp: ubjson_member_def Suc_le_eq)
  then have "length ps \<le> length (concat (map (ubjson_member N T) ps))" by (induction ps) fastforce+
  then have l: "length ps < length (br_rest ?b) + 2" using st(2) by (simp add: facing_def)
  obtain b' e where "ubjson_until (length (br_rest ?b) + 2) 0x7D
      (read_member ?sax (get_ubjson_string ?sax False) (parse_ubjson_internal rd True)) ?d ?b =
      Inr (True, ?d\<lparr> root := R (JObject ?v), object_element := e \<rparr>, b')" "br_rest b' = r"
    using until_members [OF q(1) parts, of "[]" ?d "ref_stack d" ?b r "length (br_rest ?b) + 2" z a] st(2) l srt
    by (auto simp del: ubjson_until.simps)
  then show "\<exists>b' e. get_ubjson_object ?sax rd d b =
      Inr (True, d\<lparr> root := R (JObject ?v), object_element := e \<rparr>, b') \<and> br_rest b' = r"
    using q(2) st(1) by (auto simp: get_ubjson_object_def dom_end_def ref_stack_first simp del: ubjson_until.simps
        intro!: exI [of _ e])
qed

section \<open>The texts of containers\<close>

lemma forE_texts:
  "(\<And>x acc. x \<in> set xs \<Longrightarrow> F x acc = Inr (acc @ T x)) \<Longrightarrow> forE F xs acc = Inr (acc @ concat (map T xs))"
  by (induction xs arbitrary: acc) simp_all

text \<open>The head of a container with a count: whether its elements need prefixes, its text and the type that it gives.\<close>

lemma count_head:
  assumes "use_count" and "length vs < 2 ^ 63" and good: "\<forall>v \<in> set vs. wf_json v"
  shows "\<exists>req mark count ty. ubjson_type_mark use_count use_type vs = Inr (req, mark) \<and>
    ubjson_count use_count (length vs) = Inr count \<and> count \<noteq> [] \<and> size_head z a (mark @ count) (length vs) ty \<and>
    ty \<noteq> 0x4E \<and> (req \<longleftrightarrow> ty = 0) \<and> (\<not> req \<longrightarrow> (\<forall>v \<in> set vs. ord (ubjson_prefix v) = ty))"
proof -
  obtain t where t: "ubjson_unsigned (int (length vs)) True = Inr t"
    using length_form [OF assms(2), where 's = unit] by auto
  note heads = size_heads [OF assms(2) t]
  show ?thesis
  proof (cases "use_type \<and> vs \<noteq> [] \<and> list_all (\<lambda>v. ubjson_prefix v = ubjson_prefix (hd vs)) vs")
    case True
    let ?c = "ubjson_prefix (hd vs)"
    have c: "ord ?c \<noteq> 0" "ord ?c \<noteq> 0x4E" using good prefix_code True by auto
    have "ubjson_type_mark use_count use_type vs = Inr (False, [CHR ''$'', ?c])"
      using True assms(1) by (simp add: ubjson_type_mark_def Let_def)
    moreover have "ubjson_count use_count (length vs) = Inr (CHR ''#'' # t)" using t assms(1) by (simp add: ubjson_count_def)
    moreover have "\<forall>v \<in> set vs. ord (ubjson_prefix v) = ord ?c" using True unfolding list_all_iff by metis
    moreover have "size_head z a ([CHR ''$'', ?c] @ CHR ''#'' # t) (length vs) (ord ?c)" using heads(2) by simp
    ultimately show ?thesis using c by blast
  next
    case False
    then show ?thesis using heads(1) t assms(1)
      by (intro exI [of _ True] exI [of _ "[]"] exI [of _ "CHR ''#'' # t"] exI [of _ 0])
         (auto simp: ubjson_type_mark_def ubjson_count_def Let_def)
  qed
qed

lemma open_head:
  "\<not> use_count \<Longrightarrow> \<not> use_type \<Longrightarrow> ubjson_type_mark use_count use_type vs = Inr (True, []) \<and> ubjson_count use_count n = Inr []"
  by (simp add: ubjson_type_mark_def ubjson_count_def)

lemma array_depth:
  assumes "\<forall>v \<in> set vs. json_depth v \<le> length (T v)" and "length (concat (map T vs)) < n"
  shows "json_depth (JArray vs) \<le> n"
proof -
  have "json_depth v \<le> length (concat (map T vs))" if v: "v \<in> set vs" for v
  proof -
    have "length (T v) \<le> length (concat (map T vs))" using v by (auto simp: length_concat intro: member_le_sum_list)
    then show ?thesis using assms(1) v by fastforce
  qed
  then have "json_depth (JArray vs) \<le> Suc (length (concat (map T vs)))" by (intro depth_le) blast
  then show ?thesis using assms(2) by linarith
qed

lemma object_depth:
  assumes "\<forall>p \<in> set ps. json_depth (snd p) \<le> length (T p)" and "length (concat (map T ps)) < n"
  shows "json_depth (JObject ps) \<le> n"
proof -
  have "json_depth (snd p) \<le> length (concat (map T ps))" if p: "p \<in> set ps" for p
  proof -
    have "length (T p) \<le> length (concat (map T ps))" using p by (auto simp: length_concat intro: member_le_sum_list)
    then show ?thesis using assms(1) p by fastforce
  qed
  then have "json_depth (JObject ps) \<le> Suc (length (concat (map T ps)))" by (intro depth_le) blast
  then show ?thesis using assms(2) by linarith
qed

section \<open>Every value\<close>

lemma array_text:
  assumes wf: "\<forall>v \<in> set vs. wf_json v" and parts: "\<forall>v \<in> set vs. ubjson_text z a uc ut v (U v)"
    and n: "length vs < 2 ^ 63" "length vs \<le> array_max_size z" and ut: "ut \<longrightarrow> uc"
  shows "\<exists>u. ubjson_text z a uc ut (JArray vs) u"
proof -
  obtain req mark count ty where h: "ubjson_type_mark uc ut vs = Inr (req, mark)" "ubjson_count uc (length vs) = Inr count"
    and c: "uc \<Longrightarrow> count \<noteq> [] \<and> size_head z a (mark @ count) (length vs) ty \<and> ty \<noteq> 0x4E \<and> (req \<longleftrightarrow> ty = 0) \<and>
      (\<not> req \<longrightarrow> (\<forall>v \<in> set vs. ord (ubjson_prefix v) = ty))"
    and nc: "\<not> uc \<Longrightarrow> req \<and> mark = [] \<and> count = []"
  proof (cases uc)
    case True
    then show thesis using count_head [OF _ n(1) wf, of uc ut z a] that by blast
  next
    case False
    then show thesis using open_head [of uc ut vs "length vs"] ut that by blast
  qed
  let ?T = "\<lambda>v. with_prefix req (ubjson_prefix v) (U v)" and ?closing = "if uc then [] else [CHR '']'']"
  let ?u = "mark @ count @ concat (map ?T vs) @ ?closing"
  have "ubjson_text z a uc ut (JArray vs) ?u"
  proof (rule ubjson_textI)
    fix add
    have "forE (\<lambda>el acc. mapE (\<lambda>t. acc @ t) (write_ubjson el uc ut req)) vs acc = Inr (acc @ concat (map ?T vs))" for acc
      by (rule forE_texts) (use parts in \<open>simp add: ubjson_text_def\<close>)
    then show "write_ubjson (JArray vs) uc ut add = Inr (with_prefix add (ubjson_prefix (JArray vs)) ?u)"
      using h by (simp add: with_prefix_def)
  next
    have "\<forall>v \<in> set vs. json_depth v \<le> length (?T v)" using parts by (auto simp: ubjson_text_def with_prefix_def)
    then show "json_depth (JArray vs) \<le> length ?u" by (rule array_depth) (use c in auto)
  next
    fix f assume "json_depth (JArray vs) \<le> f"
    then have rd: "takes (get_ubjson_value f (dom_sized_sax z a) (ord (ubjson_prefix v))) (U v) (ubjson_value v)" if "v \<in> set vs" for v
      using parts depth_parts(1) [OF that] that by (fastforce simp: ubjson_text_def)
    let ?rd = "get_ubjson_value f (dom_sized_sax z a)"
    have item: "takes (if ty \<noteq> 0 then ?rd ty else parse_ubjson_internal ?rd True) (?T v) (ubjson_value v)" if "v \<in> set vs" uc for v
      using rd [OF that(1)] c [OF that(2)] prefixed_takes [of ?rd "ubjson_prefix v" "U v" "ubjson_value v"] good_prefix [of v] wf that(1)
      by (auto simp: with_prefix_def)
    have "takes (get_ubjson_array (dom_sized_sax z a) ?rd) ?u (JArray (map ubjson_value vs))"
    proof (cases uc)
      case True
      have "list_all2 (takes (if ty \<noteq> 0 then ?rd ty else parse_ubjson_internal ?rd True)) (map ?T vs) (map ubjson_value vs)"
        using item True by (simp add: list_all2_map1 list_all2_map2 list_all2_same)
      then show ?thesis using sized_array_takes [of z a "mark @ count" "map ubjson_value vs" ty ?rd "map ?T vs"] c True n by simp
    next
      case False
      have "?u = concat (map (prefixed U) vs) @ [CHR '']'']" using nc [OF False] False
        by (simp add: with_prefix_def prefixed_def [abs_def])
      then show ?thesis using open_array_takes [of vs ?rd U z a] wf rd by simp
    qed
    then show "takes (get_ubjson_value (Suc f) (dom_sized_sax z a) (ord (ubjson_prefix (JArray vs)))) ?u (ubjson_value (JArray vs))"
      by (simp add: flat_branch del: get_ubjson_value.simps)
  qed
  then show ?thesis by blast
qed

lemma object_text:
  assumes wf: "\<forall>p \<in> set ps. wf_json (snd p)" "sorted_keys ps"
    and parts: "\<forall>p \<in> set ps. ubjson_text z a uc ut (snd p) (U p)" and names: "\<forall>p \<in> set ps. good_name N p"
    and n: "length ps < 2 ^ 63" "length ps \<le> object_max_size z" and ut: "ut \<longrightarrow> uc"
  shows "\<exists>u. ubjson_text z a uc ut (JObject ps) u"
proof -
  have wf': "\<forall>v \<in> set (map snd ps). wf_json v" using wf(1) by auto
  obtain req mark count ty where h: "ubjson_type_mark uc ut (map snd ps) = Inr (req, mark)" "ubjson_count uc (length ps) = Inr count"
    and c: "uc \<Longrightarrow> count \<noteq> [] \<and> size_head z a (mark @ count) (length ps) ty \<and> (req \<longleftrightarrow> ty = 0) \<and>
      (\<not> req \<longrightarrow> (\<forall>v \<in> set (map snd ps). ord (ubjson_prefix v) = ty))"
    and nc: "\<not> uc \<Longrightarrow> req \<and> mark = [] \<and> count = []"
  proof (cases uc)
    case True
    then show thesis using count_head [OF _ _ wf', of uc ut z a] n(1) that by (metis length_map)
  next
    case False
    then show thesis using open_head [of uc ut "map snd ps" "length ps"] ut that by blast
  qed
  let ?V = "\<lambda>p. with_prefix req (ubjson_prefix (snd p)) (U p)" and ?closing = "if uc then [] else [CHR ''}'']"
  let ?T = "ubjson_member N ?V" and ?sax = "dom_sized_sax z a"
  let ?u = "mark @ count @ concat (map ?T ps) @ ?closing" and ?v = "map (\<lambda>p. (fst p, ubjson_value (snd p))) ps"
  have "ubjson_text z a uc ut (JObject ps) ?u"
  proof (rule ubjson_textI)
    fix add
    have "forE (\<lambda>el acc. bindE (ubjson_unsigned (int (length (fst el))) True) (\<lambda>n.
        mapE (\<lambda>t. acc @ n @ fst el @ t) (write_ubjson (snd el) uc ut req))) ps acc = Inr (acc @ concat (map ?T ps))" for acc
      by (rule forE_texts) (use parts names in \<open>simp add: ubjson_text_def good_name_def ubjson_member_def\<close>)
    then show "write_ubjson (JObject ps) uc ut add = Inr (with_prefix add (ubjson_prefix (JObject ps)) ?u)"
      using h by (simp add: with_prefix_def)
  next
    have "\<forall>p \<in> set ps. json_depth (snd p) \<le> length (?T p)" using parts
      by (fastforce simp: ubjson_text_def with_prefix_def ubjson_member_def)
    then show "json_depth (JObject ps) \<le> length ?u" by (rule object_depth) (use c in auto)
  next
    fix f assume "json_depth (JObject ps) \<le> f"
    then have rd: "takes (get_ubjson_value f ?sax (ord (ubjson_prefix (snd p)))) (U p) (ubjson_value (snd p))" if "p \<in> set ps" for p
      using parts depth_parts(2) [OF that] that by (fastforce simp: ubjson_text_def)
    let ?rd = "get_ubjson_value f ?sax"
    have item: "takes (if ty \<noteq> 0 then ?rd ty else parse_ubjson_internal ?rd True) (?V p) (ubjson_value (snd p))" if "p \<in> set ps" uc for p
      using rd [OF that(1)] c [OF that(2)] prefixed_takes [of ?rd "ubjson_prefix (snd p)" "U p" "ubjson_value (snd p)"] good_prefix [of "snd p"] wf that(1)
      by (auto simp: with_prefix_def)
    have name: "spells (get_ubjson_string ?sax False) (N p @ fst p) (fst p)" if "p \<in> set ps" for p
      unfolding spells_def
    proof (intro allI impI)
      fix d r and b :: binary_reader
      assume "br_rest b = (N p @ fst p) @ r"
      then have "facing (br_get b) (N p @ fst p @ r)" using names that good_nameD(1) by (intro facing_get) auto
      from string_reads [OF _ _ this] names that
      show "\<exists>b'. get_ubjson_string ?sax False d (br_get b) = Inr (Some (fst p), d, b') \<and> br_rest b' = r" by (auto simp: good_name_def)
    qed
    have "takes (get_ubjson_object ?sax ?rd) ?u (JObject ?v)"
    proof (cases uc)
      case True
      let ?item = "if ty \<noteq> 0 then ?rd ty else parse_ubjson_internal ?rd True"
      have "takes_member (get_ubjson_string ?sax False) ?item (?T p) (fst p, ubjson_value (snd p))" if p: "p \<in> set ps" for p
        unfolding takes_member_def using name [OF p] item [OF p True]
        by (intro exI [of _ "N p @ fst p"] exI [of _ "?V p"]) (simp add: ubjson_member_def)
      then have "list_all2 (takes_member (get_ubjson_string ?sax False) ?item) (map ?T ps) ?v"
        by (simp add: list_all2_map1 list_all2_map2 list_all2_same)
      moreover have "sorted_keys ?v" using wf(2) by (simp add: comp_def)
      ultimately show ?thesis using sized_object_takes [of z a "mark @ count" ?v ty ?rd "map ?T ps"] c True n by simp
    next
      case False
      have "?V = (\<lambda>p. ubjson_prefix (snd p) # U p)" using nc [OF False] by (simp add: with_prefix_def)
      moreover have "takes (parse_ubjson_internal ?rd True) (ubjson_prefix (snd p) # U p) (ubjson_value (snd p))" if "p \<in> set ps" for p
        using prefixed_takes [of ?rd "ubjson_prefix (snd p)" "U p" "ubjson_value (snd p)"] rd [OF that] good_prefix [of "snd p"] wf(1) that by auto
      ultimately show ?thesis using open_object_takes [of ps N ?rd "\<lambda>p. ubjson_prefix (snd p) # U p" z a] names wf(2) nc [OF False] False by simp
    qed
    then show "takes (get_ubjson_value (Suc f) ?sax (ord (ubjson_prefix (JObject ps)))) ?u (ubjson_value (JObject ps))"
      by (simp add: flat_branch del: get_ubjson_value.simps)
  qed
  then show ?thesis by blast
qed

lemma every_text:
  "wf_json v \<Longrightarrow> ubjson_fits v \<Longrightarrow> sized (2 ^ 63) z v \<Longrightarrow> ut \<longrightarrow> uc \<Longrightarrow> \<exists>u. ubjson_text z a uc ut v u"
proof (induction v)
  case (JArray vs)
  have "\<forall>v \<in> set vs. \<exists>u. ubjson_text z a uc ut v u" using JArray by simp
  then obtain U where "\<forall>v \<in> set vs. ubjson_text z a uc ut v (U v)" by metis
  then show ?case using JArray.prems by (intro array_text) simp_all
next
  case (JObject ps)
  have "\<forall>p \<in> set ps. \<exists>u. ubjson_text z a uc ut (snd p) u" using JObject by (force simp: snds.simps)
  then obtain U where U: "\<forall>p \<in> set ps. ubjson_text z a uc ut (snd p) (U p)" by metis
  have "\<exists>t. length (fst p) < 2 ^ 63 \<and> ubjson_unsigned (int (length (fst p))) True = Inr t" if "p \<in> set ps" for p
    using JObject.prems(3) that length_form [of "length (fst p)", where 's = unit] by auto
  then obtain N where "\<forall>p \<in> set ps. good_name N p" unfolding good_name_def by metis
  then show ?case using JObject.prems U by (intro object_text) auto
qed (rule flat_text; simp)+

lemma ubjson_value_eq: "wf_json v \<Longrightarrow> ubjson_fits v \<Longrightarrow> json_eq (ubjson_value v) v"
proof (induction v)
  case (JFloat d)
  then show ?case by (simp add: double_eq_def double_nan_def isfinite_def)
next
  case (JInteger n)
  then show ?case by (simp add: wrap64_id)
next
  case (JUnsigned n)
  then have "in64 n" by (simp add: in64_def inu64_def)
  then show ?case by (simp add: wrap64_id)
next
  case (JArray vs)
  then show ?case by (auto simp: list_all2_map1 intro!: list.rel_refl_strong)
next
  case (JObject ps)
  then show ?case by (fastforce simp: list_all2_map1 intro!: list.rel_refl_strong)
qed auto

text \<open>
  C29. UBJSON round trip: in each of its three layouts (plain, with counts, with counts and types)
  \<open>to_ubjson\<close> succeeds for every well-formed value whose numbers fit into 64 bits with a sign and whose
  strings and containers are shorter than 2 to the power of 63, and \<open>from_ubjson\<close> reads back what it
  writes, with the input consumed completely: the same value, floating-point numbers to the bit,
  with unsigned numbers for the integers from 128 to 255 and signed ones for all others, and equal to
  it in the sense of \<open>operator==\<close>.
\<close>

theorem ubjson_roundtrip:
  assumes "wf_json j" and "ubjson_fits j" and "sized (2 ^ 63) z j" and "use_type \<longrightarrow> use_size"
  shows "\<exists>w. to_ubjson j use_size use_type = Inr w \<and> from_ubjson z strict a w = Inr (ubjson_value j) \<and>
    json_eq (ubjson_value j) j"
proof -
  obtain u where u: "ubjson_text z a use_size use_type j u" using every_text [OF assms] by blast
  let ?w = "ubjson_prefix j # u"
  have w: "to_ubjson j use_size use_type = Inr ?w" using u by (simp add: to_ubjson_def ubjson_text_def with_prefix_def)
  have "takes (get_ubjson_value (length ?w + 2) (dom_sized_sax z a) (ord (ubjson_prefix j))) u (ubjson_value j)"
    using u by (simp add: ubjson_text_def del: get_ubjson_value.simps)
  then have "takes (parse_ubjson_internal (get_ubjson_value (length ?w + 2) (dom_sized_sax z a)) True) ?w (ubjson_value j)"
    by (rule prefixed_takes) (use good_prefix [OF assms(1)] in simp)
  from takesD [OF this slot_init, of "binary_reader_init ?w" "[]"]
  obtain b' e where "parse_ubjson_internal (get_ubjson_value (length ?w + 2) (dom_sized_sax z a)) True dom_init (binary_reader_init ?w) =
      Inr (True, dom_init\<lparr> root := ubjson_value j, object_element := e \<rparr>, b')" "br_rest b' = []"
    by (auto simp: binary_reader_init_def simp del: get_ubjson_value.simps)
  then have "from_ubjson z strict a ?w = Inr (ubjson_value j)"
    unfolding from_ubjson_def from_binary_def br_sax_parse_def Let_def
    by (simp add: Let_def del: get_ubjson_value.simps length_Cons)
  then show ?thesis using w ubjson_value_eq [OF assms(1,2)] by blast
qed

lemma ubjson_roundtrip_witness:
  "\<exists>w. to_ubjson ex_packed True True = Inr w \<and>
     from_ubjson \<lparr> array_max_size = 1000, object_max_size = 1000 \<rparr> True True w = Inr (ubjson_value ex_packed) \<and>
     ubjson_value ex_packed \<noteq> ex_packed \<and> json_eq (ubjson_value ex_packed) ex_packed"
proof -
  let ?z = "\<lparr> array_max_size = 1000, object_max_size = 1000 \<rparr>"
  have "ubjson_fits ex_packed" "ubjson_value ex_packed \<noteq> ex_packed" by (simp_all add: ex_packed_def)
  moreover have "sized (2 ^ 63) ?z ex_packed" by (rule ex_packed_ok(2)) simp_all
  ultimately show ?thesis using ubjson_roundtrip [OF ex_packed_ok(1), of ?z True True True True] by simp
qed

end
