(* ===== verification/Json_Ubjson_Safe.thy ===== *)
theory Json_Ubjson_Safe
  imports Json_Ubjson
begin

text \<open>Reading UBJSON is defined for every input, as for the other formats.\<close>

section \<open>Numbers, strings and sizes\<close>

lemma ubjson_int_fine: "left b \<le> n \<Longrightarrow> fine_value ((=) d) n (ubjson_int (dom_sized_sax z a) t d b)"
  unfolding ubjson_int_def by (rule fine_fill_value [OF get_number_fine order_refl]) simp_all

lemma loop_ignore:
  assumes "br_current (get_ignore_noop b) \<noteq> - 1"
  shows "left (get_ignore_noop b) < left b"
proof (cases "br_rest b")
  case Nil
  then show ?thesis using assms by simp
next
  case (Cons c cs)
  then show ?thesis using left_ignore [of b] by simp
qed

lemma enough_ignore: "left b < f \<Longrightarrow> enough f (get_ignore_noop b)"
  using loop_ignore [of b] by (fastforce simp: enough_def)

lemma get_ubjson_string_fine:
  assumes "left b \<le> n"
  shows "fine_value ((=) d) n (get_ubjson_string (dom_sized_sax z a) False d b)"
proof -
  have "fine_value ((=) d) n (fill_value (ubjson_int (dom_sized_sax z a) t d b)
      (\<lambda>len s2 b2. get_string (dom_sized_sax z a) Format_ubjson (nat len) s2 b2))" for t
    by (rule fine_fill_value [OF ubjson_int_fine [OF assms] order_refl]) (simp add: get_string_fine)
  then show ?thesis
    using unexpect_eof_cases [of z a Format_ubjson "''value''" d b] assms
    by (auto simp: get_ubjson_string_def Let_def byte_error_fine split: option.split)
qed

lemma get_ubjson_string_eof:
  "br_current b = - 1 \<Longrightarrow> left b \<le> n \<Longrightarrow> fine_value P n (get_ubjson_string (dom_sized_sax z a) False d b)"
  using unexpect_eof_cases [of z a Format_ubjson "''value''" d b] by (auto simp: get_ubjson_string_def)

lemma any_error_fine:
  assumes "i \<in> {110, 112, 113}" and "left b \<le> n"
  shows "fine_value P n (mapE (\<lambda>(go, r). (if go then Some x else None, r))
    (br_error (dom_sized_sax z a) format i detail context d b))"
  using br_error_cases [OF assms(1), of z a format detail "context" d b] assms(2) by auto

lemma size_value_fine:
  assumes "left b \<le> n"
  shows "fine_value ((=) d) n (get_ubjson_size_value (dom_sized_sax z a) d b)"
proof -
  let ?b = "get_ignore_noop b"
  have l: "left ?b \<le> n" using left_ignore [of b] assms by simp
  have "fine_value ((=) d) n (fill_value (ubjson_int (dom_sized_sax z a) t d ?b)
      (\<lambda>n s1 b1. Inr (Some (nat (n mod 2 ^ 64)), s1, b1)))" for t
    by (rule fine_fill_value [OF ubjson_int_fine [OF l] order_refl]) simp
  then show ?thesis
    unfolding get_ubjson_size_value_def Let_def
    by (cases "ubjson_int_type (br_current ?b)") (simp_all add: any_error_fine l)
qed

text \<open>Determining the size takes a byte, unless there is none.\<close>

lemma size_type_fine:
  "fine_value ((=) d) (left b - 1) (get_ubjson_size_type (dom_sized_sax z a) d b)"
proof -
  let ?sax = "dom_sized_sax z a" and ?b = "get_ignore_noop b" and ?n = "left b - 1"
  let ?b1 = "br_get ?b" and ?b2 = "get_ignore_noop (br_get ?b)"
  have l: "left ?b \<le> ?n" "left ?b1 \<le> ?n" "left ?b2 \<le> ?n"
    using left_ignore [of b] left_ignore [of ?b1] by (simp_all add: left_get)
  have size: "fine_value ((=) d) ?n (fill_value (get_ubjson_size_value ?sax d b') (\<lambda>n s2 b3. Inr (Some (n, ty), s2, b3)))"
    if "left b' \<le> ?n" for b' ty
    by (rule fine_fill_value [OF size_value_fine [OF that] order_refl]) simp
  have "fine_value ((=) d) ?n
      (bindE (unexpect_eof ?sax Format_ubjson ''value'' d ?b2) (\<lambda>(go, s2, b2).
       if \<not> go then Inr (None, s2, b2)
       else mapE (\<lambda>(go, r). (if go then Some (npos, ty) else None, r)) (br_error ?sax Format_ubjson 112 (detail b2) ''size'' s2 b2)))"
    for ty detail
    using unexpect_eof_cases [of z a Format_ubjson "''value''" d ?b2] l(3) by (auto simp: any_error_fine)
  note missing = this [of "br_current ?b1"]
  show ?thesis
    unfolding get_ubjson_size_type_def Let_def
    using unexpect_eof_cases [of z a Format_ubjson "''type''" d ?b1] l size missing
    by (auto simp del: append.simps)
qed

section \<open>Containers\<close>

lemma until_fine:
  assumes item: "\<And>d b m. P d \<Longrightarrow> left b \<le> m \<Longrightarrow> m \<le> n \<Longrightarrow> fine P m (item d b)"
    and eof: "\<And>d b. br_current b = - 1 \<Longrightarrow> left b \<le> n \<Longrightarrow> fine (\<lambda>_. False) n (item d b)"
    and close: "close \<noteq> - 1"
  shows "P d \<Longrightarrow> left b \<le> n \<Longrightarrow> enough k b \<Longrightarrow> fine P n (ubjson_until k close item d b)"
proof (induction k arbitrary: d b)
  case 0
  then show ?case by (simp add: enough_def)
next
  case (Suc k)
  consider "br_current b = close" | "br_current b = - 1" | "br_current b \<noteq> close" "br_current b \<noteq> - 1" by blast
  then show ?case
  proof cases
    case 1
    then show ?thesis using Suc.prems by simp
  next
    case 2
    then show ?thesis using fine_and_then [OF eof [OF 2 Suc.prems(2)] order_refl] close by simp
  next
    case 3
    then have k: "left b < k" using Suc.prems(3) by (simp add: enough_def)
    have "fine P n (and_then (item d b) (\<lambda>s1 b1. ubjson_until k close item s1 (get_ignore_noop b1)))"
    proof (rule fine_and_then [OF item [OF Suc.prems(1) order_refl Suc.prems(2)] Suc.prems(2)])
      fix d1 and b1 :: binary_reader
      assume d1: "P d1" "left b1 \<le> left b"
      then have "left (get_ignore_noop b1) \<le> n" using left_ignore [of b1] Suc.prems(2) by simp
      moreover have "enough k (get_ignore_noop b1)" using d1(2) k by (intro enough_ignore) simp
      ultimately show "fine P n (ubjson_until k close item d1 (get_ignore_noop b1))" by (rule Suc.IH [OF d1(1)])
    qed
    then show ?thesis using 3 by simp
  qed
qed

lemma enough_left: "left b + 2 \<le> f \<Longrightarrow> enough f b"
  by (simp add: enough_def)

lemma open_container:
  assumes d: "dom_shape st True d" and b: "left b \<le> n" and t: "t = (if c then V_array else V_object)"
    and item: "\<And>d b m. dom_shape (c # st) c d \<Longrightarrow> left b \<le> m \<Longrightarrow> m \<le> n \<Longrightarrow> fine (dom_shape (c # st) c) m (item d b)"
    and eof: "\<And>d b. br_current b = - 1 \<Longrightarrow> left b \<le> n \<Longrightarrow> fine (\<lambda>_. False) n (item d b)"
    and close: "close \<noteq> - 1"
  shows "fine (dom_shape st False) n (and_then (send (dom_start t d) b) (\<lambda>s2 b2.
    and_then (ubjson_until (left b2 + 2) close item s2 b2) (\<lambda>s3 b3. send (dom_end s3) b3)))"
proof (rule fine_and_then [OF dom_start_fine [OF d b t] order_refl])
  fix d1 and b1 :: binary_reader
  assume d1: "dom_shape (c # st) False d1" "left b1 \<le> n"
  then have "dom_shape (c # st) c d1" by (cases c) (simp_all add: dom_next_shape)
  then have "fine (dom_shape (c # st) c) n (ubjson_until (left b1 + 2) close item d1 b1)"
    by - (rule until_fine [OF _ _ close _ d1(2) enough_left [OF order_refl]];
          (rule item; assumption | rule eof; assumption | assumption))
  then show "fine (dom_shape st False) n
      (and_then (ubjson_until (left b1 + 2) close item d1 b1) (\<lambda>s3 b3. send (dom_end s3) b3))"
    by (rule fine_and_then [OF _ order_refl]) (cases c; auto intro: dom_end_fine simp: dom_shape_def)
qed

text \<open>Where nothing is left, there is no size, and the first part fails.\<close>

lemma until_at_end:
  assumes "br_current b = - 1" "left b \<le> n" "close \<noteq> - 1" and "fine (\<lambda>_. False) n (item d b)"
  shows "fine P n (ubjson_until (k + 2) close item d b)"
  using fine_and_then [OF assms(4) order_refl] assms(1,3) by simp

lemma nothing_left:
  assumes "br_rest b = []" and "dom_shape st True d" and t: "t = (if c then V_array else V_object)" and "close \<noteq> - 1"
    and eof: "\<And>d b m. br_current b = - 1 \<Longrightarrow> left b \<le> m \<Longrightarrow> fine (\<lambda>_. False) m (item d b)"
  shows "fine (dom_shape st False) n (and_then (send (dom_start t d) (br_get b)) (\<lambda>s2 b2.
    and_then (ubjson_until (left b2 + 2) close item s2 b2) (\<lambda>s3 b3. send (dom_end s3) b3)))"
proof -
  obtain d' where d': "dom_start t d = Inr (True, d')" using dom_start_shape [OF assms(2) t] by blast
  have l: "br_current (br_get b) = - 1" "left (br_get b) \<le> n" using assms(1) by (simp_all add: left_get)
  have "fine (\<lambda>_. False) n (ubjson_until (left (br_get b) + 2) close item d' (br_get b))"
    by (rule until_at_end [OF l assms(4)]) (rule eof [OF l])
  then show ?thesis using fine_and_then [OF _ order_refl] by (simp add: d' del: ubjson_until.simps)
qed

lemma size_type_at_end: "br_rest b = [] \<Longrightarrow> get_ubjson_size_type sax d b = Inr (Some (npos, 0), d, br_get b)"
  by (simp add: get_ubjson_size_type_def)

lemma parse_ubjson_fine:
  assumes "\<And>pfx b. left b \<le> m \<Longrightarrow> fine P m (rd pfx d b)" and "left b \<le> m"
  shows "fine P m (parse_ubjson_internal rd get_char d b)"
  using assms left_ignore [of b] by (simp add: parse_ubjson_internal_def Let_def)

lemma with_size_fine:
  assumes "\<And>size ty b1. left b1 \<le> left b - 1 \<Longrightarrow> fine P (left b - 1) (k (size, ty) d b1)"
  shows "fine P (left b - 1) (with_value (get_ubjson_size_type (dom_sized_sax z a) d b) k)"
proof (rule fine_with_value [OF size_type_fine order_refl])
  fix x d' and b1 :: binary_reader
  assume "d = d'" "left b1 \<le> left b - 1"
  then show "fine P (left b - 1) (k x d' b1)" using assms [of b1] by (cases x) simp
qed

lemma get_ubjson_array_fine:
  assumes d: "dom_shape st True d" and b: "left b \<le> n"
    and part: "\<And>pfx d b m. dom_shape (True # st) True d \<Longrightarrow> left b \<le> m \<Longrightarrow> m < n \<Longrightarrow>
      fine (dom_shape (True # st) False) m (rd pfx d b)"
    and eof: "\<And>d b m. br_current b = - 1 \<Longrightarrow> left b \<le> m \<Longrightarrow> fine (\<lambda>_. False) m (rd (- 1) d b)"
  shows "fine (dom_shape st False) n (get_ubjson_array (dom_sized_sax z a) rd d b)"
proof (cases "br_rest b = []")
  case True
  have "fine (\<lambda>_. False) m (parse_ubjson_internal rd False d b)" if "br_current b = - 1" "left b \<le> m" for d m and b :: binary_reader
    using that by (simp add: parse_ubjson_internal_def eof)
  then show ?thesis using nothing_left [OF True d, of V_array True "0x5D" "parse_ubjson_internal rd False"]
    by (simp add: get_ubjson_array_def size_type_at_end [OF True] del: ubjson_until.simps)
next
  case False
  let ?sax = "dom_sized_sax z a" and ?N = "left b - 1"
  have N: "?N < n" "?N \<le> n" using False b by (cases "br_rest b"; simp)+
  have item: "fine (dom_shape (True # st) False) m (rd pfx d b)" if "dom_shape (True # st) True d" "left b \<le> m" "m \<le> ?N" for pfx d m and b :: binary_reader
    using part [OF that(1,2)] that(3) N(1) by simp
  have sized: "fine (dom_shape st False) ?N (read_array ?sax size (rd ty) d b1)"
    "fine (dom_shape st False) ?N (read_array ?sax size (parse_ubjson_internal rd True) d b1)"
    "fine (dom_shape st False) ?N
       (and_then (send (dom_start_of V_array (array_max_size z) ''array'' size d) b1) (\<lambda>s2 b2. send (dom_end s2) b2))"
    if b1: "left b1 \<le> ?N" for size ty b1
  proof -
    show "fine (dom_shape st False) ?N (read_array ?sax size (rd ty) d b1)"
      by (rule read_array_fine [OF d b1]) (auto intro: item)
    show "fine (dom_shape st False) ?N (read_array ?sax size (parse_ubjson_internal rd True) d b1)"
      by (rule read_array_fine [OF d b1]) (auto intro!: parse_ubjson_fine item)
    show "fine (dom_shape st False) ?N
        (and_then (send (dom_start_of V_array (array_max_size z) ''array'' size d) b1) (\<lambda>s2 b2. send (dom_end s2) b2))"
      by (rule fine_and_then [OF dom_start_of_fine [OF d b1, where c = True] order_refl]) (auto intro: dom_end_fine)
  qed
  have opened: "fine (dom_shape st False) ?N (and_then (send (dom_start V_array d) b1) (\<lambda>s2 b2.
      and_then (ubjson_until (left b2 + 2) 0x5D (parse_ubjson_internal rd False) s2 b2) (\<lambda>s3 b3. send (dom_end s3) b3)))"
    if b1: "left b1 \<le> ?N" for b1
  proof (rule open_container [OF d b1, where c = True])
    fix d m and b' :: binary_reader
    assume i: "dom_shape (True # st) True d" "left b' \<le> m" "m \<le> ?N"
    have "fine (dom_shape (True # st) False) m (parse_ubjson_internal rd False d b')"
      by (rule parse_ubjson_fine) (use i item in auto)
    then show "fine (dom_shape (True # st) True) m (parse_ubjson_internal rd False d b')"
      by (rule fine_mono) (auto intro: dom_next_shape)
  qed (auto simp: parse_ubjson_internal_def eof)
  have "fine (dom_shape st False) ?N (get_ubjson_array ?sax rd d b)"
    unfolding get_ubjson_array_def
    by (rule with_size_fine) (use sized opened in \<open>simp del: ubjson_until.simps\<close>)
  then show ?thesis by (rule fine_mono) (use N in auto)
qed

lemma get_ubjson_object_fine:
  assumes d: "dom_shape st True d" and b: "left b \<le> n"
    and part: "\<And>pfx d b m. dom_shape (False # st) True d \<Longrightarrow> left b \<le> m \<Longrightarrow> m < n \<Longrightarrow>
      fine (dom_shape (False # st) False) m (rd pfx d b)"
  shows "fine (dom_shape st False) n (get_ubjson_object (dom_sized_sax z a) rd d b)"
proof -
  let ?sax = "dom_sized_sax z a"
  let ?member = "read_member ?sax (get_ubjson_string ?sax False) (parse_ubjson_internal rd True)"
  have no_key: "fine P m (?member d b)" if "br_current b = - 1" "left b \<le> m" for P d m and b :: binary_reader
    unfolding read_member_def
    by (rule fine_with_value [OF get_ubjson_string_eof [OF that, where P = "\<lambda>_. False"] order_refl]) simp
  show ?thesis
  proof (cases "br_rest b = []")
    case True
    then show ?thesis using nothing_left [OF True d, of V_object False "0x7D" ?member] no_key
      by (simp add: get_ubjson_object_def size_type_at_end [OF True] del: ubjson_until.simps)
  next
    case False
    let ?N = "left b - 1"
    have N: "?N < n" "?N \<le> n" using False b by (cases "br_rest b"; simp)+
    have item: "fine (dom_shape (False # st) False) m (rd pfx d b)" if "dom_shape (False # st) True d" "left b \<le> m" "m \<le> ?N" for pfx d m and b :: binary_reader
      using part [OF that(1,2)] that(3) N(1) by simp
    have sized: "fine (dom_shape st False) ?N (read_object ?sax size (get_ubjson_string ?sax False) (rd ty) d b1)"
      "fine (dom_shape st False) ?N (read_object ?sax size (get_ubjson_string ?sax False) (parse_ubjson_internal rd True) d b1)"
      if b1: "left b1 \<le> ?N" for size ty b1
      by (rule read_object_fine [OF d b1]; auto intro!: get_ubjson_string_fine parse_ubjson_fine item simp: left_get)+
    have opened: "fine (dom_shape st False) ?N (and_then (send (dom_start V_object d) b1) (\<lambda>s2 b2.
        and_then (ubjson_until (left b2 + 2) 0x7D ?member s2 b2) (\<lambda>s3 b3. send (dom_end s3) b3)))"
      if b1: "left b1 \<le> ?N" for b1
    proof (rule open_container [OF d b1, where c = False])
      fix d m and b' :: binary_reader
      assume i: "dom_shape (False # st) False d" "left b' \<le> m" "m \<le> ?N"
      show "fine (dom_shape (False # st) False) m (?member d b')"
        by (rule read_member_fine [OF i(1,2)]) (use i(2,3) in \<open>auto intro!: get_ubjson_string_fine parse_ubjson_fine item\<close>)
    qed (auto intro: no_key)
    have "fine (dom_shape st False) ?N (get_ubjson_object ?sax rd d b)"
      unfolding get_ubjson_object_def
      by (rule with_size_fine) (use sized opened in \<open>simp del: ubjson_until.simps\<close>)
    then show ?thesis by (rule fine_mono) (use N in auto)
  qed
qed

section \<open>Values\<close>

lemma get_ubjson_value_eof:
  "br_current b = - 1 \<Longrightarrow> 0 < f \<Longrightarrow> left b \<le> n \<Longrightarrow> fine P n (get_ubjson_value f (dom_sized_sax z a) (- 1) d b)"
  using unexpect_eof_cases [of z a Format_ubjson "''value''" d b] by (cases f) auto

lemma ubjson_number_fine:
  assumes d: "dom_shape st True d" and b: "left b \<le> n"
  shows "fine (dom_shape st False) n (with_value (ubjson_int (dom_sized_sax z a) t d b) (\<lambda>n s1 b1. send (dom_value (v n) s1) b1))"
  by (rule fine_with_value [OF ubjson_int_fine [OF b] order_refl]) (use d in \<open>simp add: dom_value_fine\<close>)

lemma ubjson_char_fine:
  assumes d: "dom_shape st True d" and b: "left b \<le> n"
  shows "fine (dom_shape st False) n (ubjson_char (dom_sized_sax z a) d b)"
  unfolding ubjson_char_def Let_def
  by (rule fine_and_then [OF unexpect_eof_fine [where P = "dom_shape st True" and n = n] order_refl])
     (use d b in \<open>auto simp: left_get br_error_fine dom_value_fine\<close>)

lemma get_ubjson_value_fine:
  "dom_shape st True d \<Longrightarrow> left b \<le> n \<Longrightarrow> n + 2 \<le> f \<Longrightarrow>
     fine (dom_shape st False) n (get_ubjson_value f (dom_sized_sax z a) pfx d b)"
proof (induction f arbitrary: st d b n pfx)
  case (Suc f)
  let ?sax = "dom_sized_sax z a" and ?fine = "fine (dom_shape st False) n"
  note d = Suc.prems(1) and b = Suc.prems(2)
  have part: "fine (dom_shape (c # st) False) m (get_ubjson_value f ?sax pfx d b)"
    if "dom_shape (c # st) True d" "left b \<le> m" "m < n" for c pfx d m and b :: binary_reader
    using Suc.IH [OF that(1,2)] that(3) Suc.prems(3) by simp
  have arr: "?fine (get_ubjson_array ?sax (get_ubjson_value f ?sax) d b)"
    by (rule get_ubjson_array_fine [OF d b part]; (assumption)?) (rule get_ubjson_value_eof; use Suc.prems(3) in simp)
  have obj: "?fine (get_ubjson_object ?sax (get_ubjson_value f ?sax) d b)"
    by (rule get_ubjson_object_fine [OF d b part])
  have str: "?fine (with_value (get_ubjson_string ?sax True d b) (\<lambda>t s1. send (dom_value (JString t) s1)))"
  proof (rule fine_with_value [where P = "(=) d" and m = n])
    have "fine_value ((=) d) n (get_ubjson_string ?sax False d (br_get b))" by (rule get_ubjson_string_fine) (use b in \<open>simp add: left_get\<close>)
    then show "fine_value ((=) d) n (get_ubjson_string ?sax True d b)" by (simp add: get_ubjson_string_def)
  qed (use d in \<open>simp_all add: dom_value_fine\<close>)
  have eof: "?fine (unexpect_eof ?sax Format_ubjson ''value'' d b)"
    by (rule unexpect_eof_fine) (use d b in \<open>auto simp: dom_shape_def\<close>)
  show ?case
    by (simp add: arr obj str eof dom_value_fine [OF d b] ubjson_number_fine [OF d b] number_fine [OF d b]
        ubjson_char_fine [OF d b] br_error_fine [OF _ b])
qed simp

lemma from_ubjson_defined:
  "(\<exists>j. from_ubjson z strict a input = Inr j) \<or> (\<exists>ex. from_ubjson z strict a input = Inl (Throw ex))"
  unfolding from_ubjson_def
proof (rule from_binary_defined, rule parse_ubjson_fine)
  show "fine (dom_shape [] False) (length input) (get_ubjson_value (length input + 2) (dom_sized_sax z a) pfx dom_init b)"
    if "left b \<le> length input" for pfx b
    by (rule get_ubjson_value_fine [OF dom_init_shape that]) simp
qed (simp add: binary_reader_init_def)

end
