(* ===== verification/Spec2Isabelle.thy ===== *)
theory Spec2Isabelle
  imports Cluster EventLoop Transactions Startup Json_Callback Json_Roundtrip Json_Diff
    Json_Modify Json_Order_Code Json_Bson_Codec Json_Bson_Safe Json_Ubjson_Codec Json_Ubjson_Safe
begin

text \<open>
  A verification development for the C++ server of the sharded database: every cluster of
  three servers replicates one shard of bank items with Raft, transactions inside a shard
  are Raft entries, and transactions across shards are two-phase commits whose
  participants are the leaders of two clusters.

  Program and theories.  main reads the configuration and forks one process per server.  A server
  is one thread around one io_uring: \<open>AIOServer::run\<close> takes a completion, runs the handler of its
  kind and submits new requests.  Each message handler (an executor) changes the shared \<open>RaftState\<close>
  and answers through \<open>AsyncIO\<close>.  The configuration and the data shards are JSON, read by the
  vendored library include/nlohmann/json.hpp, whose parser and serializer are modelled too.
    Prelude       checked 32-bit arithmetic (signed overflow is the value SignedOverflow, never
                  wrapped), checked indexing of vectors, the result type and its bind, the
                  lemmas on lists and maps that the components share.
    Cstdio        the printf and sscanf formats of the log commands (intraShardExecutor.cpp,
                  crossShardExecutor.cpp, appendEntriesExecutor.cpp).
    Cstdlib       the C functions the JSON library calls: double precision numbers as 64-bit words,
                  strtoull, strtoll and strtod with correct rounding.
    RaftState     include/raftState.hpp, src/raftState.cpp: the record RaftState with the
                  fields of the class; the unordered_map tables are total maps with an
                  explicit touch for the default insertion of operator[] ; transfer, debit and
                  credit are the updates of local_balance_tb_ that the handlers make.
    Messages      the protobuf messages (src/proto).
    AsyncIO       include/asyncIO.hpp, src/asyncIO.cpp: the submissions to the ring are
                  recorded in the World in their order.
    Wire          what the code relies on in the protobuf runtime (a parsed buffer is the
                  serialised message), as the locale reader, with a concrete codec that
                  satisfies it.
    DataShard     src/util.cpp: the loader and the update of data shards, whose lines are parsed
                  with the model of the JSON library.
    RequestVote, IntraShard, AppendEntries, CrossShard, PrintState
                  one executor each (src/server/src/excutor), both directions where there
                  are two.
    AIOServer     src/aIOServer.cpp: constructor, broadcasts, the dispatch of a message, the
                  handler of each kind of completion, the loop over completions.
    Startup       main.cpp: configuration, arguments, one child per server, the command loop
                  and the exit messages.
    Election      an abstract ballot box, the contract of the vote executor.
    Cluster       a step relation of servers and vote messages in flight, simulated by the
                  ballot box: election safety.
    Replication   a leader and a follower: replication by heart beats, agreement of what
                  they commit, backing up to a matching entry, late and repeated messages.
    Transactions  locks, prepared and committed transactions, the balances they leave.
    EventLoop     invariants over a whole run of the loop, from the constructor on.

  The JSON library, by the classes of json.hpp.
    Json_Value    basic_json (objects are association lists sorted by key), the exceptions with
                  their texts, operator[], at, size, the conversions to string and int, operator==.
    Json_Order, Json_Order_Code
                  operator< and the comparisons derived from it; it is the order of a code of the values.
    Json_Modify   push_back, emplace, update, erase, clear, count and contains, as far as they need no
                  iterators.
    Json_Lexer    lexer: the characters with one of look-ahead, strings with all escapes and the
                  byte ranges of UTF-8, the automaton of numbers, literals, positions; the flag asserts_hold
                  says that none of its assertions has failed.
    Json_Asserts  that none of them ever fails, for every state of the lexer; for numbers this needs
                  what the states of the automaton have read, and what strtoull, strtoll and strtod consume.
    Json_Parser   parser: the loop of sax_parse_internal over its stack of container kinds, with
                  the handler of events as the record sax, and the error messages.
    Json_Sax      json_sax_dom_parser and json_sax_acceptor; ref_stack, a stack of pointers into the
                  value, is a stack of paths.
    Json_Callback json_sax_dom_callback_parser, and that it agrees with the plain handler if
                  the callback keeps everything.
    Json_Float    the Grisu2 algorithm and to_chars.
    Json_Dump     serializer: escaping over the table of a UTF-8 decoder, integers, layouts.
    Json_Utf8     UTF-8 as a reference, and that every token carries a valid string.
    Json_Simulation, Json_Accept
                  two handlers run in lock step; accept agrees with parse; parsed values are
                  well formed.
    Json_Grammar, Json_Compact, Json_Complete
                  the grammar of JSON as an inductive reference with the value of each text,
                  concrete texts, and that the parser reads every text of the grammar.
    Json_Escape, Json_Roundtrip
                  the text that dump writes belongs to the grammar and is read back.
    Json_Pointer  json_pointer: tokens, the walks through a value, flatten and unflatten; a reference
                  is the path of the part it refers to.
    Json_Patch    patch with its six operations, diff and merge_patch.
    Json_Diff     a difference, applied as a patch, leads to the target.
    Json_Binary   what the binary formats share: the bytes of numbers, binary_reader with its last byte
                  and its messages, the loops over containers, the handler that is told their size.
    Json_Codec    what it means that a written value is read back, as the locale binary_format.
    Json_Cbor, Json_Msgpack
                  two formats: write_cbor and write_msgpack, the readers, to and from bytes.
    Json_Bson, Json_Bson_Codec
                  BSON: the sizes of documents, write_bson, the lists of elements; its round trip.
    Json_Ubjson, Json_Ubjson_Codec
                  UBJSON: write_ubjson with the optional counts and types of containers, the readers of
                  sizes and types, values under a given prefix; its round trip in every layout.
    Json_Binary_Safe, Json_Bson_Safe, Json_Ubjson_Safe
                  reading any input ends with a value or with an exception.

  Conventions.  A handler is a function of the environment (env: the results of system
  calls and the functions of libraries outside src), the world of submitted requests and
  the state; it returns Inr of the new world and state, or Inl of an abort: SignedOverflow,
  OutOfBounds for an index outside a vector (undefined in C++), Unconverted for an int that sscanf
  left without a value, and FatalError for fatal_error, which ends the process.  In the JSON library an error is an exception (Throw), an
  assert that does not hold (Assertion) or an access that is not defined (Undefined).  The lexer
  records a failed assertion in a flag of its state, which the parser turns into Assertion before
  it calls a handler and before it returns.  Every guard and every early return is a branch.
  Output by printf is left out.

  What the lemmas show.  Each component theory has what its operations do on every branch,
  what they keep (the connection table, the log positions, the term and the vote) and
  which errors they can raise.  Interfaces are locales, all interpreted on the definitions of
  the code: reader (the codec), command_codec (the texts of log commands), binary_format (the contract of
  a binary format, interpreted by CBOR and MessagePack), election (the ballot box, interpreted by the vote
  executor), loop_invariant (what every handler of a completion keeps holds over a run;
  interpreted for the leader's tables, the votes, the log positions and the frozen server), and
  sax_simulation, the lock-step run of two event handlers (interpreted by the acceptor and the document
  handler, and by the callback handler).  For the library: the loops terminate (every turn consumes a
  character or a token), every text of the grammar is parsed to its value, accept and parse agree
  on every input, what is parsed is well formed, a dumped value is read back, a pointer is written and
  read back, patch and diff fit together, a value is read back from CBOR, MessagePack, BSON and UBJSON, a
  BSON document is the one its format prescribes, with the length of every part, the order of values is linear, and reading these formats is defined for every input.

  Bounds.  Integers of type int are checked at every operation.  The fuel of
  back_up in Replication is the number of heart beats a leader exchanges with a follower until
  their logs match: it is one more than the number of entries the leader believes to be
  replicated, and the theorem back_up_terminates proves it enough.  run_loop is recursive on
  the list of completions that the ring delivers.  The loop of Grisu2 over the digits of the fraction
  has fuel 61: the remainder is below 2 ^ 60 and gains a factor of two in every turn, so it is 0
  after 60 turns at the latest, see grisu2_digit_gen_defined.  The readers of binary formats have
  a bound on the depth of a value, two more than the length of the input (the length for BSON): every
  level takes a byte.  Their loops without a count have a bound on the turns, taken from what is left
  of the input where they start.  binary_reading_defined, below, shows that these bounds are enough.

  Not modelled.  io_uring, sockets, fork, the file system and the protobuf runtime are parameters
  (they are not under src).  Of the JSON library:
  iterators and the members that take or return them, the construction from initializer lists, wide strings and streams, and the output of floating-point types other than double,
  none of which the server uses.  The round trip of dump and parse is stated for values without
  floating-point numbers, since the correctness of Grisu2 is not proved, and for indentations of at most 1024 places, since a
  wider one is read beyond the indentation string (wide_indent_undefined).  The largest sizes of containers belong to the
  standard library and are the parameter max_sizes; the memory for strings is not bounded, so the exceptions
  of std::string for one that is too long (in get_string of the binary reader, for example) are left
  out.  What inet_pton and htons make of an address and a port belongs to the network: a connect records the
  text and the number that the code gives them.  The Python routing
  service and client, the coordinator of the two-phase commit, are outside the C++ code.
\<close>

text \<open>
  C30. Reading CBOR, MessagePack, BSON and UBJSON is defined for every input, also for a malformed or
  truncated one, with and without exceptions: it ends with a value, with the discarded value or with an
  exception of the library, and never at an assertion, with an access that is not defined, or at the
  bounds of the recursion and of the loops, so that reading always terminates.
\<close>

theorem binary_reading_defined:
  "((\<exists>j. from_cbor z strict a input = Inr j) \<or> (\<exists>ex. from_cbor z strict a input = Inl (Throw ex))) \<and>
   ((\<exists>j. from_msgpack z strict a input = Inr j) \<or> (\<exists>ex. from_msgpack z strict a input = Inl (Throw ex))) \<and>
   ((\<exists>j. from_bson z strict a input = Inr j) \<or> (\<exists>ex. from_bson z strict a input = Inl (Throw ex))) \<and>
   ((\<exists>j. from_ubjson z strict a input = Inr j) \<or> (\<exists>ex. from_ubjson z strict a input = Inl (Throw ex)))"
  using from_cbor_defined from_msgpack_defined from_bson_defined from_ubjson_defined by blast

end
